(* ===== verification/Prelude.thy ===== *)
theory Prelude
  imports Main "HOL-Library.Word" "HOL-Library.Monad_Syntax"
begin

text \<open>
  The vocabulary the components share: the C integer types at their widths
  (\<^verbatim>\<open>include/types.h\<close>), the error codes (\<^verbatim>\<open>include/error.h\<close>), the constants and
  address macros of \<^verbatim>\<open>include/mmu.h\<close>, and the word, map and option lemmas the
  component proofs rest on. A kernel function that can \<^verbatim>\<open>panic\<close> (or fault on a
  null pointer, which this kernel turns into a panic) returns an \<open>option\<close>, with
  \<open>None\<close> for the halted machine; a C error return is the left side of a sum.
\<close>

unbundle bit_operations_syntax

type_synonym u8 = "8 word"
type_synonym u16 = "16 word"
type_synonym u32 = "32 word"

named_theorems mmu_defs "constants of include/mmu.h, unfolded to numerals"

section \<open>Error codes\<close>

datatype kerr =
    E_UNSPECIFIED | E_BAD_ENV | E_INVAL | E_NO_MEM | E_NO_SYS | E_NO_FREE_ENV | E_IPC_NOT_RECV
  | E_NO_DISK | E_MAX_OPEN | E_NOT_FOUND | E_BAD_PATH | E_FILE_EXISTS | E_NOT_EXEC

fun errno :: "kerr \<Rightarrow> int" where
  "errno E_UNSPECIFIED = 1"
| "errno E_BAD_ENV = 2"
| "errno E_INVAL = 3"
| "errno E_NO_MEM = 4"
| "errno E_NO_SYS = 5"
| "errno E_NO_FREE_ENV = 6"
| "errno E_IPC_NOT_RECV = 7"
| "errno E_NO_DISK = 8"
| "errno E_MAX_OPEN = 9"
| "errno E_NOT_FOUND = 10"
| "errno E_BAD_PATH = 11"
| "errno E_FILE_EXISTS = 12"
| "errno E_NOT_EXEC = 13"

text \<open>The open modes of \<^verbatim>\<open>user/include/lib.h\<close>.\<close>

definition O_RDONLY :: u32 where "O_RDONLY = 0"
definition O_WRONLY :: u32 where "O_WRONLY = 1"
definition O_RDWR :: u32 where "O_RDWR = 2"

lemma errno_pos: "0 < errno e"
  by (cases e) simp_all

lemma errno_inj: "errno a = errno b \<Longrightarrow> a = b"
  by (cases a; cases b) simp_all

text \<open>The C return value of a call whose result is a sum: 0 or the negated code.\<close>

fun ret_int :: "kerr + unit \<Rightarrow> int" where
  "ret_int (Inl e) = - errno e"
| "ret_int (Inr _) = 0"

section \<open>Constants and address macros of include/mmu.h\<close>

definition BY2PG :: u32 where "BY2PG = 4096"
definition PDMAP :: u32 where "PDMAP = 4 * 1024 * 1024"

definition PTE_G :: u32 where "PTE_G = 0x0100"
definition PTE_V :: u32 where "PTE_V = 0x0200"
definition PTE_D :: u32 where "PTE_D = 0x0400"
definition PTE_N :: u32 where "PTE_N = 0x0800"
definition PTE_COW :: u32 where "PTE_COW = 0x0001"
definition PTE_LIBRARY :: u32 where "PTE_LIBRARY = 0x0004"

definition KSEG0 :: u32 where "KSEG0 = 0x80000000"
definition KSEG1 :: u32 where "KSEG1 = 0xA0000000"
definition ULIM :: u32 where "ULIM = 0x80000000"
definition KSTACKTOP :: u32 where "KSTACKTOP = ULIM + PDMAP"
definition UVPT :: u32 where "UVPT = ULIM - PDMAP"
definition UPAGES :: u32 where "UPAGES = UVPT - PDMAP"
definition UENVS :: u32 where "UENVS = UPAGES - PDMAP"
definition UTOP :: u32 where "UTOP = UENVS"
definition UXSTACKTOP :: u32 where "UXSTACKTOP = UTOP"
definition USTACKTOP :: u32 where "USTACKTOP = UTOP - 2 * BY2PG"
definition UTEXT :: u32 where "UTEXT = PDMAP"
definition UCOW :: u32 where "UCOW = UTEXT - BY2PG"
definition UTEMP :: u32 where "UTEMP = UCOW - BY2PG"

lemmas [mmu_defs] = BY2PG_def PDMAP_def PTE_G_def PTE_V_def PTE_D_def PTE_N_def PTE_COW_def
  PTE_LIBRARY_def KSEG0_def KSEG1_def ULIM_def KSTACKTOP_def UVPT_def UPAGES_def UENVS_def
  UTOP_def UXSTACKTOP_def USTACKTOP_def UTEXT_def UCOW_def UTEMP_def

definition PDX :: "u32 \<Rightarrow> nat" where
  "PDX va = unat (drop_bit 22 va AND 0x03FF)"

definition PTX :: "u32 \<Rightarrow> nat" where
  "PTX va = unat (drop_bit 12 va AND 0x03FF)"

definition VPO :: "u32 \<Rightarrow> nat" where
  "VPO va = unat (va AND 0xFFF)"

definition PTE_ADDR :: "u32 \<Rightarrow> u32" where
  "PTE_ADDR pte = pte AND NOT 0xFFF"

definition PTE_PERM :: "u32 \<Rightarrow> u32" where
  "PTE_PERM pte = pte AND 0xFFF"

definition PPN :: "u32 \<Rightarrow> nat" where
  "PPN pa = unat (drop_bit 12 pa)"

definition VPN :: "u32 \<Rightarrow> nat" where
  "VPN va = unat (drop_bit 12 va)"

definition PTE_SET :: "u32 \<Rightarrow> u32 \<Rightarrow> u32" where
  "PTE_SET va perm = va OR perm"

definition PTE_CLR :: "u32 \<Rightarrow> u32 \<Rightarrow> u32" where
  "PTE_CLR va perm = va AND NOT perm"

text \<open>\<^verbatim>\<open>ROUND\<close> and \<^verbatim>\<open>ROUNDDOWN\<close> of include/types.h.\<close>

definition ROUND :: "u32 \<Rightarrow> u32 \<Rightarrow> u32" where
  "ROUND a n = (a + n - 1) AND NOT (n - 1)"

definition ROUNDDOWN :: "u32 \<Rightarrow> u32 \<Rightarrow> u32" where
  "ROUNDDOWN a n = a AND NOT (n - 1)"

text \<open>The test \<^verbatim>\<open>entry & PTE_V\<close> of a page directory or page table entry.\<close>

definition pte_valid :: "u32 \<Rightarrow> bool" where
  "pte_valid e \<longleftrightarrow> e AND PTE_V \<noteq> 0"

text \<open>The entry \<^verbatim>\<open>page2pa(pp) | perm | PTE_V\<close> that the code stores.\<close>

definition page2pa :: "nat \<Rightarrow> u32" where
  "page2pa pp = push_bit 12 (word_of_nat pp)"

definition mk_pte :: "nat \<Rightarrow> u32 \<Rightarrow> u32" where
  "mk_pte pp perm = page2pa pp OR perm OR PTE_V"

subsection \<open>Bounds and round trips of the macros\<close>

lemma mask10_eq: "(0x3FF :: u32) = mask 10"
  by (simp add: mask_eq_exp_minus_1)

lemma mask12_eq: "(0xFFF :: u32) = mask 12"
  by (simp add: mask_eq_exp_minus_1)

lemma unat_take_bit: "unat (take_bit n w) = unat w mod 2 ^ n" for w :: "'a::len word"
  by (metis unsigned_take_bit_eq take_bit_eq_mod)

lemma unat_drop_bit: "unat (drop_bit n w) = unat w div 2 ^ n" for w :: "'a::len word"
  by (metis unsigned_drop_bit_eq drop_bit_eq_div take_bit_word_eq_self order_refl
      unsigned_take_bit_eq)

lemma unat_u32_less: "unat (w :: u32) < 2 ^ 32"
proof -
  have "unat w < 2 ^ LENGTH(32)" by (rule unsigned_less)
  then show ?thesis by simp
qed

lemma and_mask10_less: "unat (w AND 0x3FF) < 1024" for w :: u32
proof -
  have "unat (w AND 0x3FF) = unat w mod 2 ^ 10"
    by (simp only: mask10_eq take_bit_eq_mask [symmetric] unat_take_bit)
  then show ?thesis by simp
qed

lemma PDX_less [simp]: "PDX va < 1024"
  by (simp add: PDX_def and_mask10_less)

lemma PTX_less [simp]: "PTX va < 1024"
  by (simp add: PTX_def and_mask10_less)

lemma PPN_less: "PPN pa < 2 ^ 20"
  using unat_u32_less [of pa] by (simp only: PPN_def unat_drop_bit) simp

lemma bit_512: "bit (512 :: u32) n \<longleftrightarrow> n = 9"
proof -
  have "(512 :: u32) = push_bit 9 1" by simp
  then show ?thesis by (simp only: bit_simps) auto
qed

lemma and_bit_eq_0_iff:
  fixes e m :: u32
  assumes "\<And>n. bit m n \<longleftrightarrow> n = k"
  shows "e AND m = 0 \<longleftrightarrow> \<not> bit e k"
proof -
  have *: "bit (e AND m) n \<longleftrightarrow> bit e n \<and> n = k" for n
    by (simp only: bit_and_iff assms)
  show ?thesis
  proof
    assume "e AND m = 0"
    then show "\<not> bit e k" using * [of k] by simp
  next
    assume "\<not> bit e k"
    then have "\<not> bit (e AND m) n" for n using * [of n] by auto
    then show "e AND m = 0" by (intro bit_eqI) simp
  qed
qed

lemma pte_valid_iff_bit: "pte_valid e \<longleftrightarrow> bit e 9"
  by (simp only: pte_valid_def PTE_V_def and_bit_eq_0_iff [OF bit_512] not_not)

lemma pte_valid_mk_pte [simp]: "pte_valid (mk_pte pp perm)"
  by (simp add: pte_valid_iff_bit mk_pte_def PTE_V_def bit_simps bit_512)

lemma pte_valid_0 [simp]: "\<not> pte_valid 0"
  by (simp add: pte_valid_def)

lemma word_less_exp_bit: "w < 2 ^ k \<Longrightarrow> bit w n \<Longrightarrow> k < 32 \<Longrightarrow> n < k" for w :: u32
proof -
  assume w: "w < 2 ^ k" "bit w n" "k < 32"
  then have "take_bit k w = w"
    using less_mask_eq [of w k] by (simp add: take_bit_eq_mask)
  with w(2) show ?thesis by (metis bit_take_bit_iff)
qed

lemma drop_12_mk_pte:
  assumes "perm < 4096"
  shows "drop_bit 12 (mk_pte pp perm) = take_bit 20 (word_of_nat pp)"
proof -
  have "\<not> bit perm (12 + n)" for n
    using word_less_exp_bit [of perm 12 "12 + n"] assms by auto
  then show ?thesis
    by (auto intro!: bit_word_eqI simp: mk_pte_def page2pa_def PTE_V_def bit_simps bit_512)
qed

lemma PPN_mk_pte:
  assumes "pp < 2 ^ 20" and "perm < 4096"
  shows "PPN (mk_pte pp perm) = pp"
proof -
  have "PPN (mk_pte pp perm) = pp mod 2 ^ 32 mod 2 ^ 20"
    by (simp only: PPN_def drop_12_mk_pte [OF assms(2)] unat_take_bit unat_of_nat) simp
  then show ?thesis using assms(1) by simp
qed

lemma bit_4095: "bit (0xFFF :: u32) n \<longleftrightarrow> n < 12"
  by (simp only: mask12_eq bit_mask_iff) auto

lemma bit_PTE_ADDR: "bit (PTE_ADDR e) n \<longleftrightarrow> bit e n \<and> 12 \<le> n"
  by (simp only: PTE_ADDR_def bit_simps bit_4095) (auto dest: bit_imp_le_length)

lemma PPN_PTE_ADDR [simp]: "PPN (PTE_ADDR e) = PPN e"
proof -
  have "drop_bit 12 (PTE_ADDR e) = drop_bit 12 e"
    by (rule bit_word_eqI) (simp add: bit_simps bit_PTE_ADDR)
  then show ?thesis by (simp add: PPN_def)
qed

lemma pde_value: "page2pa pp OR (PTE_D OR PTE_V) = mk_pte pp PTE_D"
  by (simp add: mk_pte_def or.assoc)

lemma PPN_page2pa: "pp < 2 ^ 20 \<Longrightarrow> PPN (page2pa pp) = pp"
proof -
  assume "pp < 2 ^ 20"
  have "drop_bit 12 (page2pa pp) = take_bit 20 (word_of_nat pp)"
    by (auto intro!: bit_word_eqI simp: page2pa_def bit_simps)
  then have "PPN (page2pa pp) = pp mod 2 ^ 32 mod 2 ^ 20"
    by (simp only: PPN_def unat_take_bit unat_of_nat) simp
  then show ?thesis using \<open>pp < 2 ^ 20\<close> by simp
qed

lemma inj_on_map_upd:
  assumes "inj_on f (dom f)" and "f k = None" and "v \<notin> ran f"
  shows "inj_on (f(k \<mapsto> v)) (dom (f(k \<mapsto> v)))"
proof (rule inj_onI)
  fix x y
  assume xy: "x \<in> dom (f(k \<mapsto> v))" "y \<in> dom (f(k \<mapsto> v))" "(f(k \<mapsto> v)) x = (f(k \<mapsto> v)) y"
  have nv: "f z \<noteq> Some v" for z using assms(3) by (auto simp: ran_def)
  show "x = y"
  proof (cases "x = k \<or> y = k")
    case True
    then show ?thesis using xy(3) nv [of x] nv [of y] by (auto split: if_splits)
  next
    case False
    then show ?thesis using xy inj_onD [OF assms(1), of x y] by auto
  qed
qed

section \<open>Counting the keys of a map with a given image\<close>

definition nrefs :: "('v \<Rightarrow> 'p) \<Rightarrow> ('k \<rightharpoonup> 'v) \<Rightarrow> 'p \<Rightarrow> nat" where
  "nrefs g f p = card {k. \<exists>e. f k = Some e \<and> g e = p}"

lemma finite_nrefs: "finite (dom f) \<Longrightarrow> finite {k. \<exists>e. f k = Some e \<and> g e = p}"
  by (rule finite_subset [of _ "dom f"]) auto

lemma nrefs_empty [simp]: "nrefs g Map.empty p = 0"
  by (simp add: nrefs_def)

lemma nrefs_pos: "finite (dom f) \<Longrightarrow> f k = Some e \<Longrightarrow> 0 < nrefs g f (g e)"
  using finite_nrefs [of f g "g e"] by (auto simp: nrefs_def card_gt_0_iff)

lemma nrefs_zero: "finite (dom f) \<Longrightarrow> nrefs g f p = 0 \<Longrightarrow> f k = Some e \<Longrightarrow> g e \<noteq> p"
  using nrefs_pos [of f k e g] by auto

lemma nrefs_insert:
  assumes "finite (dom f)" and "f k = None"
  shows "nrefs g (f(k \<mapsto> e)) p = nrefs g f p + (if g e = p then 1 else 0)"
proof (cases "g e = p")
  case True
  then have "{k'. \<exists>e'. (f(k \<mapsto> e)) k' = Some e' \<and> g e' = p}
      = insert k {k'. \<exists>e'. f k' = Some e' \<and> g e' = p}"
    by auto
  moreover have "k \<notin> {k'. \<exists>e'. f k' = Some e' \<and> g e' = p}" using assms(2) by simp
  ultimately show ?thesis using True finite_nrefs [OF assms(1), of g p] by (simp add: nrefs_def)
next
  case False
  then have "{k'. \<exists>e'. (f(k \<mapsto> e)) k' = Some e' \<and> g e' = p}
      = {k'. \<exists>e'. f k' = Some e' \<and> g e' = p}"
    using assms(2) by auto
  then show ?thesis using False by (simp add: nrefs_def)
qed

lemma nrefs_delete:
  assumes "finite (dom f)" and "f k = Some e"
  shows "nrefs g (f(k := None)) p + (if g e = p then 1 else 0) = nrefs g f p"
proof -
  have "finite (dom (f(k := None)))" using assms(1) by simp
  from nrefs_insert [OF this, of k g e p] assms(2) show ?thesis
    by (simp add: fun_upd_idem)
qed

lemma nrefs_replace:
  assumes "finite (dom f)" and "f k = Some e0" and "g e0 = g e"
  shows "nrefs g (f(k \<mapsto> e)) p = nrefs g f p"
proof -
  have "nrefs g ((f(k := None))(k \<mapsto> e)) p = nrefs g (f(k := None)) p + (if g e = p then 1 else 0)"
    by (rule nrefs_insert) (use assms(1) in auto)
  then show ?thesis using nrefs_delete [OF assms(1,2), of g p] assms(3) by simp
qed

section \<open>Loops that may stop the machine\<close>

fun foldo :: "('a \<Rightarrow> 's \<Rightarrow> 's option) \<Rightarrow> 'a list \<Rightarrow> 's \<Rightarrow> 's option" where
  "foldo f [] s = Some s"
| "foldo f (x # xs) s = Option.bind (f x s) (foldo f xs)"

lemma foldo_append: "foldo f (xs @ ys) s = Option.bind (foldo f xs s) (foldo f ys)"
  by (induction xs arbitrary: s) (auto split: bind_splits)

lemma foldo_rule:
  assumes "P [] s"
    and "\<And>xs x s. set (xs @ [x]) \<subseteq> set ys \<Longrightarrow> P xs s \<Longrightarrow> \<exists>s'. f x s = Some s' \<and> P (xs @ [x]) s'"
  shows "\<exists>s'. foldo f ys s = Some s' \<and> P ys s'"
proof -
  have "\<exists>s'. foldo f zs s = Some s' \<and> P zs s'" if "set zs \<subseteq> set ys" for zs
    using that
  proof (induction zs rule: rev_induct)
    case Nil
    then show ?case using assms(1) by simp
  next
    case (snoc x xs)
    then obtain s1 where s1: "foldo f xs s = Some s1" "P xs s1" by auto
    from assms(2) [OF snoc.prems s1(2)] obtain s' where "f x s1 = Some s'" "P (xs @ [x]) s'"
      by auto
    then show ?case using s1 by (simp add: foldo_append)
  qed
  then show ?thesis by simp
qed

section \<open>Bytes of a little-endian word\<close>

definition get_byte :: "u32 \<Rightarrow> nat \<Rightarrow> u8" where
  "get_byte w k = ucast (drop_bit (8 * k) w)"

definition set_byte :: "u32 \<Rightarrow> nat \<Rightarrow> u8 \<Rightarrow> u32" where
  "set_byte w k b = (w AND NOT (push_bit (8 * k) 0xFF)) OR push_bit (8 * k) (ucast b)"

lemma bit_255: "bit (0xFF :: u32) n \<longleftrightarrow> n < 8"
proof -
  have "(0xFF :: u32) = mask 8" by (simp add: mask_eq_exp_minus_1)
  then show ?thesis by (simp only: bit_mask_iff) auto
qed

lemma bit_get_byte: "bit (get_byte w k) n \<longleftrightarrow> n < 8 \<and> bit w (8 * k + n)"
  by (auto simp: get_byte_def bit_simps)

lemma bit_set_byte:
  "bit (set_byte w k b) n \<longleftrightarrow> n < 32 \<and> (if 8 * k \<le> n \<and> n < 8 * k + 8 then bit b (n - 8 * k) else bit w n)"
proof -
  have "bit (set_byte w k b) n \<longleftrightarrow>
      (bit w n \<and> \<not> (8 * k \<le> n \<and> n - 8 * k < 8) \<or> 8 * k \<le> n \<and> n < 32 \<and> bit b (n - 8 * k))"
    by (simp only: set_byte_def bit_simps bit_255) (auto dest: bit_imp_le_length)
  then show ?thesis by (auto dest: bit_imp_le_length)
qed

lemma get_set_byte:
  assumes "k < 4" "k' < 4"
  shows "get_byte (set_byte w k b) k' = (if k' = k then b else get_byte w k')"
  using assms
  by (intro bit_word_eqI) (auto simp: bit_get_byte bit_set_byte)

definition word_of_bytes :: "u8 \<Rightarrow> u8 \<Rightarrow> u8 \<Rightarrow> u8 \<Rightarrow> u32" where
  "word_of_bytes b0 b1 b2 b3 =
     ucast b0 OR push_bit 8 (ucast b1) OR push_bit 16 (ucast b2) OR push_bit 24 (ucast b3)"

definition rd32 :: "(nat \<Rightarrow> u8) \<Rightarrow> nat \<Rightarrow> u32" where
  "rd32 m a = word_of_bytes (m a) (m (a + 1)) (m (a + 2)) (m (a + 3))"

lemma word_of_bytes_get_byte:
  "word_of_bytes (get_byte w 0) (get_byte w 1) (get_byte w 2) (get_byte w 3) = w"
proof (rule bit_word_eqI)
  fix n
  assume n: "n < LENGTH(32)"
  then consider "n < 8" | "8 \<le> n" "n < 16" | "16 \<le> n" "n < 24" | "24 \<le> n" "n < 32" by fastforce
  then show "bit (word_of_bytes (get_byte w 0) (get_byte w 1) (get_byte w 2) (get_byte w 3)) n = bit w n"
    using n by cases (simp add: word_of_bytes_def bit_or_iff bit_push_bit_iff bit_ucast_iff bit_get_byte, (linarith | argo)?)+
qed

end
