(* ===== verification/CString.thy ===== *)
theory CString
  imports Prelude
begin

text \<open>
  \<^verbatim>\<open>lib/string.c\<close>, on a memory of bytes. An address is a number; a C object does not wrap
  around the end of the address space. The copy loops end because they run up to a bound;
  the searches for a terminating zero may not, so they are partial functions, shown to end
  on every string that has one.
\<close>

type_synonym mem = "nat \<Rightarrow> u8"

section \<open>Copying and filling\<close>

text \<open>One word through a pair of pointers: four bytes are read, then four are written.\<close>

definition copy_word :: "nat \<Rightarrow> nat \<Rightarrow> mem \<Rightarrow> mem" where
  "copy_word dst src m =
     m(dst := m src, dst + 1 := m (src + 1), dst + 2 := m (src + 2), dst + 3 := m (src + 3))"

text \<open>\<^verbatim>\<open>while (dst < max) *dst++ = *src++\<close>, and the same loop while \<^verbatim>\<open>dst\<close> is not aligned.\<close>

function copy_tail :: "nat \<Rightarrow> nat \<Rightarrow> nat \<Rightarrow> mem \<Rightarrow> mem" where
  "copy_tail dst src lim m =
     (if dst < lim then copy_tail (dst + 1) (src + 1) lim (m(dst := m src)) else m)"
  by auto
termination by (relation "measure (\<lambda>(dst, src, lim, m). lim - dst)") auto

declare copy_tail.simps [simp del]

function copy_head :: "nat \<Rightarrow> nat \<Rightarrow> nat \<Rightarrow> mem \<Rightarrow> nat \<times> nat \<times> mem" where
  "copy_head dst src lim m =
     (if dst mod 4 \<noteq> 0 \<and> dst < lim then copy_head (dst + 1) (src + 1) lim (m(dst := m src))
      else (dst, src, m))"
  by auto
termination by (relation "measure (\<lambda>(dst, src, lim, m). lim - dst)") auto

declare copy_head.simps [simp del]

function copy_words :: "nat \<Rightarrow> nat \<Rightarrow> nat \<Rightarrow> mem \<Rightarrow> nat \<times> nat \<times> mem" where
  "copy_words dst src lim m =
     (if dst + 4 \<le> lim then copy_words (dst + 4) (src + 4) lim (copy_word dst src m)
      else (dst, src, m))"
  by auto
termination by (relation "measure (\<lambda>(dst, src, lim, m). lim - dst)") auto

declare copy_words.simps [simp del]

definition memcpy :: "nat \<Rightarrow> nat \<Rightarrow> nat \<Rightarrow> mem \<Rightarrow> mem" where
  "memcpy dst src n m =
     (let lim = dst + n
      in if src mod 4 \<noteq> dst mod 4 then copy_tail dst src lim m
         else let (dst1, src1, m1) = copy_head dst src lim m;
                  (dst2, src2, m2) = copy_words dst1 src1 lim m1
              in copy_tail dst2 src2 lim m2)"

function fill_tail :: "nat \<Rightarrow> nat \<Rightarrow> u8 \<Rightarrow> mem \<Rightarrow> mem" where
  "fill_tail dst lim b m = (if dst < lim then fill_tail (dst + 1) lim b (m(dst := b)) else m)"
  by auto
termination by (relation "measure (\<lambda>(dst, lim, b, m). lim - dst)") auto

declare fill_tail.simps [simp del]

function fill_head :: "nat \<Rightarrow> nat \<Rightarrow> u8 \<Rightarrow> mem \<Rightarrow> nat \<times> mem" where
  "fill_head dst lim b m =
     (if dst mod 4 \<noteq> 0 \<and> dst < lim then fill_head (dst + 1) lim b (m(dst := b)) else (dst, m))"
  by auto
termination by (relation "measure (\<lambda>(dst, lim, b, m). lim - dst)") auto

declare fill_head.simps [simp del]

definition put_word :: "nat \<Rightarrow> u32 \<Rightarrow> mem \<Rightarrow> mem" where
  "put_word a w m =
     m(a := get_byte w 0, a + 1 := get_byte w 1, a + 2 := get_byte w 2, a + 3 := get_byte w 3)"

text \<open>A run of bytes.\<close>

definition put_bytes :: "nat \<Rightarrow> u8 list \<Rightarrow> mem \<Rightarrow> mem" where
  "put_bytes a bs m = (\<lambda>x. if a \<le> x \<and> x < a + length bs then bs ! (x - a) else m x)"

function fill_words :: "nat \<Rightarrow> nat \<Rightarrow> u32 \<Rightarrow> mem \<Rightarrow> nat \<times> mem" where
  "fill_words dst lim w m =
     (if dst + 4 \<le> lim then fill_words (dst + 4) lim w (put_word dst w m) else (dst, m))"
  by auto
termination by (relation "measure (\<lambda>(dst, lim, w, m). lim - dst)") auto

declare fill_words.simps [simp del]

definition memset :: "nat \<Rightarrow> u32 \<Rightarrow> nat \<Rightarrow> mem \<Rightarrow> mem" where
  "memset dst c n m =
     (let lim = dst + n;
          byte = ucast (c AND 0xFF) :: u8;
          word = word_of_bytes byte byte byte byte;
          (dst1, m1) = fill_head dst lim byte m;
          (dst2, m2) = fill_words dst1 lim word m1
      in fill_tail dst2 lim byte m2)"

section \<open>Strings\<close>

partial_function (option) strlen_from :: "nat \<Rightarrow> nat \<Rightarrow> mem \<Rightarrow> nat option" where
  "strlen_from s n m = (if m s \<noteq> 0 then strlen_from (s + 1) (n + 1) m else Some n)"

definition strlen :: "nat \<Rightarrow> mem \<Rightarrow> nat option" where
  "strlen s m = strlen_from s 0 m"

partial_function (option) strcpy :: "nat \<Rightarrow> nat \<Rightarrow> mem \<Rightarrow> mem option" where
  "strcpy dst src m =
     (let m1 = m(dst := m src) in if m src \<noteq> 0 then strcpy (dst + 1) (src + 1) m1 else Some m1)"

text \<open>\<^verbatim>\<open>Some None\<close> is the null result; \<^verbatim>\<open>char\<close> is compared with the \<^verbatim>\<open>int\<close> after sign extension.\<close>

partial_function (option) strchr :: "nat \<Rightarrow> u32 \<Rightarrow> mem \<Rightarrow> nat option option" where
  "strchr s c m =
     (if m s \<noteq> 0 then (if scast (m s) = c then Some (Some s) else strchr (s + 1) c m)
      else Some None)"

partial_function (option) strcmp :: "nat \<Rightarrow> nat \<Rightarrow> mem \<Rightarrow> int option" where
  "strcmp p q m =
     (if m p \<noteq> 0 \<and> m p = m q then strcmp (p + 1) (q + 1) m
      else Some (if (scast (m p) :: u32) < scast (m q) then -1
                 else if (scast (m q) :: u32) < scast (m p) then 1 else 0))"

section \<open>Words in memory\<close>

lemma rd32_put_word [simp]: "rd32 (put_word a w m) a = w"
  using word_of_bytes_get_byte [of w] by (simp add: rd32_def put_word_def)

lemma rd32_put_word_other: "a + 4 \<le> b \<or> b + 4 \<le> a \<Longrightarrow> rd32 (put_word a w m) b = rd32 m b"
  by (auto simp: rd32_def put_word_def)

lemma put_word_outside: "b < a \<or> a + 4 \<le> b \<Longrightarrow> put_word a w m b = m b"
  by (auto simp: put_word_def)

lemma put_bytes_simps:
  "x < a \<or> a + length bs \<le> x \<Longrightarrow> put_bytes a bs m x = m x"
  "y < length bs \<Longrightarrow> put_bytes a bs m (a + y) = bs ! y"
  by (auto simp: put_bytes_def)

lemma put_bytes_append: "put_bytes (a + length xs) ys (put_bytes a xs m) = put_bytes a (xs @ ys) m"
  by (auto simp: put_bytes_def nth_append fun_eq_iff)

lemma put_bytes_Nil [simp]: "put_bytes a [] m = m"
  by (auto simp: put_bytes_def fun_eq_iff)

section \<open>What the loops do\<close>

definition copied :: "nat \<Rightarrow> nat \<Rightarrow> nat \<Rightarrow> mem \<Rightarrow> mem" where
  "copied dst src n m = (\<lambda>a. if dst \<le> a \<and> a < dst + n then m (src + (a - dst)) else m a)"

definition filled :: "nat \<Rightarrow> nat \<Rightarrow> u8 \<Rightarrow> mem \<Rightarrow> mem" where
  "filled dst n b m = (\<lambda>a. if dst \<le> a \<and> a < dst + n then b else m a)"

text \<open>A copy in ascending order is right unless the destination begins inside of the source.\<close>

definition apart :: "nat \<Rightarrow> nat \<Rightarrow> nat \<Rightarrow> bool" where
  "apart dst src n \<longleftrightarrow> dst \<le> src \<or> src + n \<le> dst"

lemma copied_0 [simp]: "copied dst src 0 m = m"
  by (auto simp: copied_def fun_eq_iff)

text \<open>Copying in two pieces.\<close>

lemma copied_append:
  "apart dst src (i + n) \<Longrightarrow> copied (dst + i) (src + i) n (copied dst src i m) = copied dst src (i + n) m"
  by (auto simp: copied_def apart_def fun_eq_iff)

lemma copied_1: "m(dst := m src) = copied dst src 1 m"
  by (auto simp: copied_def fun_eq_iff)

lemma copied_4: "copy_word dst src m = copied dst src 4 m"
proof
  fix a
  have "dst \<le> a \<and> a < dst + 4 \<longleftrightarrow> a = dst \<or> a = dst + 1 \<or> a = dst + 2 \<or> a = dst + 3" by auto
  then show "copy_word dst src m a = copied dst src 4 m a" by (auto simp: copy_word_def copied_def)
qed

lemma apart_shift: "apart dst src (i + n) \<Longrightarrow> apart (dst + i) (src + i) n"
  by (auto simp: apart_def)

lemma copy_tail_copied:
  "apart dst src (lim - dst) \<Longrightarrow> copy_tail dst src lim m = copied dst src (lim - dst) m"
proof (induction dst src lim m rule: copy_tail.induct)
  case (1 dst src lim m)
  show ?case
  proof (cases "dst < lim")
    case False
    then show ?thesis by (subst copy_tail.simps) simp
  next
    case True
    then have n: "lim - dst = 1 + (lim - (dst + 1))" by simp
    have ap: "apart dst src (1 + (lim - (dst + 1)))" using 1(2) n by simp
    have "copy_tail dst src lim m = copy_tail (dst + 1) (src + 1) lim (m(dst := m src))"
      using True by (subst copy_tail.simps) simp
    also have "\<dots> = copied (dst + 1) (src + 1) (lim - (dst + 1)) (copied dst src 1 m)"
      using 1(1) [OF True apart_shift [OF ap]] by (simp only: copied_1)
    also have "\<dots> = copied dst src (lim - dst) m" using copied_append [OF ap] n by simp
    finally show ?thesis .
  qed
qed

text \<open>A loop step of \<open>k\<close> bytes, in the form the inductions below use.\<close>

lemma copied_step:
  assumes "apart dst src (k + n)" and "i \<le> n"
  shows "copied (dst + k) (src + k) i (copied dst src k m) = copied dst src (k + i) m"
  by (rule copied_append) (use assms in \<open>auto simp: apart_def\<close>)

lemma copy_head_copied:
  assumes "apart dst src n"
  shows "\<exists>i. i \<le> n \<and> copy_head dst src (dst + n) m = (dst + i, src + i, copied dst src i m)"
  using assms
proof (induction n arbitrary: dst src m)
  case 0
  then show ?case by (subst copy_head.simps) simp
next
  case (Suc n)
  show ?case
  proof (cases "dst mod 4 = 0")
    case True
    then show ?thesis by (subst copy_head.simps) auto
  next
    case False
    have ap: "apart dst src (1 + n)" using Suc.prems by simp
    obtain i where i: "i \<le> n"
      "copy_head (dst + 1) (src + 1) (dst + 1 + n) (copied dst src 1 m)
         = (dst + 1 + i, src + 1 + i, copied (dst + 1) (src + 1) i (copied dst src 1 m))"
      using Suc.IH [OF apart_shift [OF ap]] by blast
    have "copy_head dst src (dst + Suc n) m
        = copy_head (dst + 1) (src + 1) (dst + 1 + n) (copied dst src 1 m)"
      using False by (subst copy_head.simps) (simp add: copied_1)
    then show ?thesis
      using i copied_step [OF ap i(1), of m] by (intro exI [of _ "Suc i"]) simp
  qed
qed

lemma copy_words_copied:
  assumes "apart dst src n"
  shows "\<exists>i. i \<le> n \<and> copy_words dst src (dst + n) m = (dst + i, src + i, copied dst src i m)"
  using assms
proof (induction n arbitrary: dst src m rule: less_induct)
  case (less n)
  show ?case
  proof (cases "4 \<le> n")
    case False
    then show ?thesis by (subst copy_words.simps) auto
  next
    case True
    then have n: "n = 4 + (n - 4)" by simp
    have ap: "apart dst src (4 + (n - 4))" using less.prems n by simp
    obtain i where i: "i \<le> n - 4"
      "copy_words (dst + 4) (src + 4) (dst + 4 + (n - 4)) (copied dst src 4 m)
         = (dst + 4 + i, src + 4 + i, copied (dst + 4) (src + 4) i (copied dst src 4 m))"
      using less.IH [OF _ apart_shift [OF ap]] True by force
    have "copy_words dst src (dst + n) m
        = copy_words (dst + 4) (src + 4) (dst + 4 + (n - 4)) (copied dst src 4 m)"
      using True by (subst copy_words.simps) (simp add: copied_4)
    then show ?thesis
      using i True copied_step [OF ap i(1), of m] by (intro exI [of _ "4 + i"]) (simp add: add.assoc)
  qed
qed

lemma memcpy_copied:
  assumes "apart dst src n"
  shows "memcpy dst src n m = copied dst src n m"
proof (cases "src mod 4 = dst mod 4")
  case False
  then show ?thesis using copy_tail_copied [of dst src "dst + n" m] assms by (simp add: memcpy_def)
next
  case True
  obtain i where i: "i \<le> n" "copy_head dst src (dst + n) m = (dst + i, src + i, copied dst src i m)"
    using copy_head_copied [OF assms] by blast
  have ap1: "apart dst src (i + (n - i))" using assms i(1) by simp
  obtain j where j: "j \<le> n - i" "copy_words (dst + i) (src + i) (dst + i + (n - i)) (copied dst src i m)
      = (dst + i + j, src + i + j, copied (dst + i) (src + i) j (copied dst src i m))"
    using copy_words_copied [OF apart_shift [OF ap1]] by blast
  have ap2: "apart dst src (i + j + (n - (i + j)))" and ap3: "apart dst src (i + j)"
    using assms i(1) j(1) by (auto simp: apart_def)
  have "copy_tail (dst + i + j) (src + i + j) (dst + n) (copied dst src (i + j) m)
      = copied dst src n m"
    using copy_tail_copied [of "dst + (i + j)" "src + (i + j)" "dst + n"] apart_shift [OF ap2]
      copied_append [OF ap2] i(1) j(1) by (simp add: add.assoc)
  then show ?thesis
    using True i j(1) j(2) copied_append [OF ap3, of m] by (simp add: memcpy_def)
qed

lemma filled_0 [simp]: "filled dst 0 b m = m"
  by (auto simp: filled_def fun_eq_iff)

lemma filled_append: "filled (dst + k) i b (filled dst k b m) = filled dst (k + i) b m"
  by (auto simp: filled_def fun_eq_iff)

lemma filled_1: "m(dst := b) = filled dst 1 b m"
  by (auto simp: filled_def fun_eq_iff)

lemma get_byte_word_of_bytes:
  "k < 4 \<Longrightarrow> get_byte (word_of_bytes b b b b) k = b"
proof (rule bit_word_eqI)
  fix n assume k: "k < 4" and n: "n < LENGTH(8)"
  have high: "bit b (j + n) = False" if "8 \<le> j" for j
    using that bit_imp_le_length [of b "j + n"] by auto
  consider "k = 0" | "k = 1" | "k = 2" | "k = 3" using k by linarith
  then show "bit (get_byte (word_of_bytes b b b b) k) n = bit b n"
    using n high [of 8] high [of 16] high [of 24]
    by cases (simp_all add: bit_get_byte word_of_bytes_def bit_or_iff bit_push_bit_iff bit_ucast_iff)
qed

lemma filled_4: "put_word dst (word_of_bytes b b b b) m = filled dst 4 b m"
proof
  fix a
  have "dst \<le> a \<and> a < dst + 4 \<longleftrightarrow> a = dst \<or> a = dst + 1 \<or> a = dst + 2 \<or> a = dst + 3" by auto
  then show "put_word dst (word_of_bytes b b b b) m a = filled dst 4 b m a"
    by (auto simp: put_word_def filled_def get_byte_word_of_bytes)
qed

lemma fill_tail_filled: "fill_tail dst (dst + n) b m = filled dst n b m"
proof (induction n arbitrary: dst m)
  case 0
  then show ?case by (subst fill_tail.simps) simp
next
  case (Suc n)
  have "fill_tail dst (dst + Suc n) b m = fill_tail (dst + 1) (dst + 1 + n) b (m(dst := b))"
    by (subst fill_tail.simps) simp
  then show ?case using Suc.IH [of "dst + 1"] filled_append [of dst 1 n b m] by (simp add: filled_1)
qed

lemma fill_head_filled: "\<exists>i. i \<le> n \<and> fill_head dst (dst + n) b m = (dst + i, filled dst i b m)"
proof (induction n arbitrary: dst m)
  case 0
  then show ?case by (subst fill_head.simps) simp
next
  case (Suc n)
  show ?case
  proof (cases "dst mod 4 = 0")
    case True
    then show ?thesis by (subst fill_head.simps) auto
  next
    case False
    obtain i where i: "i \<le> n" "fill_head (dst + 1) (dst + 1 + n) b (filled dst 1 b m)
        = (dst + 1 + i, filled (dst + 1) i b (filled dst 1 b m))"
      using Suc.IH by blast
    have "fill_head dst (dst + Suc n) b m = fill_head (dst + 1) (dst + 1 + n) b (filled dst 1 b m)"
      using False by (subst fill_head.simps) (simp add: filled_1)
    then show ?thesis using i filled_append [of dst 1 i b m] by (intro exI [of _ "Suc i"]) simp
  qed
qed

lemma fill_words_filled:
  "\<exists>i. i \<le> n \<and> fill_words dst (dst + n) (word_of_bytes b b b b) m = (dst + i, filled dst i b m)"
proof (induction n arbitrary: dst m rule: less_induct)
  case (less n)
  show ?case
  proof (cases "4 \<le> n")
    case False
    then show ?thesis by (subst fill_words.simps) auto
  next
    case True
    obtain i where i: "i \<le> n - 4"
      "fill_words (dst + 4) (dst + 4 + (n - 4)) (word_of_bytes b b b b) (filled dst 4 b m)
         = (dst + 4 + i, filled (dst + 4) i b (filled dst 4 b m))"
      using less.IH [of "n - 4" "dst + 4"] True by force
    have "fill_words dst (dst + n) (word_of_bytes b b b b) m
        = fill_words (dst + 4) (dst + 4 + (n - 4)) (word_of_bytes b b b b) (filled dst 4 b m)"
      using True by (subst fill_words.simps) (simp add: filled_4)
    then show ?thesis
      using i True filled_append [of dst 4 i b m] by (intro exI [of _ "4 + i"]) (simp add: add.assoc)
  qed
qed

lemma memset_filled: "memset dst c n m = filled dst n (ucast (c AND 0xFF)) m"
proof -
  let ?b = "ucast (c AND 0xFF) :: u8"
  obtain i where i: "i \<le> n" "fill_head dst (dst + n) ?b m = (dst + i, filled dst i ?b m)"
    using fill_head_filled by blast
  obtain j where j: "j \<le> n - i"
    "fill_words (dst + i) (dst + i + (n - i)) (word_of_bytes ?b ?b ?b ?b) (filled dst i ?b m)
       = (dst + i + j, filled (dst + i) j ?b (filled dst i ?b m))"
    using fill_words_filled by blast
  have "fill_tail (dst + (i + j)) (dst + (i + j) + (n - (i + j))) ?b (filled dst (i + j) ?b m)
      = filled dst n ?b m"
    using i(1) j(1) filled_append [of dst "i + j" "n - (i + j)" ?b m] by (simp only: fill_tail_filled) simp
  then show ?thesis
    using i j filled_append [of dst i j ?b m] by (simp add: memset_def Let_def add.assoc)
qed

section \<open>Terminated strings\<close>

definition str_at :: "mem \<Rightarrow> nat \<Rightarrow> u8 list \<Rightarrow> bool" where
  "str_at m s xs \<longleftrightarrow> (\<forall>i < length xs. m (s + i) = xs ! i) \<and> 0 \<notin> set xs \<and> m (s + length xs) = 0"

lemma str_at_Nil: "str_at m s [] \<longleftrightarrow> m s = 0"
  by (simp add: str_at_def)

lemma str_at_Cons: "str_at m s (x # xs) \<longleftrightarrow> m s = x \<and> x \<noteq> 0 \<and> str_at m (s + 1) xs"
  by (auto simp: str_at_def nth_Cons split: nat.splits)

lemma strlen_from_str: "str_at m s xs \<Longrightarrow> strlen_from s n m = Some (n + length xs)"
proof (induction xs arbitrary: s n)
  case Nil
  then show ?case by (subst strlen_from.simps) (simp add: str_at_Nil)
next
  case (Cons x xs)
  then show ?case by (subst strlen_from.simps) (simp add: str_at_Cons)
qed

text \<open>The order of strings: bytes as unsigned numbers, a prefix first.\<close>

fun bytes_cmp :: "u8 list \<Rightarrow> u8 list \<Rightarrow> int" where
  "bytes_cmp [] [] = 0"
| "bytes_cmp [] (y # ys) = -1"
| "bytes_cmp (x # xs) [] = 1"
| "bytes_cmp (x # xs) (y # ys) = (if x = y then bytes_cmp xs ys else if x < y then -1 else 1)"

lemma bytes_cmp_0: "bytes_cmp xs ys = 0 \<longleftrightarrow> xs = ys"
  by (induction xs ys rule: bytes_cmp.induct) auto

text \<open>Sign extension keeps the order of bytes as unsigned numbers.\<close>

lemma bit_u8_7: "bit (b :: u8) 7 \<longleftrightarrow> 128 \<le> unat b"
proof -
  have l: "unat b < 2 ^ LENGTH(8)" by (rule unsigned_less)
  then have "unat b div 128 = (if 128 \<le> unat b then 1 else 0)" by (auto simp: div_nat_eqI)
  then show ?thesis by (simp add: bit_word_iff_drop_bit_and bit_iff_odd_drop_bit drop_bit_eq_div word_arith_nat_div)
qed

lemma scast_u8: "scast (b :: u8) = (ucast b OR (if bit b 7 then push_bit 8 (mask 24) else 0) :: u32)"
proof (rule bit_word_eqI)
  fix n assume n: "n < LENGTH(32)"
  have S: "bit (scast b :: u32) n = bit b (if n < 8 then n else 7)"
    using n by (cases "n = 7") (auto simp: bit_signed_iff min_def) 
  have U: "bit (ucast b :: u32) n = (n < 8 \<and> bit b n)" using n by (auto simp: bit_ucast_iff dest: bit_imp_le_length)
  show "bit (scast (b :: u8) :: u32) n = bit (ucast b OR (if bit b 7 then push_bit 8 (mask 24) else 0) :: u32) n"
    unfolding S bit_or_iff U using n by (auto simp: bit_push_bit_iff bit_mask_iff)
qed

lemma unat_scast_u8: "unat (scast (b :: u8) :: u32) = (if unat b < 128 then unat b else unat b + 0xFFFFFF00)"
proof -
  have l: "unat b < 2 ^ LENGTH(8)" by (rule unsigned_less)
  have u: "unat (ucast b :: u32) = unat b" using l by (simp add: unsigned_ucast_eq take_bit_eq_mod)
  have d: "ucast b AND push_bit 8 (mask 24) = (0 :: u32)"
    by (rule bit_eqI) (auto simp: bit_and_iff bit_ucast_iff bit_push_bit_iff dest: bit_imp_le_length)
  have "(ucast b OR push_bit 8 (mask 24) :: u32) = ucast b + push_bit 8 (mask 24)"
    by (simp add: disjunctive_add_eq_or d)
  moreover have "push_bit 8 (mask 24) = (0xFFFFFF00 :: u32)" by (simp add: mask_eq_exp_minus_1)
  moreover have "unat (ucast b + 0xFFFFFF00 :: u32) = unat b + 0xFFFFFF00"
    using l u by (simp add: unat_word_ariths)
  ultimately show ?thesis using u by (simp add: scast_u8 bit_u8_7)
qed

lemma scast_less: "(scast a :: u32) < scast b \<longleftrightarrow> a < b" for a b :: u8
  using unsigned_less [of a] unsigned_less [of b]
  by (auto simp: word_less_nat_alt unat_scast_u8)

lemma scast_pos: "(0 :: u32) < scast (b :: u8) \<longleftrightarrow> 0 < b"
  using scast_less [of 0 b] by simp

lemma strcmp_str: "str_at m p xs \<Longrightarrow> str_at m q ys \<Longrightarrow> strcmp p q m = Some (bytes_cmp xs ys)"
proof (induction xs ys arbitrary: p q rule: bytes_cmp.induct)
  case 1
  then show ?case by (subst strcmp.simps) (simp add: str_at_Nil)
next
  case (2 y ys)
  then show ?case
    by (subst strcmp.simps) (auto simp: str_at_Nil str_at_Cons scast_pos word_neq_0_conv)
next
  case (3 x xs)
  then show ?case
    by (subst strcmp.simps) (auto simp: str_at_Nil str_at_Cons scast_pos word_neq_0_conv)
next
  case (4 x xs y ys)
  then show ?case
    by (subst strcmp.simps) (auto simp: str_at_Cons scast_less)
qed

lemma strchr_str:
  "str_at m s xs \<Longrightarrow> strchr s c m =
     Some (if \<exists>x \<in> set xs. scast x = c then Some (s + length (takeWhile (\<lambda>x. scast x \<noteq> c) xs)) else None)"
proof (induction xs arbitrary: s)
  case Nil
  then show ?case by (subst strchr.simps) (simp add: str_at_Nil)
next
  case (Cons x xs)
  then show ?case by (subst strchr.simps) (auto simp: str_at_Cons)
qed

lemma strcpy_str:
  "str_at m src xs \<Longrightarrow> apart dst src (length xs + 1) \<Longrightarrow>
     strcpy dst src m = Some (copied dst src (length xs + 1) m)"
proof (induction xs arbitrary: src dst m)
  case Nil
  then show ?case
    using copied_1 [of m dst src] by (subst strcpy.simps) (simp add: str_at_Nil Let_def)
next
  case (Cons x xs)
  have ap: "apart dst src (1 + (length xs + 1))" using Cons.prems(2) by simp
  have "str_at (copied dst src 1 m) (src + 1) xs"
    using Cons.prems ap by (auto simp: str_at_def copied_def apart_def nth_Cons split: nat.splits)
  from Cons.IH [OF this apart_shift [OF ap]] show ?case
    using Cons.prems(1) copied_append [OF ap, of m] copied_1 [of m dst src]
    by (subst strcpy.simps) (simp add: str_at_Cons)
qed

section \<open>Properties\<close>

text \<open>C14: \<^verbatim>\<open>memcpy\<close>, with its word loop and both alignment cases, leaves in the destination exactly the
  \<open>n\<close> bytes the source had before, and changes nothing else, unless the destination begins inside of the
  source: ranges that overlap with the destination first are copied right too.\<close>

theorem memcpy_correct:
  assumes "dst \<le> src \<or> src + n \<le> dst"
  shows "memcpy dst src n m = (\<lambda>a. if dst \<le> a \<and> a < dst + n then m (src + (a - dst)) else m a)"
  using memcpy_copied [of dst src n m] assms by (simp add: apart_def copied_def)

text \<open>Ten bytes moved down by four.\<close>

lemma memcpy_correct_witness:
  "memcpy 3 7 10 (\<lambda>a. word_of_nat a) 5 = 9 \<and> memcpy 3 7 10 (\<lambda>a. word_of_nat a) 12 = 16 \<and> memcpy 3 7 10 (\<lambda>a. word_of_nat a) 13 = 13"
  by (simp add: memcpy_correct)

text \<open>\<^verbatim>\<open>memset\<close> fills exactly the range with the low byte of its argument.\<close>

theorem memset_correct:
  "memset dst c n m = (\<lambda>a. if dst \<le> a \<and> a < dst + n then ucast (c AND 0xFF) else m a)"
  by (simp add: memset_filled filled_def)

text \<open>on terminated strings the string functions end and compute length, copy, first
  occurrence and the unsigned lexicographic order; \<^verbatim>\<open>strcmp\<close> is 0 exactly for equal strings.\<close>

theorem string_functions_correct:
  assumes "str_at m p xs" and "str_at m q ys" and "dst + length xs < p \<or> p + length xs < dst"
  shows "strlen p m = Some (length xs)
    \<and> strcpy dst p m = Some (copied dst p (length xs + 1) m)
    \<and> strchr p c m = Some (if \<exists>x \<in> set xs. scast x = c
          then Some (p + length (takeWhile (\<lambda>x. scast x \<noteq> c) xs)) else None)
    \<and> strcmp p q m = Some (bytes_cmp xs ys) \<and> (strcmp p q m = Some 0 \<longleftrightarrow> xs = ys)"
  using assms strlen_from_str [OF assms(1), of 0] strcpy_str [OF assms(1), of dst]
    strchr_str [OF assms(1), of c] strcmp_str [OF assms(1,2)] bytes_cmp_0 [of xs ys]
  by (auto simp: strlen_def apart_def)

definition demo_mem :: mem where
  "demo_mem = (\<lambda>_. 0)(10 := 47, 11 := 97, 20 := 47, 21 := 200)"

lemma string_functions_correct_witness:
  "strlen 10 demo_mem = Some 2 \<and> strcmp 10 20 demo_mem = Some (-1)"
proof -
  have "str_at demo_mem 10 [47, 97]" "str_at demo_mem 20 [47, 200]"
    by (simp_all add: str_at_Cons str_at_Nil demo_mem_def)
  from string_functions_correct [OF this, of 100] show ?thesis by simp
qed

end
