(* ===== verification/FsBlock.thy ===== *)
theory FsBlock
  imports CString
begin

text \<open>
  The block cache and the block allocator of the file system server (\<^verbatim>\<open>fs/fs.c\<close>). The
  server's memory is a memory of bytes and its page table, which it reads through \<^verbatim>\<open>vpt\<close> and
  \<^verbatim>\<open>vpd\<close>, a map from page numbers to permission bits. Block \<^verbatim>\<open>n\<close> of the disk is cached at
  \<^verbatim>\<open>DISKMAP + n * BY2BLK\<close>; all structures are read and written at their addresses in the
  cache. Disk transfers have the effect \<^verbatim>\<open>ide_read\<close> and \<^verbatim>\<open>ide_write\<close> are shown to have in
  \<open>Ide\<close>. Whether the kernel grants a page is input: one answer per request, no page once
  the list of answers is used up. \<open>None\<close> is \<^verbatim>\<open>user_panic\<close>, a failed \<^verbatim>\<open>user_assert\<close> or an
  access through a null pointer.
\<close>

section \<open>State\<close>

record fs =
  fmem :: mem
  fperm :: "nat \<Rightarrow> u32 option"
  fdisk :: mem
  fgrants :: "bool list"
  super :: nat
  bitmap :: nat

definition BY2BLK :: nat where "BY2BLK = 4096"
definition BIT2BLK :: nat where "BIT2BLK = BY2BLK * 8"
definition DISKMAP :: nat where "DISKMAP = 0x10000000"
definition DISKMAX :: nat where "DISKMAX = 0x40000000"
definition FS_MAGIC :: u32 where "FS_MAGIC = 0x68286097"
definition PTE_DIRTY :: u32 where "PTE_DIRTY = 0x0002"

named_theorems fs_defs "constants of fs.h and serv.h, unfolded to numerals"

lemmas [fs_defs] = BY2BLK_def BIT2BLK_def DISKMAP_def DISKMAX_def

definition ld :: "nat \<Rightarrow> fs \<Rightarrow> u32" where
  "ld a s = rd32 (fmem s) a"

definition st :: "nat \<Rightarrow> u32 \<Rightarrow> fs \<Rightarrow> fs" where
  "st a w s = s\<lparr>fmem := put_word a w (fmem s)\<rparr>"

definition s_nblocks :: "fs \<Rightarrow> nat" where
  "s_nblocks s = unat (ld (super s + 4) s)"

text \<open>\<^verbatim>\<open>if ((r = e) < 0) return r\<close>\<close>

definition ok_then ::
  "((kerr + 'a) \<times> fs) option \<Rightarrow> ('a \<Rightarrow> fs \<Rightarrow> ((kerr + 'b) \<times> fs) option) \<Rightarrow> ((kerr + 'b) \<times> fs) option"
where
  "ok_then m f =
     (case m of None \<Rightarrow> None | Some (Inl e, s) \<Rightarrow> Some (Inl e, s) | Some (Inr x, s) \<Rightarrow> f x s)"

lemma ok_then_cong [fundef_cong]:
  "m = m' \<Longrightarrow> (\<And>x s. m' = Some (Inr x, s) \<Longrightarrow> f x s = f' x s) \<Longrightarrow> ok_then m f = ok_then m' f'"
  by (auto simp: ok_then_def split: option.splits sum.splits)

lemma ok_then_simps [simp]:
  "ok_then None f = None" "ok_then (Some (Inl e, s)) f = Some (Inl e, s)"
  "ok_then (Some (Inr x, s)) f = f x s"
  by (simp_all add: ok_then_def)

section \<open>The kernel and the disk, as the server sees them\<close>

definition clear_page :: "nat \<Rightarrow> mem \<Rightarrow> mem" where
  "clear_page va m = (\<lambda>a. if a div 4096 = va div 4096 then 0 else m a)"

definition syscall_mem_alloc :: "nat \<Rightarrow> u32 \<Rightarrow> fs \<Rightarrow> (kerr + unit) \<times> fs" where
  "syscall_mem_alloc va perm s =
     (case fgrants s of
        True # g \<Rightarrow>
          (Inr (), s\<lparr>fmem := clear_page va (fmem s), fperm := (fperm s)(va div 4096 \<mapsto> perm),
                     fgrants := g\<rparr>)
      | _ \<Rightarrow> (Inl E_NO_MEM, s\<lparr>fgrants := tl (fgrants s)\<rparr>))"

text \<open>Remapping a page of the server onto itself changes its permission bits.\<close>

definition syscall_mem_map_self :: "nat \<Rightarrow> u32 \<Rightarrow> fs \<Rightarrow> (kerr + unit) \<times> fs" where
  "syscall_mem_map_self va perm s =
     (if fperm s (va div 4096) = None then (Inl E_INVAL, s)
      else (Inr (), s\<lparr>fperm := (fperm s)(va div 4096 \<mapsto> perm)\<rparr>))"

definition syscall_mem_unmap :: "nat \<Rightarrow> fs \<Rightarrow> fs" where
  "syscall_mem_unmap va s = s\<lparr>fperm := (fperm s)(va div 4096 := None)\<rparr>"

text \<open>A page that the kernel has to write for \<^verbatim>\<open>syscall_read_dev\<close> but is not mapped is
  allocated on the fault; without memory the kernel panics.\<close>

definition fault_in :: "nat \<Rightarrow> fs \<Rightarrow> fs option" where
  "fault_in va s =
     (if fperm s (va div 4096) \<noteq> None then Some s
      else case syscall_mem_alloc va PTE_D s of (Inr _, s1) \<Rightarrow> Some s1 | _ \<Rightarrow> None)"

definition disk_read :: "nat \<Rightarrow> nat \<Rightarrow> fs \<Rightarrow> fs" where
  "disk_read blockno va s =
     s\<lparr>fmem := (\<lambda>a. if va \<le> a \<and> a < va + BY2BLK then fdisk s (blockno * BY2BLK + (a - va))
                     else fmem s a)\<rparr>"

definition disk_write :: "nat \<Rightarrow> nat \<Rightarrow> fs \<Rightarrow> fs" where
  "disk_write blockno va s =
     s\<lparr>fdisk := (\<lambda>d. if blockno * BY2BLK \<le> d \<and> d < (blockno + 1) * BY2BLK
                      then fmem s (va + (d - blockno * BY2BLK)) else fdisk s d)\<rparr>"

section \<open>The block cache\<close>

definition diskaddr :: "nat \<Rightarrow> fs \<Rightarrow> nat option" where
  "diskaddr blockno s =
     (if super s = 0 \<or> blockno < s_nblocks s then Some (DISKMAP + blockno * BY2BLK) else None)"

definition va_is_mapped :: "nat \<Rightarrow> fs \<Rightarrow> bool" where
  "va_is_mapped va s \<longleftrightarrow> fperm s (va div 4096) \<noteq> None"

definition block_is_mapped :: "nat \<Rightarrow> fs \<Rightarrow> nat option" where
  "block_is_mapped blockno s = do {
     va \<leftarrow> diskaddr blockno s;
     Some (if va_is_mapped va s then va else 0)
   }"

definition va_is_dirty :: "nat \<Rightarrow> fs \<Rightarrow> bool" where
  "va_is_dirty va s \<longleftrightarrow> (case fperm s (va div 4096) of None \<Rightarrow> False | Some p \<Rightarrow> p AND PTE_DIRTY \<noteq> 0)"

definition block_is_dirty :: "nat \<Rightarrow> fs \<Rightarrow> bool option" where
  "block_is_dirty blockno s = do {
     va \<leftarrow> diskaddr blockno s;
     Some (va_is_mapped va s \<and> va_is_dirty va s)
   }"

definition dirty_block :: "nat \<Rightarrow> fs \<Rightarrow> ((kerr + unit) \<times> fs) option" where
  "dirty_block blockno s = do {
     va \<leftarrow> diskaddr blockno s;
     Some (if \<not> va_is_mapped va s then (Inl E_NOT_FOUND, s)
           else if va_is_dirty va s then (Inr (), s)
           else syscall_mem_map_self va (PTE_D OR PTE_DIRTY) s)
   }"

definition write_block :: "nat \<Rightarrow> fs \<Rightarrow> fs option" where
  "write_block blockno s = do {
     va \<leftarrow> block_is_mapped blockno s;
     if va = 0 then None
     else do {
       va1 \<leftarrow> diskaddr blockno s;
       Some (disk_write blockno va1 s)
     }
   }"

text \<open>The answer is \<^verbatim>\<open>int\<close> 1 or 0; \<^verbatim>\<open>bitmap\<close> is an array of 32-bit words.\<close>

definition bit_flag :: "nat \<Rightarrow> u32" where
  "bit_flag blockno = push_bit (blockno mod 32) 1"

definition bit_word :: "nat \<Rightarrow> fs \<Rightarrow> u32" where
  "bit_word blockno s = ld (bitmap s + 4 * (blockno div 32)) s"

definition block_is_free :: "nat \<Rightarrow> fs \<Rightarrow> bool option" where
  "block_is_free blockno s =
     (if super s = 0 \<or> s_nblocks s \<le> blockno then Some False
      else if bitmap s = 0 then None
      else Some (bit_word blockno s AND bit_flag blockno \<noteq> 0))"

definition map_block :: "nat \<Rightarrow> fs \<Rightarrow> ((kerr + unit) \<times> fs) option" where
  "map_block blockno s = do {
     va \<leftarrow> block_is_mapped blockno s;
     if va \<noteq> 0 then Some (Inr (), s)
     else do {
       va1 \<leftarrow> diskaddr blockno s;
       Some (syscall_mem_alloc va1 PTE_D s)
     }
   }"

text \<open>\<^verbatim>\<open>read_block\<close> returns 0 in every case; \<^verbatim>\<open>*blk\<close> and \<^verbatim>\<open>*isnew\<close> are the other results.\<close>

definition read_block :: "nat \<Rightarrow> fs \<Rightarrow> (nat \<times> bool \<times> fs) option" where
  "read_block blockno s =
     (if super s \<noteq> 0 \<and> s_nblocks s \<le> blockno then None
      else do {
        free \<leftarrow> (if bitmap s \<noteq> 0 then block_is_free blockno s else Some False);
        if free then None
        else do {
          va \<leftarrow> diskaddr blockno s;
          mva \<leftarrow> block_is_mapped blockno s;
          if mva \<noteq> 0 then Some (va, False, s)
          else do {
            (r, s1) \<leftarrow> map_block blockno s;
            s2 \<leftarrow> fault_in va s1;
            Some (va, True, disk_read blockno va s2)
          }
        }
      })"

definition unmap_block :: "nat \<Rightarrow> fs \<Rightarrow> fs option" where
  "unmap_block blockno s = do {
     va \<leftarrow> block_is_mapped blockno s;
     if va = 0 then Some s
     else do {
       free \<leftarrow> block_is_free blockno s;
       dirty \<leftarrow> (if free then Some False else block_is_dirty blockno s);
       s1 \<leftarrow> (if \<not> free \<and> dirty then write_block blockno s else Some s);
       let s2 = syscall_mem_unmap va s1;
       va2 \<leftarrow> block_is_mapped blockno s2;
       if va2 = 0 then Some s2 else None
     }
   }"

section \<open>The block allocator\<close>

definition free_block :: "nat \<Rightarrow> fs \<Rightarrow> fs option" where
  "free_block blockno s =
     (if blockno = 0 then Some s
      else if super s = 0 then None
      else if s_nblocks s \<le> blockno then Some s
      else if bitmap s = 0 then None
      else Some (st (bitmap s + 4 * (blockno div 32))
                   (bit_word blockno s OR bit_flag blockno) s))"

function alloc_scan :: "nat \<Rightarrow> fs \<Rightarrow> ((kerr + nat) \<times> fs) option" where
  "alloc_scan blockno s =
     (if blockno < s_nblocks s then
        if bit_word blockno s AND bit_flag blockno \<noteq> 0 then do {
          let s1 = st (bitmap s + 4 * (blockno div 32))
                     (bit_word blockno s AND NOT (bit_flag blockno)) s;
          s2 \<leftarrow> write_block (blockno div BIT2BLK + 2) s1;
          Some (Inr blockno, s2)
        }
        else alloc_scan (blockno + 1) s
      else Some (Inl E_NO_DISK, s))"
  by auto
termination by (relation "measure (\<lambda>(blockno, s). s_nblocks s - blockno)") auto

declare alloc_scan.simps [simp del]

definition alloc_block_num :: "fs \<Rightarrow> ((kerr + nat) \<times> fs) option" where
  "alloc_block_num s = (if super s = 0 \<or> bitmap s = 0 then None else alloc_scan 3 s)"

definition alloc_block :: "fs \<Rightarrow> ((kerr + nat) \<times> fs) option" where
  "alloc_block s =
     ok_then (alloc_block_num s) (\<lambda>bno s1. do {
       (r, s2) \<leftarrow> map_block bno s1;
       case r of
         Inl e \<Rightarrow> do { s3 \<leftarrow> free_block bno s2; Some (Inl e, s3) }
       | Inr _ \<Rightarrow> Some (Inr bno, s2)
     })"

section \<open>Mounting\<close>

definition read_super :: "fs \<Rightarrow> fs option" where
  "read_super s = do {
     (blk, isnew, s1) \<leftarrow> read_block 1 s;
     let s2 = s1\<lparr>super := blk\<rparr>;
     if ld (super s2) s2 \<noteq> FS_MAGIC then None
     else if DISKMAX div BY2BLK < s_nblocks s2 then None
     else Some s2
   }"

fun read_blocks :: "nat list \<Rightarrow> fs \<Rightarrow> fs option" where
  "read_blocks [] s = Some s"
| "read_blocks (b # bs) s = do { (blk, isnew, s1) \<leftarrow> read_block b s; read_blocks bs s1 }"

fun assert_used :: "nat list \<Rightarrow> fs \<Rightarrow> fs option" where
  "assert_used [] s = Some s"
| "assert_used (b # bs) s = do {
     free \<leftarrow> block_is_free b s;
     if free then None else assert_used bs s
   }"

definition nbitmap :: "fs \<Rightarrow> nat" where
  "nbitmap s = s_nblocks s div BIT2BLK + (if s_nblocks s mod BIT2BLK \<noteq> 0 then 1 else 0)"

definition read_bitmap :: "fs \<Rightarrow> fs option" where
  "read_bitmap s = do {
     s1 \<leftarrow> read_blocks (map (\<lambda>i. i + 2) [0..<nbitmap s]) s;
     va \<leftarrow> diskaddr 2 s1;
     let s2 = s1\<lparr>bitmap := va\<rparr>;
     assert_used ([0, 1] @ map (\<lambda>i. i + 2) [0..<nbitmap s2]) s2
   }"

text \<open>\<^verbatim>\<open>strcpy\<close> from a string literal, and \<^verbatim>\<open>strcmp\<close> with a string held outside the cache.\<close>

fun write_str :: "nat \<Rightarrow> u8 list \<Rightarrow> mem \<Rightarrow> mem" where
  "write_str a [] m = m(a := 0)"
| "write_str a (c # cs) m = write_str (a + 1) cs (m(a := c))"

fun str_eq :: "mem \<Rightarrow> nat \<Rightarrow> u8 list \<Rightarrow> bool" where
  "str_eq m a [] \<longleftrightarrow> m a = 0"
| "str_eq m a (c # cs) \<longleftrightarrow> m a = c \<and> str_eq m (a + 1) cs"

definition oops_str :: "u8 list" where
  "oops_str = [79, 79, 80, 83, 33, 10]"

definition check_write_block :: "fs \<Rightarrow> fs option" where
  "check_write_block s = do {
     let s0 = s\<lparr>super := 0\<rparr>;
     (_, _, s1) \<leftarrow> read_block 0 s0;
     va0 \<leftarrow> diskaddr 0 s1;
     va1 \<leftarrow> diskaddr 1 s1;
     let s2 = s1\<lparr>fmem := memcpy va0 va1 4096 (fmem s1)\<rparr>;
     let s3 = s2\<lparr>fmem := write_str va1 oops_str (fmem s2)\<rparr>;
     s4 \<leftarrow> write_block 1 s3;
     b4 \<leftarrow> block_is_mapped 1 s4;
     if b4 = 0 then None
     else do {
       let s5 = syscall_mem_unmap va1 s4;
       b5 \<leftarrow> block_is_mapped 1 s5;
       if b5 \<noteq> 0 then None
       else do {
         (_, _, s6) \<leftarrow> read_block 1 s5;
         if \<not> str_eq (fmem s6) va1 oops_str then None
         else do {
           let s7 = s6\<lparr>fmem := memcpy va1 va0 4096 (fmem s6)\<rparr>;
           s8 \<leftarrow> write_block 1 s7;
           Some (s8\<lparr>super := va1\<rparr>)
         }
       }
     }
   }"

definition fs_init :: "fs \<Rightarrow> fs option" where
  "fs_init s = do {
     s1 \<leftarrow> read_super s;
     s2 \<leftarrow> check_write_block s1;
     read_bitmap s2
   }"

section \<open>The allocator finds the first free block\<close>

definition free :: "nat \<Rightarrow> fs \<Rightarrow> bool" where
  "free b s \<longleftrightarrow> bit (bit_word b s) (b mod 32)"

text \<open>The layout of a mounted file system: the pointers lead to the cached super block and bitmap, which
  stay in the cache, and the bitmap blocks are on the disk.\<close>

definition layout :: "fs \<Rightarrow> bool" where
  "layout s \<longleftrightarrow> super s = DISKMAP + BY2BLK \<and> bitmap s = DISKMAP + 2 * BY2BLK
     \<and> s_nblocks s \<le> DISKMAX div BY2BLK \<and> nbitmap s + 2 \<le> s_nblocks s
     \<and> (\<forall>i < nbitmap s + 2. 0 < i \<longrightarrow> fperm s (DISKMAP div 4096 + i) \<noteq> None)"

lemma bit_test: "(w AND push_bit k 1 \<noteq> 0) = bit w k" if "k < 32" for w :: u32
proof -
  have "bit (push_bit k (1 :: u32)) n \<longleftrightarrow> n = k" for n
    using that by (auto simp: bit_exp_iff)
  then show ?thesis using and_bit_eq_0_iff [of "push_bit k 1" k w] by simp
qed

lemma free_iff_test: "bit_word b s AND bit_flag b \<noteq> 0 \<longleftrightarrow> free b s"
  unfolding free_def bit_flag_def by (rule bit_test) simp

lemma st_simps [simp]:
  "fperm (st a w s) = fperm s" "fdisk (st a w s) = fdisk s" "fgrants (st a w s) = fgrants s"
  "super (st a w s) = super s" "bitmap (st a w s) = bitmap s"
  by (simp_all add: st_def)

lemma ld_st [simp]: "ld a (st a w s) = w"
  by (simp add: ld_def st_def)

lemma ld_st_other: "a + 4 \<le> b \<or> b + 4 \<le> a \<Longrightarrow> ld b (st a w s) = ld b s"
  by (simp add: ld_def st_def rd32_put_word_other)

lemma disk_write_simps [simp]:
  "fmem (disk_write b va s) = fmem s" "fperm (disk_write b va s) = fperm s"
  "fgrants (disk_write b va s) = fgrants s" "super (disk_write b va s) = super s"
  "bitmap (disk_write b va s) = bitmap s"
  "ld a (disk_write b va s) = ld a s" "s_nblocks (disk_write b va s) = s_nblocks s"
  "nbitmap (disk_write b va s) = nbitmap s" "free c (disk_write b va s) = free c s"
  "layout (disk_write b va s) = layout s"
  by (simp_all add: disk_write_def ld_def s_nblocks_def nbitmap_def free_def bit_word_def layout_def)

text \<open>Writing a word of the bitmap.\<close>

definition set_bits :: "nat \<Rightarrow> u32 \<Rightarrow> fs \<Rightarrow> fs" where
  "set_bits b w s = st (bitmap s + 4 * (b div 32)) w s"

lemma bit_word_set_bits:
  "bit_word c (set_bits b w s) = (if c div 32 = b div 32 then w else bit_word c s)"
proof -
  have "c div 32 \<noteq> b div 32 \<Longrightarrow> 4 * (b div 32) + 4 \<le> 4 * (c div 32) \<or> 4 * (c div 32) + 4 \<le> 4 * (b div 32)"
    by linarith
  then show ?thesis by (auto simp: bit_word_def set_bits_def ld_st_other)
qed

lemma free_set_bits:
  "free c (set_bits b w s) = (if c div 32 = b div 32 then bit w (c mod 32) else free c s)"
  by (simp add: free_def bit_word_set_bits)

lemma same_word: "c div 32 = b div 32 \<Longrightarrow> c mod 32 = b mod 32 \<longleftrightarrow> c = b" for b c :: nat
  by (metis mult_div_mod_eq)

lemma bit_of_mask: "bit (bit_flag b) n \<longleftrightarrow> n = b mod 32"
  by (auto simp: bit_flag_def bit_exp_iff)

lemma free_clear_bit:
  "free c (set_bits b (bit_word b s AND NOT (bit_flag b)) s) \<longleftrightarrow> free c s \<and> c \<noteq> b"
proof (cases "c div 32 = b div 32")
  case True
  then have "bit_word c s = bit_word b s" by (simp add: bit_word_def)
  then show ?thesis
    using same_word [OF True] True
    by (simp only: free_set_bits, simp only: free_def bit_and_iff bit_not_iff bit_of_mask if_True)
      (auto dest: bit_imp_le_length)
next
  case False
  then show ?thesis by (auto simp: free_set_bits)
qed

lemma free_set_bit:
  "free c (set_bits b (bit_word b s OR bit_flag b) s) \<longleftrightarrow> free c s \<or> c = b"
proof (cases "c div 32 = b div 32")
  case True
  then have "bit_word c s = bit_word b s" by (simp add: bit_word_def)
  then show ?thesis
    using same_word [OF True] True
    by (simp only: free_set_bits, simp only: free_def bit_or_iff bit_of_mask if_True)
next
  case False
  then show ?thesis by (auto simp: free_set_bits)
qed

lemma nblocks_set_bits:
  assumes "layout s"
  shows "s_nblocks (set_bits b w s) = s_nblocks s"
proof -
  have "super s + 4 + 4 \<le> bitmap s + 4 * (b div 32)"
    using assms by (simp add: layout_def fs_defs)
  then have "ld (super s + 4) (set_bits b w s) = ld (super s + 4) s"
    unfolding set_bits_def by (intro ld_st_other) simp
  then show ?thesis by (simp add: s_nblocks_def) (simp add: set_bits_def)
qed

lemma set_bits_simps [simp]:
  "fperm (set_bits b w s) = fperm s" "fdisk (set_bits b w s) = fdisk s"
  "fgrants (set_bits b w s) = fgrants s" "super (set_bits b w s) = super s"
  "bitmap (set_bits b w s) = bitmap s"
  by (simp_all add: set_bits_def)

lemma layout_set_bits:
  assumes "layout s"
  shows "layout (set_bits b w s)"
proof -
  have "nbitmap (set_bits b w s) = nbitmap s" by (simp add: nbitmap_def nblocks_set_bits [OF assms])
  then show ?thesis using assms by (simp add: layout_def nblocks_set_bits [OF assms])
qed

lemma diskaddr_ok: "layout s \<Longrightarrow> b < s_nblocks s \<Longrightarrow> diskaddr b s = Some (DISKMAP + b * BY2BLK)"
  by (simp add: diskaddr_def)

lemma page_of_block: "(DISKMAP + b * BY2BLK) div 4096 = DISKMAP div 4096 + b"
  by (simp add: fs_defs)

lemma write_block_mapped:
  assumes "layout s" and "b < s_nblocks s" and "fperm s (DISKMAP div 4096 + b) \<noteq> None"
  shows "write_block b s = Some (disk_write b (DISKMAP + b * BY2BLK) s)"
proof -
  have "DISKMAP + b * BY2BLK \<noteq> 0" by (simp add: fs_defs)
  then show ?thesis
    using assms diskaddr_ok [OF assms(1,2)]
    by (simp add: write_block_def block_is_mapped_def va_is_mapped_def page_of_block)
qed

lemma bitmap_block_less:
  assumes "b < s_nblocks s"
  shows "b div BIT2BLK < nbitmap s"
proof (cases "s_nblocks s mod BIT2BLK = 0")
  case True
  then have "b < s_nblocks s div BIT2BLK * BIT2BLK"
    using assms div_mult_mod_eq [of "s_nblocks s" BIT2BLK] by linarith
  then have "b div BIT2BLK < s_nblocks s div BIT2BLK" by (rule less_mult_imp_div_less)
  then show ?thesis using True by (simp add: nbitmap_def)
next
  case False
  have "b div BIT2BLK \<le> s_nblocks s div BIT2BLK" using assms by (intro div_le_mono) simp
  then show ?thesis using False by (simp add: nbitmap_def)
qed

text \<open>The state after taking \<open>b\<close>: its bit cleared, the bitmap block written through.\<close>

definition taken :: "nat \<Rightarrow> fs \<Rightarrow> fs" where
  "taken b s =
     (let k = b div BIT2BLK + 2
      in disk_write k (DISKMAP + k * BY2BLK)
           (set_bits b (bit_word b s AND NOT (bit_flag b)) s))"

lemma taken_facts:
  "free c (taken b s) \<longleftrightarrow> free c s \<and> c \<noteq> b"
  "layout s \<Longrightarrow> s_nblocks (taken b s) = s_nblocks s" "layout s \<Longrightarrow> layout (taken b s)"
  "fperm (taken b s) = fperm s" "fgrants (taken b s) = fgrants s"
  by (simp_all add: taken_def Let_def free_clear_bit nblocks_set_bits layout_set_bits)

lemma alloc_scan_found:
  assumes "layout s" and "b < s_nblocks s" and "free b s"
  shows "alloc_scan b s = Some (Inr b, taken b s)"
proof -
  let ?s = "set_bits b (bit_word b s AND NOT (bit_flag b)) s"
  have k: "b div BIT2BLK + 2 < nbitmap s + 2" using bitmap_block_less [OF assms(2)] by simp
  have m: "layout ?s" using assms(1) by (rule layout_set_bits)
  have "b div BIT2BLK + 2 < s_nblocks ?s"
    using k assms(1) by (simp add: nblocks_set_bits [OF assms(1)] layout_def)
  moreover have "fperm ?s (DISKMAP div 4096 + (b div BIT2BLK + 2)) \<noteq> None"
    using k assms(1) unfolding layout_def set_bits_simps by (metis add_gr_0 zero_less_numeral)
  ultimately have wb: "write_block (b div BIT2BLK + 2) ?s = Some (taken b s)"
    using write_block_mapped [OF m] by (simp add: taken_def Let_def)
  show ?thesis
    using assms(2,3) wb unfolding free_iff_test [symmetric] set_bits_def
    by (subst alloc_scan.simps) (simp add: Let_def)
qed

lemma alloc_scan_spec:
  "layout s \<Longrightarrow>
     (\<exists>b. k \<le> b \<and> b < s_nblocks s \<and> free b s \<and> (\<forall>c. k \<le> c \<and> c < b \<longrightarrow> \<not> free c s)
          \<and> alloc_scan k s = Some (Inr b, taken b s))
   \<or> (\<forall>b. k \<le> b \<and> b < s_nblocks s \<longrightarrow> \<not> free b s) \<and> alloc_scan k s = Some (Inl E_NO_DISK, s)"
proof (induction k s rule: alloc_scan.induct)
  case (1 k s)
  consider "s_nblocks s \<le> k" | "k < s_nblocks s" "free k s" | "k < s_nblocks s" "\<not> free k s"
    by linarith
  then show ?case
  proof cases
    case 1
    then show ?thesis by (subst alloc_scan.simps) auto
  next
    case 2
    then show ?thesis using alloc_scan_found [OF 1(2)] by auto
  next
    case 3
    have z: "bit_word k s AND bit_flag k = 0" using 3(2) free_iff_test by blast
    have eq: "alloc_scan k s = alloc_scan (k + 1) s"
      using 3(1) z by (subst alloc_scan.simps) simp
    have lt: "k \<le> c \<longleftrightarrow> c = k \<or> k + 1 \<le> c" for c by auto
    show ?thesis
      using 1(1) [OF 3(1) _ 1(2)] z 3 unfolding eq lt by (metis not_less_iff_gr_or_eq)
  qed
qed

lemma alloc_scan_least:
  assumes "layout s" and "k \<le> b" and "b < s_nblocks s" and "free b s"
    and "\<forall>c. k \<le> c \<and> c < b \<longrightarrow> \<not> free c s"
  shows "alloc_scan k s = Some (Inr b, taken b s)"
proof -
  from alloc_scan_spec [OF assms(1), of k] assms(2-4)
  obtain b' where b': "k \<le> b'" "free b' s" "\<forall>c. k \<le> c \<and> c < b' \<longrightarrow> \<not> free c s"
    "alloc_scan k s = Some (Inr b', taken b' s)" by blast
  then have "b' = b" using assms(2-5) by (metis linorder_neqE_nat)
  then show ?thesis using b'(4) by simp
qed

text \<open>In a mounted file system the reserved blocks are also marked in use.\<close>

definition mounted :: "fs \<Rightarrow> bool" where
  "mounted s \<longleftrightarrow> layout s \<and> (\<forall>i < nbitmap s + 2. \<not> free i s)"

lemma mounted_layout: "mounted s \<Longrightarrow> layout s"
  by (simp add: mounted_def)

lemma nbitmap_set_bits: "layout s \<Longrightarrow> nbitmap (set_bits b w s) = nbitmap s"
  by (simp add: nbitmap_def nblocks_set_bits)

lemma taken_mounted:
  assumes "mounted s"
  shows "mounted (taken b s)" and "s_nblocks (taken b s) = s_nblocks s" and "nbitmap (taken b s) = nbitmap s"
proof -
  note l = mounted_layout [OF assms]
  show n: "nbitmap (taken b s) = nbitmap s" by (simp add: taken_def Let_def nbitmap_set_bits [OF l])
  show "s_nblocks (taken b s) = s_nblocks s" by (rule taken_facts(2) [OF l])
  show "mounted (taken b s)"
    using assms taken_facts(3) [OF l] unfolding mounted_def n taken_facts(1) by simp
qed

lemma mounted_reserved: "mounted s \<Longrightarrow> free b s \<Longrightarrow> nbitmap s + 2 \<le> b"
  by (meson mounted_def not_less)

text \<open>C16: The block allocator. On a mounted file system \<^verbatim>\<open>alloc_block_num\<close> never panics. It
  returns the least free block above the reserved ones, marks exactly this block used, in the
  cache and, by writing the bitmap block through, on the disk, and keeps the file system
  mounted; \<^verbatim>\<open>E_NO_DISK\<close> is returned, without effect, exactly when no block is free.\<close>

theorem alloc_block_num_correct:
  assumes "mounted s"
  shows "\<exists>r s'. alloc_block_num s = Some (r, s') \<and> mounted s' \<and> s_nblocks s' = s_nblocks s
    \<and> (case r of
         Inl e \<Rightarrow> e = E_NO_DISK \<and> s' = s \<and> (\<forall>b. 3 \<le> b \<and> b < s_nblocks s \<longrightarrow> \<not> free b s)
       | Inr b \<Rightarrow> 3 \<le> b \<and> b < s_nblocks s \<and> free b s \<and> (\<forall>c. 3 \<le> c \<and> c < b \<longrightarrow> \<not> free c s)
           \<and> (\<forall>c. free c s' \<longleftrightarrow> free c s \<and> c \<noteq> b)
           \<and> (\<forall>i < BY2BLK. fdisk s' ((b div BIT2BLK + 2) * BY2BLK + i)
                = fmem s' (DISKMAP + (b div BIT2BLK + 2) * BY2BLK + i)))"
proof -
  have "alloc_block_num s = alloc_scan 3 s"
    using assms by (simp add: alloc_block_num_def mounted_def layout_def fs_defs)
  moreover have "fdisk (taken b s) ((b div BIT2BLK + 2) * BY2BLK + i)
      = fmem (taken b s) (DISKMAP + (b div BIT2BLK + 2) * BY2BLK + i)" if "i < BY2BLK" for b i
    using that by (simp add: taken_def disk_write_def Let_def)
  ultimately show ?thesis
    using assms alloc_scan_spec [OF mounted_layout [OF assms], of 3]
    by (auto simp: taken_facts taken_mounted)
qed

section \<open>Allocation and the cache page\<close>

lemma clear_page_outside: "a div 4096 \<noteq> va div 4096 \<Longrightarrow> clear_page va m a = m a"
  by (simp add: clear_page_def)

lemma rd32_cong: "(\<And>k. k < 4 \<Longrightarrow> m (a + k) = m' (a + k)) \<Longrightarrow> rd32 m a = rd32 m' a"
proof -
  assume *: "\<And>k. k < 4 \<Longrightarrow> m (a + k) = m' (a + k)"
  show ?thesis using * [of 0] * [of 1] * [of 2] * [of 3] by (simp add: rd32_def)
qed

lemma bitmap_word_inside:
  assumes "b < s_nblocks s" and "k < 4"
  shows "4 * (b div 32) + k < nbitmap s * BY2BLK"
proof -
  have "b div BIT2BLK + 1 \<le> nbitmap s" using bitmap_block_less [OF assms(1)] by simp
  moreover have "b < (b div BIT2BLK + 1) * BIT2BLK"
    using mod_less_divisor [of BIT2BLK b] div_mult_mod_eq [of b BIT2BLK] by (simp add: fs_defs)
  ultimately have "b < nbitmap s * BIT2BLK"
    by (meson less_le_trans mult_le_mono1)
  then have "b div 32 < nbitmap s * 1024"
    by (intro less_mult_imp_div_less) (simp add: fs_defs)
  then show ?thesis using assms(2) by (simp add: fs_defs)
qed

text \<open>A change of memory that spares the super block and the bitmap keeps the file system mounted.\<close>

definition same_meta :: "fs \<Rightarrow> fs \<Rightarrow> bool" where
  "same_meta s s' \<longleftrightarrow> super s' = super s \<and> bitmap s' = bitmap s
     \<and> (\<forall>a. super s + 4 \<le> a \<and> a < super s + 8 \<longrightarrow> fmem s' a = fmem s a)
     \<and> (\<forall>a. bitmap s \<le> a \<and> a < bitmap s + nbitmap s * BY2BLK \<longrightarrow> fmem s' a = fmem s a)
     \<and> (\<forall>p. fperm s p \<noteq> None \<longrightarrow> fperm s' p \<noteq> None)"

lemma same_meta_facts:
  assumes "layout s" and "same_meta s s'"
  shows "s_nblocks s' = s_nblocks s" and "nbitmap s' = nbitmap s"
    and "b < s_nblocks s \<Longrightarrow> bit_word b s' = bit_word b s"
    and "b < s_nblocks s \<Longrightarrow> free b s' = free b s"
proof -
  have "ld (super s + 4) s' = ld (super s + 4) s"
    unfolding ld_def
    by (rule rd32_cong) (use assms in \<open>auto simp: layout_def same_meta_def fs_defs\<close>)
  then show n: "s_nblocks s' = s_nblocks s"
    using assms(2) by (simp add: s_nblocks_def same_meta_def)
  then show "nbitmap s' = nbitmap s" by (simp add: nbitmap_def)
  assume b: "b < s_nblocks s"
  have "4 * (b div 32) + k < nbitmap s * BY2BLK" if "k < 4" for k
    using bitmap_word_inside [OF b that] .
  then have "ld (bitmap s + 4 * (b div 32)) s' = ld (bitmap s + 4 * (b div 32)) s"
    unfolding ld_def using assms
    by (intro rd32_cong) (auto simp: layout_def same_meta_def fs_defs)
  then show "bit_word b s' = bit_word b s"
    using assms(2) by (simp add: bit_word_def same_meta_def)
  then show "free b s' = free b s" by (simp add: free_def)
qed

lemma same_meta_mounted:
  assumes "mounted s" and "same_meta s s'"
  shows "mounted s'"
proof -
  note l = mounted_layout [OF assms(1)]
  note f = same_meta_facts [OF l assms(2)]
  have "layout s'" using l assms(2) f(1,2) by (auto simp: layout_def same_meta_def)
  moreover have "\<not> free i s'" if "i < nbitmap s + 2" for i
    using assms(1) that f(4) [of i] l by (simp add: mounted_def layout_def)
  ultimately show ?thesis using f(2) by (simp add: mounted_def)
qed

lemma clear_same_meta:
  assumes "layout s" and "nbitmap s + 2 \<le> b"
  shows "same_meta s (s\<lparr>fmem := clear_page (DISKMAP + b * BY2BLK) (fmem s),
      fperm := (fperm s)(DISKMAP div 4096 + b \<mapsto> perm), fgrants := g\<rparr>)"
proof -
  have "a div 4096 \<noteq> (DISKMAP + b * BY2BLK) div 4096"
    if "a < DISKMAP + (nbitmap s + 2) * BY2BLK" for a
  proof -
    have "a < (DISKMAP div 4096 + (nbitmap s + 2)) * 4096" using that by (simp add: fs_defs)
    then have "a div 4096 < DISKMAP div 4096 + (nbitmap s + 2)" by (rule less_mult_imp_div_less)
    then show ?thesis using assms by (simp only: page_of_block)
  qed
  moreover have "a < DISKMAP + (nbitmap s + 2) * BY2BLK"
    if "super s + 4 \<le> a \<and> a < super s + 8 \<or> bitmap s \<le> a \<and> a < bitmap s + nbitmap s * BY2BLK" for a
    using that assms(1) by (auto simp: layout_def fs_defs)
  ultimately show ?thesis by (auto simp: same_meta_def clear_page_def)
qed

text \<open>C17: Allocating a block. With a free block and a page for it \<^verbatim>\<open>alloc_block\<close> returns the
  least free block, marked used. The contents are zero only if the block was not cached: a
  block that stayed in the cache since it was freed is handed out with its old contents.\<close>

theorem alloc_block_contents:
  assumes "mounted s" and "3 \<le> b" and "b < s_nblocks s" and "free b s"
    and "\<forall>c. 3 \<le> c \<and> c < b \<longrightarrow> \<not> free c s"
    and "fperm s (DISKMAP div 4096 + b) \<noteq> None \<or> fgrants s = True # g"
  shows "\<exists>s'. alloc_block s = Some (Inr b, s') \<and> mounted s'
    \<and> (\<forall>c < s_nblocks s. free c s' \<longleftrightarrow> free c s \<and> c \<noteq> b)
    \<and> (\<forall>i < BY2BLK. fmem s' (DISKMAP + b * BY2BLK + i) =
         (if fperm s (DISKMAP div 4096 + b) \<noteq> None then fmem s (DISKMAP + b * BY2BLK + i) else 0))"
proof -
  let ?va = "DISKMAP + b * BY2BLK"
  let ?s = "taken b s"
  have scan: "alloc_block_num s = Some (Inr b, ?s)"
    using assms alloc_scan_least [OF mounted_layout [OF assms(1)] assms(2-5)]
    by (simp add: alloc_block_num_def mounted_def layout_def fs_defs)
  have m: "mounted ?s" and n: "s_nblocks ?s = s_nblocks s" "nbitmap ?s = nbitmap s"
    using taken_mounted [OF assms(1)] by auto
  have da: "diskaddr b ?s = Some ?va"
    using assms(3) n by (simp add: diskaddr_def)
  have nz: "?va \<noteq> 0" by (simp add: fs_defs)
  have res: "nbitmap s + 2 \<le> b" using mounted_reserved [OF assms(1,4)] .
  show ?thesis
  proof (cases "fperm s (DISKMAP div 4096 + b)")
    case (Some p)
    have "map_block b ?s = Some (Inr (), ?s)"
      using Some da nz by (simp add: map_block_def block_is_mapped_def va_is_mapped_def page_of_block
          taken_facts)
    moreover have "fmem ?s (?va + i) = fmem s (?va + i)" if "i < BY2BLK" for i
    proof -
      have "b div 32 * 4 + 4 \<le> nbitmap s * BY2BLK"
        using bitmap_word_inside [OF assms(3), of 3] by simp
      moreover have "?va = bitmap s + (b - 2) * BY2BLK"
        using assms(1,2) by (simp add: mounted_def layout_def fs_defs)
      moreover have "nbitmap s \<le> b - 2" using res by simp
      ultimately have "bitmap s + 4 * (b div 32) + 4 \<le> ?va + i"
        using mult_le_mono1 [of "nbitmap s" "b - 2" BY2BLK] by linarith
      then show ?thesis
        by (simp add: taken_def Let_def set_bits_def st_def put_word_outside)
    qed
    ultimately show ?thesis
      using Some m by (simp add: alloc_block_def scan taken_facts)
  next
    case None
    then have g: "fgrants ?s = True # g" using assms(6) by (simp add: taken_facts)
    let ?s2 = "?s\<lparr>fmem := clear_page ?va (fmem ?s),
      fperm := (fperm ?s)(DISKMAP div 4096 + b \<mapsto> PTE_D), fgrants := g\<rparr>"
    have "map_block b ?s = Some (Inr (), ?s2)"
      using None da nz g by (simp add: map_block_def block_is_mapped_def va_is_mapped_def page_of_block
          taken_facts syscall_mem_alloc_def)
    then have ab: "alloc_block s = Some (Inr b, ?s2)" by (simp add: alloc_block_def scan)
    have sm: "same_meta ?s ?s2" using clear_same_meta [OF mounted_layout [OF m], of b] res n by simp
    have z: "fmem ?s2 (?va + i) = 0" if "i < BY2BLK" for i
    proof -
      have "(?va + i) div 4096 = ?va div 4096" using that by (simp add: fs_defs)
      then show ?thesis by (simp add: clear_page_def)
    qed
    show ?thesis
      using ab same_meta_mounted [OF m sm] same_meta_facts(4) [OF mounted_layout [OF m] sm] None z
      by (intro exI [of _ ?s2]) (simp add: n taken_facts)
  qed
qed

text \<open>A disk of 64 blocks with the super block and the bitmap cached and blocks 3 and 5 free;
  block 3 is still cached, with the bytes 7.\<close>

definition demo_fs :: fs where
  "demo_fs = \<lparr>fmem = put_word 0x10001004 64 (put_word 0x10002000 40
                 (\<lambda>a. if a div 4096 = 0x10003 then 7 else 0)),
     fperm = [0x10001 \<mapsto> PTE_D, 0x10002 \<mapsto> PTE_D, 0x10003 \<mapsto> PTE_D], fdisk = (\<lambda>_. 0),
     fgrants = [True, True], super = 0x10001000, bitmap = 0x10002000\<rparr>"

lemma demo_nblocks: "s_nblocks demo_fs = 64" "nbitmap demo_fs = 1"
proof -
  show n: "s_nblocks demo_fs = 64" by (simp add: s_nblocks_def demo_fs_def ld_def)
  show "nbitmap demo_fs = 1" by (simp add: nbitmap_def n fs_defs)
qed

lemma demo_free: "b < 32 \<Longrightarrow> free b demo_fs \<longleftrightarrow> b = 3 \<or> b = 5"
proof -
  assume b: "b < 32"
  have "(40 :: u32) = push_bit 3 1 OR push_bit 5 1" by simp
  then have "bit (40 :: u32) b \<longleftrightarrow> b = 3 \<or> b = 5"
    using b by (simp only: bit_or_iff bit_push_bit_iff bit_1_iff) auto
  moreover have "bit_word b demo_fs = 40"
    using b by (simp add: bit_word_def demo_fs_def ld_def rd32_put_word_other)
  ultimately show ?thesis using b by (simp add: free_def)
qed

lemma demo_mounted: "mounted demo_fs"
proof -
  have "\<forall>i < 3. 0 < i \<longrightarrow> fperm demo_fs (DISKMAP div 4096 + i) \<noteq> None"
    by (auto simp: demo_fs_def fs_defs less_Suc_eq numeral_3_eq_3)
  then have "layout demo_fs"
    by (simp add: layout_def demo_nblocks) (simp add: demo_fs_def fs_defs)
  then show ?thesis by (simp add: mounted_def demo_nblocks demo_free)
qed

theorem alloc_block_num_correct_witness:
  "\<exists>r s'. alloc_block_num demo_fs = Some (r, s') \<and> r = Inr 3 \<and> \<not> free 3 s' \<and> free 5 s'"
proof -
  have f: "free 3 demo_fs" "free 5 demo_fs" by (simp_all add: demo_free)
  from alloc_block_num_correct [OF demo_mounted] obtain r s' where
    r: "alloc_block_num demo_fs = Some (r, s') \<and> mounted s' \<and> s_nblocks s' = s_nblocks demo_fs
    \<and> (case r of
         Inl e \<Rightarrow> e = E_NO_DISK \<and> s' = demo_fs \<and> (\<forall>b. 3 \<le> b \<and> b < s_nblocks demo_fs \<longrightarrow> \<not> free b demo_fs)
       | Inr b \<Rightarrow> 3 \<le> b \<and> b < s_nblocks demo_fs \<and> free b demo_fs
           \<and> (\<forall>c. 3 \<le> c \<and> c < b \<longrightarrow> \<not> free c demo_fs)
           \<and> (\<forall>c. free c s' \<longleftrightarrow> free c demo_fs \<and> c \<noteq> b)
           \<and> (\<forall>i < BY2BLK. fdisk s' ((b div BIT2BLK + 2) * BY2BLK + i)
                = fmem s' (DISKMAP + (b div BIT2BLK + 2) * BY2BLK + i)))"
    by (elim exE)
  show ?thesis
  proof (cases r)
    case (Inl e)
    then show ?thesis using r f by (auto simp: demo_nblocks)
  next
    case (Inr b)
    then have *: "3 \<le> b" "\<forall>c. 3 \<le> c \<and> c < b \<longrightarrow> \<not> free c demo_fs"
      "\<forall>c. free c s' \<longleftrightarrow> free c demo_fs \<and> c \<noteq> b" using r by simp_all
    then have "b = 3" using f(1) by (metis le_neq_implies_less order_refl)
    then show ?thesis using r *(3) Inr f by simp
  qed
qed

theorem alloc_block_contents_witness:
  "\<exists>s'. alloc_block demo_fs = Some (Inr 3, s') \<and> mounted s' \<and> fmem s' 0x10003004 = 7"
proof -
  have "fmem demo_fs 0x10003004 = 7" by (simp add: demo_fs_def put_word_outside)
  moreover have "fperm demo_fs (DISKMAP div 4096 + 3) \<noteq> None" by (simp add: demo_fs_def fs_defs)
  moreover have "DISKMAP + 3 * BY2BLK + 4 = 0x10003004" "(4 :: nat) < BY2BLK" by (simp_all add: fs_defs)
  ultimately show ?thesis
    using alloc_block_contents [OF demo_mounted, of 3] by (fastforce simp: demo_nblocks demo_free)
qed

section \<open>Eviction and reload\<close>

definition dirty :: "nat \<Rightarrow> fs \<Rightarrow> bool" where
  "dirty b s \<longleftrightarrow> va_is_dirty (DISKMAP + b * BY2BLK) s"

lemma block_is_free_mounted:
  "mounted s \<Longrightarrow> b < s_nblocks s \<Longrightarrow> block_is_free b s = Some (free b s)"
  by (simp add: block_is_free_def mounted_def layout_def fs_defs free_iff_test)

lemma block_is_dirty_mounted:
  "mounted s \<Longrightarrow> b < s_nblocks s \<Longrightarrow> block_is_dirty b s = Some (dirty b s)"
  using diskaddr_ok [OF mounted_layout, of s b]
  by (auto simp: block_is_dirty_def dirty_def va_is_dirty_def va_is_mapped_def split: option.splits)

lemma page_iff: "k * 4096 \<le> a \<and> a < k * 4096 + 4096 \<longleftrightarrow> a div 4096 = k" for a k :: nat
proof
  assume "k * 4096 \<le> a \<and> a < k * 4096 + 4096"
  then show "a div 4096 = k" by (intro div_nat_eqI) simp_all
next
  assume "a div 4096 = k"
  then show "k * 4096 \<le> a \<and> a < k * 4096 + 4096"
    using div_mult_mod_eq [of a 4096] mod_less_divisor [of 4096 a] by linarith
qed

text \<open>C18: The cache loses nothing. Evicting a used data block and reading it again, when the
  kernel grants a page, gives its cached contents back if the page was dirty and the contents
  on disk if it was clean, and changes nothing else in memory.\<close>

theorem evict_reload:
  assumes "mounted s" and "nbitmap s + 2 \<le> b" and "b < s_nblocks s" and "\<not> free b s"
    and "fperm s (DISKMAP div 4096 + b) \<noteq> None" and "fgrants s = True # g"
  shows "\<exists>s1 s2. unmap_block b s = Some s1 \<and> \<not> va_is_mapped (DISKMAP + b * BY2BLK) s1
    \<and> read_block b s1 = Some (DISKMAP + b * BY2BLK, True, s2) \<and> mounted s2
    \<and> fmem s2 = (\<lambda>a. if DISKMAP + b * BY2BLK \<le> a \<and> a < DISKMAP + b * BY2BLK + BY2BLK \<and> \<not> dirty b s
                     then fdisk s (b * BY2BLK + (a - (DISKMAP + b * BY2BLK))) else fmem s a)"
proof -
  define va where "va = DISKMAP + b * BY2BLK"
  have nz: "va \<noteq> 0" by (simp add: va_def fs_defs)
  have pg: "va div 4096 = DISKMAP div 4096 + b" by (simp add: va_def page_of_block)
  note l = mounted_layout [OF assms(1)]
  define s0 where "s0 = (if dirty b s then disk_write b va s else s)"
  define s1 where "s1 = syscall_mem_unmap va s0"
  have s0: "fmem s0 = fmem s" "fperm s0 = fperm s" "fgrants s0 = fgrants s" "super s0 = super s"
    "bitmap s0 = bitmap s" "s_nblocks s0 = s_nblocks s"
    by (simp_all add: s0_def)
  have s1: "fmem s1 = fmem s" "fgrants s1 = fgrants s" "super s1 = super s" "bitmap s1 = bitmap s"
    "fperm s1 = (fperm s)(va div 4096 := None)" "fdisk s1 = fdisk s0"
    by (simp_all add: s1_def syscall_mem_unmap_def s0)
  have n1: "s_nblocks s1 = s_nblocks s" "free c s1 = free c s" "nbitmap s1 = nbitmap s" for c
    by (simp_all add: s_nblocks_def ld_def s1 free_def bit_word_def nbitmap_def)
  have da: "diskaddr b s = Some va" "diskaddr b s1 = Some va"
    using assms(3) by (simp_all add: diskaddr_def va_def n1)
  have w: "dirty b s \<Longrightarrow> write_block b s = Some s0"
    using write_block_mapped [OF l assms(3,5)] by (simp add: s0_def va_def)
  have bm1: "block_is_mapped b s1 = Some 0"
    by (simp add: block_is_mapped_def da va_is_mapped_def s1)
  have bm: "block_is_mapped b s = Some va"
    using assms(5) by (simp add: block_is_mapped_def da va_is_mapped_def pg)
  have s1_eq: "syscall_mem_unmap va s0 = s1" by (simp add: s1_def)
  have un: "unmap_block b s = Some s1"
  proof (cases "dirty b s")
    case True
    then show ?thesis
      using assms(4) nz by (simp add: unmap_block_def bm block_is_free_mounted [OF assms(1,3)]
          block_is_dirty_mounted [OF assms(1,3)] w s1_eq bm1 Let_def)
  next
    case False
    then have "syscall_mem_unmap va s = s1" by (simp add: s1_def s0_def)
    then show ?thesis
      using False assms(4) nz by (simp add: unmap_block_def bm block_is_free_mounted [OF assms(1,3)]
          block_is_dirty_mounted [OF assms(1,3)] bm1 Let_def)
  qed
  define s2 where "s2 = s1\<lparr>fmem := clear_page va (fmem s),
    fperm := (fperm s)(va div 4096 \<mapsto> PTE_D), fgrants := g\<rparr>"
  have "syscall_mem_alloc va PTE_D s1 = (Inr (), s2)"
    using assms(6) by (simp add: syscall_mem_alloc_def s1 s2_def)
  then have mb: "map_block b s1 = Some (Inr (), s2)"
    using bm1 by (simp add: map_block_def da)
  have fi: "fault_in va s2 = Some s2" by (simp add: fault_in_def s2_def)
  have bf1: "(if bitmap s1 \<noteq> 0 then block_is_free b s1 else Some False) = Some False"
    using assms(3,4) l free_iff_test [of b s1]
    by (auto simp: block_is_free_def n1 s1 layout_def)
  have rd: "read_block b s1 = Some (va, True, disk_read b va s2)"
    using bf1 bm1 mb fi assms(3) by (simp add: read_block_def n1 da)
  have va_page: "va \<le> a \<and> a < va + BY2BLK \<longleftrightarrow> a div 4096 = va div 4096" for a
    using page_iff [of "DISKMAP div 4096 + b" a] by (simp add: va_def fs_defs)
  have s2: "fmem (disk_read b va s2) a
      = (if va \<le> a \<and> a < va + BY2BLK \<and> \<not> dirty b s then fdisk s (b * BY2BLK + (a - va)) else fmem s a)"
    for a
    using va_page [of a] by (auto simp: disk_read_def s2_def clear_page_def s1 s0_def disk_write_def fs_defs)
  have "DISKMAP + (nbitmap s + 2) * BY2BLK \<le> va"
    using mult_le_mono1 [OF assms(2), of BY2BLK] by (simp add: va_def)
  then have "same_meta s (disk_read b va s2)"
    using assms(5) l unfolding same_meta_def s2 layout_def
    by (auto simp: disk_read_def s2_def s1 fs_defs)
  from same_meta_mounted [OF assms(1) this]
  show ?thesis
    using un rd s2 by (intro exI [of _ s1] exI [of _ "disk_read b va s2"])
      (auto simp: va_def [symmetric] va_is_mapped_def s1)
qed

definition demo_dirty :: fs where
  "demo_dirty = demo_fs\<lparr>fperm := (fperm demo_fs)(0x10004 \<mapsto> PTE_D OR PTE_DIRTY)\<rparr>"

lemma demo_dirty_mounted: "mounted demo_dirty"
  by (rule same_meta_mounted [OF demo_mounted]) (simp add: same_meta_def demo_dirty_def)

theorem evict_reload_witness:
  "\<exists>s1 s2. unmap_block 4 demo_dirty = Some s1 \<and> read_block 4 s1 = Some (0x10004000, True, s2)
     \<and> fmem s2 = fmem demo_dirty"
proof -
  have n: "s_nblocks demo_dirty = 64" "nbitmap demo_dirty = 1" "free 4 demo_dirty = free 4 demo_fs"
    using same_meta_facts(1,2) [OF mounted_layout [OF demo_mounted], of demo_dirty]
      same_meta_facts(4) [OF mounted_layout [OF demo_mounted], of demo_dirty 4]
    by (simp_all add: demo_nblocks same_meta_def demo_dirty_def)
  have p: "fperm demo_dirty (DISKMAP div 4096 + 4) = Some (PTE_D OR PTE_DIRTY)"
    by (simp add: demo_dirty_def fs_defs)
  have d: "dirty 4 demo_dirty"
    using p by (simp add: dirty_def va_is_dirty_def page_of_block PTE_D_def PTE_DIRTY_def)
  have g: "fgrants demo_dirty = [True, True]" by (simp add: demo_dirty_def demo_fs_def)
  have a: "DISKMAP + 4 * BY2BLK = 0x10004000" by (simp add: fs_defs)
  show ?thesis
    using evict_reload [OF demo_dirty_mounted, of 4 "[True]"] d p g n demo_free [of 4]
    unfolding a by auto
qed

end
