(* ===== verification/FsMount.thy ===== *)
theory FsMount
  imports FsBlock
begin

text \<open>
  Mounting (\<^verbatim>\<open>fs_init\<close>): a disk whose super block and bitmap are well formed is mounted by a
  server that has nothing cached yet, and the self test of \<^verbatim>\<open>check_write_block\<close> leaves the disk
  as it found it.
\<close>

section \<open>The disk before it is mounted\<close>

definition disk_nblocks :: "mem \<Rightarrow> nat" where
  "disk_nblocks d = unat (rd32 d (BY2BLK + 4))"

definition disk_nbitmap :: "mem \<Rightarrow> nat" where
  "disk_nbitmap d = disk_nblocks d div BIT2BLK + (if disk_nblocks d mod BIT2BLK \<noteq> 0 then 1 else 0)"

definition disk_free :: "nat \<Rightarrow> mem \<Rightarrow> bool" where
  "disk_free b d \<longleftrightarrow> bit (rd32 d (2 * BY2BLK + 4 * (b div 32))) (b mod 32)"

definition mountable :: "mem \<Rightarrow> bool" where
  "mountable d \<longleftrightarrow> rd32 d BY2BLK = FS_MAGIC \<and> disk_nblocks d \<le> DISKMAX div BY2BLK
     \<and> disk_nbitmap d + 2 \<le> disk_nblocks d \<and> (\<forall>i < disk_nbitmap d + 2. \<not> disk_free i d)"

text \<open>A server that has just started: nothing cached, and enough pages to come.\<close>

definition fresh_server :: "nat \<Rightarrow> fs \<Rightarrow> bool" where
  "fresh_server n s \<longleftrightarrow> super s = 0 \<and> bitmap s = 0 \<and> (\<forall>b. fperm s (DISKMAP div 4096 + b) = None)
     \<and> (\<exists>g. fgrants s = replicate n True @ g)"

section \<open>Fetching a block\<close>

text \<open>The block cached from the disk with the next page the kernel grants.\<close>

definition fetched :: "nat \<Rightarrow> fs \<Rightarrow> fs" where
  "fetched b s = disk_read b (DISKMAP + b * BY2BLK)
     (s\<lparr>fperm := (fperm s)(DISKMAP div 4096 + b \<mapsto> PTE_D), fgrants := tl (fgrants s)\<rparr>)"

lemma in_block_iff: "DISKMAP + b * BY2BLK \<le> a \<and> a < DISKMAP + b * BY2BLK + BY2BLK
    \<longleftrightarrow> a div 4096 = DISKMAP div 4096 + b"
  using page_iff [of "DISKMAP div 4096 + b" a] by (simp add: fs_defs)

lemma disk_read_clear:
  "disk_read b (DISKMAP + b * BY2BLK) (s\<lparr>fmem := clear_page (DISKMAP + b * BY2BLK) (fmem s), fperm := p, fgrants := g\<rparr>)
     = disk_read b (DISKMAP + b * BY2BLK) (s\<lparr>fperm := p, fgrants := g\<rparr>)"
proof -
  have "clear_page (DISKMAP + b * BY2BLK) (fmem s) a = fmem s a"
    if "\<not> (DISKMAP + b * BY2BLK \<le> a \<and> a < DISKMAP + b * BY2BLK + BY2BLK)" for a
    using that unfolding in_block_iff clear_page_def page_of_block by simp
  then show ?thesis by (auto simp: disk_read_def fun_eq_iff)
qed

lemma read_block_fetch:
  assumes "super s = 0 \<or> b < s_nblocks s" and "bitmap s = 0"
    and "fperm s (DISKMAP div 4096 + b) = None" and "fgrants s = True # g"
  shows "read_block b s = Some (DISKMAP + b * BY2BLK, True, fetched b s)"
proof -
  let ?va = "DISKMAP + b * BY2BLK"
  let ?s = "s\<lparr>fmem := clear_page ?va (fmem s), fperm := (fperm s)(?va div 4096 \<mapsto> PTE_D), fgrants := g\<rparr>"
  have da: "diskaddr b s = Some ?va" using assms(1) by (auto simp: diskaddr_def)
  have bm: "block_is_mapped b s = Some 0"
    using da assms(3) by (simp add: block_is_mapped_def va_is_mapped_def page_of_block)
  have "map_block b s = Some (Inr (), ?s)"
    using bm da assms(4) by (simp add: map_block_def syscall_mem_alloc_def)
  moreover have "fault_in ?va ?s = Some ?s" by (simp add: fault_in_def)
  moreover have "disk_read b ?va ?s = fetched b s"
    using assms(4) by (simp add: disk_read_clear fetched_def page_of_block)
  ultimately show ?thesis
    using assms(1,2) da bm by (auto simp: read_block_def)
qed

lemma fetched_simps [simp]:
  "super (fetched b s) = super s" "bitmap (fetched b s) = bitmap s" "fdisk (fetched b s) = fdisk s"
  "fgrants (fetched b s) = tl (fgrants s)"
  "fperm (fetched b s) = (fperm s)(DISKMAP div 4096 + b \<mapsto> PTE_D)"
  by (simp_all add: fetched_def disk_read_def)

text \<open>Block \<open>b\<close> is cached, with the contents it has on the disk \<open>d\<close>.\<close>

definition holds_block :: "mem \<Rightarrow> nat \<Rightarrow> fs \<Rightarrow> bool" where
  "holds_block d b s \<longleftrightarrow> (\<forall>i < BY2BLK. fmem s (DISKMAP + b * BY2BLK + i) = d (b * BY2BLK + i))"

lemma other_block:
  "c \<noteq> b \<Longrightarrow> i < BY2BLK \<Longrightarrow>
     \<not> (DISKMAP + b * BY2BLK \<le> DISKMAP + c * BY2BLK + i \<and> DISKMAP + c * BY2BLK + i < DISKMAP + b * BY2BLK + BY2BLK)"
  by (subst in_block_iff) (simp add: fs_defs)

lemma fetched_holds:
  "holds_block d c (fetched b s) \<longleftrightarrow> (if c = b then holds_block d c (s\<lparr>fmem := \<lambda>a. fdisk s (a - DISKMAP)\<rparr>)
     else holds_block d c s)"
  using other_block [of c b] by (auto simp: holds_block_def fetched_def disk_read_def)

lemma fetched_same: "d = fdisk s \<Longrightarrow> holds_block d b (fetched b s)"
  by (simp add: fetched_holds) (simp add: holds_block_def)

lemma holds_rd32:
  assumes "holds_block d b s" and "o1 + 4 \<le> BY2BLK"
  shows "ld (DISKMAP + b * BY2BLK + o1) s = rd32 d (b * BY2BLK + o1)"
proof -
  have "fmem s (DISKMAP + b * BY2BLK + (o1 + k)) = d (b * BY2BLK + (o1 + k))" if "k < 4" for k
    using assms that by (simp add: holds_block_def)
  from this [of 0] this [of 1] this [of 2] this [of 3] show ?thesis
    by (simp add: ld_def rd32_def add.assoc)
qed

lemma holds_cong: "fmem s' = fmem s \<Longrightarrow> holds_block d b s' = holds_block d b s"
  by (simp add: holds_block_def)

section \<open>The super block\<close>

lemma ld_fields: "ld a (s\<lparr>super := x\<rparr>) = ld a s" "ld a (s\<lparr>bitmap := x\<rparr>) = ld a s"
  by (simp_all add: ld_def)

lemma read_super_ok:
  assumes "mountable (fdisk s)" and "super s = 0" and "bitmap s = 0"
    and "fperm s (DISKMAP div 4096 + 1) = None" and "fgrants s = True # g"
  shows "read_super s = Some ((fetched 1 s)\<lparr>super := DISKMAP + BY2BLK\<rparr>)"
proof -
  have rb: "read_block 1 s = Some (DISKMAP + BY2BLK, True, fetched 1 s)"
    using read_block_fetch [of s 1 g] assms by simp
  have h: "holds_block (fdisk s) 1 (fetched 1 s)" by (rule fetched_same) simp
  have m: "ld (DISKMAP + BY2BLK) (fetched 1 s) = rd32 (fdisk s) BY2BLK"
    using holds_rd32 [OF h, of 0] by (simp add: fs_defs)
  have "ld (DISKMAP + BY2BLK + 4) (fetched 1 s) = rd32 (fdisk s) (BY2BLK + 4)"
    using holds_rd32 [OF h, of 4] by (simp add: fs_defs)
  then have n: "s_nblocks ((fetched 1 s)\<lparr>super := DISKMAP + BY2BLK\<rparr>) = disk_nblocks (fdisk s)"
    by (simp add: s_nblocks_def disk_nblocks_def ld_fields)
  show ?thesis
    using assms(1) n m
    by (simp add: read_super_def rb Let_def ld_fields mountable_def del: One_nat_def)
qed

section \<open>The self test\<close>

lemma str_eq_write_str: "0 \<notin> set cs \<Longrightarrow> str_eq (write_str a cs m) a cs"
proof (induction cs arbitrary: a m)
  case (Cons c cs)
  have "write_str (a + 1) cs m' a = m' a" for m'
  proof -
    have "x < b \<Longrightarrow> write_str b cs m' x = m' x" for b x m' by (induction cs arbitrary: b m') auto
    then show ?thesis by simp
  qed
  then show ?case using Cons by simp
qed simp

lemma write_str_outside: "x < a \<or> a + length cs < x \<Longrightarrow> write_str a cs m x = m x"
  by (induction cs arbitrary: a m) auto

lemma write_block_unmounted:
  assumes "super s = 0" and "fperm s (DISKMAP div 4096 + b) \<noteq> None"
  shows "write_block b s = Some (disk_write b (DISKMAP + b * BY2BLK) s)"
    and "block_is_mapped b s = Some (DISKMAP + b * BY2BLK)"
  using assms
  by (auto simp: write_block_def block_is_mapped_def va_is_mapped_def page_of_block diskaddr_def fs_defs)

lemma memcpy_block:
  assumes "b \<noteq> c"
  shows "memcpy (DISKMAP + b * BY2BLK) (DISKMAP + c * BY2BLK) 4096 m
    = copied (DISKMAP + b * BY2BLK) (DISKMAP + c * BY2BLK) 4096 m"
proof (rule memcpy_copied)
  show "apart (DISKMAP + b * BY2BLK) (DISKMAP + c * BY2BLK) 4096"
    using assms by (auto simp: apart_def fs_defs)
qed

lemma check_write_block_ok:
  assumes "holds_block (fdisk s) 1 s" and "bitmap s = 0"
    and "fperm s (DISKMAP div 4096) = None" and "fperm s (DISKMAP div 4096 + 1) \<noteq> None"
    and "fgrants s = True # True # g"
  shows "\<exists>s'. check_write_block s = Some s' \<and> super s' = DISKMAP + BY2BLK \<and> bitmap s' = 0
    \<and> fdisk s' = fdisk s \<and> holds_block (fdisk s) 1 s' \<and> fgrants s' = g
    \<and> fperm s' = (fperm s)(DISKMAP div 4096 \<mapsto> PTE_D, DISKMAP div 4096 + 1 \<mapsto> PTE_D)"
proof -
  let ?d = "fdisk s"
  let ?va0 = "DISKMAP + 0 * BY2BLK" and ?va1 = "DISKMAP + 1 * BY2BLK"
  define s0 where "s0 = s\<lparr>super := 0\<rparr>"
  have s0: "super s0 = 0" "bitmap s0 = 0" "fdisk s0 = ?d" "fgrants s0 = True # True # g"
    "fperm s0 = fperm s" "fmem s0 = fmem s"
    using assms(2,5) by (simp_all add: s0_def)
  define s1 where "s1 = fetched 0 s0"
  have rb0: "read_block 0 s0 = Some (?va0, True, s1)"
    using read_block_fetch [of s0 0 "True # g"] s0 assms(3) by (simp add: s1_def)
  have s1: "super s1 = 0" "bitmap s1 = 0" "fdisk s1 = ?d" "fgrants s1 = True # g"
    "fperm s1 = (fperm s)(DISKMAP div 4096 \<mapsto> PTE_D)" "holds_block ?d 1 s1"
    using assms(1) s0 holds_cong [OF s0(6)] by (simp_all add: s1_def fetched_holds)
  define m3 where "m3 = write_str ?va1 oops_str (copied ?va0 ?va1 4096 (fmem s1))"
  have m3_0: "m3 (?va0 + i) = ?d (BY2BLK + i)" if "i < BY2BLK" for i
    using that s1(6) by (simp add: m3_def write_str_outside copied_def holds_block_def fs_defs)
  define s3 where "s3 = s1\<lparr>fmem := m3\<rparr>"
  define s4 where "s4 = disk_write 1 ?va1 s3"
  have wb: "write_block 1 s3 = Some s4"
    using write_block_unmounted(1) [of s3 1] s1 assms(4) by (simp add: s3_def s4_def)
  have bm4: "block_is_mapped 1 s4 = Some ?va1"
    using write_block_unmounted(2) [of s4 1] s1 assms(4) by (simp add: s3_def s4_def)
  define s5 where "s5 = syscall_mem_unmap ?va1 s4"
  have s5: "super s5 = 0" "bitmap s5 = 0" "fdisk s5 = fdisk s4" "fgrants s5 = True # g" "fmem s5 = m3"
    "fperm s5 = (fperm s)(DISKMAP div 4096 \<mapsto> PTE_D, DISKMAP div 4096 + 1 := None)"
    using s1 page_of_block [of 1] by (simp_all add: s5_def syscall_mem_unmap_def s4_def s3_def)
  have bm5: "block_is_mapped 1 s5 = Some 0"
    using s5 page_of_block [of 1] by (simp add: block_is_mapped_def diskaddr_def va_is_mapped_def)
  define s6 where "s6 = fetched 1 s5"
  have rb6: "read_block 1 s5 = Some (?va1, True, s6)"
    using read_block_fetch [of s5 1 g] s5 by (simp add: s6_def)
  have m6: "fmem s6 = m3"
    by (auto simp: s6_def fetched_def disk_read_def s5 s4_def disk_write_def s3_def fun_eq_iff fs_defs)
  have s6: "bitmap s6 = 0" "fdisk s6 = fdisk s4" "fgrants s6 = g" "super s6 = 0"
    "fperm s6 = (fperm s)(DISKMAP div 4096 \<mapsto> PTE_D, DISKMAP div 4096 + 1 \<mapsto> PTE_D)"
    using s5 by (simp_all add: s6_def)
  have se: "str_eq m3 ?va1 oops_str"
    unfolding m3_def by (rule str_eq_write_str) (simp add: oops_str_def)
  define s7 where "s7 = s6\<lparr>fmem := copied ?va1 ?va0 4096 m3\<rparr>"
  define s8 where "s8 = disk_write 1 ?va1 s7"
  have wb8: "write_block 1 s7 = Some s8"
    using write_block_unmounted(1) [of s7 1] s6 by (simp add: s7_def s8_def)
  have d8: "fdisk s8 = ?d"
  proof
    fix x
    show "fdisk s8 x = ?d x"
    proof (cases "BY2BLK \<le> x \<and> x < 2 * BY2BLK")
      case True
      moreover from True have "x - BY2BLK < BY2BLK" unfolding fs_defs by linarith
      ultimately show ?thesis using m3_0 [of "x - BY2BLK"]
        by (simp add: s8_def disk_write_def s7_def copied_def fs_defs)
    next
      case False
      then show ?thesis
        by (auto simp: s8_def disk_write_def s7_def s6 s4_def s3_def s1)
    qed
  qed
  have h8: "holds_block ?d 1 s8"
    using m3_0 by (simp add: holds_block_def s8_def s7_def copied_def fs_defs)
  have run: "check_write_block s = Some (s8\<lparr>super := ?va1\<rparr>)"
  proof -
    have "diskaddr 0 s1 = Some ?va0" "diskaddr 1 s1 = Some ?va1" using s1 by (simp_all add: diskaddr_def)
    moreover have "?va1 \<noteq> 0" by (simp add: fs_defs)
    ultimately show ?thesis
      unfolding check_write_block_def Let_def s0_def [symmetric] rb0
      using wb bm4 bm5 rb6 wb8 se memcpy_block [of 0 1] memcpy_block [of 1 0] m6
      by (simp add: s3_def m3_def s5_def s7_def del: One_nat_def)
  qed
  have "bitmap s8 = 0" "fgrants s8 = g"
    "fperm s8 = (fperm s)(DISKMAP div 4096 \<mapsto> PTE_D, DISKMAP div 4096 + 1 \<mapsto> PTE_D)"
    by (simp_all add: s8_def s7_def s6)
  then show ?thesis using run d8 h8 holds_cong [of "s8\<lparr>super := ?va1\<rparr>" s8]
    by (intro exI [of _ "s8\<lparr>super := ?va1\<rparr>"]) simp
qed

section \<open>The bitmap\<close>

lemma fold_fetched_simps:
  "super (fold fetched bs s) = super s" "bitmap (fold fetched bs s) = bitmap s"
  "fdisk (fold fetched bs s) = fdisk s" "fgrants (fold fetched bs s) = drop (length bs) (fgrants s)"
  "fperm (fold fetched bs s) p
     = (if \<exists>b \<in> set bs. p = DISKMAP div 4096 + b then Some PTE_D else fperm s p)"
  by (induction bs arbitrary: s) (auto simp: drop_Suc)

lemma fold_fetched_holds:
  "b \<in> set bs \<or> holds_block (fdisk s) b s \<Longrightarrow> holds_block (fdisk s) b (fold fetched bs s)"
proof (induction bs arbitrary: s)
  case (Cons c bs)
  have "b \<in> set bs \<or> holds_block (fdisk s) b (fetched c s)"
    using Cons.prems fetched_same [of "fdisk s" s c] by (auto simp: fetched_holds split: if_splits)
  then show ?case using Cons.IH [of "fetched c s"] by simp
qed simp

lemma nblocks_held:
  "holds_block d 1 s \<Longrightarrow> super s = DISKMAP + BY2BLK \<Longrightarrow> s_nblocks s = disk_nblocks d"
  using holds_rd32 [of d 1 s 4] by (simp add: s_nblocks_def disk_nblocks_def fs_defs)

lemma read_blocks_fetch:
  assumes "holds_block (fdisk s) 1 s" and "super s = DISKMAP + BY2BLK" and "bitmap s = 0"
    and "distinct bs" and "\<forall>b \<in> set bs. b < disk_nblocks (fdisk s) \<and> fperm s (DISKMAP div 4096 + b) = None"
    and "fgrants s = replicate (length bs) True @ g"
  shows "read_blocks bs s = Some (fold fetched bs s)"
  using assms
proof (induction bs arbitrary: s)
  case (Cons b bs)
  have "read_block b s = Some (DISKMAP + b * BY2BLK, True, fetched b s)"
    using Cons.prems nblocks_held [OF Cons.prems(1,2)] by (intro read_block_fetch) auto
  moreover have "holds_block (fdisk s) 1 (fetched b s)"
    using Cons.prems(1) fetched_same [of "fdisk s" s b] by (auto simp: fetched_holds split: if_splits)
  then have "read_blocks bs (fetched b s) = Some (fold fetched bs (fetched b s))"
    using Cons.prems by (intro Cons.IH) auto
  ultimately show ?case by simp
qed simp

lemma assert_used_ok:
  "\<forall>b \<in> set bs. block_is_free b s = Some False \<Longrightarrow> assert_used bs s = Some s"
  by (induction bs) auto

lemma bit_word_held:
  assumes "holds_block d (2 + b div BIT2BLK) s" and "bitmap s = DISKMAP + 2 * BY2BLK"
  shows "bit_word b s = rd32 d (2 * BY2BLK + 4 * (b div 32))"
proof -
  have q: "4 * (b div 32) div 4096 = b div BIT2BLK"
    using div_mult2_eq [of b 32 1024] div_mult2_eq [of "4 * (b div 32)" 4 1024] by (simp add: fs_defs)
  have "4 * (b div 32) mod 4096 = 4 * (b div 32 mod 1024)"
    using mult_mod_right [of 4 "b div 32" 1024] by simp
  moreover have "b div 32 mod 1024 < 1024" by simp
  ultimately have "4 * (b div 32) mod 4096 + 4 \<le> BY2BLK"
    unfolding fs_defs by linarith
  note h = holds_rd32 [OF assms(1) this]
  have "4 * (b div 32) = b div BIT2BLK * 4096 + 4 * (b div 32) mod 4096"
    using div_mult_mod_eq [of "4 * (b div 32)" 4096] unfolding q by simp
  then have "bitmap s + 4 * (b div 32) = DISKMAP + (2 + b div BIT2BLK) * BY2BLK + 4 * (b div 32) mod 4096"
    "2 * BY2BLK + 4 * (b div 32) = (2 + b div BIT2BLK) * BY2BLK + 4 * (b div 32) mod 4096"
    unfolding assms(2) BY2BLK_def by algebra+
  then show ?thesis using h by (simp only: bit_word_def)
qed

lemma fs_init_ok:
  assumes "mountable (fdisk s)" and "fresh_server (disk_nbitmap (fdisk s) + 3) s"
  shows "\<exists>s'. fs_init s = Some s' \<and> mounted s' \<and> s_nblocks s' = disk_nblocks (fdisk s)
    \<and> (\<forall>b < s_nblocks s'. free b s' \<longleftrightarrow> disk_free b (fdisk s))
    \<and> (\<forall>b < disk_nbitmap (fdisk s) + 2. 0 < b \<longrightarrow> holds_block (fdisk s) b s') \<and> fdisk s' = fdisk s
    \<and> (\<forall>p. fperm s' p = (if \<exists>b < disk_nbitmap (fdisk s) + 2. p = DISKMAP div 4096 + b then Some PTE_D else fperm s p))
    \<and> fgrants s' = drop (disk_nbitmap (fdisk s) + 3) (fgrants s)"
proof -
  let ?d = "fdisk s" and ?n = "disk_nbitmap (fdisk s)"
  obtain g where fr: "super s = 0" "bitmap s = 0" "\<And>b. fperm s (DISKMAP div 4096 + b) = None"
    "fgrants s = True # True # True # replicate ?n True @ g"
    using assms(2) by (auto simp: fresh_server_def numeral_3_eq_3)
  define s1 where "s1 = (fetched 1 s)\<lparr>super := DISKMAP + BY2BLK\<rparr>"
  have rs: "read_super s = Some s1"
    unfolding s1_def by (rule read_super_ok [OF assms(1) fr(1,2,3,4)])
  have s1: "bitmap s1 = 0" "fdisk s1 = ?d" "fgrants s1 = True # True # replicate ?n True @ g"
    "fperm s1 = (fperm s)(DISKMAP div 4096 + 1 \<mapsto> PTE_D)" "holds_block ?d 1 s1"
    using fr fetched_same [of ?d s 1] by (simp_all add: s1_def holds_block_def)
  obtain s2 where s2: "check_write_block s1 = Some s2" "super s2 = DISKMAP + BY2BLK" "bitmap s2 = 0"
    "fdisk s2 = ?d" "holds_block ?d 1 s2" "fgrants s2 = replicate ?n True @ g"
    "fperm s2 = (fperm s1)(DISKMAP div 4096 \<mapsto> PTE_D, DISKMAP div 4096 + 1 \<mapsto> PTE_D)"
    using check_write_block_ok [of s1 "replicate ?n True @ g"] s1 fr(3) [of 0] by auto
  let ?bs = "map (\<lambda>i. i + 2) [0..<?n]"
  define s3 where "s3 = fold fetched ?bs s2"
  have mn: "disk_nblocks ?d \<le> DISKMAX div BY2BLK" "?n + 2 \<le> disk_nblocks ?d"
      "\<And>i. i < ?n + 2 \<Longrightarrow> \<not> disk_free i ?d"
    using assms(1) by (simp_all add: mountable_def)
  have nb2: "s_nblocks s2 = disk_nblocks ?d" "nbitmap s2 = ?n"
    using nblocks_held [OF s2(5,2)] by (simp_all add: nbitmap_def disk_nbitmap_def)
  have "distinct ?bs" by (auto simp: distinct_map intro: inj_onI)
  moreover have "\<forall>b \<in> set ?bs. b < disk_nblocks (fdisk s2) \<and> fperm s2 (DISKMAP div 4096 + b) = None"
    using mn(2) fr(3) [of "Suc (Suc _)"] by (auto simp: s2 s1)
  ultimately have rb: "read_blocks ?bs s2 = Some s3"
    using read_blocks_fetch [of s2 ?bs g] s2 by (simp add: s3_def)
  have s3: "super s3 = DISKMAP + BY2BLK" "fdisk s3 = ?d" "holds_block ?d 1 s3"
    using s2 fold_fetched_holds [of 1 ?bs s2] by (simp_all add: s3_def fold_fetched_simps)
  have nb3: "s_nblocks s3 = disk_nblocks ?d" by (rule nblocks_held [OF s3(3,1)])
  define s4 where "s4 = s3\<lparr>bitmap := DISKMAP + 2 * BY2BLK\<rparr>"
  have held: "holds_block ?d b s4" if "0 < b" "b < ?n + 2" for b
  proof (cases "b = 1")
    case False
    then have "b \<in> set ?bs" using that by (auto simp: image_iff intro!: bexI [of _ "b - 2"])
    then have "holds_block ?d b s3" using fold_fetched_holds [of b ?bs s2] s2(4) by (simp add: s3_def)
    then show ?thesis by (simp add: s4_def holds_block_def)
  qed (use s3 in \<open>simp add: s4_def holds_block_def\<close>)
  have nb4: "s_nblocks s4 = disk_nblocks ?d" "nbitmap s4 = ?n"
    using nblocks_held [of ?d s4] held [of 1] s3(1)
    by (simp_all add: nbitmap_def disk_nbitmap_def s4_def)
  have fr4: "free b s4 \<longleftrightarrow> disk_free b ?d" if "b < disk_nblocks ?d" for b
    using that bitmap_block_less [of b s4] nb4 held [of "2 + b div BIT2BLK"]
      bit_word_held [of ?d b s4]
    by (simp add: free_def disk_free_def s4_def)
  have "block_is_free b s4 = Some False" if "b < ?n + 2" for b
    using that mn fr4 [of b] nb4 free_iff_test [of b s4] s3(1)
    by (auto simp: block_is_free_def s4_def fs_defs)
  then have au: "assert_used ([0, 1] @ ?bs) s4 = Some s4"
    by (intro assert_used_ok) auto
  have "0 < ?n" using mn(2) by (auto simp: disk_nbitmap_def fs_defs)
  then have da: "diskaddr 2 s3 = Some (DISKMAP + 2 * BY2BLK)"
    using mn(2) nb3 by (simp add: diskaddr_def)
  have perm: "fperm s4 (DISKMAP div 4096 + i) \<noteq> None" if "0 < i" "i < ?n + 2" for i
  proof (cases "i = 1")
    case False
    then have "i \<in> set ?bs" using that by (auto simp: image_iff intro!: bexI [of _ "i - 2"])
    then show ?thesis by (auto simp: s4_def s3_def fold_fetched_simps)
  qed (auto simp: s4_def s3_def fold_fetched_simps s2)
  have "layout s4"
    using mn nb4 s3(1) perm by (simp add: layout_def s4_def)
  then have "mounted s4"
    using mn fr4 nb4 by (simp add: mounted_def)
  moreover have "fs_init s = Some s4"
  proof -
    have "read_bitmap s2 = Some s4"
      using rb da au by (simp only: read_bitmap_def nb2 nb4 Let_def Option.bind_lunit s4_def [symmetric])
    then show ?thesis using rs s2(1) by (simp add: fs_init_def)
  qed
  moreover have "fdisk s4 = ?d" using s3(2) by (simp add: s4_def)
  moreover have "fperm s4 p = (if \<exists>b < ?n + 2. p = DISKMAP div 4096 + b then Some PTE_D else fperm s p)" for p
  proof -
    have "(\<exists>b < ?n + 2. p = DISKMAP div 4096 + b) \<longleftrightarrow>
        p = DISKMAP div 4096 \<or> p = DISKMAP div 4096 + 1 \<or> (\<exists>b \<in> set ?bs. p = DISKMAP div 4096 + b)"
    proof
      assume "\<exists>b < ?n + 2. p = DISKMAP div 4096 + b"
      then obtain b where b: "b < ?n + 2" "p = DISKMAP div 4096 + b" by blast
      then have "b = 0 \<or> b = 1 \<or> b \<in> set ?bs" by (auto simp: image_iff intro!: bexI [of _ "b - 2"])
      then show "p = DISKMAP div 4096 \<or> p = DISKMAP div 4096 + 1 \<or> (\<exists>b \<in> set ?bs. p = DISKMAP div 4096 + b)"
        using b(2) by auto
    next
      assume "p = DISKMAP div 4096 \<or> p = DISKMAP div 4096 + 1 \<or> (\<exists>b \<in> set ?bs. p = DISKMAP div 4096 + b)"
      then show "\<exists>b < ?n + 2. p = DISKMAP div 4096 + b"
      proof (elim disjE bexE)
        assume "p = DISKMAP div 4096"
        then show ?thesis by (intro exI [of _ 0]) simp
      next
        assume "p = DISKMAP div 4096 + 1"
        then show ?thesis by (intro exI [of _ 1]) simp
      qed auto
    qed
    then show ?thesis by (auto simp: s4_def s3_def fold_fetched_simps s2 s1)
  qed
  moreover have "fgrants s4 = drop (?n + 3) (fgrants s)"
    using fr(4) by (simp add: s4_def s3_def fold_fetched_simps s2 numeral_3_eq_3)
  moreover have "\<forall>b < s_nblocks s4. free b s4 \<longleftrightarrow> disk_free b ?d" using fr4 nb4(1) by simp
  moreover have "\<forall>b < ?n + 2. 0 < b \<longrightarrow> holds_block ?d b s4" using held by simp
  ultimately show ?thesis using nb4(1) by (intro exI [of _ s4] conjI allI) simp_all
qed

text \<open>Mounting. On a disk with the magic number, a size the cache can hold and a bitmap that
  marks the reserved blocks used, a server that has just started mounts the file system
  without panic. The super block and the bitmap are then cached as they are on the disk, the
  allocator sees exactly the free blocks of the disk, and the self test has left the disk
  unchanged.\<close>

theorem fs_init_mounts:
  assumes "mountable (fdisk s)" and "fresh_server (disk_nbitmap (fdisk s) + 3) s"
  shows "\<exists>s'. fs_init s = Some s' \<and> mounted s' \<and> s_nblocks s' = disk_nblocks (fdisk s)
    \<and> (\<forall>b < s_nblocks s'. free b s' \<longleftrightarrow> disk_free b (fdisk s))
    \<and> (\<forall>b < disk_nbitmap (fdisk s) + 2. 0 < b \<longrightarrow> holds_block (fdisk s) b s') \<and> fdisk s' = fdisk s"
  using fs_init_ok [OF assms] by blast

text \<open>A disk of 64 blocks with blocks 3 and 5 free, and a server with four pages to come.\<close>

definition demo_disk :: mem where
  "demo_disk = put_word 0x1000 FS_MAGIC (put_word 0x1004 64 (put_word 0x2000 40 (\<lambda>_. 0)))"

definition demo_server :: fs where
  "demo_server = \<lparr>fmem = (\<lambda>_. 0), fperm = (\<lambda>_. None), fdisk = demo_disk, fgrants = replicate 4 True,
     super = 0, bitmap = 0\<rparr>"

lemma demo_disk_facts: "disk_nblocks demo_disk = 64" "disk_nbitmap demo_disk = 1"
  "b < 32 \<Longrightarrow> disk_free b demo_disk \<longleftrightarrow> b = 3 \<or> b = 5"
proof -
  show n: "disk_nblocks demo_disk = 64"
    by (simp add: disk_nblocks_def demo_disk_def fs_defs rd32_put_word_other)
  show "disk_nbitmap demo_disk = 1" by (simp add: disk_nbitmap_def n fs_defs)
  assume b: "b < 32"
  have "(40 :: u32) = push_bit 3 1 OR push_bit 5 1" by simp
  then have "bit (40 :: u32) b \<longleftrightarrow> b = 3 \<or> b = 5"
    using b by (simp only: bit_or_iff bit_push_bit_iff bit_1_iff) auto
  then show "disk_free b demo_disk \<longleftrightarrow> b = 3 \<or> b = 5"
    using b by (simp add: disk_free_def demo_disk_def fs_defs rd32_put_word_other)
qed

theorem fs_init_mounts_witness:
  "\<exists>s'. fs_init demo_server = Some s' \<and> mounted s' \<and> free 3 s' \<and> \<not> free 4 s' \<and> fdisk s' = demo_disk"
proof -
  have "rd32 demo_disk BY2BLK = FS_MAGIC" by (simp add: demo_disk_def fs_defs)
  then have "mountable (fdisk demo_server)"
    by (auto simp: mountable_def demo_server_def demo_disk_facts fs_defs)
  moreover have "fresh_server (disk_nbitmap (fdisk demo_server) + 3) demo_server"
    by (simp add: fresh_server_def demo_server_def demo_disk_facts)
  ultimately show ?thesis
    using fs_init_mounts [of demo_server] by (fastforce simp: demo_server_def demo_disk_facts)
qed

end
