(* ===== verification/FsFile.thy ===== *)
theory FsFile
  imports FsBlock
begin

text \<open>
  Files, directories and paths of the file system server (\<^verbatim>\<open>fs/fs.c\<close>). A \<^verbatim>\<open>struct File *\<close>
  is the address of the structure in the block cache (or of \<^verbatim>\<open>s_root\<close> in the super block);
  its fields are words at fixed offsets. A path is the list of its bytes before the
  terminating zero. A pointer result is the right side of a sum.
\<close>

section \<open>The structure File\<close>

definition MAXNAMELEN :: nat where "MAXNAMELEN = 128"
definition NDIRECT :: nat where "NDIRECT = 10"
definition NINDIRECT :: nat where "NINDIRECT = BY2BLK div 4"
definition BY2FILE :: nat where "BY2FILE = 256"
definition FILE2BLK :: nat where "FILE2BLK = BY2BLK div BY2FILE"
definition FTYPE_REG :: u32 where "FTYPE_REG = 0"
definition FTYPE_DIR :: u32 where "FTYPE_DIR = 1"

lemmas [fs_defs] = MAXNAMELEN_def NDIRECT_def NINDIRECT_def BY2FILE_def FILE2BLK_def

definition f_size_at :: "nat \<Rightarrow> nat" where "f_size_at f = f + 128"
definition f_type_at :: "nat \<Rightarrow> nat" where "f_type_at f = f + 132"
definition f_direct_at :: "nat \<Rightarrow> nat \<Rightarrow> nat" where "f_direct_at f i = f + 136 + 4 * i"
definition f_indirect_at :: "nat \<Rightarrow> nat" where "f_indirect_at f = f + 176"
definition f_dir_at :: "nat \<Rightarrow> nat" where "f_dir_at f = f + 180"
definition s_root_at :: "nat \<Rightarrow> nat" where "s_root_at spr = spr + 8"

lemmas [fs_defs] = f_size_at_def f_type_at_def f_direct_at_def f_indirect_at_def f_dir_at_def
  s_root_at_def

definition f_size :: "nat \<Rightarrow> fs \<Rightarrow> nat" where
  "f_size f s = unat (ld (f_size_at f) s)"

section \<open>The blocks of a file\<close>

text \<open>The result is the address of the slot that holds the disk block number.\<close>

definition file_block_walk :: "nat \<Rightarrow> nat \<Rightarrow> bool \<Rightarrow> fs \<Rightarrow> ((kerr + nat) \<times> fs) option" where
  "file_block_walk f filebno alloc s =
     (if filebno < NDIRECT then Some (Inr (f_direct_at f filebno), s)
      else if filebno < NINDIRECT then
        ok_then
          (if ld (f_indirect_at f) s = 0 then
             if \<not> alloc then Some (Inl E_NOT_FOUND, s)
             else ok_then (alloc_block s) (\<lambda>r s1.
               Some (Inr (), st (f_indirect_at f) (word_of_nat r) s1))
           else Some (Inr (), s))
          (\<lambda>_ s2. do {
             (blk, isnew, s3) \<leftarrow> read_block (unat (ld (f_indirect_at f) s2)) s2;
             Some (Inr (blk + 4 * filebno), s3)
           })
      else Some (Inl E_INVAL, s))"

definition file_map_block :: "nat \<Rightarrow> nat \<Rightarrow> bool \<Rightarrow> fs \<Rightarrow> ((kerr + nat) \<times> fs) option" where
  "file_map_block f filebno alloc s =
     ok_then (file_block_walk f filebno alloc s) (\<lambda>ptr s1.
       if ld ptr s1 = 0 then
         if \<not> alloc then Some (Inl E_NOT_FOUND, s1)
         else ok_then (alloc_block s1) (\<lambda>r s2.
           let s3 = st ptr (word_of_nat r) s2 in Some (Inr (unat (ld ptr s3)), s3))
       else Some (Inr (unat (ld ptr s1)), s1))"

definition file_clear_block :: "nat \<Rightarrow> nat \<Rightarrow> fs \<Rightarrow> ((kerr + unit) \<times> fs) option" where
  "file_clear_block f filebno s =
     ok_then (file_block_walk f filebno False s) (\<lambda>ptr s1.
       if ld ptr s1 \<noteq> 0 then do {
         s2 \<leftarrow> free_block (unat (ld ptr s1)) s1;
         Some (Inr (), st ptr 0 s2)
       }
       else Some (Inr (), s1))"

definition file_get_block :: "nat \<Rightarrow> nat \<Rightarrow> fs \<Rightarrow> ((kerr + nat) \<times> fs) option" where
  "file_get_block f filebno s =
     ok_then (file_map_block f filebno True s) (\<lambda>diskbno s1. do {
       (blk, isnew, s2) \<leftarrow> read_block diskbno s1;
       Some (Inr blk, s2)
     })"

definition file_dirty :: "nat \<Rightarrow> nat \<Rightarrow> fs \<Rightarrow> ((kerr + unit) \<times> fs) option" where
  "file_dirty f offset s =
     ok_then (file_map_block f (offset div BY2BLK) False s) (\<lambda>diskbno s1. dirty_block diskbno s1)"

section \<open>Directories\<close>

fun find_name :: "nat list \<Rightarrow> nat \<Rightarrow> u8 list \<Rightarrow> mem \<Rightarrow> nat option" where
  "find_name [] blk name m = None"
| "find_name (j # js) blk name m =
     (if str_eq m (blk + j * BY2FILE) name then Some (blk + j * BY2FILE)
      else find_name js blk name m)"

fun dir_lookup_in :: "nat list \<Rightarrow> nat \<Rightarrow> u8 list \<Rightarrow> fs \<Rightarrow> ((kerr + nat) \<times> fs) option" where
  "dir_lookup_in [] dir name s = Some (Inl E_NOT_FOUND, s)"
| "dir_lookup_in (i # is) dir name s =
     ok_then (file_get_block dir i s) (\<lambda>blk s1.
       case find_name [0..<FILE2BLK] blk name (fmem s1) of
         Some f \<Rightarrow> Some (Inr f, st (f_dir_at f) (word_of_nat dir) s1)
       | None \<Rightarrow> dir_lookup_in is dir name s1)"

definition dir_lookup :: "nat \<Rightarrow> u8 list \<Rightarrow> fs \<Rightarrow> ((kerr + nat) \<times> fs) option" where
  "dir_lookup dir name s = dir_lookup_in [0..<f_size dir s div BY2BLK] dir name s"

fun find_unused :: "nat list \<Rightarrow> nat \<Rightarrow> mem \<Rightarrow> nat option" where
  "find_unused [] blk m = None"
| "find_unused (j # js) blk m =
     (if m (blk + j * BY2FILE) = 0 then Some (blk + j * BY2FILE) else find_unused js blk m)"

fun dir_alloc_in :: "nat list \<Rightarrow> nat \<Rightarrow> fs \<Rightarrow> ((kerr + nat option) \<times> fs) option" where
  "dir_alloc_in [] dir s = Some (Inr None, s)"
| "dir_alloc_in (i # is) dir s =
     ok_then (file_get_block dir i s) (\<lambda>blk s1.
       case find_unused [0..<FILE2BLK] blk (fmem s1) of
         Some f \<Rightarrow> Some (Inr (Some f), s1)
       | None \<Rightarrow> dir_alloc_in is dir s1)"

definition dir_alloc_file :: "nat \<Rightarrow> fs \<Rightarrow> ((kerr + nat) \<times> fs) option" where
  "dir_alloc_file dir s =
     (let nblock = f_size dir s div BY2BLK
      in ok_then (dir_alloc_in [0..<nblock] dir s) (\<lambda>r s1.
           case r of
             Some f \<Rightarrow> Some (Inr f, s1)
           | None \<Rightarrow>
               file_get_block dir nblock
                 (st (f_size_at dir) (ld (f_size_at dir) s1 + word_of_nat BY2BLK) s1)))"

section \<open>Paths\<close>

definition skip_slash :: "u8 list \<Rightarrow> u8 list" where
  "skip_slash p = dropWhile (\<lambda>c. c = 47) p"

text \<open>The results: the return value with \<^verbatim>\<open>*pfile\<close>, \<^verbatim>\<open>*pdir\<close> (0 for null) and what was copied
  to \<^verbatim>\<open>lastelem\<close>.\<close>

type_synonym walk_result = "(kerr + nat) \<times> nat \<times> u8 list option"

lemma skip_elem_shorter:
  "path \<noteq> [] \<Longrightarrow> length (skip_slash (dropWhile (\<lambda>c. c \<noteq> 47) path)) < length path"
proof (cases path)
  case (Cons c cs)
  have "length (skip_slash (dropWhile (\<lambda>c. c \<noteq> 47) cs)) \<le> length cs"
    unfolding skip_slash_def by (meson length_dropWhile_le order_trans)
  moreover have "length (dropWhile (\<lambda>c. c = 47) cs) \<le> length cs" by (rule length_dropWhile_le)
  ultimately show ?thesis using Cons by (auto simp: skip_slash_def)
qed simp

function walk_loop :: "u8 list \<Rightarrow> nat \<Rightarrow> nat \<Rightarrow> fs \<Rightarrow> (walk_result \<times> fs) option" where
  "walk_loop path file dir s =
     (if path = [] then Some ((Inr file, dir, None), s)
      else
        let name = takeWhile (\<lambda>c. c \<noteq> 47) path;
            rest = skip_slash (dropWhile (\<lambda>c. c \<noteq> 47) path)
        in if MAXNAMELEN \<le> length name then Some ((Inl E_BAD_PATH, 0, None), s)
           else if ld (f_type_at file) s \<noteq> FTYPE_DIR then Some ((Inl E_NOT_FOUND, 0, None), s)
           else case dir_lookup file name s of
               None \<Rightarrow> None
             | Some (Inl e, s1) \<Rightarrow>
                 if e = E_NOT_FOUND \<and> rest = [] then Some ((Inl e, file, Some name), s1)
                 else Some ((Inl e, 0, None), s1)
             | Some (Inr f, s1) \<Rightarrow> walk_loop rest f file s1)"
  by auto
termination
  by (relation "measure (\<lambda>(path, file, dir, s). length path)") (simp_all add: skip_elem_shorter)

declare walk_loop.simps [simp del]

definition walk_path :: "u8 list \<Rightarrow> fs \<Rightarrow> (walk_result \<times> fs) option" where
  "walk_path path s =
     (if super s = 0 then None else walk_loop (skip_slash path) (s_root_at (super s)) 0 s)"

definition file_open :: "u8 list \<Rightarrow> fs \<Rightarrow> ((kerr + nat) \<times> fs) option" where
  "file_open path s = do {
     (res, s1) \<leftarrow> walk_path path s;
     Some (fst res, s1)
   }"

definition file_create :: "u8 list \<Rightarrow> fs \<Rightarrow> ((kerr + nat) \<times> fs) option" where
  "file_create path s = do {
     ((r, dir, lastelem), s1) \<leftarrow> walk_path path s;
     case r of
       Inr _ \<Rightarrow> Some (Inl E_FILE_EXISTS, s1)
     | Inl e \<Rightarrow>
         if e \<noteq> E_NOT_FOUND \<or> dir = 0 then Some (Inl e, s1)
         else do {
           (rf, s2) \<leftarrow> dir_alloc_file dir s1;
           case rf of
             Inl _ \<Rightarrow> Some (Inl e, s2)
           | Inr f \<Rightarrow> do {
               name \<leftarrow> lastelem;
               Some (Inr f, s2\<lparr>fmem := write_str f name (fmem s2)\<rparr>)
             }
         }
   }"

section \<open>Size, flush and removal\<close>

fun clear_blocks :: "nat list \<Rightarrow> nat \<Rightarrow> fs \<Rightarrow> fs option" where
  "clear_blocks [] f s = Some s"
| "clear_blocks (b # bs) f s = do {
     (r, s1) \<leftarrow> file_clear_block f b s;
     clear_blocks bs f s1
   }"

definition file_truncate :: "nat \<Rightarrow> u32 \<Rightarrow> fs \<Rightarrow> fs option" where
  "file_truncate f newsize s =
     (let old_nblocks = f_size f s div BY2BLK + 1;
          new_nblocks = (if newsize = 0 then 0 else unat newsize div BY2BLK + 1)
      in do {
           s1 \<leftarrow> clear_blocks [new_nblocks..<old_nblocks] f s;
           s2 \<leftarrow> (if new_nblocks \<le> NDIRECT \<and> ld (f_indirect_at f) s1 \<noteq> 0 then do {
                    s2 \<leftarrow> free_block (unat (ld (f_indirect_at f) s1)) s1;
                    Some (st (f_indirect_at f) 0 s2)
                  }
                  else Some s1);
           Some (st (f_size_at f) newsize s2)
         })"

fun flush_blocks :: "nat list \<Rightarrow> nat \<Rightarrow> fs \<Rightarrow> fs option" where
  "flush_blocks [] f s = Some s"
| "flush_blocks (b # bs) f s = do {
     (r, s1) \<leftarrow> file_map_block f b False s;
     case r of
       Inl _ \<Rightarrow> flush_blocks bs f s1
     | Inr diskno \<Rightarrow> do {
         dirty \<leftarrow> block_is_dirty diskno s1;
         s2 \<leftarrow> (if dirty then write_block diskno s1 else Some s1);
         flush_blocks bs f s2
       }
   }"

definition file_flush :: "nat \<Rightarrow> fs \<Rightarrow> fs option" where
  "file_flush f s = flush_blocks [0..<f_size f s div BY2BLK + 1] f s"

definition flush_dir :: "nat \<Rightarrow> fs \<Rightarrow> fs option" where
  "flush_dir f s =
     (if ld (f_dir_at f) s \<noteq> 0 then file_flush (unat (ld (f_dir_at f) s)) s else Some s)"

definition file_set_size :: "nat \<Rightarrow> u32 \<Rightarrow> fs \<Rightarrow> fs option" where
  "file_set_size f newsize s = do {
     s1 \<leftarrow> (if unat newsize < f_size f s then file_truncate f newsize s else Some s);
     flush_dir f (st (f_size_at f) newsize s1)
   }"

fun sync_blocks :: "nat list \<Rightarrow> fs \<Rightarrow> fs option" where
  "sync_blocks [] s = Some s"
| "sync_blocks (b # bs) s = do {
     dirty \<leftarrow> block_is_dirty b s;
     s1 \<leftarrow> (if dirty then write_block b s else Some s);
     sync_blocks bs s1
   }"

definition fs_sync :: "fs \<Rightarrow> fs option" where
  "fs_sync s = (if super s = 0 then None else sync_blocks [0..<s_nblocks s] s)"

definition file_close :: "nat \<Rightarrow> fs \<Rightarrow> fs option" where
  "file_close f s = do {
     s1 \<leftarrow> file_flush f s;
     flush_dir f s1
   }"

definition file_remove :: "u8 list \<Rightarrow> fs \<Rightarrow> ((kerr + unit) \<times> fs) option" where
  "file_remove path s = do {
     ((r, dir, lastelem), s1) \<leftarrow> walk_path path s;
     case r of
       Inl e \<Rightarrow> Some (Inl e, s1)
     | Inr f \<Rightarrow> do {
         s2 \<leftarrow> file_truncate f 0 s1;
         s3 \<leftarrow> file_flush f (s2\<lparr>fmem := (fmem s2)(f := 0)\<rparr>);
         s4 \<leftarrow> flush_dir f s3;
         Some (Inr (), s4)
       }
   }"

section \<open>Paths are lists of elements\<close>

fun split_slash :: "u8 list \<Rightarrow> u8 list list" where
  "split_slash [] = [[]]"
| "split_slash (c # cs) =
     (if c = 47 then [] # split_slash cs
      else (case split_slash cs of x # xs \<Rightarrow> (c # x) # xs | [] \<Rightarrow> [[c]]))"

definition path_elems :: "u8 list \<Rightarrow> u8 list list" where
  "path_elems p = filter (\<lambda>x. x \<noteq> []) (split_slash p)"

text \<open>The walk over the elements: the specification of \<^verbatim>\<open>walk_path\<close>.\<close>

fun walk_elems :: "u8 list list \<Rightarrow> nat \<Rightarrow> nat \<Rightarrow> fs \<Rightarrow> (walk_result \<times> fs) option" where
  "walk_elems [] file dir s = Some ((Inr file, dir, None), s)"
| "walk_elems (name # names) file dir s =
     (if MAXNAMELEN \<le> length name then Some ((Inl E_BAD_PATH, 0, None), s)
      else if ld (f_type_at file) s \<noteq> FTYPE_DIR then Some ((Inl E_NOT_FOUND, 0, None), s)
      else case dir_lookup file name s of
          None \<Rightarrow> None
        | Some (Inl e, s1) \<Rightarrow>
            if e = E_NOT_FOUND \<and> names = [] then Some ((Inl e, file, Some name), s1)
            else Some ((Inl e, 0, None), s1)
        | Some (Inr f, s1) \<Rightarrow> walk_elems names f file s1)"

lemma split_slash_nonempty [simp]: "split_slash p \<noteq> []"
  by (cases p) (auto split: list.splits)

lemma path_elems_slash [simp]: "path_elems (47 # p) = path_elems p"
  by (simp add: path_elems_def)

lemma path_elems_skip [simp]: "path_elems (skip_slash p) = path_elems p"
  by (induction p) (auto simp: skip_slash_def)

lemma split_slash_elem:
  "split_slash p = takeWhile (\<lambda>c. c \<noteq> 47) p
     # (case dropWhile (\<lambda>c. c \<noteq> 47) p of [] \<Rightarrow> [] | _ # r \<Rightarrow> split_slash r)"
  by (induction p) (auto split: list.splits)

lemma path_elems_step:
  assumes "p \<noteq> []" and "hd p \<noteq> 47"
  shows "path_elems p = takeWhile (\<lambda>c. c \<noteq> 47) p # path_elems (dropWhile (\<lambda>c. c \<noteq> 47) p)"
proof -
  have "takeWhile (\<lambda>c. c \<noteq> 47) p \<noteq> []" using assms by (cases p) auto
  moreover have "path_elems (dropWhile (\<lambda>c. c \<noteq> 47) p)
      = filter (\<lambda>x. x \<noteq> []) (case dropWhile (\<lambda>c. c \<noteq> 47) p of [] \<Rightarrow> [] | _ # r \<Rightarrow> split_slash r)"
  proof (cases "dropWhile (\<lambda>c. c \<noteq> 47) p")
    case (Cons c r)
    then have "c = 47" using hd_dropWhile [of "\<lambda>c. c \<noteq> 47" p] by simp
    then show ?thesis using Cons by (simp add: path_elems_def)
  next
    case Nil
    then show ?thesis unfolding Nil by (simp add: path_elems_def)
  qed
  ultimately show ?thesis by (subst path_elems_def, subst split_slash_elem) simp
qed

lemma skip_slash_head: "skip_slash p \<noteq> [] \<Longrightarrow> hd (skip_slash p) \<noteq> 47"
  unfolding skip_slash_def using hd_dropWhile [of "\<lambda>c. c = 47" p] by blast

lemma path_elems_Nil: "skip_slash p = [] \<Longrightarrow> path_elems p = []"
  by (subst path_elems_skip [symmetric]) (simp add: path_elems_def)

lemma path_elems_eq_Nil: "path_elems p = [] \<longleftrightarrow> skip_slash p = []"
  using path_elems_Nil path_elems_step [OF _ skip_slash_head, of p] path_elems_skip [of p] by fastforce

lemma walk_loop_elems:
  "path = [] \<or> hd path \<noteq> 47 \<Longrightarrow> walk_loop path file dir s = walk_elems (path_elems path) file dir s"
proof (induction path "file" dir s rule: walk_loop.induct)
  case (1 path "file" dir s)
  show ?case
  proof (cases "path = []")
    case True
    then show ?thesis by (subst walk_loop.simps) (simp add: path_elems_def)
  next
    case False
    let ?name = "takeWhile (\<lambda>c. c \<noteq> 47) path"
    let ?rest = "skip_slash (dropWhile (\<lambda>c. c \<noteq> 47) path)"
    have el: "path_elems path = ?name # path_elems ?rest"
      using False 1(2) path_elems_step [of path] by simp
    have hd: "?rest = [] \<or> hd ?rest \<noteq> 47" using skip_slash_head by blast
    show ?thesis
      unfolding el
      using False 1(1) [OF False refl refl _ _ _ _ _ hd]
      by (subst walk_loop.simps) (simp add: path_elems_eq_Nil Let_def split: option.splits sum.splits)
  qed
qed

text \<open>C19: Path resolution. \<^verbatim>\<open>walk_path\<close> is the walk over the nonempty elements of the path: it
  always ends, leading, repeated and trailing slashes do not matter, and \<^verbatim>\<open>pdir\<close> with
  \<^verbatim>\<open>lastelem\<close> are delivered exactly when only the last element is missing.\<close>

theorem walk_path_elems:
  assumes "super s \<noteq> 0"
  shows "walk_path path s = walk_elems (path_elems path) (s_root_at (super s)) 0 s"
proof -
  have "skip_slash path = [] \<or> hd (skip_slash path) \<noteq> 47" using skip_slash_head by blast
  from walk_loop_elems [OF this] show ?thesis using assms by (simp add: walk_path_def)
qed

text \<open>The path \<^verbatim>\<open>//a/\<close>, in a file system whose root directory is empty, stops at the root.\<close>

definition empty_root :: fs where
  "empty_root = demo_fs\<lparr>fmem := put_word (f_type_at 0x10001008) FTYPE_DIR (fmem demo_fs)\<rparr>"

theorem walk_path_elems_witness:
  "walk_path [47, 47, 97, 47] empty_root = Some ((Inl E_NOT_FOUND, 0x10001008, Some [97]), empty_root)"
proof -
  have "walk_path [47, 47, 97, 47] empty_root
      = walk_elems (path_elems [47, 47, 97, 47]) (s_root_at (super empty_root)) 0 empty_root"
    by (rule walk_path_elems) (simp add: empty_root_def demo_fs_def)
  moreover have "f_size 0x10001008 empty_root = 0"
    by (simp add: f_size_def empty_root_def demo_fs_def ld_def rd32_put_word_other fs_defs)
      (simp add: rd32_def word_of_bytes_def put_word_def)
  ultimately show ?thesis
    by (simp add: path_elems_def dir_lookup_def empty_root_def demo_fs_def ld_def fs_defs)
qed

end
