(* ===== verification/Mkfs.thy ===== *)
theory Mkfs
  imports FsMount FsFile
begin

text \<open>
  The host tool that makes the disk image (\<^verbatim>\<open>tools/fsformat.c\<close>), on a little-endian host as
  \<^verbatim>\<open>CONFIG_REVERSE_ENDIAN\<close> is not set there. The array \<^verbatim>\<open>disk\<close> and the variable \<^verbatim>\<open>super\<close> are one
  memory: the data of block \<^verbatim>\<open>b\<close> start at \<^verbatim>\<open>b * BY2BLK\<close>, \<^verbatim>\<open>super\<close> follows the last block. A
  \<^verbatim>\<open>struct File *\<close> is an address in it. The files of the host are the input. \<open>None\<close> is a failed
  assertion, an exit with an error or an access outside of \<^verbatim>\<open>disk\<close>.
\<close>

section \<open>The image\<close>

datatype block_type = BLOCK_FREE | BLOCK_BOOT | BLOCK_BMAP | BLOCK_SUPER | BLOCK_DATA | BLOCK_FILE | BLOCK_INDEX

definition NBLOCK :: nat where "NBLOCK = 1024"

record img =
  idata :: mem
  itype :: "nat \<Rightarrow> block_type"
  nbitblock :: nat
  nextbno :: nat

definition super_at :: nat where "super_at = NBLOCK * BY2BLK"

definition blank_img :: img where
  "blank_img = \<lparr>idata = (\<lambda>_. 0), itype = (\<lambda>_. BLOCK_FREE), nbitblock = 0, nextbno = 0\<rparr>"

definition ild :: "nat \<Rightarrow> img \<Rightarrow> u32" where
  "ild a i = rd32 (idata i) a"

definition ist :: "nat \<Rightarrow> u32 \<Rightarrow> img \<Rightarrow> img" where
  "ist a w i = i\<lparr>idata := put_word a w (idata i)\<rparr>"

definition set_type :: "nat \<Rightarrow> block_type \<Rightarrow> img \<Rightarrow> img" where
  "set_type b t i = i\<lparr>itype := (itype i)(b := t)\<rparr>"

section \<open>Operations\<close>

definition init_bmap :: "nat \<Rightarrow> img \<Rightarrow> img" where
  "init_bmap k i =
     (set_type (2 + k) BLOCK_BMAP i)\<lparr>idata := filled ((2 + k) * BY2BLK) BY2BLK 0xFF (idata i)\<rparr>"

definition init_disk :: "img \<Rightarrow> img" where
  "init_disk i =
     (let nb = NBLOCK div BIT2BLK + (if NBLOCK mod BIT2BLK \<noteq> 0 then 1 else 0);
          i1 = (set_type 0 BLOCK_BOOT i)\<lparr>nbitblock := nb, nextbno := 2 + nb\<rparr>;
          i2 = fold init_bmap [0..<nb] i1;
          i3 = (if NBLOCK \<noteq> nb * BIT2BLK then
                  let diff = NBLOCK mod BIT2BLK div 8
                  in i2\<lparr>idata := filled ((2 + (nb - 1)) * BY2BLK + diff) (BY2BLK - diff) 0 (idata i2)\<rparr>
                else i2);
          i4 = ist super_at FS_MAGIC (set_type 1 BLOCK_SUPER i3);
          i5 = ist (super_at + 4) (word_of_nat NBLOCK) i4;
          i6 = ist (f_type_at (s_root_at super_at)) FTYPE_DIR i5
      in i6\<lparr>idata := write_str (s_root_at super_at) [47] (idata i6)\<rparr>)"

definition next_block :: "block_type \<Rightarrow> img \<Rightarrow> (nat \<times> img) option" where
  "next_block t i =
     (if nextbno i < NBLOCK
      then Some (nextbno i, (set_type (nextbno i) t i)\<lparr>nextbno := nextbno i + 1\<rparr>) else None)"

definition flush_bit :: "nat \<Rightarrow> img \<Rightarrow> img" where
  "flush_bit b i =
     (let a = (2 + b div BIT2BLK) * BY2BLK + 4 * (b mod BIT2BLK div 32)
      in ist a (ild a i AND NOT (push_bit (b mod 32) 1)) i)"

definition flush_bitmap :: "img \<Rightarrow> img" where
  "flush_bitmap i = fold flush_bit [0..<nextbno i] i"

text \<open>The contents of the image file; \<^verbatim>\<open>sizeof(super)\<close> is 264.\<close>

definition finish_fs :: "img \<Rightarrow> mem" where
  "finish_fs i =
     (let m = copied (1 * BY2BLK) super_at 264 (idata i)
      in (\<lambda>a. if a < NBLOCK * BY2BLK then m a else 0))"

definition save_block_link :: "nat \<Rightarrow> nat \<Rightarrow> nat \<Rightarrow> img \<Rightarrow> img option" where
  "save_block_link f nblk bno i =
     (if \<not> nblk < NINDIRECT then None
      else if nblk < NDIRECT then Some (ist (f_direct_at f nblk) (word_of_nat bno) i)
      else do {
        i1 \<leftarrow> (if ild (f_indirect_at f) i = 0 then do {
                  (b, i1) \<leftarrow> next_block BLOCK_INDEX i;
                  Some (ist (f_indirect_at f) (word_of_nat b) i1)
                }
                else Some i);
        Some (ist (unat (ild (f_indirect_at f) i1) * BY2BLK + 4 * nblk) (word_of_nat bno) i1)
      })"

definition make_link_block :: "nat \<Rightarrow> nat \<Rightarrow> img \<Rightarrow> (nat \<times> img) option" where
  "make_link_block dirf nblk i = do {
     (bno, i1) \<leftarrow> next_block BLOCK_FILE i;
     i2 \<leftarrow> save_block_link dirf nblk bno i1;
     Some (bno, ist (f_size_at dirf) (ild (f_size_at dirf) i2 + word_of_nat BY2BLK) i2)
   }"

text \<open>The address of the first unused \<^verbatim>\<open>struct File\<close> in the blocks of the directory.\<close>

definition link_of :: "nat \<Rightarrow> nat \<Rightarrow> mem \<Rightarrow> nat" where
  "link_of dirf k m =
     unat (if k < NDIRECT then rd32 m (f_direct_at dirf k)
           else rd32 m (unat (rd32 m (f_indirect_at dirf)) * BY2BLK + 4 * k))"

fun first_unused :: "nat list \<Rightarrow> nat \<Rightarrow> mem \<Rightarrow> nat option" where
  "first_unused [] dirf m = None"
| "first_unused (k # ks) dirf m =
     (case find_unused [0..<FILE2BLK] (link_of dirf k m * BY2BLK) m of
        Some f \<Rightarrow> Some f
      | None \<Rightarrow> first_unused ks dirf m)"

definition create_file :: "nat \<Rightarrow> img \<Rightarrow> (nat \<times> img) option" where
  "create_file dirf i =
     (let nblk = unat (ild (f_size_at dirf) i) div BY2BLK
      in case first_unused [0..<nblk] dirf (idata i) of
           Some f \<Rightarrow> Some (f, i)
         | None \<Rightarrow> do {
             (bno, i1) \<leftarrow> make_link_block dirf nblk i;
             Some (bno * BY2BLK, i1)
           })"

text \<open>\<^verbatim>\<open>read\<close> copies the next block of the input; the block is taken only if something was read.\<close>

function write_blocks :: "nat \<Rightarrow> nat \<Rightarrow> u8 list \<Rightarrow> img \<Rightarrow> img option" where
  "write_blocks f k bs i =
     (if bs = [] then Some i
      else if NBLOCK \<le> nextbno i then None
      else do {
        let i1 = i\<lparr>idata := put_bytes (nextbno i * BY2BLK) (take BY2BLK bs) (idata i)\<rparr>;
        (bno, i2) \<leftarrow> next_block BLOCK_DATA i1;
        i3 \<leftarrow> save_block_link f k bno i2;
        write_blocks f (k + 1) (drop BY2BLK bs) i3
      })"
  by auto
termination by (relation "measure (\<lambda>(f, k, bs, i). length bs)") (auto simp: BY2BLK_def)

declare write_blocks.simps [simp del]

definition after_slash :: "u8 list \<Rightarrow> u8 list" where
  "after_slash path = rev (takeWhile (\<lambda>c. c \<noteq> 47) (rev path))"

definition write_file :: "nat \<Rightarrow> u8 list \<Rightarrow> u8 list \<Rightarrow> img \<Rightarrow> img option" where
  "write_file dirf path content i = do {
     (f, i1) \<leftarrow> create_file dirf i;
     let i2 = i1\<lparr>idata := write_str f (after_slash path) (idata i1)\<rparr>;
     let i3 = ist (f_size_at f) (word_of_nat (length content)) i2;
     write_blocks f 0 content (ist (f_type_at f) FTYPE_REG i3)
   }"

text \<open>The entries of a host directory, without \<^verbatim>\<open>.\<close> and \<^verbatim>\<open>..\<close>; \<^verbatim>\<open>basename\<close> ignores trailing
  slashes. \<^verbatim>\<open>strncpy\<close> pads with zeros.\<close>

datatype hnode = HFile "u8 list" | HDir "(u8 list \<times> hnode) list"

definition basename :: "u8 list \<Rightarrow> u8 list" where
  "basename p = (if p = [] then [46]
     else let q = dropWhile (\<lambda>c. c = 47) (rev p)
          in if q = [] then [47] else rev (takeWhile (\<lambda>c. c \<noteq> 47) q))"

definition put_dir_name :: "nat \<Rightarrow> u8 list \<Rightarrow> mem \<Rightarrow> mem" where
  "put_dir_name f name m =
     put_bytes f (take (MAXNAMELEN - 1) name @ replicate (MAXNAMELEN - 1 - length name) 0) m"

fun write_node :: "hnode \<Rightarrow> nat \<Rightarrow> u8 list \<Rightarrow> img \<Rightarrow> img option"
and write_nodes :: "(u8 list \<times> hnode) list \<Rightarrow> nat \<Rightarrow> u8 list \<Rightarrow> img \<Rightarrow> img option" where
  "write_node (HFile content) dirf path i = write_file dirf path content i"
| "write_node (HDir es) dirf path i = do {
     (f, i1) \<leftarrow> create_file dirf i;
     let i2 = i1\<lparr>idata := put_dir_name f (basename path) (idata i1)\<rparr>;
     if idata i2 (f + (MAXNAMELEN - 1)) \<noteq> 0 then None
     else write_nodes es f path (ist (f_type_at f) FTYPE_DIR i2)
   }"
| "write_nodes [] f path i = Some i"
| "write_nodes ((name, e) # es) f path i = do {
     i1 \<leftarrow> write_node e f (path @ 47 # name) i;
     write_nodes es f path i1
   }"

fun write_args :: "(u8 list \<times> hnode) list \<Rightarrow> img \<Rightarrow> img option" where
  "write_args [] i = Some i"
| "write_args ((name, e) # es) i = do {
     i1 \<leftarrow> write_node e (s_root_at super_at) name i;
     write_args es i1
   }"

definition fsformat :: "(u8 list \<times> hnode) list \<Rightarrow> mem option" where
  "fsformat args =
     (if args = [] then None
      else do {
        i \<leftarrow> write_args args (init_disk blank_img);
        Some (finish_fs (flush_bitmap i))
      })"

section \<open>Reading memory that has changed elsewhere\<close>

lemma img_simps [simp]:
  "idata (set_type b t i) = idata i" "nextbno (set_type b t i) = nextbno i"
  "idata (ist a w i) = put_word a w (idata i)" "nextbno (ist a w i) = nextbno i"
  "ild a i = rd32 (idata i) a"
  by (simp_all add: set_type_def ist_def ild_def)

lemma rd32_same: "(\<And>x. a \<le> x \<Longrightarrow> x < a + 4 \<Longrightarrow> m' x = m x) \<Longrightarrow> rd32 m' a = rd32 m a"
  by (simp add: rd32_def)

text \<open>The state after a block has been taken.\<close>

lemma next_block_room:
  "nextbno i < NBLOCK \<Longrightarrow>
     next_block t i = Some (nextbno i, (set_type (nextbno i) t i)\<lparr>nextbno := nextbno i + 1\<rparr>)"
  by (simp add: next_block_def)

section \<open>The blocks of one file\<close>

text \<open>The blocks that file \<open>f\<close> leads to from block \<open>k\<close> on hold the bytes \<open>bs\<close>. All of them are in \<open>B\<close>.\<close>

definition holds_bytes :: "nat \<Rightarrow> nat \<Rightarrow> u8 list \<Rightarrow> nat set \<Rightarrow> mem \<Rightarrow> bool" where
  "holds_bytes f k bs B m \<longleftrightarrow>
     (\<forall>j. j * BY2BLK < length bs \<longrightarrow> link_of f (k + j) m \<in> B
       \<and> (\<forall>x < BY2BLK. j * BY2BLK + x < length bs
             \<longrightarrow> m (link_of f (k + j) m * BY2BLK + x) = bs ! (j * BY2BLK + x)))"

text \<open>What writing from block \<open>k\<close> on may change: the remaining pointers of \<open>f\<close>, the remaining words
  of its indirect block, and fresh blocks.\<close>

definition may_write :: "nat \<Rightarrow> nat \<Rightarrow> img \<Rightarrow> nat \<Rightarrow> bool" where
  "may_write f k i a \<longleftrightarrow>
     f_direct_at f k \<le> a \<and> a < f_indirect_at f
   \<or> k \<le> NDIRECT \<and> f_indirect_at f \<le> a \<and> a < f_indirect_at f + 4
   \<or> NDIRECT < k \<and> unat (ild (f_indirect_at f) i) * BY2BLK + 4 * k \<le> a
       \<and> a < (unat (ild (f_indirect_at f) i) + 1) * BY2BLK
   \<or> nextbno i * BY2BLK \<le> a \<and> a < super_at"

definition nblocks_of :: "u8 list \<Rightarrow> nat" where
  "nblocks_of bs = (length bs + (BY2BLK - 1)) div BY2BLK"

text \<open>The blocks taken when the blocks from \<open>k\<close> up to \<open>k + n\<close> are written.\<close>

definition taken_blocks :: "nat \<Rightarrow> nat \<Rightarrow> nat" where
  "taken_blocks k n = n + (if k \<le> NDIRECT \<and> NDIRECT < k + n then 1 else 0)"

lemma nblocks_of_step: "bs \<noteq> [] \<Longrightarrow> nblocks_of bs = Suc (nblocks_of (drop BY2BLK bs))"
proof -
  assume "bs \<noteq> []"
  then have l: "0 < length bs" by simp
  show ?thesis
  proof (cases "length bs \<le> BY2BLK")
    case True
    then have "nblocks_of bs = 1"
      using l unfolding nblocks_of_def BY2BLK_def by (intro div_nat_eqI) (simp_all add: Suc_le_eq del: length_greater_0_conv)
    then show ?thesis using True by (simp add: nblocks_of_def BY2BLK_def)
  next
    case False
    then have "length bs + (BY2BLK - 1) = BY2BLK + (length (drop BY2BLK bs) + (BY2BLK - 1))"
      by simp
    then show ?thesis by (simp add: nblocks_of_def BY2BLK_def)
  qed
qed

lemma nblocks_of_Nil [simp]: "nblocks_of [] = 0"
  by (simp add: nblocks_of_def BY2BLK_def)

text \<open>Recording one block: the pointer is set, the indirect block made when the first pointer beyond
  the direct ones is needed.\<close>

definition ind_ok :: "nat \<Rightarrow> nat \<Rightarrow> img \<Rightarrow> bool" where
  "ind_ok f k i \<longleftrightarrow>
     (if k \<le> NDIRECT then ild (f_indirect_at f) i = 0
      else f + BY2FILE \<le> unat (ild (f_indirect_at f) i) * BY2BLK \<and> unat (ild (f_indirect_at f) i) < nextbno i)"

lemma unat_small: "n < NBLOCK \<Longrightarrow> unat (word_of_nat n :: u32) = n"
  by (simp add: NBLOCK_def unat_of_nat)

lemma put_word_same: "a' < a \<or> a + 4 \<le> a' \<Longrightarrow> put_word a w m a' = m a'"
  by (rule put_word_outside) auto

lemma save_link_direct:
  assumes "k < NDIRECT" and "n < NBLOCK"
  shows "\<exists>i'. save_block_link f k n i = Some i' \<and> nextbno i' = nextbno i
    \<and> link_of f k (idata i') = n
    \<and> (\<forall>a. a < f_direct_at f k \<or> f_direct_at f k + 4 \<le> a \<longrightarrow> idata i' a = idata i a)"
  using assms by (simp add: save_block_link_def fs_defs link_of_def unat_small put_word_same)

lemma save_link_first:
  assumes "ild (f_indirect_at f) i = 0" and "n < NBLOCK" and "nextbno i < NBLOCK"
    and "f + BY2FILE \<le> nextbno i * BY2BLK"
  shows "\<exists>i'. save_block_link f NDIRECT n i = Some i' \<and> nextbno i' = nextbno i + 1
    \<and> link_of f NDIRECT (idata i') = n \<and> unat (rd32 (idata i') (f_indirect_at f)) = nextbno i
    \<and> (\<forall>a. (a < f_indirect_at f \<or> f_indirect_at f + 4 \<le> a)
         \<and> (a < nextbno i * BY2BLK \<or> (nextbno i + 1) * BY2BLK \<le> a) \<longrightarrow> idata i' a = idata i a)"
proof -
  let ?b = "nextbno i" and ?ind = "f_indirect_at f"
  let ?m1 = "put_word ?ind (word_of_nat ?b) (idata i)"
  let ?m = "put_word (?b * BY2BLK + 4 * NDIRECT) (word_of_nat n) ?m1"
  have b: "unat (word_of_nat ?b :: u32) = ?b" using unat_small [OF assms(3)] .
  have ind: "rd32 ?m ?ind = word_of_nat ?b"
    using assms(4) by (subst rd32_put_word_other) (auto simp: fs_defs)
  obtain i' where i': "save_block_link f NDIRECT n i = Some i'" "nextbno i' = ?b + 1" "idata i' = ?m"
    using assms(1) b by (auto simp: save_block_link_def next_block_room [OF assms(3)] NDIRECT_def NINDIRECT_def BY2BLK_def)
  have "link_of f NDIRECT ?m = n"
    using unat_small [OF assms(2)] by (simp only: link_of_def ind b less_irrefl if_False rd32_put_word)
  moreover have "?m a = idata i a"
    if "a < ?ind \<or> ?ind + 4 \<le> a" "a < ?b * BY2BLK \<or> (?b + 1) * BY2BLK \<le> a" for a
  proof -
    have "a < ?b * BY2BLK + 4 * NDIRECT \<or> ?b * BY2BLK + 4 * NDIRECT + 4 \<le> a"
      using that(2) by (auto simp: fs_defs)
    then show ?thesis using that(1) by (simp add: put_word_same)
  qed
  ultimately show ?thesis using i' ind b by auto
qed

lemma save_link_indirect:
  assumes "NDIRECT < k" and "k < NINDIRECT" and "ind_ok f k i" and "n < NBLOCK"
  shows "\<exists>i'. save_block_link f k n i = Some i' \<and> nextbno i' = nextbno i
    \<and> link_of f k (idata i') = n \<and> rd32 (idata i') (f_indirect_at f) = rd32 (idata i) (f_indirect_at f)
    \<and> (\<forall>a. a < unat (ild (f_indirect_at f) i) * BY2BLK + 4 * k
          \<or> unat (ild (f_indirect_at f) i) * BY2BLK + 4 * k + 4 \<le> a \<longrightarrow> idata i' a = idata i a)"
proof -
  let ?ind = "f_indirect_at f"
  let ?q = "unat (rd32 (idata i) ?ind)"
  let ?m = "put_word (?q * BY2BLK + 4 * k) (word_of_nat n) (idata i)"
  have q: "f + BY2FILE \<le> ?q * BY2BLK" using assms(1,3) by (simp add: ind_ok_def)
  then have ind: "rd32 ?m ?ind = rd32 (idata i) ?ind"
    by (subst rd32_put_word_other) (auto simp: fs_defs)
  have "?q \<noteq> 0" using q by (auto simp: fs_defs)
  then have "rd32 (idata i) ?ind \<noteq> 0" by auto
  then obtain i' where i': "save_block_link f k n i = Some i'" "nextbno i' = nextbno i" "idata i' = ?m"
    using assms(1,2) by (auto simp: save_block_link_def)
  have "link_of f k ?m = n"
    using assms(1) unat_small [OF assms(4)] by (simp add: link_of_def ind)
  then show ?thesis using i' ind by (auto simp: put_word_same)
qed

definition link_region :: "nat \<Rightarrow> nat \<Rightarrow> img \<Rightarrow> nat \<Rightarrow> bool" where
  "link_region f k i a \<longleftrightarrow>
     (if k < NDIRECT then f_direct_at f k \<le> a \<and> a < f_direct_at f k + 4
      else if k = NDIRECT then f_indirect_at f \<le> a \<and> a < f_indirect_at f + 4
        \<or> nextbno i * BY2BLK \<le> a \<and> a < (nextbno i + 1) * BY2BLK
      else unat (ild (f_indirect_at f) i) * BY2BLK + 4 * k \<le> a
        \<and> a < unat (ild (f_indirect_at f) i) * BY2BLK + 4 * k + 4)"

lemma save_link:
  assumes "ind_ok f k i" and "k < NINDIRECT" and "n < NBLOCK" and "n < nextbno i"
    and "k = NDIRECT \<Longrightarrow> nextbno i < NBLOCK" and "f + BY2FILE \<le> n * BY2BLK"
  shows "\<exists>i'. save_block_link f k n i = Some i' \<and> nextbno i' = nextbno i + (if k = NDIRECT then 1 else 0)
    \<and> link_of f k (idata i') = n \<and> ind_ok f (Suc k) i'
    \<and> (NDIRECT \<le> k \<longrightarrow> unat (rd32 (idata i') (f_indirect_at f))
          = (if k = NDIRECT then nextbno i else unat (rd32 (idata i) (f_indirect_at f))))
    \<and> (\<forall>a. \<not> link_region f k i a \<longrightarrow> idata i' a = idata i a)"
proof -
  consider "k < NDIRECT" | "k = NDIRECT" | "NDIRECT < k" by linarith
  then show ?thesis
  proof cases
    case 1
    from save_link_direct [OF this assms(3), of f i] obtain i' where
      i': "save_block_link f k n i = Some i'" "nextbno i' = nextbno i" "link_of f k (idata i') = n"
      "\<And>a. a < f_direct_at f k \<or> f_direct_at f k + 4 \<le> a \<Longrightarrow> idata i' a = idata i a" by auto
    have "rd32 (idata i') (f_indirect_at f) = rd32 (idata i) (f_indirect_at f)"
      using 1 by (intro rd32_same i'(4)) (simp add: fs_defs)
    then have "ind_ok f (Suc k) i'" using assms(1) 1 by (simp add: ind_ok_def)
    then show ?thesis using i' 1 by (auto simp: link_region_def)
  next
    case 2
    have le: "n * BY2BLK \<le> nextbno i * BY2BLK" using assms(4) by simp
    then have f: "f + BY2FILE \<le> nextbno i * BY2BLK" using assms(6) by linarith
    from save_link_first [of f i n] 2 assms(1,3,5) f obtain i' where
      i': "save_block_link f k n i = Some i'" "nextbno i' = nextbno i + 1" "link_of f k (idata i') = n"
      "unat (rd32 (idata i') (f_indirect_at f)) = nextbno i"
      "\<forall>a. (a < f_indirect_at f \<or> f_indirect_at f + 4 \<le> a)
         \<and> (a < nextbno i * BY2BLK \<or> (nextbno i + 1) * BY2BLK \<le> a) \<longrightarrow> idata i' a = idata i a"
      by (auto simp: ind_ok_def)
    have "idata i' a = idata i a" if "\<not> link_region f k i a" for a
      using that 2 i'(5) by (simp add: link_region_def not_le not_less)
    moreover have "ind_ok f (Suc k) i'" using i' 2 f by (simp add: ind_ok_def)
    ultimately show ?thesis using i' 2 by auto
  next
    case 3
    from save_link_indirect [OF this assms(2,1,3)] obtain i' where
      i': "save_block_link f k n i = Some i'" "nextbno i' = nextbno i" "link_of f k (idata i') = n"
      "rd32 (idata i') (f_indirect_at f) = rd32 (idata i) (f_indirect_at f)"
      "\<forall>a. a < unat (ild (f_indirect_at f) i) * BY2BLK + 4 * k
          \<or> unat (ild (f_indirect_at f) i) * BY2BLK + 4 * k + 4 \<le> a \<longrightarrow> idata i' a = idata i a"
      by blast
    have "idata i' a = idata i a" if "\<not> link_region f k i a" for a
      using that 3 i'(5) by (auto simp: link_region_def not_le not_less)
    moreover have "ind_ok f (Suc k) i'" using 3 i' assms(1) by (simp add: ind_ok_def)
    ultimately show ?thesis using i' 3 by auto
  qed
qed

text \<open>Writing a file: with room on the disk it succeeds, takes the blocks counted and no more,
  changes only what it may, and the blocks then hold the bytes.\<close>

text \<open>One round of the loop: what it takes, what it changes, and what the rest of the loop leaves.\<close>

definition round_ok :: "nat \<Rightarrow> nat \<Rightarrow> u8 list \<Rightarrow> img \<Rightarrow> img \<Rightarrow> bool" where
  "round_ok f k bs i i3 \<longleftrightarrow>
     nextbno i3 = nextbno i + 1 + (if k = NDIRECT then 1 else 0) \<and> ind_ok f (Suc k) i3
   \<and> (\<forall>a. \<not> may_write f k i a \<or> nextbno i3 * BY2BLK \<le> a \<longrightarrow> idata i3 a = idata i a)
   \<and> (\<forall>x < length (take BY2BLK bs). idata i3 (nextbno i * BY2BLK + x) = bs ! x)
   \<and> (\<forall>a. may_write f (Suc k) i3 a \<longrightarrow>
          may_write f k i a \<and> \<not> (nextbno i * BY2BLK \<le> a \<and> a < (nextbno i + 1) * BY2BLK))
   \<and> (\<forall>m. (\<forall>a. \<not> may_write f (Suc k) i3 a \<longrightarrow> m a = idata i3 a) \<longrightarrow>
          link_of f k m = nextbno i
        \<and> (k = NDIRECT \<longrightarrow> unat (rd32 m (f_indirect_at f)) = nextbno i + 1))"

lemma write_round:
  assumes "ind_ok f k i" and "k \<le> nextbno i" and "f + BY2FILE \<le> nextbno i * BY2BLK"
    and "nextbno i + taken_blocks k (nblocks_of bs) \<le> NBLOCK" and "bs \<noteq> []"
  shows "\<exists>i3. write_blocks f k bs i = write_blocks f (Suc k) (drop BY2BLK bs) i3 \<and> round_ok f k bs i i3"
proof -
  let ?n = "nextbno i" and ?ind = "f_indirect_at f"
  define c where "c = take BY2BLK bs"
  define r where "r = drop BY2BLK bs"
  have c: "length c \<le> BY2BLK" by (simp add: c_def)
  have nb: "nblocks_of bs = Suc (nblocks_of r)" using nblocks_of_step [OF assms(5)] by (simp add: r_def)
  have tk: "taken_blocks k (nblocks_of bs)
      = 1 + (if k = NDIRECT then 1 else 0) + taken_blocks (Suc k) (nblocks_of r)"
    by (auto simp: taken_blocks_def nb)
  have n: "?n < NBLOCK" and n10: "k = NDIRECT \<Longrightarrow> ?n + 1 < NBLOCK" using assms(4) tk by auto
  define i2 where "i2 = (set_type ?n BLOCK_DATA (i\<lparr>idata := put_bytes (?n * BY2BLK) c (idata i)\<rparr>))\<lparr>nextbno := ?n + 1\<rparr>"
  have i2: "nextbno i2 = ?n + 1" "idata i2 = put_bytes (?n * BY2BLK) c (idata i)"
    by (simp_all add: i2_def)
  have i2_out: "idata i2 a = idata i a" if "a < ?n * BY2BLK \<or> (?n + 1) * BY2BLK \<le> a" for a
    using that c by (auto simp: i2 put_bytes_simps)
  have ind2: "rd32 (idata i2) ?ind = rd32 (idata i) ?ind"
    using assms(3) by (intro rd32_same i2_out) (auto simp: fs_defs)
  have "ind_ok f k i2" using assms(1) by (auto simp: ind_ok_def ind2 i2(1))
  moreover have "k < NINDIRECT" using assms(2) n by (simp add: NINDIRECT_def BY2BLK_def NBLOCK_def)
  ultimately obtain i3 where i3: "save_block_link f k ?n i2 = Some i3"
    "nextbno i3 = ?n + 1 + (if k = NDIRECT then 1 else 0)" "link_of f k (idata i3) = ?n" "ind_ok f (Suc k) i3"
    "NDIRECT \<le> k \<Longrightarrow> unat (rd32 (idata i3) ?ind) = (if k = NDIRECT then ?n + 1 else unat (rd32 (idata i) ?ind))"
    "\<And>a. \<not> link_region f k i2 a \<Longrightarrow> idata i3 a = idata i2 a"
    using save_link [of f k i2 ?n] n n10 assms(3) by (auto simp: i2(1) ind2)
  define q where "q = unat (rd32 (idata i) ?ind)"
  have q: "NDIRECT < k \<Longrightarrow> f + BY2FILE \<le> q * BY2BLK \<and> q < ?n"
    using assms(1) by (auto simp: ind_ok_def q_def)
  have k: "k < 1024" using assms(2) n by (simp add: NBLOCK_def)
  have mwd: "may_write f k i a \<longleftrightarrow> f_direct_at f k \<le> a \<and> a < ?ind
      \<or> k \<le> NDIRECT \<and> ?ind \<le> a \<and> a < ?ind + 4
      \<or> NDIRECT < k \<and> q * BY2BLK + 4 * k \<le> a \<and> a < (q + 1) * BY2BLK
      \<or> ?n * BY2BLK \<le> a \<and> a < super_at" for a
    by (simp add: may_write_def q_def)
  have lrd: "link_region f k i2 a \<longleftrightarrow>
      (if k < NDIRECT then f_direct_at f k \<le> a \<and> a < f_direct_at f k + 4
       else if k = NDIRECT then ?ind \<le> a \<and> a < ?ind + 4 \<or> (?n + 1) * BY2BLK \<le> a \<and> a < (?n + 2) * BY2BLK
       else q * BY2BLK + 4 * k \<le> a \<and> a < q * BY2BLK + 4 * k + 4)" for a
    by (simp add: link_region_def ind2 i2(1) q_def)
  have lr: "\<not> link_region f k i2 a"
    if "\<not> may_write f k i a \<or> ?n * BY2BLK \<le> a \<and> a < (?n + 1) * BY2BLK \<or> nextbno i3 * BY2BLK \<le> a" for a
    using that q assms(3) n n10 k unfolding mwd lrd
    by (auto simp: i3(2) fs_defs super_at_def NBLOCK_def split: if_splits)
  have mwS: "may_write f (Suc k) i3 a \<longleftrightarrow> f_direct_at f (Suc k) \<le> a \<and> a < ?ind
    \<or> Suc k \<le> NDIRECT \<and> ?ind \<le> a \<and> a < ?ind + 4
    \<or> NDIRECT = k \<and> (?n + 1) * BY2BLK + 4 * Suc k \<le> a \<and> a < (?n + 2) * BY2BLK
    \<or> NDIRECT < k \<and> q * BY2BLK + 4 * Suc k \<le> a \<and> a < (q + 1) * BY2BLK
    \<or> nextbno i3 * BY2BLK \<le> a \<and> a < super_at" for a
  proof -
    consider "k < NDIRECT" | "k = NDIRECT" | "NDIRECT < k" by linarith
    then show ?thesis
    proof cases
      case 1
      then show ?thesis by (simp add: may_write_def)
    next
      case 2
      then show ?thesis using i3(5) by (simp add: may_write_def)
    next
      case 3
      then have "unat (rd32 (idata i3) ?ind) = q" using i3(5) by (simp add: q_def)
      then show ?thesis using 3 by (simp add: may_write_def)
    qed
  qed
  have mw: "\<not> may_write f (Suc k) i3 a"
    if "\<not> may_write f k i a \<or> ?n * BY2BLK \<le> a \<and> a < (?n + 1) * BY2BLK" for a
  proof -
    have "may_write f k i a \<and> \<not> (?n * BY2BLK \<le> a \<and> a < (?n + 1) * BY2BLK)"
      if "f_direct_at f (Suc k) \<le> a \<and> a < ?ind \<or> Suc k \<le> NDIRECT \<and> ?ind \<le> a \<and> a < ?ind + 4"
      using that assms(3) unfolding mwd by (auto simp: fs_defs)
    moreover have "may_write f k i a \<and> \<not> (?n * BY2BLK \<le> a \<and> a < (?n + 1) * BY2BLK)"
      if "NDIRECT = k \<and> (?n + 1) * BY2BLK + 4 * Suc k \<le> a \<and> a < (?n + 2) * BY2BLK"
      using that n10 unfolding mwd by (auto simp: fs_defs super_at_def NBLOCK_def)
    moreover have "may_write f k i a \<and> \<not> (?n * BY2BLK \<le> a \<and> a < (?n + 1) * BY2BLK)"
      if "NDIRECT < k \<and> q * BY2BLK + 4 * Suc k \<le> a \<and> a < (q + 1) * BY2BLK"
      using that q unfolding mwd by (auto simp: fs_defs)
    moreover have "may_write f k i a \<and> \<not> (?n * BY2BLK \<le> a \<and> a < (?n + 1) * BY2BLK)"
      if "nextbno i3 * BY2BLK \<le> a \<and> a < super_at"
      using that unfolding mwd by (auto simp: i3(2) fs_defs split: if_splits)
    ultimately show ?thesis using that mwS by blast
  qed
  have run: "write_blocks f k bs i = write_blocks f (Suc k) r i3"
    using assms(5) n i3(1)
    by (subst write_blocks.simps) (simp add: c_def [symmetric] r_def [symmetric] next_block_def Let_def i2_def)
  have "a < ?n * BY2BLK \<or> (?n + 1) * BY2BLK \<le> a" if "\<not> may_write f k i a \<or> nextbno i3 * BY2BLK \<le> a" for a
    using that n by (auto simp: mwd super_at_def fs_defs NBLOCK_def i3(2) split: if_splits)
  then have fr: "idata i3 a = idata i a" if "\<not> may_write f k i a \<or> nextbno i3 * BY2BLK \<le> a" for a
    using that lr i3(6) i2_out by simp
  have blk: "idata i3 (?n * BY2BLK + x) = bs ! x" if "x < length c" for x
  proof -
    have "?n * BY2BLK \<le> ?n * BY2BLK + x \<and> ?n * BY2BLK + x < (?n + 1) * BY2BLK" using that c by simp
    then show ?thesis using lr i3(6) that by (simp add: i2 put_bytes_simps) (simp add: c_def)
  qed
  have lk: "link_of f k m = ?n \<and> (k = NDIRECT \<longrightarrow> unat (rd32 m ?ind) = ?n + 1)"
    if m: "\<forall>a. \<not> may_write f (Suc k) i3 a \<longrightarrow> m a = idata i3 a" for m
  proof -
    have same: "rd32 m b = rd32 (idata i3) b"
      if "\<And>a. b \<le> a \<Longrightarrow> a < b + 4 \<Longrightarrow> \<not> may_write f (Suc k) i3 a" for b
      using that m by (intro rd32_same) blast
    show ?thesis
    proof (cases "k < NDIRECT")
      case True
      then have "link_of f k m = link_of f k (idata i3)"
        using same [of "f_direct_at f k"] assms(3) by (simp add: link_of_def mwS i3(2) fs_defs)
      then show ?thesis using True by (simp add: i3(3))
    next
      case False
      then have ind: "unat (rd32 (idata i3) ?ind) = (if k = NDIRECT then ?n + 1 else q)"
        using i3(5) by (simp add: q_def)
      have i: "rd32 m ?ind = rd32 (idata i3) ?ind"
        using False assms(3) q by (intro same) (auto simp: mwS i3(2) fs_defs)
      moreover have "rd32 m (unat (rd32 (idata i3) ?ind) * BY2BLK + 4 * k)
          = rd32 (idata i3) (unat (rd32 (idata i3) ?ind) * BY2BLK + 4 * k)"
        unfolding ind using False assms(3) q k by (intro same) (auto simp: mwS i3(2) fs_defs split: if_splits)
      ultimately have "link_of f k m = link_of f k (idata i3)" using False by (simp add: link_of_def)
      then show ?thesis using i ind by (simp add: i3(3))
    qed
  qed
  have "round_ok f k bs i i3"
    unfolding round_ok_def using i3(2,4) fr blk mw lk by (auto simp: c_def)
  then show ?thesis using run r_def by blast
qed

lemma taken_blocks_step:
  "taken_blocks k (Suc n) = 1 + (if k = NDIRECT then 1 else 0) + taken_blocks (Suc k) n"
  by (auto simp: taken_blocks_def)

lemma write_blocks_ok:
  assumes "ind_ok f k i" and "k \<le> nextbno i" and "f + BY2FILE \<le> nextbno i * BY2BLK"
    and "nextbno i + taken_blocks k (nblocks_of bs) \<le> NBLOCK"
  shows "\<exists>i'. write_blocks f k bs i = Some i' \<and> nextbno i' = nextbno i + taken_blocks k (nblocks_of bs)
    \<and> (\<forall>a. \<not> may_write f k i a \<or> nextbno i' * BY2BLK \<le> a \<longrightarrow> idata i' a = idata i a)
    \<and> holds_bytes f k bs {nextbno i..<nextbno i'} (idata i')
    \<and> (k \<le> NDIRECT \<and> NDIRECT < k + nblocks_of bs \<longrightarrow>
          unat (rd32 (idata i') (f_indirect_at f)) \<in> {nextbno i..<nextbno i'})"
  using assms
proof (induction "length bs" arbitrary: k bs i rule: less_induct)
  case less
  note prems = less.prems
  show ?case
  proof (cases "bs = []")
    case True
    then show ?thesis by (subst write_blocks.simps) (simp add: holds_bytes_def taken_blocks_def)
  next
    case False
    let ?n = "nextbno i" and ?r = "drop BY2BLK bs"
    obtain i3 where run: "write_blocks f k bs i = write_blocks f (Suc k) ?r i3" and ro: "round_ok f k bs i i3"
      using write_round [OF prems False] by blast
    have n3: "nextbno i3 = ?n + 1 + (if k = NDIRECT then 1 else 0)" using ro by (simp add: round_ok_def)
    have tk: "taken_blocks k (nblocks_of bs)
        = 1 + (if k = NDIRECT then 1 else 0) + taken_blocks (Suc k) (nblocks_of ?r)"
      using nblocks_of_step [OF False] by (simp add: taken_blocks_step)
    have "length ?r < length bs" using False by (simp add: BY2BLK_def)
    moreover have "ind_ok f (Suc k) i3" "Suc k \<le> nextbno i3" "f + BY2FILE \<le> nextbno i3 * BY2BLK"
      using ro prems(2,3) by (auto simp: n3 round_ok_def)
    moreover have "nextbno i3 + taken_blocks (Suc k) (nblocks_of ?r) \<le> NBLOCK"
      using prems(4) by (simp add: tk n3)
    ultimately obtain i' where i': "write_blocks f (Suc k) ?r i3 = Some i'"
      "nextbno i' = nextbno i3 + taken_blocks (Suc k) (nblocks_of ?r)"
      "\<And>a. \<not> may_write f (Suc k) i3 a \<or> nextbno i' * BY2BLK \<le> a \<Longrightarrow> idata i' a = idata i3 a"
      "holds_bytes f (Suc k) ?r {nextbno i3..<nextbno i'} (idata i')"
      "Suc k \<le> NDIRECT \<Longrightarrow> NDIRECT < Suc k + nblocks_of ?r \<Longrightarrow>
         unat (rd32 (idata i') (f_indirect_at f)) \<in> {nextbno i3..<nextbno i'}"
      using less.hyps [of ?r "Suc k" i3] by blast
    have nx: "nextbno i' = ?n + taken_blocks k (nblocks_of bs)" by (simp add: i'(2) n3 tk)
    have l0: "link_of f k (idata i') = ?n"
      "k = NDIRECT \<Longrightarrow> unat (rd32 (idata i') (f_indirect_at f)) = ?n + 1"
      using ro i'(3) by (auto simp: round_ok_def)
    have fr: "idata i' a = idata i a" if a: "\<not> may_write f k i a \<or> nextbno i' * BY2BLK \<le> a" for a
    proof -
      have "nextbno i3 * BY2BLK \<le> nextbno i' * BY2BLK" by (simp add: i'(2))
      then have "\<not> may_write f k i a \<or> nextbno i3 * BY2BLK \<le> a" using a by linarith
      then have "idata i3 a = idata i a" using ro by (auto simp: round_ok_def)
      moreover have "idata i' a = idata i3 a" using a ro by (intro i'(3)) (auto simp: round_ok_def)
      ultimately show ?thesis by simp
    qed
    have blk: "idata i' (?n * BY2BLK + x) = bs ! x" if "x < BY2BLK" "x < length bs" for x
    proof -
      have "\<not> may_write f (Suc k) i3 (?n * BY2BLK + x)" using that ro by (auto simp: round_ok_def)
      then show ?thesis using i'(3) ro that by (auto simp: round_ok_def)
    qed
    have "holds_bytes f k bs {?n..<nextbno i'} (idata i')"
      unfolding holds_bytes_def
    proof (intro allI impI)
      fix j assume j: "j * BY2BLK < length bs"
      show "link_of f (k + j) (idata i') \<in> {?n..<nextbno i'} \<and> (\<forall>x < BY2BLK. j * BY2BLK + x < length bs
             \<longrightarrow> idata i' (link_of f (k + j) (idata i') * BY2BLK + x) = bs ! (j * BY2BLK + x))"
      proof (cases j)
        case 0
        then show ?thesis using blk l0(1) by (auto simp: nx tk)
      next
        case (Suc j')
        then have "j' * BY2BLK < length ?r" using j by simp
        then show ?thesis
          using i'(4) Suc by (auto simp: holds_bytes_def n3 add.assoc)
      qed
    qed
    moreover have "unat (rd32 (idata i') (f_indirect_at f)) \<in> {?n..<nextbno i'}"
      if "k \<le> NDIRECT \<and> NDIRECT < k + nblocks_of bs"
      using that l0(2) i'(5) nblocks_of_step [OF False] nx tk n3 by (cases "k = NDIRECT") auto
    ultimately show ?thesis using run i'(1) nx fr by simp
  qed
qed

section \<open>Finding a place in the root directory\<close>

abbreviation root_at :: nat where "root_at \<equiv> s_root_at super_at"

definition slot_of :: "nat \<Rightarrow> mem \<Rightarrow> nat" where
  "slot_of j m = link_of root_at (j div FILE2BLK) m * BY2BLK + j mod FILE2BLK * BY2FILE"

lemma find_unused_append:
  "find_unused (xs @ ys) b m = (case find_unused xs b m of Some f \<Rightarrow> Some f | None \<Rightarrow> find_unused ys b m)"
  by (induction xs) auto

lemma find_unused_None: "\<forall>j \<in> set js. m (b + j * BY2FILE) \<noteq> 0 \<Longrightarrow> find_unused js b m = None"
  by (induction js) auto

lemma first_unused_append:
  "first_unused (xs @ ys) d m = (case first_unused xs d m of Some f \<Rightarrow> Some f | None \<Rightarrow> first_unused ys d m)"
  by (induction xs) (auto split: option.splits)

lemma first_unused_None:
  "\<forall>k \<in> set ks. \<forall>j < FILE2BLK. m (link_of d k m * BY2BLK + j * BY2FILE) \<noteq> 0 \<Longrightarrow> first_unused ks d m = None"
  by (induction ks) (auto simp: find_unused_None)

lemma upt_split: "k < n \<Longrightarrow> [0..<n] = [0..<k] @ k # [Suc k..<n]"
  using upt_add_eq_append [of 0 k "n - k"] upt_conv_Cons [of k n] by simp

lemma full_blocks:
  assumes "\<And>j. j < n \<Longrightarrow> m (slot_of j m) \<noteq> 0" and "k < n div FILE2BLK" and "j < FILE2BLK"
  shows "m (link_of root_at k m * BY2BLK + j * BY2FILE) \<noteq> 0"
proof -
  have "Suc k * FILE2BLK \<le> n" using assms(2) by (simp add: fs_defs)
  then have "k * FILE2BLK + j < n" using assms(3) by simp
  from assms(1) [OF this] show ?thesis using assms(3) by (simp add: slot_of_def)
qed

lemma first_unused_slot:
  assumes "\<And>j. j < n \<Longrightarrow> m (slot_of j m) \<noteq> 0" and "n < L * FILE2BLK" and "m (slot_of n m) = 0"
  shows "first_unused [0..<L] root_at m = Some (slot_of n m)"
proof -
  let ?q = "n div FILE2BLK" and ?r = "n mod FILE2BLK"
  have q: "?q < L" using assms(2) by (rule less_mult_imp_div_less)
  have r: "?r < FILE2BLK" by (simp add: fs_defs)
  have "first_unused [0..<?q] root_at m = None"
    using full_blocks [of n m] assms(1) by (intro first_unused_None) simp
  moreover have "find_unused [0..<?r] (link_of root_at ?q m * BY2BLK) m = None"
  proof (intro find_unused_None ballI)
    fix j assume "j \<in> set [0..<?r]"
    then have "j < ?r" by simp
    then have "?q * FILE2BLK + j < n" using div_mult_mod_eq [of n FILE2BLK] by linarith
    from assms(1) [OF this] show "m (link_of root_at ?q m * BY2BLK + j * BY2FILE) \<noteq> 0"
      using \<open>j < ?r\<close> r by (simp add: slot_of_def)
  qed
  ultimately show ?thesis
    using assms(3) unfolding upt_split [OF q] first_unused_append
    by (simp add: upt_split [OF r] find_unused_append slot_of_def)
qed

section \<open>Files on the image\<close>

text \<open>The structure at \<open>f\<close> names the file, and its blocks, all in \<open>B\<close>, hold the contents.\<close>

definition file_ok :: "u8 list \<Rightarrow> u8 list \<Rightarrow> nat \<Rightarrow> nat set \<Rightarrow> mem \<Rightarrow> bool" where
  "file_ok name content f B m \<longleftrightarrow> str_eq m f name \<and> rd32 m (f_size_at f) = word_of_nat (length content)
     \<and> rd32 m (f_type_at f) = FTYPE_REG \<and> holds_bytes f 0 content B m
     \<and> (NDIRECT < nblocks_of content \<longrightarrow> unat (rd32 m (f_indirect_at f)) \<in> B)"

lemma str_eq_cong:
  "(\<And>x. x \<le> length cs \<Longrightarrow> m' (a + x) = m (a + x)) \<Longrightarrow> str_eq m' a cs = str_eq m a cs"
proof (induction cs arbitrary: a)
  case Nil
  then show ?case using Nil [of 0] by simp
next
  case (Cons c cs)
  have "str_eq m' (a + 1) cs = str_eq m (a + 1) cs"
    using Cons.prems [of "Suc _"] by (intro Cons.IH) simp
  then show ?case using Cons.prems [of 0] by simp
qed

definition same_file :: "nat \<Rightarrow> nat set \<Rightarrow> mem \<Rightarrow> mem \<Rightarrow> bool" where
  "same_file f B m m' \<longleftrightarrow> (\<forall>x < f_dir_at 0. m' (f + x) = m (f + x))
     \<and> (\<forall>b \<in> B. \<forall>x < BY2BLK. m' (b * BY2BLK + x) = m (b * BY2BLK + x))"

lemma same_file_word:
  assumes "same_file f B m m'"
  shows "x + 4 \<le> f_dir_at 0 \<Longrightarrow> rd32 m' (f + x) = rd32 m (f + x)"
    and "b \<in> B \<Longrightarrow> x + 4 \<le> BY2BLK \<Longrightarrow> rd32 m' (b * BY2BLK + x) = rd32 m (b * BY2BLK + x)"
proof -
  have "rd32 m' (a + x) = rd32 m (a + x)" if "\<And>y. y < 4 \<Longrightarrow> m' (a + (x + y)) = m (a + (x + y))" for a
    using that [of 0] that [of 1] that [of 2] that [of 3] by (simp add: rd32_def add.assoc)
  then show "x + 4 \<le> f_dir_at 0 \<Longrightarrow> rd32 m' (f + x) = rd32 m (f + x)"
    and "b \<in> B \<Longrightarrow> x + 4 \<le> BY2BLK \<Longrightarrow> rd32 m' (b * BY2BLK + x) = rd32 m (b * BY2BLK + x)"
    using assms by (auto simp: same_file_def)
qed

lemma nblocks_of_index: "j * BY2BLK < length bs \<Longrightarrow> j < nblocks_of bs"
proof -
  assume "j * BY2BLK < length bs"
  then have "Suc j * BY2BLK \<le> length bs + (BY2BLK - 1)" by (simp add: fs_defs)
  then have "Suc j \<le> nblocks_of bs"
    unfolding nblocks_of_def by (simp add: less_eq_div_iff_mult_less_eq BY2BLK_def)
  then show ?thesis by simp
qed

lemma file_link_same:
  assumes "file_ok name content f B m" and "same_file f B m m'" and "nblocks_of content \<le> NINDIRECT"
    and "j * BY2BLK < length content"
  shows "link_of f j m' = link_of f j m"
proof (cases "j < NDIRECT")
  case True
  then show ?thesis
    using same_file_word(1) [OF assms(2), of "136 + 4 * j"] by (simp add: link_of_def fs_defs add.assoc)
next
  case False
  have j: "j < nblocks_of content" using nblocks_of_index [OF assms(4)] .
  then have "unat (rd32 m (f_indirect_at f)) \<in> B" using False assms(1) by (simp add: file_ok_def)
  moreover have "4 * j + 4 \<le> BY2BLK" using j assms(3) by (simp add: fs_defs)
  moreover have "rd32 m' (f_indirect_at f) = rd32 m (f_indirect_at f)"
    using same_file_word(1) [OF assms(2), of 176] by (simp add: fs_defs)
  ultimately show ?thesis using False same_file_word(2) [OF assms(2)] by (simp add: link_of_def)
qed

lemma file_ok_same:
  assumes "file_ok name content f B m" and "same_file f B m m'" and "length name < MAXNAMELEN"
    and "nblocks_of content \<le> NINDIRECT"
  shows "file_ok name content f B m'"
proof -
  note w = same_file_word [OF assms(2)]
  have "str_eq m' f name = str_eq m f name"
    using assms(2,3) by (intro str_eq_cong) (simp add: same_file_def fs_defs)
  moreover have fields: "rd32 m' (f_size_at f) = rd32 m (f_size_at f)" "rd32 m' (f_type_at f) = rd32 m (f_type_at f)"
      "rd32 m' (f_indirect_at f) = rd32 m (f_indirect_at f)"
    using w(1) by (simp_all add: fs_defs)
  ultimately show ?thesis
    using assms(1,2) file_link_same [OF assms(1,2,4)] by (auto simp: file_ok_def holds_bytes_def same_file_def)
qed

text \<open>What stays as \<^verbatim>\<open>init_disk\<close> has left it: everything before the root directory, and its type.\<close>

definition kept :: "nat \<Rightarrow> bool" where
  "kept a \<longleftrightarrow> a < root_at \<or> f_type_at root_at \<le> a \<and> a < f_type_at root_at + 4"

text \<open>After the files \<open>done\<close> the root directory has \<open>L\<close> blocks, and its slots are filled in order.
  The image is zero from the next free block on.\<close>

definition room_for :: "(u8 list \<times> u8 list) list \<Rightarrow> nat" where
  "room_for fs = sum_list (map (\<lambda>f. taken_blocks 0 (nblocks_of (snd f))) fs)"

definition links :: "nat \<Rightarrow> mem \<Rightarrow> nat set" where
  "links L m = (\<lambda>k. link_of root_at k m) ` {..<L}"

definition dir_inv :: "nat \<Rightarrow> nat \<Rightarrow> img \<Rightarrow> bool" where
  "dir_inv n L i \<longleftrightarrow> n \<le> L * FILE2BLK \<and> L \<le> NDIRECT
     \<and> rd32 (idata i) (f_size_at root_at) = word_of_nat (L * BY2BLK)
     \<and> links L (idata i) \<subseteq> {3..<nextbno i} \<and> inj_on (\<lambda>k. link_of root_at k (idata i)) {..<L}
     \<and> (\<forall>j. j < n \<longrightarrow> idata i (slot_of j (idata i)) \<noteq> 0)
     \<and> (\<forall>j x. n \<le> j \<and> j < L * FILE2BLK \<and> x < BY2FILE \<longrightarrow> idata i (slot_of j (idata i) + x) = 0)
     \<and> (\<forall>a. nextbno i * BY2BLK \<le> a \<and> a < super_at \<longrightarrow> idata i a = 0)"

definition meta_same :: "mem \<Rightarrow> bool" where
  "meta_same m \<longleftrightarrow> (\<forall>a. a < 3 * BY2BLK \<or> super_at \<le> a \<and> kept a
     \<longrightarrow> m a = idata (init_disk blank_img) a)"

definition img_inv :: "(u8 list \<times> u8 list) list \<Rightarrow> nat \<Rightarrow> img \<Rightarrow> bool" where
  "img_inv ds L i \<longleftrightarrow> nextbno i = 3 + L + room_for ds \<and> meta_same (idata i) \<and> dir_inv (length ds) L i
     \<and> (\<forall>j < length ds. file_ok (fst (ds ! j)) (snd (ds ! j)) (slot_of j (idata i))
           ({3..<nextbno i} - links L (idata i)) (idata i))"

lemma file_ok_mono: "file_ok name content f B m \<Longrightarrow> B \<subseteq> B' \<Longrightarrow> file_ok name content f B' m"
  by (auto simp: file_ok_def holds_bytes_def)

lemmas img_defs = super_at_def NBLOCK_def fs_defs

section \<open>Slots\<close>

lemma slot_link:
  assumes "dir_inv n L i" and "j < L * FILE2BLK"
  defines "l \<equiv> link_of root_at (j div FILE2BLK) (idata i)"
  shows "l \<in> links L (idata i)" and "3 \<le> l" and "l < nextbno i"
    and "l * BY2BLK \<le> slot_of j (idata i)" and "slot_of j (idata i) + BY2FILE \<le> (l + 1) * BY2BLK"
proof -
  have "j div FILE2BLK < L" using assms(2) by (rule less_mult_imp_div_less)
  then show l: "l \<in> links L (idata i)" by (simp add: links_def l_def)
  then show "3 \<le> l" "l < nextbno i" using assms(1) by (auto simp: dir_inv_def)
  show "l * BY2BLK \<le> slot_of j (idata i)" by (simp add: slot_of_def l_def)
  have "j mod FILE2BLK \<le> 15" by (simp add: fs_defs)
  then show "slot_of j (idata i) + BY2FILE \<le> (l + 1) * BY2BLK" by (simp add: slot_of_def l_def fs_defs)
qed

lemma slots_apart:
  assumes "dir_inv n L i" and "j < L * FILE2BLK" and "k < L * FILE2BLK" and "j \<noteq> k"
  shows "slot_of j (idata i) + BY2FILE \<le> slot_of k (idata i) \<or> slot_of k (idata i) + BY2FILE \<le> slot_of j (idata i)"
proof (cases "j div FILE2BLK = k div FILE2BLK")
  case True
  then have "j mod FILE2BLK \<noteq> k mod FILE2BLK" using assms(4) by (metis div_mult_mod_eq)
  then show ?thesis using True by (auto simp: slot_of_def fs_defs)
next
  case False
  let ?l = "\<lambda>j. link_of root_at (j div FILE2BLK) (idata i)"
  have "j div FILE2BLK < L" "k div FILE2BLK < L" using assms(2,3) by (auto intro: less_mult_imp_div_less)
  moreover have "inj_on (\<lambda>k. link_of root_at k (idata i)) {..<L}" using assms(1) by (simp add: dir_inv_def)
  ultimately have "?l j \<noteq> ?l k" using False by (auto dest: inj_onD)
  then have "?l j + 1 \<le> ?l k \<or> ?l k + 1 \<le> ?l j" by linarith
  then have "(?l j + 1) * BY2BLK \<le> ?l k * BY2BLK \<or> (?l k + 1) * BY2BLK \<le> ?l j * BY2BLK"
    by (meson mult_le_mono1)
  then show ?thesis
    using slot_link(4,5) [OF assms(1,2)] slot_link(4,5) [OF assms(1,3)] by linarith
qed

text \<open>What a step may change that fills the slot \<open>n\<close> and takes blocks.\<close>

definition fills_slot :: "nat \<Rightarrow> img \<Rightarrow> img \<Rightarrow> bool" where
  "fills_slot n i i' \<longleftrightarrow> nextbno i \<le> nextbno i' \<and> nextbno i' \<le> NBLOCK
     \<and> (\<forall>a. \<not> (slot_of n (idata i) \<le> a \<and> a < slot_of n (idata i) + BY2FILE)
         \<and> \<not> (nextbno i * BY2BLK \<le> a \<and> a < nextbno i' * BY2BLK) \<longrightarrow> idata i' a = idata i a)"

lemma fills_slot_root:
  assumes "dir_inv n L i" and "n < L * FILE2BLK" and "fills_slot n i i'" and "super_at \<le> a"
  shows "idata i' a = idata i a"
proof -
  note l = slot_link [OF assms(1,2)]
  have "nextbno i' * BY2BLK \<le> super_at" using assms(3) by (simp add: fills_slot_def img_defs)
  moreover have "slot_of n (idata i) + BY2FILE \<le> nextbno i * BY2BLK"
    using l(3,5) mult_le_mono1 [of "link_of root_at (n div FILE2BLK) (idata i) + 1" "nextbno i" BY2BLK] by linarith
  moreover have "nextbno i * BY2BLK \<le> nextbno i' * BY2BLK" using assms(3) by (simp add: fills_slot_def)
  ultimately have "slot_of n (idata i) + BY2FILE \<le> a" "nextbno i' * BY2BLK \<le> a"
    using assms(4) by linarith+
  then show ?thesis using assms(3) by (simp add: fills_slot_def)
qed

lemma fills_slot_dir:
  assumes "dir_inv n L i" and "n < L * FILE2BLK" and "fills_slot n i i'"
  shows "k < L \<Longrightarrow> link_of root_at k (idata i') = link_of root_at k (idata i)"
    and "links L (idata i') = links L (idata i)"
    and "j < L * FILE2BLK \<Longrightarrow> slot_of j (idata i') = slot_of j (idata i)"
    and "rd32 (idata i') (f_size_at root_at) = rd32 (idata i) (f_size_at root_at)"
proof -
  have w: "rd32 (idata i') (root_at + x) = rd32 (idata i) (root_at + x)" for x
    by (rule rd32_same, rule fills_slot_root [OF assms]) (simp add: fs_defs)
  have L: "L \<le> NDIRECT" using assms(1) by (simp add: dir_inv_def)
  show lk: "link_of root_at k (idata i') = link_of root_at k (idata i)" if "k < L" for k
    using that L w [of "136 + 4 * k"] by (simp add: link_of_def f_direct_at_def add.assoc)
  then show "links L (idata i') = links L (idata i)" by (auto simp: links_def)
  show "j < L * FILE2BLK \<Longrightarrow> slot_of j (idata i') = slot_of j (idata i)"
    using lk less_mult_imp_div_less [of j L FILE2BLK] by (simp add: slot_of_def)
  show "rd32 (idata i') (f_size_at root_at) = rd32 (idata i) (f_size_at root_at)"
    using w [of 128] by (simp add: f_size_at_def)
qed

lemma fills_slot_inv:
  assumes "dir_inv n L i" and "n < L * FILE2BLK" and "fills_slot n i i'"
    and "idata i' (slot_of n (idata i)) \<noteq> 0"
  shows "dir_inv (Suc n) L i'"
proof -
  note f = fills_slot_dir [OF assms(1-3)]
  note d = assms(1) [unfolded dir_inv_def]
  have le: "nextbno i \<le> nextbno i'" using assms(3) by (simp add: fills_slot_def)
  have other: "idata i' (slot_of j (idata i) + x) = idata i (slot_of j (idata i) + x)"
    if "j < L * FILE2BLK" "j \<noteq> n" "x < BY2FILE" for j x
  proof -
    note l = slot_link [OF assms(1) that(1)]
    have "slot_of j (idata i) + BY2FILE \<le> nextbno i * BY2BLK"
      using l(3,5) mult_le_mono1 [of "link_of root_at (j div FILE2BLK) (idata i) + 1" "nextbno i" BY2BLK] by linarith
    then show ?thesis
      using slots_apart [OF assms(1) that(1) assms(2) that(2)] that(3) assms(3)
      by (auto simp: fills_slot_def)
  qed
  have z: "idata i' a = 0" if "nextbno i' * BY2BLK \<le> a" "a < super_at" for a
  proof -
    have "nextbno i * BY2BLK \<le> nextbno i' * BY2BLK" using le by simp
    then have a: "nextbno i * BY2BLK \<le> a" using that by linarith
    note l = slot_link [OF assms(1,2)]
    have "slot_of n (idata i) + BY2FILE \<le> nextbno i * BY2BLK"
      using l(3,5) mult_le_mono1 [of "link_of root_at (n div FILE2BLK) (idata i) + 1" "nextbno i" BY2BLK] by linarith
    then have "idata i' a = idata i a" using assms(3) a that by (auto simp: fills_slot_def)
    then show ?thesis using d a that by simp
  qed
  have inj: "inj_on (\<lambda>k. link_of root_at k (idata i')) {..<L}"
    using d f(1) by (auto simp: inj_on_def)
  have used: "idata i' (slot_of j (idata i')) \<noteq> 0" if "j < Suc n" for j
    using that assms(2,4) d f(3) [of j] other [of j 0] by (cases "j = n") (auto simp: fs_defs)
  have free: "idata i' (slot_of j (idata i') + x) = 0" if "Suc n \<le> j" "j < L * FILE2BLK" "x < BY2FILE" for j x
    using that d f(3) [of j] other [of j x] by simp
  have "links L (idata i') \<subseteq> {3..<nextbno i'}" using d le f(2) by auto
  then show ?thesis
    using d assms(2) f(4) inj used free z by (simp add: dir_inv_def)
qed

lemma fills_slot_file:
  assumes "dir_inv n L i" and "n < L * FILE2BLK" and "fills_slot n i i'" and "j < n"
    and "file_ok name content (slot_of j (idata i)) ({3..<nextbno i} - links L (idata i)) (idata i)"
    and "length name < MAXNAMELEN" and "nblocks_of content \<le> NINDIRECT"
  shows "file_ok name content (slot_of j (idata i')) ({3..<nextbno i'} - links L (idata i')) (idata i')"
proof -
  note f = fills_slot_dir [OF assms(1-3)]
  have j: "j < L * FILE2BLK" using assms(2,4) by simp
  note l = slot_link [OF assms(1,2)] and lj = slot_link [OF assms(1) j]
  have le: "nextbno i \<le> nextbno i'" using assms(3) by (simp add: fills_slot_def)
  have "same_file (slot_of j (idata i)) ({3..<nextbno i} - links L (idata i)) (idata i) (idata i')"
    unfolding same_file_def
  proof (intro conjI ballI allI impI)
    fix x assume "x < f_dir_at 0"
    then have x: "x < BY2FILE" by (simp add: fs_defs)
    have "slot_of j (idata i) + BY2FILE \<le> nextbno i * BY2BLK"
      using lj(3,5) mult_le_mono1 [of "link_of root_at (j div FILE2BLK) (idata i) + 1" "nextbno i" BY2BLK] by linarith
    then show "idata i' (slot_of j (idata i) + x) = idata i (slot_of j (idata i) + x)"
      using slots_apart [OF assms(1) j assms(2)] assms(3,4) x by (auto simp: fills_slot_def)
  next
    fix b x assume b: "b \<in> {3..<nextbno i} - links L (idata i)" and x: "x < BY2BLK"
    let ?l = "link_of root_at (n div FILE2BLK) (idata i)"
    have "b \<noteq> ?l" using b l(1) by auto
    then have "b + 1 \<le> ?l \<or> ?l + 1 \<le> b" by linarith
    then have "(b + 1) * BY2BLK \<le> ?l * BY2BLK \<or> (?l + 1) * BY2BLK \<le> b * BY2BLK" by (meson mult_le_mono1)
    moreover have "(b + 1) * BY2BLK \<le> nextbno i * BY2BLK" using b by (intro mult_le_mono1) simp
    ultimately show "idata i' (b * BY2BLK + x) = idata i (b * BY2BLK + x)"
      using l(4,5) x assms(3) by (auto simp: fills_slot_def)
  qed
  from file_ok_same [OF assms(5) this assms(6,7)] show ?thesis
    unfolding f(2) f(3) [OF j] by (rule file_ok_mono) (use le in auto)
qed

section \<open>Creating and writing a file\<close>

lemma dir_size:
  assumes "dir_inv n L i"
  shows "unat (ild (f_size_at root_at) i) div BY2BLK = L"
proof -
  have d: "ild (f_size_at root_at) i = word_of_nat (L * 4096)" "L \<le> 10"
    using assms by (simp_all add: dir_inv_def BY2BLK_def NDIRECT_def)
  have "unat (word_of_nat (L * 4096) :: u32) = L * 4096" using d(2) by (simp only: unat_of_nat) simp
  then show ?thesis unfolding d(1) BY2BLK_def by simp
qed

text \<open>A new block for the directory.\<close>

lemma make_link_block_ok:
  assumes "dir_inv n L i" and "n = L * FILE2BLK" and "L < NDIRECT" and "3 \<le> nextbno i" and "nextbno i < NBLOCK"
  shows "\<exists>i1. make_link_block root_at L i = Some (nextbno i, i1) \<and> dir_inv n (Suc L) i1
    \<and> nextbno i1 = nextbno i + 1 \<and> links (Suc L) (idata i1) = insert (nextbno i) (links L (idata i))
    \<and> (\<forall>j < n. slot_of j (idata i1) = slot_of j (idata i)) \<and> slot_of n (idata i1) = nextbno i * BY2BLK
    \<and> (\<forall>a. kept a \<longrightarrow> idata i1 a = idata i a)"
proof -
  note d = assms(1) [unfolded dir_inv_def]
  let ?b = "nextbno i"
  let ?m1 = "put_word (f_direct_at root_at L) (word_of_nat ?b) (idata i)"
  let ?m = "put_word (f_size_at root_at) (rd32 ?m1 (f_size_at root_at) + word_of_nat BY2BLK) ?m1"
  obtain i1 where i1: "make_link_block root_at L i = Some (?b, i1)" "nextbno i1 = ?b + 1" "idata i1 = ?m"
    using assms(3,5) by (simp add: make_link_block_def next_block_def save_block_link_def NDIRECT_def NINDIRECT_def BY2BLK_def)
  have out: "idata i1 a = idata i a" if "a < root_at + 128 \<or> kept a" for a
    using that by (auto simp: i1(3) put_word_same fs_defs kept_def)
  have lk: "link_of root_at k (idata i1) = (if k = L then ?b else link_of root_at k (idata i))" if "k \<le> L" for k
  proof -
    have "rd32 ?m (f_direct_at root_at k) = rd32 ?m1 (f_direct_at root_at k)"
      by (subst rd32_put_word_other) (auto simp: fs_defs)
    also have "\<dots> = (if k = L then word_of_nat ?b else rd32 (idata i) (f_direct_at root_at k))"
      using that by (auto simp: rd32_put_word_other fs_defs)
    finally show ?thesis using that assms(3) unat_small [OF assms(5)] by (simp add: link_of_def i1(3))
  qed
  have "rd32 ?m1 (f_size_at root_at) = rd32 (idata i) (f_size_at root_at)"
    by (subst rd32_put_word_other) (auto simp: fs_defs)
  then have size: "rd32 (idata i1) (f_size_at root_at) = word_of_nat (Suc L * BY2BLK)"
    using d by (simp add: i1(3))
  have links: "links (Suc L) (idata i1) = insert ?b (links L (idata i))"
    using lk by (auto simp: links_def lessThan_Suc)
  have fresh: "?b \<notin> links L (idata i)" using d by auto
  have "inj_on (\<lambda>k. link_of root_at k (idata i1)) {..<Suc L}"
    unfolding lessThan_Suc using d fresh lk by (auto simp: inj_on_def links_def)
  moreover have slots: "slot_of j (idata i1) = slot_of j (idata i)" if "j < n" for j
    using that assms(2) lk [of "j div FILE2BLK"] less_mult_imp_div_less [of j L FILE2BLK]
    by (simp add: slot_of_def)
  moreover have "idata i1 (slot_of j (idata i1)) \<noteq> 0" if "j < n" for j
  proof -
    have j: "j < L * FILE2BLK" using that assms(2) by simp
    note l = slot_link [OF assms(1) j]
    have "slot_of j (idata i) + BY2FILE \<le> ?b * BY2BLK"
      using l(3,5) mult_le_mono1 [of "link_of root_at (j div FILE2BLK) (idata i) + 1" ?b BY2BLK] by linarith
    then have "slot_of j (idata i) < root_at + 128" using assms(5) by (simp add: img_defs)
    then show ?thesis using d that by (simp add: slots out)
  qed
  moreover have "idata i1 (slot_of j (idata i1) + x) = 0" if "n \<le> j" "j < Suc L * FILE2BLK" "x < BY2FILE" for j x
  proof -
    have "j div FILE2BLK = L" using that(1,2) assms(2) by (intro div_nat_eqI) (auto simp: mult.commute)
    then have s: "slot_of j (idata i1) = ?b * BY2BLK + j mod FILE2BLK * BY2FILE"
      using lk [of L] by (simp add: slot_of_def)
    have "j mod FILE2BLK \<le> 15" by (simp add: fs_defs)
    then have "slot_of j (idata i1) + x < super_at" "?b * BY2BLK \<le> slot_of j (idata i1) + x"
      using that(3) assms(5) by (simp_all add: s img_defs)
    then show ?thesis using d out [of "slot_of j (idata i1) + x"] by (simp add: fs_defs)
  qed
  moreover have "idata i1 a = 0" if "nextbno i1 * BY2BLK \<le> a" "a < super_at" for a
    using that d out [of a] by (simp add: i1(2) fs_defs)
  ultimately have "dir_inv n (Suc L) i1"
    using d assms(2-4) size by (auto simp: dir_inv_def links i1(2))
  moreover have "slot_of n (idata i1) = ?b * BY2BLK"
    using lk [of L] assms(2) by (simp add: slot_of_def fs_defs)
  ultimately show ?thesis using i1 links slots out by auto
qed

lemma create_file_ok:
  assumes "dir_inv n L i" and "3 \<le> nextbno i" and "n < L * FILE2BLK \<or> L < NDIRECT \<and> nextbno i < NBLOCK"
  shows "\<exists>i1 L1. create_file root_at i = Some (slot_of n (idata i1), i1) \<and> dir_inv n L1 i1
    \<and> n < L1 * FILE2BLK \<and> L1 = (if n < L * FILE2BLK then L else Suc L)
    \<and> nextbno i1 = nextbno i + (L1 - L) \<and> links L1 (idata i1) \<subseteq> links L (idata i) \<union> {nextbno i..}
    \<and> (\<forall>j < n. slot_of j (idata i1) = slot_of j (idata i)) \<and> (\<forall>a. kept a \<longrightarrow> idata i1 a = idata i a)"
proof (cases "n < L * FILE2BLK")
  case True
  have "\<forall>j x. n \<le> j \<and> j < L * FILE2BLK \<and> x < BY2FILE \<longrightarrow> idata i (slot_of j (idata i) + x) = 0"
    using assms(1) by (simp add: dir_inv_def)
  from this [rule_format, of n 0] have "idata i (slot_of n (idata i)) = 0" using True by (simp add: fs_defs)
  then have "first_unused [0..<L] root_at (idata i) = Some (slot_of n (idata i))"
    using True assms(1) by (intro first_unused_slot) (auto simp: dir_inv_def)
  then have "create_file root_at i = Some (slot_of n (idata i), i)"
    by (simp only: create_file_def dir_size [OF assms(1)] Let_def option.case)
  then show ?thesis using True assms(1) by auto
next
  case False
  then have n: "n = L * FILE2BLK" "L < NDIRECT" "nextbno i < NBLOCK"
    using assms(1,3) by (auto simp: dir_inv_def)
  obtain i1 where i1: "make_link_block root_at L i = Some (nextbno i, i1)" "dir_inv n (Suc L) i1"
    "nextbno i1 = nextbno i + 1" "links (Suc L) (idata i1) = insert (nextbno i) (links L (idata i))"
    "\<forall>j < n. slot_of j (idata i1) = slot_of j (idata i)" "slot_of n (idata i1) = nextbno i * BY2BLK"
    "\<forall>a. kept a \<longrightarrow> idata i1 a = idata i a"
    using make_link_block_ok [OF assms(1) n(1,2) assms(2) n(3)] by blast
  have "first_unused [0..<L] root_at (idata i) = None"
    using full_blocks [of n "idata i"] assms(1) n(1)
    by (intro first_unused_None) (auto simp: dir_inv_def fs_defs)
  then have "create_file root_at i = Some (slot_of n (idata i1), i1)"
    unfolding create_file_def dir_size [OF assms(1)] by (simp add: i1(1,6))
  then show ?thesis using i1 n by (auto simp: fs_defs)
qed

definition name_ok :: "u8 list \<Rightarrow> bool" where
  "name_ok name \<longleftrightarrow> name \<noteq> [] \<and> 0 \<notin> set name \<and> length name < MAXNAMELEN"

lemma str_eq_first: "str_eq m a name \<Longrightarrow> name_ok name \<Longrightarrow> m a \<noteq> 0"
  by (cases name) (auto simp: name_ok_def)

lemma fill_slot_ok:
  assumes "dir_inv n L i" and "n < L * FILE2BLK" and "name_ok name"
    and "nextbno i + taken_blocks 0 (nblocks_of content) \<le> NBLOCK"
  defines "f \<equiv> slot_of n (idata i)"
  shows "\<exists>i'. write_blocks f 0 content (ist (f_type_at f) FTYPE_REG (ist (f_size_at f) (word_of_nat (length content))
      (i\<lparr>idata := write_str f name (idata i)\<rparr>))) = Some i'
    \<and> nextbno i' = nextbno i + taken_blocks 0 (nblocks_of content) \<and> fills_slot n i i'
    \<and> file_ok name content f {nextbno i..<nextbno i'} (idata i')"
proof -
  let ?i3 = "ist (f_type_at f) FTYPE_REG (ist (f_size_at f) (word_of_nat (length content))
      (i\<lparr>idata := write_str f name (idata i)\<rparr>))"
  let ?m = "put_word (f_type_at f) FTYPE_REG (put_word (f_size_at f) (word_of_nat (length content))
      (write_str f name (idata i)))"
  have nm: "name \<noteq> []" "0 \<notin> set name" "length name < 128" using assms(3) by (simp_all add: name_ok_def fs_defs)
  have i3: "idata ?i3 = ?m" "nextbno ?i3 = nextbno i" by simp_all
  have out: "?m a = idata i a" if "a < f \<or> f + 136 \<le> a" for a
    using that nm(3) by (auto simp: put_word_same write_str_outside fs_defs)
  note l = slot_link [OF assms(1,2), folded f_def]
  have fb: "f + BY2FILE \<le> nextbno i * BY2BLK"
    using l(3,5) mult_le_mono1 [of "link_of root_at (n div FILE2BLK) (idata i) + 1" "nextbno i" BY2BLK] by linarith
  have zero: "idata i (f + x) = 0" if "x < BY2FILE" for x
    using that assms(1,2) by (simp add: dir_inv_def f_def)
  have "rd32 ?m (f_indirect_at f) = rd32 (idata i) (f_indirect_at f)"
    by (rule rd32_same, rule out) (simp add: fs_defs)
  also have "\<dots> = 0"
    using zero [of 176] zero [of 177] zero [of 178] zero [of 179]
    by (simp add: rd32_def word_of_bytes_def fs_defs add.commute [of _ f])
  finally have ind: "ind_ok f 0 ?i3" by (simp add: ind_ok_def)
  obtain i' where i': "write_blocks f 0 content ?i3 = Some i'"
    "nextbno i' = nextbno i + taken_blocks 0 (nblocks_of content)"
    "\<And>a. \<not> may_write f 0 ?i3 a \<or> nextbno i' * BY2BLK \<le> a \<Longrightarrow> idata i' a = ?m a"
    "holds_bytes f 0 content {nextbno i..<nextbno i'} (idata i')"
    "NDIRECT < nblocks_of content \<Longrightarrow> unat (rd32 (idata i') (f_indirect_at f)) \<in> {nextbno i..<nextbno i'}"
    using write_blocks_ok [OF ind _ _ _, of content] fb assms(4) unfolding i3 by auto
  have low: "idata i' a = ?m a" if "a < f + 136" for a
    using that fb i'(3) by (simp add: may_write_def fs_defs)
  have "rd32 (idata i') (f_type_at f) = FTYPE_REG"
    using rd32_same [of "f_type_at f" "idata i'" ?m] low by (simp add: fs_defs)
  moreover have "rd32 (idata i') (f_size_at f) = rd32 ?m (f_size_at f)"
    using low by (intro rd32_same) (simp add: fs_defs)
  then have "rd32 (idata i') (f_size_at f) = word_of_nat (length content)"
    by (simp add: rd32_put_word_other fs_defs)
  moreover have "str_eq (idata i') f name = str_eq (write_str f name (idata i)) f name"
    using nm(3) by (intro str_eq_cong) (simp add: low put_word_same fs_defs)
  then have "str_eq (idata i') f name" using str_eq_write_str [OF nm(2)] by simp
  ultimately have "file_ok name content f {nextbno i..<nextbno i'} (idata i')"
    using i'(4,5) by (simp add: file_ok_def)
  moreover have "fills_slot n i i'"
    unfolding fills_slot_def f_def [symmetric]
  proof (intro conjI allI impI)
    fix a assume a: "\<not> (f \<le> a \<and> a < f + BY2FILE) \<and> \<not> (nextbno i * BY2BLK \<le> a \<and> a < nextbno i' * BY2BLK)"
    then have "\<not> may_write f 0 ?i3 a \<or> nextbno i' * BY2BLK \<le> a"
      by (auto simp: may_write_def fs_defs)
    then show "idata i' a = idata i a" using i'(3) out a by (auto simp: fs_defs)
  qed (use assms(4) i'(2) in simp_all)
  ultimately show ?thesis using i'(1,2) by blast
qed

text \<open>The files on the image are untouched when the directory gets a new block.\<close>

lemma file_ok_below_root:
  assumes "file_ok name content f ({3..<nextbno i} - links L (idata i)) (idata i)" and "name_ok name"
    and "nblocks_of content \<le> NINDIRECT" and "f + BY2FILE \<le> super_at" and "nextbno i \<le> NBLOCK"
    and "\<forall>a. kept a \<longrightarrow> idata i1 a = idata i a" and "nextbno i \<le> nextbno i1"
    and "links L1 (idata i1) \<subseteq> links L (idata i) \<union> {nextbno i..}"
  shows "file_ok name content f ({3..<nextbno i1} - links L1 (idata i1)) (idata i1)"
proof -
  have "same_file f ({3..<nextbno i} - links L (idata i)) (idata i) (idata i1)"
    using assms(4-6) by (auto simp: same_file_def kept_def img_defs)
  then have "file_ok name content f ({3..<nextbno i} - links L (idata i)) (idata i1)"
    using assms(2,3) by (intro file_ok_same [OF assms(1)]) (auto simp: name_ok_def)
  then show ?thesis by (rule file_ok_mono) (use assms(7,8) in auto)
qed

lemma write_file_ok:
  assumes "img_inv ds L i" and "name_ok (after_slash path)" and "nblocks_of content \<le> NINDIRECT"
    and "\<forall>d \<in> set ds. name_ok (fst d) \<and> nblocks_of (snd d) \<le> NINDIRECT"
    and "L1 = (if length ds < L * FILE2BLK then L else Suc L)" and "L1 \<le> NDIRECT"
    and "3 + L1 + room_for (ds @ [(after_slash path, content)]) \<le> NBLOCK"
  shows "\<exists>i'. write_file root_at path content i = Some i'
    \<and> img_inv (ds @ [(after_slash path, content)]) L1 i'"
proof -
  let ?n = "length ds" and ?name = "after_slash path"
  have inv: "nextbno i = 3 + L + room_for ds" "meta_same (idata i)" "dir_inv ?n L i"
    using assms(1) by (simp_all add: img_inv_def)
  have room: "room_for (ds @ [(?name, content)]) = room_for ds + taken_blocks 0 (nblocks_of content)"
    by (simp add: room_for_def)
  have "?n < L * FILE2BLK \<or> L < NDIRECT \<and> nextbno i < NBLOCK"
    using assms(5-7) inv(1) by (auto simp: room split: if_splits)
  moreover have "3 \<le> nextbno i" using inv(1) by simp
  ultimately obtain i1 where i1: "create_file root_at i = Some (slot_of ?n (idata i1), i1)"
    "dir_inv ?n L1 i1" "?n < L1 * FILE2BLK" "nextbno i1 = nextbno i + (L1 - L)"
    "links L1 (idata i1) \<subseteq> links L (idata i) \<union> {nextbno i..}"
    "\<forall>j < ?n. slot_of j (idata i1) = slot_of j (idata i)" "\<forall>a. kept a \<longrightarrow> idata i1 a = idata i a"
    using create_file_ok [OF inv(3)] assms(5) by blast
  have n1: "nextbno i1 = 3 + L1 + room_for ds" using i1(4) inv(1) assms(5) by (auto split: if_splits)
  obtain i' where i': "write_file root_at path content i = Some i'"
    "nextbno i' = nextbno i1 + taken_blocks 0 (nblocks_of content)" "fills_slot ?n i1 i'"
    "file_ok ?name content (slot_of ?n (idata i1)) {nextbno i1..<nextbno i'} (idata i')"
    using fill_slot_ok [OF i1(2,3) assms(2), of content] assms(7) n1
    by (auto simp: write_file_def i1(1) Let_def room)
  note f = fills_slot_dir [OF i1(2,3) i'(3)]
  have le: "nextbno i \<le> nextbno i1" "nextbno i1 \<le> nextbno i'" "nextbno i' \<le> NBLOCK"
    using i1(4) i'(2,3) by (auto simp: fills_slot_def)
  note l = slot_link [OF i1(2,3)]
  have below: "slot_of j (idata i) + BY2FILE \<le> super_at" if "j < ?n" for j
  proof -
    have "j < L * FILE2BLK" using that inv(3) by (simp add: dir_inv_def)
    note s = slot_link(3,5) [OF inv(3) this]
    have "(link_of root_at (j div FILE2BLK) (idata i) + 1) * BY2BLK \<le> NBLOCK * BY2BLK"
      using s(1) le by (intro mult_le_mono1) simp
    then show ?thesis using s(2) by (simp add: super_at_def)
  qed
  have "meta_same (idata i')"
    unfolding meta_same_def
  proof (intro allI impI)
    fix a assume a: "a < 3 * BY2BLK \<or> super_at \<le> a \<and> kept a"
    have "idata i' a = idata i1 a"
    proof (cases "super_at \<le> a")
      case True
      then show ?thesis by (rule fills_slot_root [OF i1(2,3) i'(3)])
    next
      case False
      then have "a < 3 * BY2BLK" using a by simp
      moreover have "3 * BY2BLK \<le> link_of root_at (?n div FILE2BLK) (idata i1) * BY2BLK"
        using l(2) by (intro mult_le_mono1)
      moreover have "3 * BY2BLK \<le> nextbno i1 * BY2BLK" using n1 by (intro mult_le_mono1) simp
      ultimately have "a < slot_of ?n (idata i1)" "a < nextbno i1 * BY2BLK" using l(4) by linarith+
      then show ?thesis using i'(3) by (simp add: fills_slot_def)
    qed
    also have "\<dots> = idata i a" using a i1(7) by (auto simp: kept_def img_defs)
    finally show "idata i' a = idata (init_disk blank_img) a" using inv(2) a unfolding meta_same_def by simp
  qed
  moreover have "idata i' (slot_of ?n (idata i1)) \<noteq> 0"
    using str_eq_first [OF _ assms(2)] i'(4) by (auto simp: file_ok_def)
  then have "dir_inv (Suc ?n) L1 i'" by (rule fills_slot_inv [OF i1(2,3) i'(3)])
  moreover have "file_ok ?name content (slot_of ?n (idata i')) ({3..<nextbno i'} - links L1 (idata i')) (idata i')"
    unfolding f(2) f(3) [OF i1(3)]
    by (rule file_ok_mono [OF i'(4)]) (use i1(2) n1 in \<open>auto simp: dir_inv_def\<close>)
  moreover have "file_ok (fst (ds ! j)) (snd (ds ! j)) (slot_of j (idata i')) ({3..<nextbno i'} - links L1 (idata i')) (idata i')"
    if "j < ?n" for j
  proof -
    have d: "name_ok (fst (ds ! j))" "nblocks_of (snd (ds ! j)) \<le> NINDIRECT" using assms(4) that by auto
    have "file_ok (fst (ds ! j)) (snd (ds ! j)) (slot_of j (idata i)) ({3..<nextbno i} - links L (idata i)) (idata i)"
      using assms(1) that unfolding img_inv_def by blast
    from file_ok_below_root [OF this d below [OF that] _ i1(7) le(1) i1(5)] le
    have "file_ok (fst (ds ! j)) (snd (ds ! j)) (slot_of j (idata i1)) ({3..<nextbno i1} - links L1 (idata i1)) (idata i1)"
      using i1(6) that by simp
    from fills_slot_file [OF i1(2,3) i'(3) that this _ d(2)] show ?thesis using d(1) by (simp add: name_ok_def)
  qed
  ultimately have "img_inv (ds @ [(?name, content)]) L1 i'"
    using i'(2) n1 by (simp add: img_inv_def room nth_append less_Suc_eq)
  then show ?thesis using i'(1) by blast
qed

section \<open>The whole image\<close>

definition dir_blocks :: "nat \<Rightarrow> nat" where
  "dir_blocks n = (n + (FILE2BLK - 1)) div FILE2BLK"

lemma dir_blocks_Suc: "dir_blocks (Suc n) = (if n < dir_blocks n * FILE2BLK then dir_blocks n else Suc (dir_blocks n))"
proof -
  define q r where "q = n div 16" and "r = n mod 16"
  have n: "n = 16 * q + r" "r < 16" by (simp_all add: q_def r_def)
  have "(n + 15) div 16 = (if r = 0 then q else Suc q)"
    using n(2) unfolding n(1) by (cases "r = 0") (auto intro!: div_nat_eqI)
  moreover have "(Suc n + 15) div 16 = Suc q" using n(2) unfolding n(1) by (intro div_nat_eqI) auto
  ultimately show ?thesis using n by (auto simp: dir_blocks_def fs_defs)
qed

lemma dir_blocks_mono: "m \<le> n \<Longrightarrow> dir_blocks m \<le> dir_blocks n"
  by (simp add: dir_blocks_def div_le_mono)

definition named :: "u8 list \<times> u8 list \<Rightarrow> u8 list \<times> u8 list" where
  "named f = (after_slash (fst f), snd f)"

lemma room_for_append: "room_for (xs @ ys) = room_for xs + room_for ys"
  by (simp add: room_for_def)

lemma room_for_named: "room_for (map named fs) = room_for fs"
  by (simp add: room_for_def named_def comp_def)

lemma room_nblocks: "d \<in> set ds \<Longrightarrow> 3 + L + room_for ds \<le> NBLOCK \<Longrightarrow> nblocks_of (snd d) \<le> NINDIRECT"
proof -
  assume "d \<in> set ds" and r: "3 + L + room_for ds \<le> NBLOCK"
  then have "taken_blocks 0 (nblocks_of (snd d)) \<le> room_for ds"
    unfolding room_for_def by (intro member_le_sum_list) auto
  then have "nblocks_of (snd d) \<le> room_for ds" by (simp add: taken_blocks_def split: if_splits)
  then show ?thesis using r by (simp add: img_defs)
qed

lemma write_args_ok:
  assumes "img_inv ds (dir_blocks (length ds)) i" and "\<forall>d \<in> set ds. name_ok (fst d)"
    and "\<forall>f \<in> set fs. name_ok (after_slash (fst f))" and "length ds + length fs \<le> NDIRECT * FILE2BLK"
    and "3 + dir_blocks (length ds + length fs) + room_for (ds @ map named fs) \<le> NBLOCK"
  shows "\<exists>i'. write_args (map (\<lambda>f. (fst f, HFile (snd f))) fs) i = Some i'
    \<and> img_inv (ds @ map named fs) (dir_blocks (length ds + length fs)) i'"
  using assms
proof (induction fs arbitrary: ds i)
  case (Cons f fs)
  let ?n = "length ds" and ?ds = "ds @ [named f]"
  have nm: "named f = (after_slash (fst f), snd f)" by (simp add: named_def)
  have le: "dir_blocks (Suc ?n) \<le> dir_blocks (?n + length (f # fs))" by (rule dir_blocks_mono) simp
  have room: "3 + dir_blocks (Suc ?n) + room_for ?ds \<le> NBLOCK"
    using Cons.prems(5) le by (simp add: room_for_append)
      (simp add: room_for_def)
  have "dir_blocks (Suc ?n) \<le> NDIRECT"
  proof -
    have "dir_blocks (Suc ?n) \<le> dir_blocks (NDIRECT * FILE2BLK)"
      using Cons.prems(4) by (intro dir_blocks_mono) simp
    then show ?thesis by (simp add: dir_blocks_def fs_defs)
  qed
  moreover have "nblocks_of (snd d) \<le> NINDIRECT" if "d \<in> set ?ds" for d
    using room_nblocks [OF that room] .
  then have "nblocks_of (snd f) \<le> NINDIRECT" "\<forall>d \<in> set ds. name_ok (fst d) \<and> nblocks_of (snd d) \<le> NINDIRECT"
    using Cons.prems(2) by (force simp: nm)+
  ultimately obtain i1 where i1: "write_file root_at (fst f) (snd f) i = Some i1"
    "img_inv ?ds (dir_blocks (length ?ds)) i1"
    using write_file_ok [OF Cons.prems(1), of "fst f" "snd f"] Cons.prems(3) room
    by (auto simp: dir_blocks_Suc nm [symmetric])
  have "\<exists>i'. write_args (map (\<lambda>f. (fst f, HFile (snd f))) fs) i1 = Some i'
      \<and> img_inv (?ds @ map named fs) (dir_blocks (length ?ds + length fs)) i'"
    using Cons.prems by (intro Cons.IH [OF i1(2)]) (auto simp: nm)
  then show ?case using i1(1) by auto
qed simp

section \<open>The empty image\<close>

definition init_mem :: mem where
  "init_mem = write_str root_at [47] (put_word (f_type_at root_at) FTYPE_DIR (put_word (super_at + 4) (word_of_nat NBLOCK)
     (put_word super_at FS_MAGIC (\<lambda>a. if 2 * BY2BLK \<le> a \<and> a < 2 * BY2BLK + 128 then 0xFF else 0))))"

lemma init_disk_image: "idata (init_disk blank_img) = init_mem" "nextbno (init_disk blank_img) = 3"
proof -
  have "filled (2 * BY2BLK + 128) (BY2BLK - 128) 0 (filled (2 * BY2BLK) BY2BLK 0xFF (\<lambda>_. 0))
      = (\<lambda>a. if 2 * BY2BLK \<le> a \<and> a < 2 * BY2BLK + 128 then 0xFF else 0)"
    by (auto simp: filled_def fun_eq_iff BY2BLK_def)
  then show "idata (init_disk blank_img) = init_mem"
    by (simp add: init_disk_def Let_def NBLOCK_def BIT2BLK_def BY2BLK_def init_bmap_def blank_img_def init_mem_def)
  show "nextbno (init_disk blank_img) = 3"
    by (simp add: init_disk_def Let_def NBLOCK_def BIT2BLK_def BY2BLK_def init_bmap_def blank_img_def)
qed

lemma init_mem_below: "a < super_at \<Longrightarrow> init_mem a = (if 2 * BY2BLK \<le> a \<and> a < 2 * BY2BLK + 128 then 0xFF else 0)"
  by (simp add: init_mem_def put_word_same img_defs)

lemma init_mem_fields:
  "rd32 init_mem super_at = FS_MAGIC" "rd32 init_mem (super_at + 4) = word_of_nat NBLOCK"
  "rd32 init_mem (f_size_at root_at) = 0" "rd32 init_mem (f_type_at root_at) = FTYPE_DIR"
proof -
  let ?m0 = "\<lambda>a. if 2 * BY2BLK \<le> a \<and> a < 2 * BY2BLK + 128 then 0xFF else 0 :: u8"
  let ?m = "put_word (super_at + 4) (word_of_nat NBLOCK) (put_word super_at FS_MAGIC ?m0)"
  have "rd32 init_mem a = rd32 ?m a" if "a + 4 \<le> root_at" for a
    by (rule rd32_same) (use that in \<open>simp add: init_mem_def put_word_same fs_defs\<close>)
  then show "rd32 init_mem super_at = FS_MAGIC" "rd32 init_mem (super_at + 4) = word_of_nat NBLOCK"
    by (simp_all add: rd32_put_word_other fs_defs)
  have "rd32 init_mem (f_size_at root_at) = rd32 (\<lambda>_. 0) (f_size_at root_at)"
    by (rule rd32_same) (simp add: init_mem_def put_word_same img_defs)
  then show "rd32 init_mem (f_size_at root_at) = 0" by (simp add: rd32_def word_of_bytes_def)
  have "rd32 init_mem (f_type_at root_at) = rd32 (put_word (f_type_at root_at) FTYPE_DIR ?m) (f_type_at root_at)"
    by (rule rd32_same) (simp add: init_mem_def fs_defs)
  then show "rd32 init_mem (f_type_at root_at) = FTYPE_DIR" by simp
qed

lemma init_img_inv: "img_inv [] (dir_blocks 0) (init_disk blank_img)"
proof -
  have d: "dir_blocks 0 = 0" by (simp add: dir_blocks_def fs_defs)
  have "dir_inv 0 0 (init_disk blank_img)"
    using init_mem_below by (simp add: dir_inv_def init_disk_image init_mem_fields links_def) (simp add: fs_defs)
  then show ?thesis
    unfolding d by (simp add: img_inv_def meta_same_def init_disk_image(2) room_for_def)
qed

section \<open>Flushing the bitmap\<close>

lemma disk_free_flush:
  assumes "b < NBLOCK" and "c < NBLOCK"
  shows "disk_free c (idata (flush_bit b i)) \<longleftrightarrow> disk_free c (idata i) \<and> c \<noteq> b"
proof -
  let ?a = "\<lambda>b. 2 * BY2BLK + 4 * (b div 32)"
  have f: "idata (flush_bit b i)
      = put_word (?a b) (rd32 (idata i) (?a b) AND NOT (bit_flag b)) (idata i)"
    using assms(1) by (simp add: flush_bit_def Let_def NBLOCK_def BIT2BLK_def BY2BLK_def bit_flag_def)
  show ?thesis
  proof (cases "c div 32 = b div 32")
    case True
    then show ?thesis
      using same_word [OF True]
      by (simp only: disk_free_def f rd32_put_word bit_and_iff bit_not_iff bit_of_mask)
        (auto dest: bit_imp_le_length)
  next
    case False
    then have "?a b + 4 \<le> ?a c \<or> ?a c + 4 \<le> ?a b" by linarith
    then show ?thesis using False by (auto simp: disk_free_def f rd32_put_word_other)
  qed
qed

lemma flush_bit_out:
  "b < NBLOCK \<Longrightarrow> a < 2 * BY2BLK \<or> 3 * BY2BLK \<le> a \<Longrightarrow> idata (flush_bit b i) a = idata i a"
proof -
  assume "b < NBLOCK" and a: "a < 2 * BY2BLK \<or> 3 * BY2BLK \<le> a"
  then have b: "b < 1024" "b div 32 < 32" by (auto simp: NBLOCK_def intro: less_mult_imp_div_less)
  then have "a < 2 * BY2BLK + 4 * (b div 32) \<or> 2 * BY2BLK + 4 * (b div 32) + 4 \<le> a"
    using a by (auto simp: BY2BLK_def)
  then show ?thesis
    using b by (simp add: flush_bit_def Let_def put_word_same BIT2BLK_def BY2BLK_def)
qed

lemma flush_bits:
  "n \<le> NBLOCK \<Longrightarrow>
     (\<forall>c < NBLOCK. disk_free c (idata (fold flush_bit [0..<n] i)) \<longleftrightarrow> disk_free c (idata i) \<and> n \<le> c)
   \<and> (\<forall>a. a < 2 * BY2BLK \<or> 3 * BY2BLK \<le> a \<longrightarrow> idata (fold flush_bit [0..<n] i) a = idata i a)"
proof (induction n)
  case (Suc n)
  let ?i = "fold flush_bit [0..<n] i"
  have "fold flush_bit [0..<Suc n] i = flush_bit n ?i" by simp
  then show ?case
    using Suc disk_free_flush [of n _ ?i] flush_bit_out [of n _ ?i] by (auto simp: Suc_le_eq)
qed simp

section \<open>The image file\<close>

definition disk_slot :: "nat \<Rightarrow> mem \<Rightarrow> nat" where
  "disk_slot j d = link_of (s_root_at BY2BLK) (j div FILE2BLK) d * BY2BLK + j mod FILE2BLK * BY2FILE"

text \<open>
  What a reader of the disk relies on: a disk \<open>d\<close> that can be mounted, with the files \<open>ds\<close>, names and
  contents, in the root directory of \<open>L\<close> blocks; all blocks in use by them are in \<open>U\<close>.
\<close>

abbreviation disk_root :: nat where "disk_root \<equiv> s_root_at BY2BLK"

definition disk_links :: "nat \<Rightarrow> mem \<Rightarrow> nat set" where
  "disk_links L d = (\<lambda>k. link_of disk_root k d) ` {..<L}"

definition disk_image :: "(u8 list \<times> u8 list) list \<Rightarrow> nat \<Rightarrow> nat set \<Rightarrow> mem \<Rightarrow> bool" where
  "disk_image ds L U d \<longleftrightarrow> mountable d \<and> L \<le> NDIRECT \<and> length ds \<le> L * FILE2BLK
     \<and> rd32 d (f_type_at disk_root) = FTYPE_DIR \<and> rd32 d (f_size_at disk_root) = word_of_nat (L * BY2BLK)
     \<and> (\<forall>b \<in> U. disk_nbitmap d + 2 \<le> b \<and> b < disk_nblocks d \<and> \<not> disk_free b d) \<and> disk_links L d \<subseteq> U
     \<and> (\<forall>j < length ds. name_ok (fst (ds ! j)) \<and> nblocks_of (snd (ds ! j)) \<le> NINDIRECT
           \<and> file_ok (fst (ds ! j)) (snd (ds ! j)) (disk_slot j d) (U - disk_links L d) d)"

lemma finish_fs_mem:
  "finish_fs i a = (if BY2BLK \<le> a \<and> a < BY2BLK + 264 then idata i (super_at + (a - BY2BLK))
     else if a < super_at then idata i a else 0)"
  by (auto simp: finish_fs_def Let_def copied_def super_at_def NBLOCK_def BY2BLK_def)

text \<open>The image written for an array \<open>i\<close> that satisfies the invariant.\<close>

lemma finished_image:
  assumes "img_inv ds L i" and "nextbno i \<le> NBLOCK" and "\<forall>d \<in> set ds. name_ok (fst d)"
  defines "d \<equiv> finish_fs (flush_bitmap i)"
  shows "disk_image ds L {3..<nextbno i} d" and "disk_nblocks d = NBLOCK"
    and "b < NBLOCK \<Longrightarrow> disk_free b d \<longleftrightarrow> nextbno i \<le> b"
proof -
  let ?i = "flush_bitmap i"
  have inv: "nextbno i = 3 + L + room_for ds" "meta_same (idata i)" "dir_inv (length ds) L i"
    using assms(1) by (simp_all add: img_inv_def)
  have fl: "disk_free c (idata ?i) \<longleftrightarrow> disk_free c (idata i) \<and> nextbno i \<le> c" if "c < NBLOCK" for c
    using flush_bits [OF assms(2), of i] that by (simp add: flush_bitmap_def)
  have out: "idata ?i a = idata i a" if "a < 2 * BY2BLK \<or> 3 * BY2BLK \<le> a" for a
    using flush_bits [OF assms(2), of i] that by (auto simp: flush_bitmap_def)
  have d1: "d (BY2BLK + x) = idata i (super_at + x)" if "x < 264" for x
    using that out [of "super_at + x"] by (simp add: d_def finish_fs_mem img_defs)
  have d3: "d a = idata i a" if "3 * BY2BLK \<le> a" "a < super_at" for a
    using that out [of a] by (simp add: d_def finish_fs_mem fs_defs)
  have w: "rd32 d (BY2BLK + x) = rd32 (idata i) (super_at + x)" if "x + 4 \<le> 264" for x
    using that d1 [of x] d1 [of "x + 1"] d1 [of "x + 2"] d1 [of "x + 3"] by (simp add: rd32_def add.assoc)
  have meta: "rd32 (idata i) a = rd32 init_mem a" if "a + 4 \<le> 3 * BY2BLK \<or> super_at \<le> a \<and> a + 4 \<le> root_at \<or> a = f_type_at root_at" for a
    by (rule rd32_same) (use that inv(2) in \<open>auto simp: meta_same_def kept_def init_disk_image fs_defs\<close>)
  have magic: "rd32 d BY2BLK = FS_MAGIC" using w [of 0] meta [of super_at] by (simp add: init_mem_fields s_root_at_def)
  have n: "rd32 d (BY2BLK + 4) = word_of_nat NBLOCK"
    using w [of 4] meta [of "super_at + 4"] by (simp add: init_mem_fields s_root_at_def)
  then show nb: "disk_nblocks d = NBLOCK" by (simp add: disk_nblocks_def NBLOCK_def)
  have fr: "disk_free b d \<longleftrightarrow> nextbno i \<le> b" if b: "b < NBLOCK" for b
  proof -
    let ?a = "2 * BY2BLK + 4 * (b div 32)"
    have a: "?a + 4 \<le> 2 * BY2BLK + 128"
      using b less_mult_imp_div_less [of b 32 32] by (simp add: NBLOCK_def)
    have "rd32 d ?a = rd32 (idata ?i) ?a"
      by (rule rd32_same) (use a in \<open>simp add: d_def finish_fs_mem img_defs\<close>)
    moreover have "rd32 (idata i) ?a = rd32 (\<lambda>_. 0xFF) ?a"
      using a by (subst meta) (auto simp: fs_defs intro!: rd32_same init_mem_below [THEN trans] simp: super_at_def NBLOCK_def)
    moreover have "rd32 (\<lambda>_. 0xFF :: u8) ?a = 0xFFFFFFFF" by (simp add: rd32_def word_of_bytes_def)
    moreover have "bit (0xFFFFFFFF :: u32) (b mod 32)"
    proof -
      have "(0xFFFFFFFF :: u32) = mask 32" by (simp add: mask_eq_exp_minus_1)
      then show ?thesis by (simp only: bit_mask_iff) simp
    qed
    ultimately show ?thesis using fl [OF b] by (simp add: disk_free_def)
  qed
  then show "b < NBLOCK \<Longrightarrow> disk_free b d \<longleftrightarrow> nextbno i \<le> b" .
  have bm: "disk_nbitmap d = 1" by (simp add: disk_nbitmap_def nb img_defs)
  have mnt: "mountable d"
    using magic nb fr inv(1) by (auto simp: mountable_def disk_nbitmap_def img_defs)
  have L: "L \<le> NDIRECT" using inv(3) by (simp add: dir_inv_def)
  have lk: "link_of disk_root k d = link_of root_at k (idata i)" if "k < L" for k
    using that L w [of "8 + 136 + 4 * k"] by (simp add: link_of_def fs_defs add.assoc)
  then have links: "disk_links L d = links L (idata i)" by (auto simp: disk_links_def links_def)
  have at: "f_type_at root_at = super_at + (8 + 132)" "f_size_at root_at = super_at + (8 + 128)"
    "f_type_at disk_root = BY2BLK + (8 + 132)" "f_size_at disk_root = BY2BLK + (8 + 128)"
    by (simp_all add: fs_defs)
  have root: "rd32 d (f_type_at disk_root) = FTYPE_DIR" "rd32 d (f_size_at disk_root) = word_of_nat (L * BY2BLK)"
    using w [of "8 + 132"] w [of "8 + 128"] meta [of "f_type_at root_at"] inv(3) init_mem_fields(4)
    by (simp_all only: at dir_inv_def) simp_all
  have files: "name_ok (fst (ds ! j)) \<and> nblocks_of (snd (ds ! j)) \<le> NINDIRECT
      \<and> file_ok (fst (ds ! j)) (snd (ds ! j)) (disk_slot j d) ({3..<nextbno i} - disk_links L d) d"
    if j: "j < length ds" for j
  proof -
    have jL: "j < L * FILE2BLK" using j inv(3) by (simp add: dir_inv_def)
    note l = slot_link [OF inv(3) jL]
    have slot: "disk_slot j d = slot_of j (idata i)"
      using lk less_mult_imp_div_less [OF jL] by (simp add: disk_slot_def slot_of_def)
    have f: "file_ok (fst (ds ! j)) (snd (ds ! j)) (slot_of j (idata i)) ({3..<nextbno i} - links L (idata i)) (idata i)"
      using assms(1) j unfolding img_inv_def by blast
    have "same_file (slot_of j (idata i)) ({3..<nextbno i} - links L (idata i)) (idata i) d"
    proof -
      have hi: "b * BY2BLK + x < super_at" if "b < nextbno i" "x < BY2BLK" for b x
        using that assms(2) mult_le_mono1 [of "b + 1" NBLOCK BY2BLK] by (simp add: super_at_def)
      have lo: "3 * BY2BLK \<le> b * BY2BLK + x" if "3 \<le> b" for b x
        using mult_le_mono1 [OF that, of BY2BLK] by linarith
      have "3 * BY2BLK \<le> slot_of j (idata i) + x \<and> slot_of j (idata i) + x < super_at" if "x < BY2FILE" for x
      proof -
        have "(link_of root_at (j div FILE2BLK) (idata i) + 1) * BY2BLK \<le> super_at"
          unfolding super_at_def using l(3) assms(2) by (intro mult_le_mono1) (simp add: super_at_def)
        then show ?thesis using that l(4,5) mult_le_mono1 [OF l(2), of BY2BLK] by linarith
      qed
      then show ?thesis using d3 hi lo by (auto simp: same_file_def f_dir_at_def BY2FILE_def)
    qed
    moreover have nb: "nblocks_of (snd (ds ! j)) \<le> NINDIRECT"
      using room_nblocks [of "ds ! j" ds L] j assms(2) inv(1) by simp
    ultimately have "file_ok (fst (ds ! j)) (snd (ds ! j)) (slot_of j (idata i)) ({3..<nextbno i} - links L (idata i)) d"
      using assms(3) j by (intro file_ok_same [OF f]) (auto simp: name_ok_def)
    then show ?thesis using assms(3) j nb by (simp add: slot links)
  qed
  have "\<forall>b \<in> {3..<nextbno i}. disk_nbitmap d + 2 \<le> b \<and> b < disk_nblocks d \<and> \<not> disk_free b d"
    using assms(2) fr by (auto simp: bm nb)
  then show "disk_image ds L {3..<nextbno i} d"
    using mnt L inv(3) root files by (auto simp: disk_image_def links dir_inv_def)
qed

lemma fsformat_disk_image:
  assumes "fs \<noteq> []" and "\<forall>f \<in> set fs. name_ok (after_slash (fst f))"
    and "length fs \<le> NDIRECT * FILE2BLK" and "3 + dir_blocks (length fs) + room_for fs \<le> NBLOCK"
  shows "\<exists>d. fsformat (map (\<lambda>f. (fst f, HFile (snd f))) fs) = Some d
    \<and> disk_image (map named fs) (dir_blocks (length fs)) {3..<3 + dir_blocks (length fs) + room_for fs} d
    \<and> disk_nblocks d = NBLOCK
    \<and> (\<forall>b < NBLOCK. disk_free b d \<longleftrightarrow> 3 + dir_blocks (length fs) + room_for fs \<le> b)"
proof -
  obtain i where i: "write_args (map (\<lambda>f. (fst f, HFile (snd f))) fs) (init_disk blank_img) = Some i"
    "img_inv (map named fs) (dir_blocks (length fs)) i"
    using write_args_ok [of "[]" "init_disk blank_img" fs] init_img_inv assms(2-4) by (auto simp: room_for_named)
  have n: "nextbno i = 3 + dir_blocks (length fs) + room_for fs"
    using i(2) by (simp add: img_inv_def room_for_named)
  have nm: "\<forall>d \<in> set (map named fs). name_ok (fst d)" using assms(2) by (auto simp: named_def)
  have "nextbno i \<le> NBLOCK" using assms(4) n by simp
  note f = finished_image [OF i(2) this nm]
  have "fsformat (map (\<lambda>f. (fst f, HFile (snd f))) fs) = Some (finish_fs (flush_bitmap i))"
    using assms(1) i(1) by (simp add: fsformat_def)
  then show ?thesis using f n by (auto simp: named_def)
qed

text \<open>C40: The disk image. From regular files with proper names that fit on the disk \<^verbatim>\<open>fsformat\<close>
  makes an image that the file system server can mount, with exactly the blocks behind the
  last one written marked free; entry \<^verbatim>\<open>j\<close> of the root directory is file \<^verbatim>\<open>j\<close>, with its name, size and,
  in its blocks, direct and indirect, its bytes.\<close>

theorem fsformat_image:
  assumes "fs \<noteq> []" and "\<forall>f \<in> set fs. name_ok (after_slash (fst f))"
    and "length fs \<le> NDIRECT * FILE2BLK" and "3 + dir_blocks (length fs) + room_for fs \<le> NBLOCK"
  shows "\<exists>d. fsformat (map (\<lambda>f. (fst f, HFile (snd f))) fs) = Some d \<and> mountable d \<and> disk_nblocks d = NBLOCK
    \<and> (\<forall>b < NBLOCK. disk_free b d \<longleftrightarrow> 3 + dir_blocks (length fs) + room_for fs \<le> b)
    \<and> (\<forall>j < length fs. file_ok (after_slash (fst (fs ! j))) (snd (fs ! j)) (disk_slot j d)
          {3..<3 + dir_blocks (length fs) + room_for fs} d)"
proof -
  obtain d where d: "fsformat (map (\<lambda>f. (fst f, HFile (snd f))) fs) = Some d"
    "disk_image (map named fs) (dir_blocks (length fs)) {3..<3 + dir_blocks (length fs) + room_for fs} d"
    "disk_nblocks d = NBLOCK" "\<forall>b < NBLOCK. disk_free b d \<longleftrightarrow> 3 + dir_blocks (length fs) + room_for fs \<le> b"
    using fsformat_disk_image [OF assms] by blast
  have "file_ok (after_slash (fst (fs ! j))) (snd (fs ! j)) (disk_slot j d)
      {3..<3 + dir_blocks (length fs) + room_for fs} d" if "j < length fs" for j
    using d(2) that file_ok_mono [OF _ Diff_subset] by (fastforce simp: disk_image_def named_def)
  then show ?thesis using d by (auto simp: disk_image_def)
qed

lemma fsformat_image_witness:
  "\<exists>d. fsformat [([47, 97], HFile [104, 105])] = Some d \<and> mountable d \<and> disk_free 5 d \<and> \<not> disk_free 4 d
     \<and> file_ok [97] [104, 105] (disk_slot 0 d) {3..<5} d"
proof -
  have nb: "nblocks_of [104, 105 :: u8] = 1" by (simp add: nblocks_of_def fs_defs)
  have r: "room_for [([47, 97], [104, 105])] = 1" "dir_blocks 1 = 1"
    by (simp_all add: room_for_def nb taken_blocks_def dir_blocks_def fs_defs)
  have a: "after_slash [47, 97] = [97]" by (simp add: after_slash_def)
  show ?thesis
    using fsformat_image [of "[([47, 97], [104, 105])]"]
    by (auto simp: r [simplified] a name_ok_def img_defs)
qed

end
