(* ===== verification/FsServ.thy ===== *)
theory FsServ
  imports FsFile
begin

text \<open>
  The request loop of the file system server (\<^verbatim>\<open>fs/serv.c\<close>): the table of open files and
  one handler per request. A request is the contents of the page at \<^verbatim>\<open>REQVA\<close>; a reply is the
  arguments of one \<^verbatim>\<open>ipc_send\<close>, which blocks until it is delivered. Sending the page of an
  open file maps it in the client too and so raises its reference count, which the server
  sees through \<^verbatim>\<open>pageref\<close>; a client that closes the file unmaps it again.
\<close>

section \<open>State\<close>

record Open =
  o_file :: nat
  o_fileid :: u32
  o_mode :: u32
  o_ff :: nat

record reply =
  r_whom :: u32
  r_val :: "kerr + u32"
  r_srcva :: nat
  r_perm :: u32

record srv =
  sfs :: fs
  opentab :: "Open list"
  ffref :: "nat \<Rightarrow> nat"
  replies :: "reply list"

definition MAXOPEN :: nat where "MAXOPEN = 1024"
definition FILEVA :: nat where "FILEVA = 0x60000000"
definition REQVA :: nat where "REQVA = 0x0ffff000"

text \<open>\<^verbatim>\<open>pageref\<close> of a \<^verbatim>\<open>Filefd\<close> page: 0 when the server has not mapped it.\<close>

definition pageref :: "nat \<Rightarrow> srv \<Rightarrow> nat" where
  "pageref va v = (if fperm (sfs v) (va div 4096) = None then 0 else ffref v (va div 4096))"

definition ipc_send :: "u32 \<Rightarrow> kerr + u32 \<Rightarrow> nat \<Rightarrow> u32 \<Rightarrow> srv \<Rightarrow> srv" where
  "ipc_send whom r srcva perm v =
     v\<lparr>replies := replies v @ [\<lparr>r_whom = whom, r_val = r, r_srcva = srcva, r_perm = perm\<rparr>],
       ffref := (if srcva = 0 then ffref v
                 else (ffref v)(srcva div 4096 := ffref v (srcva div 4096) + 1))\<rparr>"

section \<open>The table of open files\<close>

definition init_open :: "nat \<Rightarrow> Open \<Rightarrow> Open" where
  "init_open i e = e\<lparr>o_fileid := word_of_nat i, o_ff := FILEVA + i * 4096\<rparr>"

definition serve_init :: "srv \<Rightarrow> srv" where
  "serve_init v = v\<lparr>opentab := map (\<lambda>i. init_open i (opentab v ! i)) [0..<MAXOPEN]\<rparr>"

text \<open>The case of the entry that is taken: a new id and a cleared page.\<close>

definition open_take :: "nat \<Rightarrow> srv \<Rightarrow> srv" where
  "open_take i v =
     (let e = opentab v ! i
      in v\<lparr>opentab := (opentab v)[i := e\<lparr>o_fileid := o_fileid e + word_of_nat MAXOPEN\<rparr>],
           sfs := (sfs v)\<lparr>fmem := memset (o_ff e) 0 4096 (fmem (sfs v))\<rparr>\<rparr>)"

fun open_scan :: "nat list \<Rightarrow> srv \<Rightarrow> (kerr + nat) \<times> srv" where
  "open_scan [] v = (Inl E_MAX_OPEN, v)"
| "open_scan (i # is) v =
     (let va = o_ff (opentab v ! i)
      in if pageref va v = 0 then
           (case syscall_mem_alloc va (PTE_D OR PTE_LIBRARY) (sfs v) of
              (Inl e, s1) \<Rightarrow> (Inl e, v\<lparr>sfs := s1\<rparr>)
            | (Inr _, s1) \<Rightarrow>
                (Inr i, open_take i (v\<lparr>sfs := s1, ffref := (ffref v)(va div 4096 := 1)\<rparr>)))
         else if pageref va v = 1 then (Inr i, open_take i v)
         else open_scan is v)"

text \<open>The result is the index of the entry, which the code returns through \<^verbatim>\<open>o\<close>, and the id, which
  the caller reads as an \<^verbatim>\<open>int\<close>.\<close>

definition open_alloc :: "srv \<Rightarrow> (kerr + nat \<times> u32) \<times> srv" where
  "open_alloc v = (case open_scan [0..<MAXOPEN] v of
       (Inl e, v1) \<Rightarrow> (Inl e, v1)
     | (Inr i, v1) \<Rightarrow> (Inr (i, o_fileid (opentab v1 ! i)), v1))"

definition open_lookup :: "u32 \<Rightarrow> srv \<Rightarrow> kerr + nat" where
  "open_lookup fileid v =
     (let i = unat fileid mod MAXOPEN; e = opentab v ! i
      in if pageref (o_ff e) v = 1 \<or> o_fileid e \<noteq> fileid then Inl E_INVAL else Inr i)"

section \<open>Requests\<close>

datatype fsreq =
    Fsreq_open "u8 list" u32
  | Fsreq_map u32 u32
  | Fsreq_set_size u32 u32
  | Fsreq_close u32
  | Fsreq_dirty u32 u32
  | Fsreq_remove "u8 list"
  | Fsreq_sync
  | Fsreq_other u32

definition devfile_id :: u32 where "devfile_id = 0x66"

text \<open>\<^verbatim>\<open>*f\<close> is copied behind the descriptor; the fields are words of \<^verbatim>\<open>struct Filefd\<close>.\<close>

definition fill_filefd :: "nat \<Rightarrow> nat \<Rightarrow> u32 \<Rightarrow> u32 \<Rightarrow> mem \<Rightarrow> mem" where
  "fill_filefd ff f fileid omode m =
     (let m1 = (\<lambda>a. if ff + 16 \<le> a \<and> a < ff + 16 + BY2FILE then m (f + (a - (ff + 16))) else m a);
          m2 = put_word (ff + 12) fileid m1;
          m3 = put_word (ff + 8) omode m2
      in put_word ff devfile_id m3)"

text \<open>After a negative result of \<^verbatim>\<open>open_alloc\<close>, an error or an id of at least \<open>2^31\<close>, the handler
  replies with it and goes on. After an error the pointer \<^verbatim>\<open>o\<close> is uninitialised, and using it is
  undefined: \<open>None\<close>.\<close>

definition serve_open :: "u32 \<Rightarrow> u8 list \<Rightarrow> u32 \<Rightarrow> srv \<Rightarrow> srv option" where
  "serve_open envid path omode v =
     (let (ro, v1) = open_alloc v;
          v2 = (case ro of
                  Inl e \<Rightarrow> ipc_send envid (Inl e) 0 0 v1
                | Inr (i, fileid) \<Rightarrow> if sint fileid < 0 then ipc_send envid (Inr fileid) 0 0 v1 else v1)
      in do {
           (rf, s3) \<leftarrow> file_open path (sfs v2);
           let v3 = v2\<lparr>sfs := s3\<rparr>;
           case rf of
             Inl e \<Rightarrow> Some (ipc_send envid (Inl e) 0 0 v3)
           | Inr f \<Rightarrow>
               (case ro of
                  Inl _ \<Rightarrow> None
                | Inr (i, _) \<Rightarrow>
                    let e = opentab v3 ! i;
                        v4 = v3\<lparr>opentab := (opentab v3)[i := e\<lparr>o_file := f, o_mode := omode\<rparr>],
                                sfs := s3\<lparr>fmem := fill_filefd (o_ff e) f (o_fileid e) omode (fmem s3)\<rparr>\<rparr>
                    in Some (ipc_send envid (Inr 0) (o_ff e) (PTE_D OR PTE_LIBRARY) v4))
         })"

text \<open>The entry that \<^verbatim>\<open>open_lookup\<close> finds may never have been opened, with a null file: the kernel
  does not map an address that low, and the first access to the file is the end (\<open>None\<close>).\<close>

definition at_file :: "nat \<Rightarrow> bool \<Rightarrow> 'a option \<Rightarrow> 'a option" where
  "at_file f touched r = (if f = 0 \<and> touched then None else r)"

text \<open>A block number that is out of range is refused before the file is read.\<close>

definition serve_map :: "u32 \<Rightarrow> u32 \<Rightarrow> u32 \<Rightarrow> srv \<Rightarrow> srv option" where
  "serve_map envid fileid offset v =
     (case open_lookup fileid v of
        Inl e \<Rightarrow> Some (ipc_send envid (Inl e) 0 0 v)
      | Inr i \<Rightarrow> do {
          let f = o_file (opentab v ! i);
          let filebno = unat offset div BY2BLK;
          (r, s1) \<leftarrow> at_file f (filebno < NINDIRECT) (file_get_block f filebno (sfs v));
          case r of
            Inl e \<Rightarrow> Some (ipc_send envid (Inl e) 0 0 (v\<lparr>sfs := s1\<rparr>))
          | Inr blk \<Rightarrow> Some (ipc_send envid (Inr 0) blk (PTE_D OR PTE_LIBRARY) (v\<lparr>sfs := s1\<rparr>))
        })"

definition serve_set_size :: "u32 \<Rightarrow> u32 \<Rightarrow> u32 \<Rightarrow> srv \<Rightarrow> srv option" where
  "serve_set_size envid fileid sz v =
     (case open_lookup fileid v of
        Inl e \<Rightarrow> Some (ipc_send envid (Inl e) 0 0 v)
      | Inr i \<Rightarrow> do {
          let f = o_file (opentab v ! i);
          s1 \<leftarrow> at_file f True (file_set_size f sz (sfs v));
          Some (ipc_send envid (Inr 0) 0 0 (v\<lparr>sfs := s1\<rparr>))
        })"

definition serve_close :: "u32 \<Rightarrow> u32 \<Rightarrow> srv \<Rightarrow> srv option" where
  "serve_close envid fileid v =
     (case open_lookup fileid v of
        Inl e \<Rightarrow> Some (ipc_send envid (Inl e) 0 0 v)
      | Inr i \<Rightarrow> do {
          let f = o_file (opentab v ! i);
          s1 \<leftarrow> at_file f True (file_close f (sfs v));
          Some (ipc_send envid (Inr 0) 0 0 (v\<lparr>sfs := s1\<rparr>))
        })"

definition serve_remove :: "u32 \<Rightarrow> u8 list \<Rightarrow> srv \<Rightarrow> srv option" where
  "serve_remove envid path v = do {
     (r, s1) \<leftarrow> file_remove path (sfs v);
     Some (ipc_send envid (map_sum id (\<lambda>_. 0) r) 0 0 (v\<lparr>sfs := s1\<rparr>))
   }"

definition serve_dirty :: "u32 \<Rightarrow> u32 \<Rightarrow> u32 \<Rightarrow> srv \<Rightarrow> srv option" where
  "serve_dirty envid fileid offset v =
     (case open_lookup fileid v of
        Inl e \<Rightarrow> Some (ipc_send envid (Inl e) 0 0 v)
      | Inr i \<Rightarrow> do {
          let f = o_file (opentab v ! i);
          (r, s1) \<leftarrow> at_file f (unat offset div BY2BLK < NINDIRECT) (file_dirty f (unat offset) (sfs v));
          Some (ipc_send envid (map_sum id (\<lambda>_. 0) r) 0 0 (v\<lparr>sfs := s1\<rparr>))
        })"

definition serve_sync :: "u32 \<Rightarrow> srv \<Rightarrow> srv option" where
  "serve_sync envid v = do {
     s1 \<leftarrow> fs_sync (sfs v);
     Some (ipc_send envid (Inr 0) 0 0 (v\<lparr>sfs := s1\<rparr>))
   }"

fun dispatch :: "u32 \<Rightarrow> fsreq \<Rightarrow> srv \<Rightarrow> srv option" where
  "dispatch whom (Fsreq_open path omode) v = serve_open whom path omode v"
| "dispatch whom (Fsreq_map fileid offset) v = serve_map whom fileid offset v"
| "dispatch whom (Fsreq_set_size fileid sz) v = serve_set_size whom fileid sz v"
| "dispatch whom (Fsreq_close fileid) v = serve_close whom fileid v"
| "dispatch whom (Fsreq_dirty fileid offset) v = serve_dirty whom fileid offset v"
| "dispatch whom (Fsreq_remove path) v = serve_remove whom path v"
| "dispatch whom Fsreq_sync v = serve_sync whom v"
| "dispatch whom (Fsreq_other code) v = Some v"

text \<open>One iteration of \<^verbatim>\<open>serve\<close>, for a message with permission \<open>perm\<close>; then a sequence of them.\<close>

definition serve_one :: "u32 \<Rightarrow> u32 \<Rightarrow> fsreq \<Rightarrow> srv \<Rightarrow> srv option" where
  "serve_one whom perm rq v =
     (if perm AND PTE_V = 0 then Some v
      else do {
        v1 \<leftarrow> dispatch whom rq v;
        Some (v1\<lparr>sfs := syscall_mem_unmap REQVA (sfs v1)\<rparr>)
      })"

fun serve :: "(u32 \<times> u32 \<times> fsreq) list \<Rightarrow> srv \<Rightarrow> srv option" where
  "serve [] v = Some v"
| "serve ((whom, perm, rq) # rest) v = do { v1 \<leftarrow> serve_one whom perm rq v; serve rest v1 }"

definition fs_main :: "srv \<Rightarrow> srv option" where
  "fs_main v = do {
     let v1 = serve_init v;
     s1 \<leftarrow> fs_init (sfs v1);
     Some (v1\<lparr>sfs := s1\<rparr>)
   }"

section \<open>Replies\<close>

lemma replies_ipc_send [simp]:
  "replies (ipc_send whom r srcva perm v)
     = replies v @ [\<lparr>r_whom = whom, r_val = r, r_srcva = srcva, r_perm = perm\<rparr>]"
  by (simp add: ipc_send_def)

lemma replies_open_take [simp]: "replies (open_take i v) = replies v"
  by (simp add: open_take_def Let_def)

lemma replies_open_scan: "open_scan is v = (r, v') \<Longrightarrow> replies v' = replies v"
  by (induction "is" v rule: open_scan.induct) (auto simp: Let_def split: if_splits sum.splits prod.splits)

text \<open>The new replies all go to the client that asked.\<close>

definition answers :: "u32 \<Rightarrow> nat \<Rightarrow> srv \<Rightarrow> srv \<Rightarrow> bool" where
  "answers whom n v v' \<longleftrightarrow>
     (\<exists>rs. replies v' = replies v @ rs \<and> length rs = n \<and> (\<forall>r \<in> set rs. r_whom r = whom))"

lemma answers_send: "replies v1 = replies v \<Longrightarrow> answers whom 1 v (ipc_send whom r srcva perm v1)"
  by (simp add: answers_def)

text \<open>How many replies a request gets.\<close>

fun n_replies :: "fsreq \<Rightarrow> srv \<Rightarrow> nat" where
  "n_replies (Fsreq_other code) v = 0"
| "n_replies (Fsreq_open path omode) v = (case fst (open_alloc v) of
     Inl _ \<Rightarrow> 2 | Inr (_, fileid) \<Rightarrow> if sint fileid < 0 then 2 else 1)"
| "n_replies _ v = 1"

lemma bind_someE: "Option.bind m f = Some y \<Longrightarrow> (\<And>x. m = Some x \<Longrightarrow> f x = Some y \<Longrightarrow> P) \<Longrightarrow> P"
  by (cases m) auto

lemma serve_open_answers:
  assumes "serve_open whom path omode v = Some v'"
  shows "answers whom (n_replies (Fsreq_open path omode) v) v v'"
proof -
  obtain ro v1 where a: "open_alloc v = (ro, v1)" by fastforce
  have "replies v1 = replies v"
    using a by (auto simp: open_alloc_def dest: replies_open_scan split: prod.splits sum.splits)
  then show ?thesis
    using assms by (auto simp: serve_open_def a answers_def Let_def split: sum.splits prod.splits if_splits elim!: bind_someE)
qed

lemma dispatch_answers:
  "dispatch whom rq v = Some v' \<Longrightarrow> answers whom (n_replies rq v) v v'"
proof (cases rq)
  case (Fsreq_open path omode)
  then show "dispatch whom rq v = Some v' \<Longrightarrow> answers whom (n_replies rq v) v v'"
    using serve_open_answers by simp
qed (auto simp: serve_map_def serve_set_size_def serve_close_def serve_dirty_def serve_remove_def
    serve_sync_def answers_def Let_def split: sum.splits elim!: bind_someE)

text \<open>C20: Every request is answered once. While the server neither panics nor faults, a request
  with an argument page gets exactly one reply, sent to the client that asked. The exceptions
  are an unknown request, which gets none and leaves its client waiting, and an open that is
  answered twice: when no descriptor can be allocated, and when the id of the descriptor is
  \<^verbatim>\<open>2^31\<close> or more, which the server takes for an error and goes on.\<close>

theorem serve_answers:
  assumes "perm AND PTE_V \<noteq> 0" and "serve_one whom perm rq v = Some v'"
  shows "answers whom (n_replies rq v) v v'"
  using assms dispatch_answers [of whom rq v]
  by (auto simp: serve_one_def answers_def elim!: bind_someE)

section \<open>File ids\<close>

definition srv_wf :: "srv \<Rightarrow> bool" where
  "srv_wf v \<longleftrightarrow> length (opentab v) = MAXOPEN
     \<and> (\<forall>i < MAXOPEN. unat (o_fileid (opentab v ! i)) mod MAXOPEN = i
                        \<and> o_ff (opentab v ! i) = FILEVA + i * 4096)"

lemma serve_init_wf: "srv_wf (serve_init v)"
  by (simp add: srv_wf_def serve_init_def init_open_def unat_of_nat MAXOPEN_def)

lemma unat_plus_MAXOPEN: "unat (w + word_of_nat MAXOPEN) mod MAXOPEN = unat w mod MAXOPEN" for w :: u32
proof -
  have "unat (w + 1024) mod 1024 = (unat w + 1024) mod 2 ^ 32 mod 1024"
    by (simp add: unat_word_ariths)
  also have "\<dots> = (unat w + 1024) mod 1024"
    by (rule mod_mod_cancel) simp
  finally show ?thesis by (simp add: MAXOPEN_def)
qed

lemma open_scan_found:
  assumes "srv_wf v" and "open_scan is v = (Inr i, v')" and "set is \<subseteq> {..<MAXOPEN}"
  shows "i < MAXOPEN \<and> pageref (o_ff (opentab v ! i)) v \<le> 1
    \<and> opentab v' = (opentab v)[i := (opentab v ! i)\<lparr>o_fileid := o_fileid (opentab v ! i) + word_of_nat MAXOPEN\<rparr>]
    \<and> fperm (sfs v') ((FILEVA + i * 4096) div 4096) \<noteq> None
    \<and> (\<forall>p. p \<noteq> (FILEVA + i * 4096) div 4096 \<longrightarrow> fperm (sfs v') p = fperm (sfs v) p \<and> ffref v' p = ffref v p)"
  using assms(2,3)
proof (induction "is")
  case (Cons j js)
  let ?va = "o_ff (opentab v ! j)"
  have va: "?va = FILEVA + j * 4096" using assms(1) Cons.prems(2) by (simp add: srv_wf_def)
  consider "pageref ?va v = 0" | "pageref ?va v = 1" | "1 < pageref ?va v" by linarith
  then show ?case
  proof cases
    case 1
    then obtain s1 where a: "syscall_mem_alloc ?va (PTE_D OR PTE_LIBRARY) (sfs v) = (Inr (), s1)"
      "i = j" "v' = open_take j (v\<lparr>sfs := s1, ffref := (ffref v)(?va div 4096 := 1)\<rparr>)"
      using Cons.prems(1) by (auto simp: Let_def split: sum.splits prod.splits)
    then have "fperm s1 = (fperm (sfs v))(?va div 4096 \<mapsto> PTE_D OR PTE_LIBRARY)"
      by (auto simp: syscall_mem_alloc_def split: list.splits bool.splits)
    then show ?thesis
      using a 1 va Cons.prems(2) by (simp add: open_take_def Let_def)
  next
    case 2
    then have "i = j" "v' = open_take j v" using Cons.prems(1) by (auto simp: Let_def)
    moreover have "fperm (sfs v) (?va div 4096) \<noteq> None"
      using 2 by (auto simp: pageref_def split: if_splits)
    ultimately show ?thesis
      using 2 va Cons.prems(2) by (simp add: open_take_def Let_def)
  next
    case 3
    then show ?thesis using Cons by (simp add: Let_def)
  qed
qed simp


section \<open>Witnesses\<close>

definition boot_srv :: srv where
  "boot_srv = serve_init \<lparr>sfs = empty_root,
     opentab = replicate MAXOPEN \<lparr>o_file = 0, o_fileid = 0, o_mode = 0, o_ff = 0\<rparr>,
     ffref = (\<lambda>_. 0), replies = []\<rparr>"

lemma boot_srv_entry: "i < MAXOPEN \<Longrightarrow> opentab boot_srv ! i
    = \<lparr>o_file = 0, o_fileid = word_of_nat i, o_mode = 0, o_ff = FILEVA + i * 4096\<rparr>"
  by (simp add: boot_srv_def serve_init_def init_open_def)

lemma boot_srv_open: "\<exists>fileid v'. open_alloc boot_srv = (Inr (0, fileid), v')"
proof -
  have "[0..<MAXOPEN] = 0 # [Suc 0..<MAXOPEN]" by (rule upt_conv_Cons) (simp add: MAXOPEN_def)
  moreover have "o_ff (opentab boot_srv ! 0) = 0x60000000"
    using boot_srv_entry [of 0] by (simp add: MAXOPEN_def FILEVA_def)
  moreover have "fperm (sfs boot_srv) 0x60000 = None" "fgrants (sfs boot_srv) = [True, True]"
    by (simp_all add: boot_srv_def serve_init_def empty_root_def demo_fs_def)
  ultimately show ?thesis by (simp add: open_alloc_def pageref_def syscall_mem_alloc_def)
qed


text \<open>A request on an id that was never issued is answered once, with the error.\<close>

theorem serve_answers_witness:
  "\<exists>v'. serve_one 0x800 PTE_V (Fsreq_close 1024) boot_srv = Some v' \<and> answers 0x800 1 boot_srv v'"
proof -
  have "open_lookup 1024 boot_srv = Inl E_INVAL"
    by (simp add: open_lookup_def boot_srv_entry MAXOPEN_def)
  then have "\<exists>v'. serve_one 0x800 PTE_V (Fsreq_close 1024) boot_srv = Some v'"
    by (simp add: serve_one_def serve_close_def PTE_V_def)
  then show ?thesis
    using serve_answers [where perm = PTE_V and rq = "Fsreq_close 1024"] by (fastforce simp: PTE_V_def)
qed

text \<open>The test \<^verbatim>\<open>pageref(o->o_ff) == 1\<close> lets an entry pass whose page was never allocated, with
  count 0: at boot the ids below \<^verbatim>\<open>MAXOPEN\<close> lead to entries with a null file, and a request on one
  of them is the end of the server.\<close>

lemma unopened_id_accepted:
  assumes "i < MAXOPEN" and "i < 2 ^ 10"
  shows "open_lookup (word_of_nat i) boot_srv = Inr i \<and> o_file (opentab boot_srv ! i) = 0"
proof -
  have "fperm (sfs boot_srv) ((FILEVA + i * 4096) div 4096) = None"
    by (simp add: boot_srv_def serve_init_def empty_root_def demo_fs_def FILEVA_def)
  then show ?thesis
    using assms by (simp add: open_lookup_def boot_srv_entry pageref_def unat_of_nat MAXOPEN_def)
qed

lemma unopened_id_faults:
  assumes "i < MAXOPEN" and "i < 2 ^ 10" and "perm AND PTE_V \<noteq> 0"
  shows "serve_one whom perm (Fsreq_close (word_of_nat i)) boot_srv = None"
  using assms(3) unopened_id_accepted [OF assms(1,2)] by (simp add: serve_one_def serve_close_def at_file_def)

end
