(* ===== verification/FsRead.thy ===== *)
theory FsRead
  imports Mkfs FsServ
begin

text \<open>
  What the file system server of FsFile and FsServ serves from a mounted image. The cache and the
  disk together are one flat memory, \<open>contents\<close>, which reading does not change; the image made by
  \<^verbatim>\<open>fsformat\<close> is found again in it, up to the pointers \<^verbatim>\<open>f_dir\<close> that \<^verbatim>\<open>dir_lookup\<close> stores.
\<close>

section \<open>Cache and disk as one memory\<close>

abbreviation cached :: "nat \<Rightarrow> fs \<Rightarrow> bool" where
  "cached b s \<equiv> fperm s (DISKMAP div 4096 + b) \<noteq> None"

definition contents :: "fs \<Rightarrow> mem" where
  "contents s a = (if cached (a div BY2BLK) s then fmem s (DISKMAP + a) else fdisk s a)"

definition grants :: "nat \<Rightarrow> fs \<Rightarrow> bool" where
  "grants n s \<longleftrightarrow> (\<exists>g. fgrants s = replicate n True @ g)"

lemma grants_Suc: "grants (Suc n) s \<Longrightarrow> grants n s"
proof -
  assume "grants (Suc n) s"
  then obtain g where "fgrants s = replicate n True @ True # g"
    by (auto simp: grants_def replicate_app_Cons_same)
  then show ?thesis by (auto simp: grants_def)
qed

lemma grants_le: "grants n s \<Longrightarrow> m \<le> n \<Longrightarrow> grants m s"
  by (induction n) (auto simp: le_Suc_eq dest: grants_Suc)

text \<open>More blocks are cached; everything else is as before.\<close>

definition cache_page :: "nat \<Rightarrow> bool" where
  "cache_page p \<longleftrightarrow> DISKMAP div 4096 \<le> p \<and> p < (DISKMAP + DISKMAX) div 4096"

definition more_cached :: "fs \<Rightarrow> fs \<Rightarrow> bool" where
  "more_cached s s' \<longleftrightarrow> contents s' = contents s \<and> super s' = super s \<and> bitmap s' = bitmap s
     \<and> (\<forall>p. fperm s p \<noteq> None \<or> \<not> cache_page p \<longrightarrow> fperm s' p = fperm s p)
     \<and> (\<forall>a. fperm s (a div 4096) \<noteq> None \<or> \<not> cache_page (a div 4096) \<longrightarrow> fmem s' a = fmem s a)"

lemma more_cached_refl [simp]: "more_cached s s"
  by (simp add: more_cached_def)

lemma more_cached_trans [trans]: "more_cached s s1 \<Longrightarrow> more_cached s1 s2 \<Longrightarrow> more_cached s s2"
  by (auto simp: more_cached_def)

lemma rd32_mem: "(\<And>x. x < 4 \<Longrightarrow> m' (a' + x) = m (a + x)) \<Longrightarrow> rd32 m' a' = rd32 m a"
proof -
  assume e: "\<And>x. x < 4 \<Longrightarrow> m' (a' + x) = m (a + x)"
  from e [of 0] e [of 1] e [of 2] e [of 3] show ?thesis by (simp add: rd32_def)
qed

lemma block_addr: "(b * BY2BLK + x) div BY2BLK = b \<longleftrightarrow> x < BY2BLK"
proof -
  have "(b * BY2BLK + x) div BY2BLK = b + x div BY2BLK" by (simp add: BY2BLK_def)
  then show ?thesis by (simp add: BY2BLK_def div_eq_0_iff)
qed

lemma contents_cached:
  "cached b s \<Longrightarrow> x < BY2BLK \<Longrightarrow> contents s (b * BY2BLK + x) = fmem s (DISKMAP + b * BY2BLK + x)"
  using block_addr [of b x] by (simp add: contents_def add.assoc)

lemma ld_cached:
  assumes "cached b s" and "x + 4 \<le> BY2BLK"
  shows "ld (DISKMAP + b * BY2BLK + x) s = rd32 (contents s) (b * BY2BLK + x)"
  unfolding ld_def
proof (rule rd32_mem)
  fix y assume "y < (4 :: nat)"
  then show "fmem s (DISKMAP + b * BY2BLK + x + y) = contents s (b * BY2BLK + x + y)"
    using contents_cached [OF assms(1), of "x + y"] assms(2) by (simp add: add.assoc)
qed

lemma page_of_byte: "(DISKMAP + b * BY2BLK + x) div 4096 = DISKMAP div 4096 + b" if "x < BY2BLK"
proof -
  have "(DISKMAP + b * BY2BLK + x) div 4096 = DISKMAP div 4096 + b + x div 4096" by (simp add: fs_defs)
  then show ?thesis using that by (simp add: BY2BLK_def)
qed

lemma more_cached_word:
  assumes "more_cached s s'" and "cached b s" and "x + 4 \<le> BY2BLK"
  shows "ld (DISKMAP + b * BY2BLK + x) s' = ld (DISKMAP + b * BY2BLK + x) s"
  unfolding ld_def
proof (rule rd32_mem)
  fix y assume "y < (4 :: nat)"
  then have "(DISKMAP + b * BY2BLK + (x + y)) div 4096 = DISKMAP div 4096 + b"
    using assms(3) by (intro page_of_byte) simp
  then show "fmem s' (DISKMAP + b * BY2BLK + x + y) = fmem s (DISKMAP + b * BY2BLK + x + y)"
    using assms(1,2) by (simp add: more_cached_def add.assoc)
qed

text \<open>The super block and the bitmap are cached, so their views do not change.\<close>

lemma layout_super: "layout s \<Longrightarrow> super s = DISKMAP + BY2BLK \<and> cached 1 s"
  unfolding layout_def by (auto dest!: spec [of _ 1])

lemma more_cached_nblocks:
  assumes "more_cached s s'" and "layout s"
  shows "s_nblocks s' = s_nblocks s"
  using more_cached_word [OF assms(1), of 1 4] layout_super [OF assms(2)] assms(1)
  by (simp add: s_nblocks_def more_cached_def fs_defs)

lemma more_cached_layout:
  assumes "more_cached s s'" and "layout s"
  shows "layout s'"
proof -
  have "fperm s' (DISKMAP div 4096 + i) \<noteq> None" if "i < nbitmap s + 2" "0 < i" for i
    using assms that by (auto simp: more_cached_def layout_def)
  then show ?thesis
    using assms more_cached_nblocks [OF assms] by (simp add: layout_def more_cached_def nbitmap_def)
qed

lemma bitmap_word_addr:
  "bitmap s + 4 * (b div 32) = DISKMAP + (2 + b div BIT2BLK) * BY2BLK + 4 * (b div 32) mod 4096"
  "4 * (b div 32) mod 4096 + 4 \<le> BY2BLK" if "layout s"
proof -
  have q: "4 * (b div 32) div 4096 = b div BIT2BLK"
    using div_mult2_eq [of b 32 1024] div_mult2_eq [of "4 * (b div 32)" 4 1024] by (simp add: fs_defs)
  have "4 * (b div 32) = b div BIT2BLK * 4096 + 4 * (b div 32) mod 4096"
    using div_mult_mod_eq [of "4 * (b div 32)" 4096] unfolding q by simp
  then show "bitmap s + 4 * (b div 32) = DISKMAP + (2 + b div BIT2BLK) * BY2BLK + 4 * (b div 32) mod 4096"
    using that unfolding layout_def BY2BLK_def by simp
  have "4 * (b div 32) mod 4096 = 4 * (b div 32 mod 1024)"
    using mult_mod_right [of 4 "b div 32" 1024] by simp
  moreover have "b div 32 mod 1024 < 1024" by simp
  ultimately show "4 * (b div 32) mod 4096 + 4 \<le> BY2BLK" unfolding fs_defs by linarith
qed

lemma bitmap_block_cached:
  assumes "layout s" and "b < s_nblocks s"
  shows "cached (2 + b div BIT2BLK) s"
proof -
  have "2 + b div BIT2BLK < nbitmap s + 2" using bitmap_block_less [OF assms(2)] by simp
  then show ?thesis using assms(1) unfolding layout_def by (metis add_gr_0 zero_less_numeral)
qed

lemma more_cached_free:
  assumes "more_cached s s'" and "layout s" and "b < s_nblocks s"
  shows "free b s' = free b s"
  using more_cached_word [OF assms(1) bitmap_block_cached [OF assms(2,3)] bitmap_word_addr(2) [OF assms(2)]]
    bitmap_word_addr(1) [OF assms(2)] assms(1)
  by (simp add: free_def bit_word_def more_cached_def)

section \<open>Reading a block\<close>

definition readable :: "nat \<Rightarrow> fs \<Rightarrow> bool" where
  "readable b s \<longleftrightarrow> 0 < b \<and> b < s_nblocks s \<and> \<not> free b s"

lemma more_cached_readable: "more_cached s s' \<Longrightarrow> layout s \<Longrightarrow> readable b s' = readable b s"
  by (auto simp: readable_def more_cached_nblocks more_cached_free)

lemma block_in_use:
  assumes "layout s" and "readable b s"
  shows "block_is_free b s = Some False"
  using assms free_iff_test [of b s] by (auto simp: block_is_free_def readable_def layout_def fs_defs)

lemma read_block_cached:
  assumes "layout s" and "readable b s" and "cached b s"
  shows "read_block b s = Some (DISKMAP + b * BY2BLK, False, s)"
proof -
  have b: "b < s_nblocks s" using assms(2) by (simp add: readable_def)
  note da = diskaddr_ok [OF assms(1) b]
  have "block_is_mapped b s = Some (DISKMAP + b * BY2BLK)"
    using assms(3) by (simp add: block_is_mapped_def da va_is_mapped_def page_of_block)
  moreover have "DISKMAP + b * BY2BLK \<noteq> 0" by (simp add: fs_defs)
  ultimately show ?thesis
    using b da block_in_use [OF assms(1,2)] by (simp add: read_block_def)
qed

lemma cache_page_block: "layout s \<Longrightarrow> b < s_nblocks s \<Longrightarrow> cache_page (DISKMAP div 4096 + b)"
  by (simp add: layout_def cache_page_def fs_defs)

lemma fetched_more:
  assumes "layout s" and "b < s_nblocks s" and "\<not> cached b s"
  shows "more_cached s (fetched b s)"
proof -
  have m: "fmem (fetched b s) a = (if a div 4096 = DISKMAP div 4096 + b then fdisk s (b * BY2BLK + (a - (DISKMAP + b * BY2BLK)))
      else fmem s a)" for a
    using in_block_iff [of b a] by (simp add: fetched_def disk_read_def)
  have "contents (fetched b s) a = contents s a" for a
  proof -
    have "(DISKMAP + a) div 4096 = DISKMAP div 4096 + a div BY2BLK" by (simp add: fs_defs)
    moreover have "a div BY2BLK = b \<Longrightarrow> b * BY2BLK + (DISKMAP + a - (DISKMAP + b * BY2BLK)) = a"
      using div_mult_mod_eq [of a BY2BLK] by (simp add: algebra_simps)
    ultimately show ?thesis using assms(3) by (auto simp: contents_def m)
  qed
  then show ?thesis
    using cache_page_block [OF assms(1,2)] assms(3) by (auto simp: more_cached_def m)
qed

lemma read_block_uncached:
  assumes "layout s" and "readable b s" and "\<not> cached b s" and "grants (Suc n) s"
  shows "read_block b s = Some (DISKMAP + b * BY2BLK, True, fetched b s)"
proof -
  let ?va = "DISKMAP + b * BY2BLK"
  have b: "b < s_nblocks s" using assms(2) by (simp add: readable_def)
  note da = diskaddr_ok [OF assms(1) b]
  obtain g where g: "fgrants s = True # g" using assms(4) by (auto simp: grants_def)
  let ?s = "s\<lparr>fmem := clear_page ?va (fmem s), fperm := (fperm s)(?va div 4096 \<mapsto> PTE_D), fgrants := g\<rparr>"
  have bm: "block_is_mapped b s = Some 0"
    using da assms(3) by (simp add: block_is_mapped_def va_is_mapped_def page_of_block)
  have "map_block b s = Some (Inr (), ?s)"
    using bm da g by (simp add: map_block_def syscall_mem_alloc_def)
  moreover have "fault_in ?va ?s = Some ?s" by (simp add: fault_in_def)
  moreover have "disk_read b ?va ?s = fetched b s"
    using g by (simp add: disk_read_clear fetched_def page_of_block)
  ultimately show ?thesis
    using b da bm block_in_use [OF assms(1,2)] by (simp add: read_block_def)
qed

lemma read_block_reads:
  assumes "layout s" and "readable b s" and "grants (Suc n) s"
  obtains isnew s' where "read_block b s = Some (DISKMAP + b * BY2BLK, isnew, s')"
    and "more_cached s s'" and "cached b s'" and "grants n s'"
proof (cases "cached b s")
  case True
  from that [OF read_block_cached [OF assms(1,2) this] more_cached_refl this grants_Suc [OF assms(3)]]
  show ?thesis .
next
  case False
  have "grants n (fetched b s)" using assms(3) by (auto simp: grants_def)
  moreover have "cached b (fetched b s)" by simp
  moreover have "b < s_nblocks s" using assms(2) by (simp add: readable_def)
  ultimately show ?thesis
    using that [OF read_block_uncached [OF assms(1,2) False assms(3)]] fetched_more [OF assms(1) _ False] by blast
qed

section \<open>The blocks of a file\<close>

text \<open>A \<^verbatim>\<open>struct File\<close> at byte \<open>x\<close> of the disk, in a cached block.\<close>

definition file_cached :: "nat \<Rightarrow> fs \<Rightarrow> bool" where
  "file_cached x s \<longleftrightarrow> cached (x div BY2BLK) s \<and> x mod BY2BLK + BY2FILE \<le> BY2BLK"

lemma file_cached_word:
  assumes "file_cached x s" and "y + 4 \<le> BY2FILE"
  shows "ld (DISKMAP + x + y) s = rd32 (contents s) (x + y)"
proof -
  have "x = x div BY2BLK * BY2BLK + x mod BY2BLK" by simp
  then have e: "DISKMAP + x + y = DISKMAP + x div BY2BLK * BY2BLK + (x mod BY2BLK + y)"
    "x + y = x div BY2BLK * BY2BLK + (x mod BY2BLK + y)" by linarith+
  show ?thesis
    unfolding e by (rule ld_cached) (use assms in \<open>auto simp: file_cached_def\<close>)
qed

lemma file_cached_more: "more_cached s s' \<Longrightarrow> file_cached x s \<Longrightarrow> file_cached x s'"
  by (auto simp: more_cached_def file_cached_def)

lemma file_map_block_link:
  assumes "layout s" and "file_cached x s" and "k < NINDIRECT" and "grants (Suc n) s"
    and "NDIRECT \<le> k \<Longrightarrow> readable (unat (rd32 (contents s) (f_indirect_at x))) s"
    and "link_of x k (contents s) \<noteq> 0"
  obtains s' where "file_map_block (DISKMAP + x) k alloc s = Some (Inr (link_of x k (contents s)), s')"
    and "more_cached s s'" and "grants n s'"
proof (cases "k < NDIRECT")
  case True
  have e: "f_direct_at (DISKMAP + x) k = DISKMAP + x + (136 + 4 * k)" "f_direct_at x k = x + (136 + 4 * k)"
    by (simp_all add: fs_defs)
  have "ld (f_direct_at (DISKMAP + x) k) s = rd32 (contents s) (f_direct_at x k)"
    unfolding e by (rule file_cached_word [OF assms(2)]) (use True in \<open>simp add: fs_defs\<close>)
  then have "file_map_block (DISKMAP + x) k alloc s = Some (Inr (link_of x k (contents s)), s)"
    using True assms(6) by (auto simp: file_map_block_def file_block_walk_def link_of_def)
  then show ?thesis using that grants_Suc [OF assms(4)] by simp
next
  case False
  let ?q = "unat (rd32 (contents s) (f_indirect_at x))"
  have r: "readable ?q s" using False assms(5) by simp
  obtain isnew s' where s': "read_block ?q s = Some (DISKMAP + ?q * BY2BLK, isnew, s')"
    "more_cached s s'" "cached ?q s'" "grants n s'"
    by (rule read_block_reads [OF assms(1) r assms(4)])
  have e: "f_indirect_at (DISKMAP + x) = DISKMAP + x + 176" "f_indirect_at x = x + 176" by (simp_all add: fs_defs)
  have i: "ld (f_indirect_at (DISKMAP + x)) s = rd32 (contents s) (f_indirect_at x)"
    unfolding e by (rule file_cached_word [OF assms(2)]) (simp add: fs_defs)
  have "ld (DISKMAP + ?q * BY2BLK + 4 * k) s' = rd32 (contents s') (?q * BY2BLK + 4 * k)"
    by (rule ld_cached [OF s'(3)]) (use assms(3) in \<open>simp add: fs_defs\<close>)
  then have l: "unat (ld (DISKMAP + ?q * BY2BLK + 4 * k) s') = link_of x k (contents s)"
    using False s'(2) by (simp add: link_of_def more_cached_def)
  have "rd32 (contents s) (f_indirect_at x) \<noteq> 0" using r by (auto simp: readable_def)
  then have "file_block_walk (DISKMAP + x) k alloc s = Some (Inr (DISKMAP + ?q * BY2BLK + 4 * k), s')"
    using False assms(3) s'(1) by (simp add: file_block_walk_def i)
  then have "file_map_block (DISKMAP + x) k alloc s = Some (Inr (link_of x k (contents s)), s')"
    using l assms(6) by (auto simp: file_map_block_def)
  then show ?thesis using that s'(2,4) by blast
qed

lemma file_get_block_reads:
  assumes "layout s" and "file_cached x s" and "k < NINDIRECT" and "grants (Suc (Suc n)) s"
    and "NDIRECT \<le> k \<Longrightarrow> readable (unat (rd32 (contents s) (f_indirect_at x))) s"
    and "readable (link_of x k (contents s)) s"
  obtains s' where "file_get_block (DISKMAP + x) k s = Some (Inr (DISKMAP + link_of x k (contents s) * BY2BLK), s')"
    and "more_cached s s'" and "cached (link_of x k (contents s)) s'" and "grants n s'"
proof -
  have "link_of x k (contents s) \<noteq> 0" using assms(6) by (simp add: readable_def)
  then obtain s1 where s1: "file_map_block (DISKMAP + x) k True s = Some (Inr (link_of x k (contents s)), s1)"
    "more_cached s s1" "grants (Suc n) s1"
    using file_map_block_link [OF assms(1-5)] by blast
  have "readable (link_of x k (contents s)) s1" using assms(1,6) s1(2) by (simp add: more_cached_readable)
  from read_block_reads [OF more_cached_layout [OF s1(2) assms(1)] this s1(3)]
  obtain isnew s' where s': "read_block (link_of x k (contents s)) s1
      = Some (DISKMAP + link_of x k (contents s) * BY2BLK, isnew, s')"
    "more_cached s1 s'" "cached (link_of x k (contents s)) s'" "grants n s'" by blast
  then show ?thesis
    using that more_cached_trans [OF s1(2) s'(2)] s1(1) by (simp add: file_get_block_def)
qed

section \<open>Looking up a name\<close>

definition dir_slot :: "nat \<Rightarrow> mem \<Rightarrow> nat \<Rightarrow> nat" where
  "dir_slot x m j = link_of x (j div FILE2BLK) m * BY2BLK + j mod FILE2BLK * BY2FILE"

lemma str_eq_shift:
  "(\<And>x. x \<le> length cs \<Longrightarrow> m' (a' + x) = m (a + x)) \<Longrightarrow> str_eq m' a' cs = str_eq m a cs"
proof (induction cs arbitrary: a a')
  case Nil
  then show ?case using Nil [of 0] by simp
next
  case (Cons c cs)
  have "m' (a' + 1 + x) = m (a + 1 + x)" if "x \<le> length cs" for x
    using Cons.prems [of "Suc x"] that by simp
  from Cons.IH [OF this] show ?case using Cons.prems [of 0] by simp
qed

lemma str_eq_unique:
  "str_eq m a xs \<Longrightarrow> str_eq m a ys \<Longrightarrow> 0 \<notin> set xs \<Longrightarrow> 0 \<notin> set ys \<Longrightarrow> xs = ys"
proof (induction xs arbitrary: a ys)
  case Nil
  then show ?case by (cases ys) auto
next
  case (Cons x xs)
  then show ?case by (cases ys) auto
qed

lemma find_name_find:
  "find_name js blk name m = map_option (\<lambda>j. blk + j * BY2FILE) (find (\<lambda>j. str_eq m (blk + j * BY2FILE) name) js)"
  by (induction js) simp_all

lemma find_first: "r < n \<Longrightarrow> P r \<Longrightarrow> (\<And>i. i < r \<Longrightarrow> \<not> P i) \<Longrightarrow> find P [0..<n] = Some r"
  unfolding find_Some_iff by (intro exI [of _ r]) auto

lemma slot_name_cached:
  assumes "cached b s" and "j < FILE2BLK" and "length name < MAXNAMELEN"
  shows "str_eq (fmem s) (DISKMAP + b * BY2BLK + j * BY2FILE) name = str_eq (contents s) (b * BY2BLK + j * BY2FILE) name"
proof (rule str_eq_shift)
  fix x assume "x \<le> length name"
  then have "j * BY2FILE + x < BY2BLK" using assms(2,3) by (simp add: fs_defs)
  from contents_cached [OF assms(1) this]
  show "fmem s (DISKMAP + b * BY2BLK + j * BY2FILE + x) = contents s (b * BY2BLK + j * BY2FILE + x)"
    by (simp add: add.assoc)
qed

lemma dir_lookup_in_finds:
  assumes "layout s" and "file_cached x s" and "L \<le> NDIRECT" and "\<forall>k < L. readable (link_of x k (contents s)) s"
    and "length name < MAXNAMELEN" and "j < L * FILE2BLK" and "str_eq (contents s) (dir_slot x (contents s) j) name"
    and "\<forall>i < j. \<not> str_eq (contents s) (dir_slot x (contents s) i) name"
    and "j div FILE2BLK = i + c" and "grants (n + 2 * Suc c) s"
  shows "\<exists>s1. dir_lookup_in [i..<L] (DISKMAP + x) name s = Some (Inr (DISKMAP + dir_slot x (contents s) j),
        st (f_dir_at (DISKMAP + dir_slot x (contents s) j)) (word_of_nat (DISKMAP + x)) s1)
      \<and> more_cached s s1 \<and> cached (link_of x (j div FILE2BLK) (contents s)) s1 \<and> grants n s1"
  using assms
proof (induction c arbitrary: i s)
  case (0 i s)
  let ?m = "contents s" and ?r = "j mod FILE2BLK"
  let ?l = "link_of x i ?m"
  have i: "i < L" "j div FILE2BLK = i" using 0 less_mult_imp_div_less [of j L FILE2BLK] by auto
  then have k: "i < NINDIRECT" "\<not> NDIRECT \<le> i" using 0(3) by (simp_all add: fs_defs)
  have gr: "grants (Suc (Suc n)) s" using 0(10) by simp
  obtain s1 where s1: "file_get_block (DISKMAP + x) i s = Some (Inr (DISKMAP + ?l * BY2BLK), s1)"
    "more_cached s s1" "cached ?l s1" "grants n s1"
    using file_get_block_reads [OF 0(1,2) k(1) gr] 0(4) i k(2) by blast
  have m: "contents s1 = ?m" using s1(2) by (simp add: more_cached_def)
  have r: "?r < FILE2BLK" by (simp add: fs_defs)
  have slot: "dir_slot x ?m (i * FILE2BLK + q) = ?l * BY2BLK + q * BY2FILE" if "q < FILE2BLK" for q
    using that by (simp add: dir_slot_def fs_defs)
  have j: "j = i * FILE2BLK + ?r" using i(2) by (metis div_mult_mod_eq)
  have "find (\<lambda>q. str_eq (fmem s1) (DISKMAP + ?l * BY2BLK + q * BY2FILE) name) [0..<FILE2BLK] = Some ?r"
  proof (rule find_first [OF r])
    show "str_eq (fmem s1) (DISKMAP + ?l * BY2BLK + ?r * BY2FILE) name"
      using 0(7) slot [OF r] j slot_name_cached [OF s1(3) r 0(5)] by (simp add: m)
    fix q assume q: "q < ?r"
    then have "q < FILE2BLK" "i * FILE2BLK + q < j" using r j by linarith+
    then show "\<not> str_eq (fmem s1) (DISKMAP + ?l * BY2BLK + q * BY2FILE) name"
      using 0(8) slot slot_name_cached [OF s1(3) _ 0(5)] m by metis
  qed
  then have "find_name [0..<FILE2BLK] (DISKMAP + ?l * BY2BLK) name (fmem s1) = Some (DISKMAP + dir_slot x ?m j)"
    using slot [OF r] j by (simp add: find_name_find add.assoc)
  moreover have "[i..<L] = i # [Suc i..<L]" using i(1) by (rule upt_conv_Cons)
  ultimately show ?case using s1 i(2) by (intro exI [of _ s1]) simp
next
  case (Suc c i s)
  let ?m = "contents s"
  let ?l = "link_of x i ?m"
  have "j div FILE2BLK < L" using Suc.prems(6) by (rule less_mult_imp_div_less)
  then have i: "i < L" "i < j div FILE2BLK" using Suc.prems(9) by simp_all
  then have k: "i < NINDIRECT" "\<not> NDIRECT \<le> i" using Suc.prems(3) by (simp_all add: fs_defs)
  have gr: "grants (Suc (Suc (n + 2 * Suc c))) s" using Suc.prems(10) by simp
  obtain s1 where s1: "file_get_block (DISKMAP + x) i s = Some (Inr (DISKMAP + ?l * BY2BLK), s1)"
    "more_cached s s1" "cached ?l s1" "grants (n + 2 * Suc c) s1"
    using file_get_block_reads [OF Suc.prems(1,2) k(1) gr] Suc.prems(4) i k by blast
  have m: "contents s1 = ?m" using s1(2) by (simp add: more_cached_def)
  have "\<not> str_eq (fmem s1) (DISKMAP + ?l * BY2BLK + q * BY2FILE) name" if q: "q < FILE2BLK" for q
  proof -
    have "Suc i * FILE2BLK \<le> j" using i(2) by (simp add: fs_defs less_eq_div_iff_mult_less_eq)
    then have "i * FILE2BLK + q < j" using q by simp
    moreover have "dir_slot x ?m (i * FILE2BLK + q) = ?l * BY2BLK + q * BY2FILE"
      using q by (simp add: dir_slot_def fs_defs)
    ultimately show ?thesis using Suc.prems(8) slot_name_cached [OF s1(3) q Suc.prems(5)] m by metis
  qed
  then have "find_name [0..<FILE2BLK] (DISKMAP + ?l * BY2BLK) name (fmem s1) = None"
    by (simp add: find_name_find find_None_iff)
  moreover have "[i..<L] = i # [Suc i..<L]" using i(1) by (rule upt_conv_Cons)
  ultimately have e: "dir_lookup_in [i..<L] (DISKMAP + x) name s = dir_lookup_in [Suc i..<L] (DISKMAP + x) name s1"
    using s1(1) by simp
  have "\<forall>k < L. readable (link_of x k (contents s1)) s1"
    using Suc.prems(1,4) s1(2) by (simp add: m more_cached_readable)
  note h = Suc.IH [OF more_cached_layout [OF s1(2) Suc.prems(1)] file_cached_more [OF s1(2) Suc.prems(2)]
      Suc.prems(3) this Suc.prems(5,6), unfolded m, OF Suc.prems(7,8), of "Suc i", OF _ s1(4)]
  have "j div FILE2BLK = Suc i + c" using Suc.prems(9) by simp
  from h [OF this] obtain s2 where s2: "dir_lookup_in [Suc i..<L] (DISKMAP + x) name s1
      = Some (Inr (DISKMAP + dir_slot x ?m j), st (f_dir_at (DISKMAP + dir_slot x ?m j)) (word_of_nat (DISKMAP + x)) s2)"
    "more_cached s1 s2" "cached (link_of x (j div FILE2BLK) ?m) s2" "grants n s2" by blast
  show ?case using e s2 more_cached_trans [OF s1(2) s2(2)] by (intro exI [of _ s2]) simp
qed

end
