(* ===== verification/FsImage.thy ===== *)
theory FsImage
  imports FsRead
begin

text \<open>
  A server that has mounted an image of \<^verbatim>\<open>fsformat\<close>: \<open>serves ds L U d s\<close> says that server \<open>s\<close> offers the
  files \<open>ds\<close> of the image \<open>d\<close>. Opening a path of the root directory finds its file, and asking for
  a block of it delivers the page with its bytes.
\<close>

section \<open>A mounted image\<close>

text \<open>The only words that change while files are opened and mapped: \<^verbatim>\<open>f_dir\<close> in the directory.\<close>

definition dir_word :: "nat \<Rightarrow> mem \<Rightarrow> nat \<Rightarrow> bool" where
  "dir_word L d a \<longleftrightarrow> a div BY2BLK \<in> disk_links L d \<and> f_dir_at 0 \<le> a mod BY2FILE \<and> a mod BY2FILE < f_dir_at 0 + 4"

definition serves :: "(u8 list \<times> u8 list) list \<Rightarrow> nat \<Rightarrow> nat set \<Rightarrow> mem \<Rightarrow> fs \<Rightarrow> bool" where
  "serves ds L U d s \<longleftrightarrow> disk_image ds L U d \<and> layout s \<and> s_nblocks s = disk_nblocks d
     \<and> (\<forall>b < s_nblocks s. free b s \<longleftrightarrow> disk_free b d)
     \<and> (\<forall>a. BY2BLK \<le> a \<and> a < disk_nblocks d * BY2BLK \<and> \<not> dir_word L d a \<longrightarrow> contents s a = d a)"

lemma serves_more:
  assumes "serves ds L U d s" and "more_cached s s'"
  shows "serves ds L U d s'"
proof -
  have l: "layout s" using assms(1) by (simp add: serves_def)
  show ?thesis
    using assms more_cached_layout [OF assms(2) l] more_cached_nblocks [OF assms(2) l] more_cached_free [OF assms(2) l]
    by (simp add: serves_def) (simp add: more_cached_def)
qed

lemma serves_readable:
  assumes "serves ds L U d s" and "b \<in> U"
  shows "readable b s"
  using assms by (auto simp: serves_def disk_image_def readable_def)

lemma serves_byte:
  assumes "serves ds L U d s" and "1 \<le> b" and "b < disk_nblocks d" and "x < BY2BLK"
    and "b \<notin> disk_links L d \<or> x mod BY2FILE < f_dir_at 0"
  shows "contents s (b * BY2BLK + x) = d (b * BY2BLK + x)"
proof -
  have "b * BY2BLK + x < (b + 1) * BY2BLK" using assms(4) by simp
  also have "\<dots> \<le> disk_nblocks d * BY2BLK" using assms(3) by (intro mult_le_mono1) simp
  finally have hi: "b * BY2BLK + x < disk_nblocks d * BY2BLK" .
  have lo: "BY2BLK \<le> b * BY2BLK + x" using mult_le_mono1 [OF assms(2), of BY2BLK] by linarith
  have "(b * BY2BLK + x) div BY2BLK = b" using assms(4) block_addr by simp
  moreover have "(b * BY2BLK + x) mod BY2FILE = x mod BY2FILE"
  proof -
    have "b * BY2BLK = BY2FILE * (b * 16)" by (simp add: fs_defs)
    then show ?thesis by (metis mod_mult_self4)
  qed
  ultimately have "\<not> dir_word L d (b * BY2BLK + x)" using assms(5) by (auto simp: dir_word_def)
  then show ?thesis using assms(1) hi lo unfolding serves_def by blast
qed

text \<open>The root directory in block 1 and its entries.\<close>

lemma image_root:
  assumes "disk_image ds L U d"
  shows "1 < disk_nblocks d" and "1 \<notin> disk_links L d" and "L \<le> NDIRECT" and "b \<in> U \<Longrightarrow> 1 < b \<and> b < disk_nblocks d"
  using assms by (auto simp: disk_image_def mountable_def disk_nbitmap_def fs_defs dest!: subsetD)

lemma serves_root_word:
  assumes "serves ds L U d s" and "y + 4 \<le> BY2FILE"
  shows "rd32 (contents s) (disk_root + y) = rd32 d (disk_root + y)"
proof (rule rd32_mem)
  fix x assume x: "x < (4 :: nat)"
  have im: "disk_image ds L U d" using assms(1) by (simp add: serves_def)
  have "contents s (1 * BY2BLK + (8 + y + x)) = d (1 * BY2BLK + (8 + y + x))"
    by (rule serves_byte [OF assms(1)]) (use image_root(1,2) [OF im] assms(2) x in \<open>simp_all add: fs_defs\<close>)
  then show "contents s (disk_root + y + x) = d (disk_root + y + x)" by (simp add: s_root_at_def add.assoc)
qed

lemma serves_root:
  assumes "serves ds L U d s"
  shows "k < NDIRECT \<Longrightarrow> link_of disk_root k (contents s) = link_of disk_root k d"
    and "ld (f_type_at (DISKMAP + disk_root)) s = FTYPE_DIR" and "f_size (DISKMAP + disk_root) s div BY2BLK = L"
    and "file_cached disk_root s" and "s_root_at (super s) = DISKMAP + disk_root"
proof -
  have im: "disk_image ds L U d" and l: "layout s" using assms by (simp_all add: serves_def)
  show "k < NDIRECT \<Longrightarrow> link_of disk_root k (contents s) = link_of disk_root k d"
    using serves_root_word [OF assms, of "136 + 4 * k"] by (simp add: link_of_def f_direct_at_def add.assoc fs_defs)
  show c: "file_cached disk_root s"
    using layout_super [OF l] by (simp add: file_cached_def fs_defs)
  have "f_type_at (DISKMAP + disk_root) = DISKMAP + disk_root + 132" "f_type_at disk_root = disk_root + 132"
    "f_size_at (DISKMAP + disk_root) = DISKMAP + disk_root + 128" "f_size_at disk_root = disk_root + 128"
    by (simp_all add: fs_defs)
  then have w: "ld (f_type_at (DISKMAP + disk_root)) s = rd32 d (f_type_at disk_root)"
    "ld (f_size_at (DISKMAP + disk_root)) s = rd32 d (f_size_at disk_root)"
    using file_cached_word [OF c, of 132] file_cached_word [OF c, of 128]
      serves_root_word [OF assms, of 132] serves_root_word [OF assms, of 128] by (simp_all add: fs_defs)
  then show "ld (f_type_at (DISKMAP + disk_root)) s = FTYPE_DIR" using im by (simp add: disk_image_def)
  have "rd32 d (f_size_at disk_root) = word_of_nat (L * BY2BLK)" "L \<le> 10"
    using im by (simp_all add: disk_image_def NDIRECT_def)
  moreover from this(2) have "unat (word_of_nat (L * BY2BLK) :: u32) = L * BY2BLK"
    by (simp only: unat_of_nat) (simp add: BY2BLK_def)
  ultimately have "f_size (DISKMAP + disk_root) s = L * BY2BLK" by (simp only: f_size_def w(2))
  then show "f_size (DISKMAP + disk_root) s div BY2BLK = L" by (simp add: BY2BLK_def)
  show "s_root_at (super s) = DISKMAP + disk_root" using layout_super [OF l] by (simp add: s_root_at_def)
qed

lemma disk_slot_dir_slot:
  assumes "serves ds L U d s" and "j < L * FILE2BLK"
  shows "dir_slot disk_root (contents s) j = disk_slot j d" and "link_of disk_root (j div FILE2BLK) d \<in> disk_links L d"
proof -
  have "j div FILE2BLK < L" using assms(2) by (rule less_mult_imp_div_less)
  moreover have "L \<le> NDIRECT" using image_root(3) assms(1) by (auto simp: serves_def)
  ultimately show "dir_slot disk_root (contents s) j = disk_slot j d" "link_of disk_root (j div FILE2BLK) d \<in> disk_links L d"
    using serves_root(1) [OF assms(1), of "j div FILE2BLK"]
    by (auto simp: dir_slot_def disk_slot_def disk_links_def)
qed

lemma serves_same_file:
  assumes "serves ds L U d s" and "j < length ds"
  shows "same_file (disk_slot j d) (U - disk_links L d) d (contents s)"
proof -
  have im: "disk_image ds L U d" using assms(1) by (simp add: serves_def)
  then have j: "j < L * FILE2BLK" using assms(2) by (simp add: disk_image_def)
  let ?l = "link_of disk_root (j div FILE2BLK) d"
  have l: "?l \<in> U" using disk_slot_dir_slot(2) [OF assms(1) j] im by (auto simp: disk_image_def)
  show "same_file (disk_slot j d) (U - disk_links L d) d (contents s)"
    unfolding same_file_def
  proof (intro conjI allI ballI impI)
    fix x assume x: "x < f_dir_at 0"
    have "j mod FILE2BLK \<le> 15" by (simp add: fs_defs)
    then have "j mod FILE2BLK * BY2FILE + x < BY2BLK" "(j mod FILE2BLK * BY2FILE + x) mod BY2FILE < f_dir_at 0"
      using x by (simp_all add: fs_defs)
    from serves_byte [OF assms(1) _ _ this(1)] this(2) image_root(4) [OF im l]
    show "contents s (disk_slot j d + x) = d (disk_slot j d + x)" by (simp add: disk_slot_def add.assoc)
  next
    fix b x assume b: "b \<in> U - disk_links L d" and x: "x < BY2BLK"
    then have "1 \<le> b" "b < disk_nblocks d" using image_root(4) [OF im, of b] by simp_all
    from serves_byte [OF assms(1) this x] b show "contents s (b * BY2BLK + x) = d (b * BY2BLK + x)" by simp
  qed
qed

lemma serves_file:
  assumes "serves ds L U d s" and "j < length ds"
  shows "file_ok (fst (ds ! j)) (snd (ds ! j)) (disk_slot j d) (U - disk_links L d) (contents s)"
    and "name_ok (fst (ds ! j))" and "nblocks_of (snd (ds ! j)) \<le> NINDIRECT"
proof -
  have im: "disk_image ds L U d" using assms(1) by (simp add: serves_def)
  then have f: "file_ok (fst (ds ! j)) (snd (ds ! j)) (disk_slot j d) (U - disk_links L d) d"
    and n: "name_ok (fst (ds ! j))" and nb: "nblocks_of (snd (ds ! j)) \<le> NINDIRECT"
    using assms(2) by (auto simp: disk_image_def)
  show "file_ok (fst (ds ! j)) (snd (ds ! j)) (disk_slot j d) (U - disk_links L d) (contents s)"
    using file_ok_same [OF f serves_same_file [OF assms]] n nb by (simp add: name_ok_def)
qed (use assms in \<open>auto simp: serves_def disk_image_def\<close>)

section \<open>Opening a path\<close>

text \<open>Reading keeps the pages that are mapped and everything outside of the cache.\<close>

definition keeps :: "fs \<Rightarrow> fs \<Rightarrow> bool" where
  "keeps s s' \<longleftrightarrow> (\<forall>p. fperm s p \<noteq> None \<or> \<not> cache_page p \<longrightarrow> fperm s' p = fperm s p)
     \<and> (\<forall>a. \<not> cache_page (a div 4096) \<longrightarrow> fmem s' a = fmem s a)"

lemma more_cached_keeps: "more_cached s s' \<Longrightarrow> keeps s s'"
  by (simp add: more_cached_def keeps_def)

lemma keeps_trans: "keeps s s1 \<Longrightarrow> keeps s1 s2 \<Longrightarrow> keeps s s2"
  by (auto simp: keeps_def)

lemma keeps_file_cached: "keeps s s' \<Longrightarrow> file_cached x s \<Longrightarrow> file_cached x s'"
  by (auto simp: keeps_def file_cached_def)

lemma serves_store_dir:
  assumes "serves ds L U d s" and "j < L * FILE2BLK" and "cached (link_of disk_root (j div FILE2BLK) d) s"
  shows "serves ds L U d (st (f_dir_at (DISKMAP + disk_slot j d)) w s)"
    and "keeps s (st (f_dir_at (DISKMAP + disk_slot j d)) w s)"
proof -
  let ?l = "link_of disk_root (j div FILE2BLK) d" and ?o = "j mod FILE2BLK * BY2FILE + 180"
  let ?a = "f_dir_at (DISKMAP + disk_slot j d)"
  let ?s = "st ?a w s"
  have im: "disk_image ds L U d" and lay: "layout s" using assms(1) by (simp_all add: serves_def)
  have l: "?l \<in> disk_links L d" "?l \<in> U"
    using disk_slot_dir_slot(2) [OF assms(1,2)] im by (auto simp: disk_image_def)
  have bound: "disk_nbitmap d + 2 \<le> ?l" "?l < disk_nblocks d" using l(2) im by (auto simp: disk_image_def)
  have a: "?a = DISKMAP + ?l * BY2BLK + ?o" by (simp add: disk_slot_def f_dir_at_def add.assoc)
  have o4: "?o + 4 \<le> BY2BLK"
  proof -
    have "j mod FILE2BLK \<le> 15" by (simp add: fs_defs)
    then show ?thesis by (simp add: fs_defs)
  qed
  have page: "x div 4096 = DISKMAP div 4096 + ?l" if "?a \<le> x" "x < ?a + 4" for x
  proof -
    have "x = DISKMAP + ?l * BY2BLK + (x - (DISKMAP + ?l * BY2BLK))" "x - (DISKMAP + ?l * BY2BLK) < BY2BLK"
      using that a o4 by linarith+
    then show ?thesis using page_of_byte by metis
  qed
  have word: "ld b ?s = ld b s" if "b + 4 \<le> DISKMAP + ?l * BY2BLK" for b
    using that a by (intro ld_st_other) simp
  have sup: "super s = DISKMAP + BY2BLK" "bitmap s = DISKMAP + 2 * BY2BLK" using lay by (simp_all add: layout_def)
  have lo: "DISKMAP + (disk_nbitmap d + 2) * BY2BLK \<le> DISKMAP + ?l * BY2BLK"
    using mult_le_mono1 [OF bound(1), of BY2BLK] by simp
  have nb: "s_nblocks ?s = s_nblocks s"
  proof -
    have "super s + 4 + 4 \<le> DISKMAP + ?l * BY2BLK" using lo by (simp add: sup fs_defs)
    from word [OF this] show ?thesis by (simp add: s_nblocks_def)
  qed
  then have lay': "layout ?s" using lay by (simp add: layout_def nbitmap_def)
  have fr: "free b ?s = free b s" if "b < s_nblocks s" for b
  proof -
    have "b div BIT2BLK < nbitmap s" by (rule bitmap_block_less [OF that])
    moreover have "nbitmap s = disk_nbitmap d" using assms(1) by (simp add: serves_def nbitmap_def disk_nbitmap_def)
    ultimately have "2 + b div BIT2BLK + 1 \<le> disk_nbitmap d + 2" by simp
    then have "(2 + b div BIT2BLK + 1) * BY2BLK \<le> (disk_nbitmap d + 2) * BY2BLK" by (rule mult_le_mono1)
    then have "bitmap s + 4 * (b div 32) + 4 \<le> DISKMAP + ?l * BY2BLK"
      using lo bitmap_word_addr [OF lay, of b] by (simp add: algebra_simps)
    from word [OF this] show ?thesis by (simp add: free_def bit_word_def)
  qed
  have "contents ?s x = contents s x" if "\<not> dir_word L d x" for x
  proof (cases "?a \<le> DISKMAP + x \<and> DISKMAP + x < ?a + 4")
    case True
    define y where "y = x - (?l * BY2BLK + ?o)"
    have y: "x = ?l * BY2BLK + (?o + y)" "y < 4"
      using True unfolding a y_def by linarith+
    have "x div BY2BLK = ?l" using y block_addr [of ?l "?o + y"] o4 by simp
    moreover have "x mod BY2FILE = 180 + y"
    proof -
      have "x = BY2FILE * (?l * 16 + j mod FILE2BLK) + (180 + y)" using y(1) by (simp add: fs_defs)
      then have "x mod BY2FILE = (180 + y) mod BY2FILE" by (metis mod_mult_self4)
      then show ?thesis using y(2) by (simp add: BY2FILE_def)
    qed
    ultimately have "dir_word L d x" using l(1) y(2) by (simp add: dir_word_def f_dir_at_def)
    then show ?thesis using that by simp
  next
    case False
    then have "fmem ?s (DISKMAP + x) = fmem s (DISKMAP + x)"
      by (simp add: st_def) (rule put_word_same, linarith)
    then show ?thesis by (simp add: contents_def)
  qed
  then show "serves ds L U d ?s" using assms(1) lay' fr by (simp add: serves_def nb)
  have "fmem ?s x = fmem s x" if "\<not> cache_page (x div 4096)" for x
  proof -
    have "\<not> (?a \<le> x \<and> x < ?a + 4)"
      using that page [of x] cache_page_block [OF lay] bound(2) assms(1) by (auto simp: serves_def)
    then have "x < ?a \<or> ?a + 4 \<le> x" by linarith
    then show ?thesis by (simp add: st_def put_word_same)
  qed
  then show "keeps s ?s" by (simp add: keeps_def)
qed

text \<open>The path of a file: its name, with slashes before and behind; it is the first one of that name.\<close>

definition names_file :: "u8 list \<Rightarrow> (u8 list \<times> u8 list) list \<Rightarrow> nat \<Rightarrow> bool" where
  "names_file path ds j \<longleftrightarrow> j < length ds \<and> path_elems path = [fst (ds ! j)] \<and> (\<forall>i < j. fst (ds ! i) \<noteq> fst (ds ! j))"

lemma file_open_finds_lemma:
  assumes "serves ds L U d s" and "names_file path ds j" and "grants (n + 2 * L) s"
  obtains s' where "file_open path s = Some (Inr (DISKMAP + disk_slot j d), s')" and "serves ds L U d s'"
    and "keeps s s'" and "file_cached (disk_slot j d) s'" and "grants n s'"
proof -
  let ?name = "fst (ds ! j)"
  have im: "disk_image ds L U d" and lay: "layout s" using assms(1) by (simp_all add: serves_def)
  have j: "j < length ds" "path_elems path = [?name]" "\<And>i. i < j \<Longrightarrow> fst (ds ! i) \<noteq> ?name"
    using assms(2) by (auto simp: names_file_def)
  have L: "j < L * FILE2BLK" "L \<le> NDIRECT" using im j(1) by (auto simp: disk_image_def)
  have jd: "j div FILE2BLK < L" using L(1) by (rule less_mult_imp_div_less)
  note root = serves_root [OF assms(1)] and slot = disk_slot_dir_slot [OF assms(1)]
  have rd: "\<forall>k < L. readable (link_of disk_root k (contents s)) s"
    using root(1) L(2) serves_readable [OF assms(1)] im by (auto simp: disk_image_def disk_links_def)
  note f = serves_file [OF assms(1)]
  have nm: "length ?name < MAXNAMELEN" "0 \<notin> set ?name" using f(2) [OF j(1)] by (auto simp: name_ok_def)
  have hit: "str_eq (contents s) (dir_slot disk_root (contents s) j) ?name"
    using f(1) [OF j(1)] slot(1) [OF L(1)] by (simp add: file_ok_def)
  have miss: "\<forall>i < j. \<not> str_eq (contents s) (dir_slot disk_root (contents s) i) ?name"
  proof (intro allI impI notI)
    fix i assume i: "i < j" and e: "str_eq (contents s) (dir_slot disk_root (contents s) i) ?name"
    have il: "i < length ds" using i j(1) by simp
    have "str_eq (contents s) (disk_slot i d) (fst (ds ! i))" using f(1) [OF il] by (simp add: file_ok_def)
    moreover have "dir_slot disk_root (contents s) i = disk_slot i d" using slot(1) i L(1) by simp
    ultimately have "fst (ds ! i) = ?name"
      using e f(2) [OF il] nm(2) by (auto intro: str_eq_unique simp: name_ok_def)
    then show False using j(3) [OF i] by simp
  qed
  have gr: "grants (n + 2 * Suc (j div FILE2BLK)) s" by (rule grants_le [OF assms(3)]) (use jd in simp)
  from dir_lookup_in_finds [OF lay root(4) L(2) rd nm(1) L(1) hit miss _ gr, of 0]
  obtain s1 where s1: "dir_lookup_in [0..<L] (DISKMAP + disk_root) ?name s
      = Some (Inr (DISKMAP + disk_slot j d), st (f_dir_at (DISKMAP + disk_slot j d)) (word_of_nat (DISKMAP + disk_root)) s1)"
    "more_cached s s1" "cached (link_of disk_root (j div FILE2BLK) d) s1" "grants n s1"
    unfolding slot(1) [OF L(1)] using root(1) [of "j div FILE2BLK"] jd L(2) by auto
  let ?s = "st (f_dir_at (DISKMAP + disk_slot j d)) (word_of_nat (DISKMAP + disk_root)) s1"
  note s2 = serves_store_dir [OF serves_more [OF assms(1) s1(2)] L(1) s1(3)]
  have look: "dir_lookup (DISKMAP + disk_root) ?name s = Some (Inr (DISKMAP + disk_slot j d), ?s)"
    using s1(1) by (simp only: dir_lookup_def root(3))
  have "skip_slash path = [] \<or> hd (skip_slash path) \<noteq> 47" using skip_slash_head by blast
  from walk_loop_elems [OF this]
  have "walk_path path s = walk_elems [?name] (DISKMAP + disk_root) 0 s"
    using layout_super [OF lay] j(2) root(5) by (simp add: walk_path_def fs_defs)
  also have "\<dots> = Some ((Inr (DISKMAP + disk_slot j d), DISKMAP + disk_root, None), ?s)"
    using nm(1) by (simp add: root(2) look)
  finally have "file_open path s = Some (Inr (DISKMAP + disk_slot j d), ?s)" by (simp add: file_open_def)
  moreover have "file_cached (disk_slot j d) ?s"
  proof -
    have "j mod FILE2BLK * BY2FILE + BY2FILE \<le> BY2BLK" "j mod FILE2BLK * BY2FILE < BY2BLK" by (simp_all add: fs_defs)
    then show ?thesis
      using s1(3) block_addr [of "link_of disk_root (j div FILE2BLK) d" "j mod FILE2BLK * BY2FILE"]
      by (simp add: file_cached_def disk_slot_def)
  qed
  moreover have "grants n ?s" using s1(4) by (simp add: grants_def)
  ultimately show ?thesis using that s2 keeps_trans [OF more_cached_keeps [OF s1(2)]] by blast
qed

end
