(* ===== verification/Queue.thy ===== *)
theory Queue
  imports Prelude
begin

text \<open>
  The intrusive lists and tail queues of \<^verbatim>\<open>include/queue.h\<close>, at the level of their
  link pointers. A link field is a function from elements to pointers, so one record
  holds a head together with the \<^verbatim>\<open>LIST_ENTRY\<close> (or \<^verbatim>\<open>TAILQ_ENTRY\<close>) fields of every
  element that can be on it. \<open>le_prev\<close> and \<open>tqe_prev\<close> hold the address of the pointer
  that points at the element, a value of \<open>lref\<close>; a store through the null one is the
  fault \<open>None\<close>. The macros are then related to plain HOL lists, and the contracts the
  kernel relies on are the locales \<open>intrusive_list\<close> and \<open>intrusive_queue\<close>.
\<close>

section \<open>Pointers to link fields\<close>

datatype 'a lref = LNull | LHead | LNext 'a

text \<open>A doubly linked segment: \<open>r\<close> is the address of the pointer whose value is \<open>p\<close>.\<close>

fun lseg :: "('a \<Rightarrow> 'a option) \<Rightarrow> ('a \<Rightarrow> 'a lref) \<Rightarrow> 'a lref \<Rightarrow> 'a option \<Rightarrow> 'a list \<Rightarrow> bool" where
  "lseg nx pv r p [] \<longleftrightarrow> p = None"
| "lseg nx pv r p (x # xs) \<longleftrightarrow> p = Some x \<and> pv x = r \<and> lseg nx pv (LNext x) (nx x) xs"

text \<open>The address of the pointer behind the last element: where a tail queue appends.\<close>

fun last_ref :: "'a lref \<Rightarrow> 'a list \<Rightarrow> 'a lref" where
  "last_ref r [] = r"
| "last_ref r (x # xs) = last_ref (LNext x) xs"

lemma lseg_upd_next [simp]:
  "a \<notin> set xs \<Longrightarrow> lseg (nx(a := v)) pv r p xs = lseg nx pv r p xs"
  by (induction xs arbitrary: r p) auto

lemma lseg_upd_prev [simp]:
  "a \<notin> set xs \<Longrightarrow> lseg nx (pv(a := v)) r p xs = lseg nx pv r p xs"
  by (induction xs arbitrary: r p) auto

lemma lseg_None [simp]: "lseg nx pv r None xs \<longleftrightarrow> xs = []"
  by (cases xs) auto

lemma lseg_unique: "lseg nx pv r p xs \<Longrightarrow> lseg nx pv r' p ys \<Longrightarrow> xs = ys"
proof (induction xs arbitrary: r r' p ys)
  case Nil
  then show ?case by simp
next
  case (Cons x xs)
  then show ?case by (cases ys) auto
qed

lemma last_ref_append: "last_ref r (xs @ ys) = last_ref (last_ref r xs) ys"
  by (induction xs arbitrary: r) auto

lemma last_ref_snoc [simp]: "last_ref r (xs @ [x]) = LNext x"
  by (simp add: last_ref_append)

lemma last_ref_cases: "last_ref r xs = (if xs = [] then r else LNext (last xs))"
  by (induction xs arbitrary: r) auto

lemma lseg_append_split:
  "lseg nx pv r p (xs @ y # ys) \<Longrightarrow>
     pv y = last_ref r xs \<and> lseg nx pv (LNext y) (nx y) ys"
  by (induction xs arbitrary: r p) auto

text \<open>Redirecting the pointer that leads to the tail of a segment replaces that tail.\<close>

lemma lseg_replace_tail:
  "lseg nx pv r p (us @ a # ys) \<Longrightarrow> a \<notin> set us \<Longrightarrow> a \<notin> set zs \<Longrightarrow>
     lseg nx pv (LNext a) q zs \<Longrightarrow> lseg (nx(a := q)) pv r p (us @ a # zs)"
  by (induction us arbitrary: r p) auto

text \<open>The \<open>prev\<close> field of an element behind the cut does not matter before it.\<close>

lemma lseg_prev_cut:
  "lseg nx pv r p (us @ a # ys) \<Longrightarrow> b \<notin> set us \<Longrightarrow> b \<noteq> a \<Longrightarrow> a \<notin> set us \<Longrightarrow>
     lseg nx (pv(b := v)) (LNext a) q zs \<Longrightarrow> a \<notin> set zs \<Longrightarrow>
     lseg (nx(a := q)) (pv(b := v)) r p (us @ a # zs)"
  by (induction us arbitrary: r p) auto

section \<open>LIST\<close>

record 'a lq =
  lh_first :: "'a option"
  le_next :: "'a \<Rightarrow> 'a option"
  le_prev :: "'a \<Rightarrow> 'a lref"

definition LIST_INIT :: "'a lq \<Rightarrow> 'a lq" where
  "LIST_INIT q = q\<lparr>lh_first := None\<rparr>"

definition LIST_EMPTY :: "'a lq \<Rightarrow> bool" where
  "LIST_EMPTY q \<longleftrightarrow> lh_first q = None"

definition LIST_FIRST :: "'a lq \<Rightarrow> 'a option" where
  "LIST_FIRST q = lh_first q"

definition LIST_NEXT :: "'a \<Rightarrow> 'a lq \<Rightarrow> 'a option" where
  "LIST_NEXT elm q = le_next q elm"

definition LIST_PREV :: "'a \<Rightarrow> 'a lq \<Rightarrow> 'a lref" where
  "LIST_PREV elm q = le_prev q elm"

text \<open>\<^verbatim>\<open>*r = v\<close> for the address \<open>r\<close> of a link pointer.\<close>

definition lq_store :: "'a lref \<Rightarrow> 'a option \<Rightarrow> 'a lq \<Rightarrow> 'a lq option" where
  "lq_store r v q =
     (case r of
        LNull \<Rightarrow> None
      | LHead \<Rightarrow> Some (q\<lparr>lh_first := v\<rparr>)
      | LNext x \<Rightarrow> Some (q\<lparr>le_next := (le_next q)(x := v)\<rparr>))"

definition LIST_INSERT_HEAD :: "'a \<Rightarrow> 'a lq \<Rightarrow> 'a lq" where
  "LIST_INSERT_HEAD elm q =
     (let q1 = q\<lparr>le_next := (le_next q)(elm := LIST_FIRST q)\<rparr>;
          q2 = (case LIST_NEXT elm q1 of
                  None \<Rightarrow> q1
                | Some f \<Rightarrow> q1\<lparr>le_prev := (le_prev q1)(f := LNext elm)\<rparr>);
          q3 = q2\<lparr>lh_first := Some elm\<rparr>
      in q3\<lparr>le_prev := (le_prev q3)(elm := LHead)\<rparr>)"

definition LIST_INSERT_AFTER :: "'a \<Rightarrow> 'a \<Rightarrow> 'a lq \<Rightarrow> 'a lq" where
  "LIST_INSERT_AFTER listelm elm q =
     (let q1 = q\<lparr>le_next := (le_next q)(elm := LIST_NEXT listelm q)\<rparr>;
          q2 = (case LIST_NEXT listelm q1 of
                  None \<Rightarrow> q1
                | Some n \<Rightarrow> q1\<lparr>le_prev := (le_prev q1)(n := LNext elm)\<rparr>);
          q3 = q2\<lparr>le_next := (le_next q2)(listelm := Some elm)\<rparr>
      in q3\<lparr>le_prev := (le_prev q3)(elm := LNext listelm)\<rparr>)"

definition LIST_REMOVE :: "'a \<Rightarrow> 'a lq \<Rightarrow> 'a lq option" where
  "LIST_REMOVE elm q =
     (let q1 = (case LIST_NEXT elm q of
                  None \<Rightarrow> q
                | Some n \<Rightarrow> q\<lparr>le_prev := (le_prev q)(n := LIST_PREV elm q)\<rparr>)
      in lq_store (LIST_PREV elm q1) (LIST_NEXT elm q1) q1)"

text \<open>The list a head represents.\<close>

definition lq_rep :: "'a lq \<Rightarrow> 'a list \<Rightarrow> bool" where
  "lq_rep q xs \<longleftrightarrow> distinct xs \<and> lseg (le_next q) (le_prev q) LHead (lh_first q) xs"

lemma lq_rep_unique: "lq_rep q xs \<Longrightarrow> lq_rep q ys \<Longrightarrow> xs = ys"
  by (auto simp: lq_rep_def intro: lseg_unique)

lemma lq_rep_init: "lq_rep (LIST_INIT q) []"
  by (simp add: lq_rep_def LIST_INIT_def)

lemma lq_rep_first: "lq_rep q xs \<Longrightarrow> LIST_FIRST q = (case xs of [] \<Rightarrow> None | x # _ \<Rightarrow> Some x)"
  by (cases xs) (auto simp: lq_rep_def LIST_FIRST_def)

lemma lq_rep_empty: "lq_rep q xs \<Longrightarrow> LIST_EMPTY q \<longleftrightarrow> xs = []"
  by (cases xs) (auto simp: lq_rep_def LIST_EMPTY_def)

lemma lq_rep_insert_head:
  "lq_rep q xs \<Longrightarrow> x \<notin> set xs \<Longrightarrow> lq_rep (LIST_INSERT_HEAD x q) (x # xs)"
  by (cases xs)
    (auto simp: lq_rep_def LIST_INSERT_HEAD_def LIST_FIRST_def LIST_NEXT_def)

lemma lq_rep_remove_first:
  assumes "lq_rep q (a # ys)"
  shows "\<exists>q'. LIST_REMOVE a q = Some q' \<and> lq_rep q' ys"
  using assms
  by (cases ys) (auto simp: lq_rep_def LIST_REMOVE_def LIST_NEXT_def LIST_PREV_def lq_store_def)

lemma lq_rep_remove_mid:
  assumes "lq_rep q (us @ b # a # ys)"
  shows "\<exists>q'. LIST_REMOVE a q = Some q' \<and> lq_rep q' (us @ b # ys)"
proof -
  from assms have d: "distinct (us @ b # a # ys)"
    and seg: "lseg (le_next q) (le_prev q) LHead (lh_first q) (us @ b # a # ys)"
    by (simp_all add: lq_rep_def)
  from seg have pa: "le_prev q a = LNext b"
    and sa: "lseg (le_next q) (le_prev q) (LNext a) (le_next q a) ys"
    using lseg_append_split [of _ _ _ _ "us @ [b]" a ys] by simp_all
  show ?thesis
  proof (cases ys)
    case Nil
    with sa have "le_next q a = None" by simp
    moreover have "lseg ((le_next q)(b := None)) (le_prev q) LHead (lh_first q) (us @ [b])"
      using lseg_replace_tail [OF seg, of "[]" None] d by simp
    ultimately show ?thesis
      using Nil d pa
      by (simp add: LIST_REMOVE_def LIST_NEXT_def LIST_PREV_def lq_store_def lq_rep_def)
  next
    case (Cons n zs)
    with sa have na: "le_next q a = Some n"
      and sn: "lseg (le_next q) (le_prev q) (LNext n) (le_next q n) zs" by auto
    have "lseg ((le_next q)(b := Some n)) ((le_prev q)(n := LNext b)) LHead (lh_first q)
        (us @ b # n # zs)"
      by (rule lseg_prev_cut [OF seg]) (use Cons d sn in auto)
    then show ?thesis
      using Cons d pa na
      by (auto simp: LIST_REMOVE_def LIST_NEXT_def LIST_PREV_def lq_store_def lq_rep_def)
  qed
qed

lemma remove1_middle: "distinct (us @ b # a # ys) \<Longrightarrow> remove1 a (us @ b # a # ys) = us @ b # ys"
  by (simp add: remove1_append)

lemma member_split_cases:
  assumes "a \<in> set xs"
  obtains (first) ys where "xs = a # ys"
    | (mid) us b ys where "xs = us @ b # a # ys"
proof -
  from assms obtain vs ys where xs: "xs = vs @ a # ys" by (meson split_list)
  show ?thesis
  proof (cases vs rule: rev_cases)
    case Nil
    with xs first show ?thesis by simp
  next
    case (snoc us b)
    with xs mid [of us b ys] show ?thesis by simp
  qed
qed

lemma lq_rep_remove:
  assumes "lq_rep q xs" and "a \<in> set xs"
  shows "\<exists>q'. LIST_REMOVE a q = Some q' \<and> lq_rep q' (remove1 a xs)"
  using assms(2)
proof (cases rule: member_split_cases)
  case (first ys)
  then show ?thesis using lq_rep_remove_first assms(1) by auto
next
  case (mid us b ys)
  moreover from this assms(1) have "distinct (us @ b # a # ys)" by (simp add: lq_rep_def)
  ultimately show ?thesis
    using lq_rep_remove_mid [of q us b a ys] assms(1) remove1_middle by metis
qed

lemma lq_rep_insert_after:
  assumes "lq_rep q (us @ b # ys)" and "a \<notin> set (us @ b # ys)"
  shows "lq_rep (LIST_INSERT_AFTER b a q) (us @ b # a # ys)"
proof -
  from assms have d: "distinct (us @ b # ys)"
    and seg: "lseg (le_next q) (le_prev q) LHead (lh_first q) (us @ b # ys)"
    by (simp_all add: lq_rep_def)
  from seg have sb: "lseg (le_next q) (le_prev q) (LNext b) (le_next q b) ys"
    using lseg_append_split by fastforce
  let ?pv = "(le_prev q)(a := LNext b)"
  show ?thesis
  proof (cases ys)
    case Nil
    have "lseg ((le_next q)(a := None)) ?pv LHead (lh_first q) (us @ b # [])"
      using seg assms(2) Nil by simp
    from lseg_replace_tail [OF this, of "[a]" "Some a"]
    have "lseg ((le_next q)(a := None, b := Some a)) ?pv LHead (lh_first q) (us @ b # [a])"
      using d assms(2) by auto
    moreover from sb Nil have "le_next q b = None" by simp
    ultimately show ?thesis
      using Nil d assms(2) by (auto simp: LIST_INSERT_AFTER_def LIST_NEXT_def lq_rep_def)
  next
    case (Cons n zs)
    with sb have nb: "le_next q b = Some n"
      and sn: "lseg (le_next q) (le_prev q) (LNext n) (le_next q n) zs" by auto
    have "lseg ((le_next q)(a := Some n)) ?pv LHead (lh_first q) (us @ b # n # zs)"
      using seg assms(2) Cons by simp
    from lseg_prev_cut [OF this, of n "LNext a" "Some a" "a # n # zs"]
    have "lseg ((le_next q)(a := Some n, b := Some a)) (?pv(n := LNext a)) LHead (lh_first q)
        (us @ b # a # n # zs)"
      using d assms(2) Cons sn by auto
    moreover have "?pv(n := LNext a) = (le_prev q)(n := LNext a, a := LNext b)"
      using assms(2) Cons by (auto simp: fun_upd_twist)
    ultimately show ?thesis
      using Cons d assms(2) nb by (auto simp: LIST_INSERT_AFTER_def LIST_NEXT_def lq_rep_def)
  qed
qed

section \<open>TAILQ\<close>

record 'a tq =
  tqh_first :: "'a option"
  tqh_last :: "'a lref"
  tqe_next :: "'a \<Rightarrow> 'a option"
  tqe_prev :: "'a \<Rightarrow> 'a lref"

definition TAILQ_INIT :: "'a tq \<Rightarrow> 'a tq" where
  "TAILQ_INIT q = q\<lparr>tqh_first := None, tqh_last := LHead\<rparr>"

definition TAILQ_EMPTY :: "'a tq \<Rightarrow> bool" where
  "TAILQ_EMPTY q \<longleftrightarrow> tqh_first q = None"

definition TAILQ_FIRST :: "'a tq \<Rightarrow> 'a option" where
  "TAILQ_FIRST q = tqh_first q"

definition tq_store :: "'a lref \<Rightarrow> 'a option \<Rightarrow> 'a tq \<Rightarrow> 'a tq option" where
  "tq_store r v q =
     (case r of
        LNull \<Rightarrow> None
      | LHead \<Rightarrow> Some (q\<lparr>tqh_first := v\<rparr>)
      | LNext x \<Rightarrow> Some (q\<lparr>tqe_next := (tqe_next q)(x := v)\<rparr>))"

definition TAILQ_INSERT_HEAD :: "'a \<Rightarrow> 'a tq \<Rightarrow> 'a tq" where
  "TAILQ_INSERT_HEAD elm q =
     (let q1 = q\<lparr>tqe_next := (tqe_next q)(elm := tqh_first q)\<rparr>;
          q2 = (case tqe_next q1 elm of
                  None \<Rightarrow> q1\<lparr>tqh_last := LNext elm\<rparr>
                | Some f \<Rightarrow> q1\<lparr>tqe_prev := (tqe_prev q1)(f := LNext elm)\<rparr>);
          q3 = q2\<lparr>tqh_first := Some elm\<rparr>
      in q3\<lparr>tqe_prev := (tqe_prev q3)(elm := LHead)\<rparr>)"

definition TAILQ_INSERT_TAIL :: "'a \<Rightarrow> 'a tq \<Rightarrow> 'a tq option" where
  "TAILQ_INSERT_TAIL elm q =
     (let q1 = q\<lparr>tqe_next := (tqe_next q)(elm := None)\<rparr>;
          q2 = q1\<lparr>tqe_prev := (tqe_prev q1)(elm := tqh_last q1)\<rparr>
      in do {
        q3 \<leftarrow> tq_store (tqh_last q2) (Some elm) q2;
        Some (q3\<lparr>tqh_last := LNext elm\<rparr>)
      })"

definition TAILQ_REMOVE :: "'a \<Rightarrow> 'a tq \<Rightarrow> 'a tq option" where
  "TAILQ_REMOVE elm q =
     (let q1 = (case tqe_next q elm of
                  None \<Rightarrow> q\<lparr>tqh_last := tqe_prev q elm\<rparr>
                | Some n \<Rightarrow> q\<lparr>tqe_prev := (tqe_prev q)(n := tqe_prev q elm)\<rparr>)
      in tq_store (tqe_prev q1 elm) (tqe_next q1 elm) q1)"

definition tq_rep :: "'a tq \<Rightarrow> 'a list \<Rightarrow> bool" where
  "tq_rep q xs \<longleftrightarrow> distinct xs
     \<and> lseg (tqe_next q) (tqe_prev q) LHead (tqh_first q) xs
     \<and> tqh_last q = last_ref LHead xs"

lemma tq_rep_unique: "tq_rep q xs \<Longrightarrow> tq_rep q ys \<Longrightarrow> xs = ys"
  by (auto simp: tq_rep_def intro: lseg_unique)

lemma tq_rep_init: "tq_rep (TAILQ_INIT q) []"
  by (simp add: tq_rep_def TAILQ_INIT_def)

lemma tq_rep_first: "tq_rep q xs \<Longrightarrow> TAILQ_FIRST q = (case xs of [] \<Rightarrow> None | x # _ \<Rightarrow> Some x)"
  by (cases xs) (auto simp: tq_rep_def TAILQ_FIRST_def)

lemma tq_rep_empty: "tq_rep q xs \<Longrightarrow> TAILQ_EMPTY q \<longleftrightarrow> xs = []"
  by (cases xs) (auto simp: tq_rep_def TAILQ_EMPTY_def)

lemma tq_rep_insert_head:
  "tq_rep q xs \<Longrightarrow> x \<notin> set xs \<Longrightarrow> tq_rep (TAILQ_INSERT_HEAD x q) (x # xs)"
  by (cases xs) (auto simp: tq_rep_def TAILQ_INSERT_HEAD_def)

lemma tq_rep_insert_tail:
  assumes "tq_rep q xs" and "x \<notin> set xs"
  shows "\<exists>q'. TAILQ_INSERT_TAIL x q = Some q' \<and> tq_rep q' (xs @ [x])"
proof (cases xs rule: rev_cases)
  case Nil
  with assms show ?thesis
    by (simp add: tq_rep_def TAILQ_INSERT_TAIL_def tq_store_def)
next
  case (snoc us b)
  from assms snoc have d: "distinct (us @ [b])" "x \<notin> set (us @ [b])"
    and seg: "lseg (tqe_next q) (tqe_prev q) LHead (tqh_first q) (us @ [b])"
    and lst: "tqh_last q = LNext b"
    by (simp_all add: tq_rep_def)
  have "lseg ((tqe_next q)(x := None)) ((tqe_prev q)(x := LNext b)) LHead (tqh_first q) (us @ b # [])"
    using seg d by simp
  from lseg_replace_tail [OF this, of "[x]" "Some x"]
  have "lseg ((tqe_next q)(x := None, b := Some x)) ((tqe_prev q)(x := LNext b)) LHead (tqh_first q)
      (us @ b # [x])"
    using d by auto
  then show ?thesis
    using snoc d lst
    by (auto simp: TAILQ_INSERT_TAIL_def tq_store_def tq_rep_def last_ref_append)
qed

lemma tq_rep_remove_first:
  assumes "tq_rep q (a # ys)"
  shows "\<exists>q'. TAILQ_REMOVE a q = Some q' \<and> tq_rep q' ys"
  using assms
  by (cases ys) (auto simp: tq_rep_def TAILQ_REMOVE_def tq_store_def)

lemma tq_rep_remove_mid:
  assumes "tq_rep q (us @ b # a # ys)"
  shows "\<exists>q'. TAILQ_REMOVE a q = Some q' \<and> tq_rep q' (us @ b # ys)"
proof -
  from assms have d: "distinct (us @ b # a # ys)"
    and seg: "lseg (tqe_next q) (tqe_prev q) LHead (tqh_first q) (us @ b # a # ys)"
    and lst: "tqh_last q = last_ref LHead (us @ b # a # ys)"
    by (simp_all add: tq_rep_def)
  from seg have pa: "tqe_prev q a = LNext b"
    and sa: "lseg (tqe_next q) (tqe_prev q) (LNext a) (tqe_next q a) ys"
    using lseg_append_split [of _ _ _ _ "us @ [b]" a ys] by simp_all
  show ?thesis
  proof (cases ys)
    case Nil
    with sa have "tqe_next q a = None" by simp
    moreover have "lseg ((tqe_next q)(b := None)) (tqe_prev q) LHead (tqh_first q) (us @ [b])"
      using lseg_replace_tail [OF seg, of "[]" None] d by simp
    ultimately show ?thesis
      using Nil d pa by (simp add: TAILQ_REMOVE_def tq_store_def tq_rep_def)
  next
    case (Cons n zs)
    with sa have na: "tqe_next q a = Some n"
      and sn: "lseg (tqe_next q) (tqe_prev q) (LNext n) (tqe_next q n) zs" by auto
    have "lseg ((tqe_next q)(b := Some n)) ((tqe_prev q)(n := LNext b)) LHead (tqh_first q)
        (us @ b # n # zs)"
      by (rule lseg_prev_cut [OF seg]) (use Cons d sn in auto)
    then show ?thesis
      using Cons d pa na lst
      by (auto simp: TAILQ_REMOVE_def tq_store_def tq_rep_def last_ref_append)
  qed
qed

lemma tq_rep_remove:
  assumes "tq_rep q xs" and "a \<in> set xs"
  shows "\<exists>q'. TAILQ_REMOVE a q = Some q' \<and> tq_rep q' (remove1 a xs)"
  using assms(2)
proof (cases rule: member_split_cases)
  case (first ys)
  then show ?thesis using tq_rep_remove_first assms(1) by auto
next
  case (mid us b ys)
  moreover from this assms(1) have "distinct (us @ b # a # ys)" by (simp add: tq_rep_def)
  ultimately show ?thesis
    using tq_rep_remove_mid [of q us b a ys] assms(1) remove1_middle by metis
qed

section \<open>The contracts the kernel relies on\<close>

text \<open>
  What a client of a list head may assume: \<open>rep q xs\<close> says that the pointers of \<open>q\<close>
  represent the HOL list \<open>xs\<close>, and every macro acts on that list.
\<close>

locale intrusive_list =
  fixes rep :: "'q \<Rightarrow> 'a list \<Rightarrow> bool"
    and first :: "'q \<Rightarrow> 'a option"
    and insert_head :: "'a \<Rightarrow> 'q \<Rightarrow> 'q"
    and remove :: "'a \<Rightarrow> 'q \<Rightarrow> 'q option"
  assumes rep_unique: "rep q xs \<Longrightarrow> rep q ys \<Longrightarrow> xs = ys"
    and rep_distinct: "rep q xs \<Longrightarrow> distinct xs"
    and rep_first: "rep q xs \<Longrightarrow> first q = (case xs of [] \<Rightarrow> None | x # _ \<Rightarrow> Some x)"
    and rep_insert_head: "rep q xs \<Longrightarrow> x \<notin> set xs \<Longrightarrow> rep (insert_head x q) (x # xs)"
    and rep_remove: "rep q xs \<Longrightarrow> x \<in> set xs \<Longrightarrow>
          \<exists>q'. remove x q = Some q' \<and> rep q' (remove1 x xs)"
begin

lemma first_None_iff: "rep q xs \<Longrightarrow> first q = None \<longleftrightarrow> xs = []"
  by (auto simp: rep_first split: list.splits)

lemma first_Some: "rep q xs \<Longrightarrow> first q = Some x \<Longrightarrow> \<exists>ys. xs = x # ys"
  by (auto simp: rep_first split: list.splits)

lemma remove_first:
  assumes "rep q (x # xs)"
  shows "\<exists>q'. remove x q = Some q' \<and> rep q' xs"
  using rep_remove [OF assms, of x] by simp

lemma remove_first_eq: "rep q (x # xs) \<Longrightarrow> remove x q = Some q' \<Longrightarrow> rep q' xs"
  using remove_first by fastforce

lemma remove_insert_head:
  assumes "rep q xs" and "x \<notin> set xs"
  shows "\<exists>q'. remove x (insert_head x q) = Some q' \<and> rep q' xs"
  using remove_first [OF rep_insert_head [OF assms]] .

lemma remove_mem_iff:
  assumes "rep q xs" and "x \<in> set xs" and "remove x q = Some q'" and "rep q' ys"
  shows "y \<in> set ys \<longleftrightarrow> y \<in> set xs \<and> y \<noteq> x"
proof -
  have "rep q' (remove1 x xs)" using rep_remove [OF assms(1,2)] assms(3) by auto
  then have "ys = remove1 x xs" using assms(4) rep_unique by blast
  then show ?thesis using rep_distinct [OF assms(1)] by auto
qed

end

text \<open>A tail queue also appends at the far end; with \<open>remove\<close> this rotates the queue.\<close>

locale intrusive_queue = intrusive_list rep first insert_head remove
  for rep :: "'q \<Rightarrow> 'a list \<Rightarrow> bool"
    and first :: "'q \<Rightarrow> 'a option"
    and insert_head :: "'a \<Rightarrow> 'q \<Rightarrow> 'q"
    and remove :: "'a \<Rightarrow> 'q \<Rightarrow> 'q option" +
  fixes insert_tail :: "'a \<Rightarrow> 'q \<Rightarrow> 'q option"
  assumes rep_insert_tail: "rep q xs \<Longrightarrow> x \<notin> set xs \<Longrightarrow>
          \<exists>q'. insert_tail x q = Some q' \<and> rep q' (xs @ [x])"
begin

lemma move_to_tail:
  assumes "rep q xs" and "x \<in> set xs"
  shows "\<exists>q1 q2. remove x q = Some q1 \<and> insert_tail x q1 = Some q2
            \<and> rep q2 (remove1 x xs @ [x])"
proof -
  from rep_remove [OF assms] obtain q1 where q1: "remove x q = Some q1" "rep q1 (remove1 x xs)"
    by auto
  moreover have "x \<notin> set (remove1 x xs)" using rep_distinct [OF assms(1)] by simp
  ultimately show ?thesis using rep_insert_tail [OF q1(2)] by auto
qed

lemma rotate_first:
  assumes "rep q (x # xs)"
  shows "\<exists>q1 q2. remove x q = Some q1 \<and> insert_tail x q1 = Some q2 \<and> rep q2 (xs @ [x])"
  using move_to_tail [OF assms, of x] by simp

end

interpretation lists: intrusive_list lq_rep LIST_FIRST LIST_INSERT_HEAD LIST_REMOVE
  by unfold_locales
    (auto intro: lq_rep_unique lq_rep_insert_head lq_rep_remove simp: lq_rep_first, simp add: lq_rep_def)

interpretation tailqs: intrusive_queue tq_rep TAILQ_FIRST TAILQ_INSERT_HEAD TAILQ_REMOVE TAILQ_INSERT_TAIL
  by unfold_locales
    (auto intro: tq_rep_unique tq_rep_insert_head tq_rep_remove tq_rep_insert_tail simp: tq_rep_first,
      simp add: tq_rep_def)

end
