(* ===== verification/Pmap.thy ===== *)
theory Pmap
  imports Queue
begin

text \<open>
  Physical pages and two-level page tables: \<^verbatim>\<open>kern/pmap.c\<close>, the inline helpers of
  \<^verbatim>\<open>include/pmap.h\<close> and \<^verbatim>\<open>tlb_out\<close> of \<^verbatim>\<open>kern/tlb_asm.S\<close>.
  A \<^verbatim>\<open>struct Page *\<close> is its index in \<^verbatim>\<open>pages\<close>, the kernel address of a page is its
  page number, and a \<^verbatim>\<open>Pte *\<close> is a page number with a word index. Physical memory is
  \<open>pmem page word\<close>. The \<^verbatim>\<open>pp_link\<close> fields live in the list record of Queue. The
  record is extended by the process state in Env, so every operation is generic in
  the rest of the state.
\<close>

section \<open>State\<close>

type_synonym pteptr = "nat \<times> nat"

record pm_state =
  memsize :: u32
  npage :: nat
  freemem :: u32
  pages_kva :: u32
  cur_pgdir :: "nat option"
  pp_ref :: "nat \<Rightarrow> u16"
  page_free_list :: "nat lq"
  pmem :: "nat \<Rightarrow> nat \<Rightarrow> u32"
  tlb :: "u32 \<Rightarrow> u32 option"

definition pte_at :: "pteptr \<Rightarrow> 'z pm_state_scheme \<Rightarrow> u32" where
  "pte_at p s = pmem s (fst p) (snd p)"

definition set_pte :: "pteptr \<Rightarrow> u32 \<Rightarrow> 'z pm_state_scheme \<Rightarrow> 'z pm_state_scheme" where
  "set_pte p v s = s\<lparr>pmem := (pmem s)(fst p := (pmem s (fst p))(snd p := v))\<rparr>"

definition zero_page :: "nat \<Rightarrow> 'z pm_state_scheme \<Rightarrow> 'z pm_state_scheme" where
  "zero_page p s = s\<lparr>pmem := (pmem s)(p := (\<lambda>_. 0))\<rparr>"

definition incr_ref :: "nat \<Rightarrow> 'z pm_state_scheme \<Rightarrow> 'z pm_state_scheme" where
  "incr_ref p s = s\<lparr>pp_ref := (pp_ref s)(p := pp_ref s p + 1)\<rparr>"

text \<open>\<^verbatim>\<open>PADDR\<close>, \<^verbatim>\<open>pa2page\<close> and \<^verbatim>\<open>KADDR\<close>, with their panics.\<close>

definition PADDR :: "u32 \<Rightarrow> u32 option" where
  "PADDR kva = (if kva < ULIM then None else Some (kva - ULIM))"

definition pa2page :: "u32 \<Rightarrow> 'z pm_state_scheme \<Rightarrow> nat option" where
  "pa2page pa s = (if npage s \<le> PPN pa then None else Some (PPN pa))"

definition KADDR_page :: "u32 \<Rightarrow> 'z pm_state_scheme \<Rightarrow> nat option" where
  "KADDR_page pa s = (if npage s \<le> PPN pa then None else Some (PPN pa))"

definition page2kva :: "nat \<Rightarrow> 'z pm_state_scheme \<Rightarrow> nat option" where
  "page2kva pp s = KADDR_page (page2pa pp) s"

section \<open>Boot-time allocation\<close>

definition mips_detect_memory :: "u32 \<Rightarrow> 'z pm_state_scheme \<Rightarrow> 'z pm_state_scheme" where
  "mips_detect_memory dev_mp s = s\<lparr>memsize := dev_mp, npage := unat (dev_mp div BY2PG)\<rparr>"

text \<open>\<^verbatim>\<open>memset(a, 0, n)\<close> on the word-aligned kernel range \<open>[a, a + n)\<close>.\<close>

definition clear_range :: "u32 \<Rightarrow> u32 \<Rightarrow> 'z pm_state_scheme \<Rightarrow> 'z pm_state_scheme" where
  "clear_range a n s =
     s\<lparr>pmem := (\<lambda>p w. let pa = 4096 * p + 4 * w
                       in if unat (a - ULIM) \<le> pa \<and> pa < unat (a - ULIM) + unat n
                          then 0 else pmem s p w)\<rparr>"

text \<open>\<open>kend\<close> is the linker symbol \<^verbatim>\<open>end\<close>, the first address behind the kernel image.\<close>

definition alloc ::
  "u32 \<Rightarrow> u32 \<Rightarrow> u32 \<Rightarrow> bool \<Rightarrow> 'z pm_state_scheme \<Rightarrow> (u32 \<times> 'z pm_state_scheme) option" where
  "alloc kend n align clear s =
     (let f0 = (if freemem s = 0 then kend else freemem s);
          f1 = ROUND f0 align;
          alloced_mem = f1;
          s1 = s\<lparr>freemem := f1 + n\<rparr>
      in do {
        pa \<leftarrow> PADDR (freemem s1);
        if memsize s1 \<le> pa then None
        else Some (alloced_mem, if clear then clear_range alloced_mem n s1 else s1)
      })"

text \<open>\<^verbatim>\<open>sizeof(struct Page)\<close> is 12: two link pointers and the padded \<^verbatim>\<open>u_short\<close>.\<close>

definition mips_vm_init :: "u32 \<Rightarrow> 'z pm_state_scheme \<Rightarrow> 'z pm_state_scheme option" where
  "mips_vm_init kend s = do {
     (kva, s1) \<leftarrow> alloc kend (word_of_nat (npage s) * 12) BY2PG True s;
     Some (s1\<lparr>pages_kva := kva\<rparr>)
   }"

text \<open>The bodies of the two loops of \<^verbatim>\<open>page_init\<close>.\<close>

definition mark_used :: "nat \<Rightarrow> 'z pm_state_scheme \<Rightarrow> 'z pm_state_scheme" where
  "mark_used i s = s\<lparr>pp_ref := (pp_ref s)(i := 1)\<rparr>"

definition mark_free :: "nat \<Rightarrow> 'z pm_state_scheme \<Rightarrow> 'z pm_state_scheme" where
  "mark_free i s =
     (let s1 = s\<lparr>page_free_list := LIST_INSERT_HEAD i (page_free_list s)\<rparr>
      in s1\<lparr>pp_ref := (pp_ref s1)(i := 0)\<rparr>)"

definition page_init :: "'z pm_state_scheme \<Rightarrow> 'z pm_state_scheme option" where
  "page_init s =
     (let s1 = s\<lparr>page_free_list := LIST_INIT (page_free_list s), freemem := ROUND (freemem s) BY2PG\<rparr>
      in do {
        pa \<leftarrow> PADDR (freemem s1);
        allocated_pages \<leftarrow> pa2page pa s1;
        let s2 = fold mark_used [0..<allocated_pages] s1;
        let s3 = fold mark_free [allocated_pages..<npage s2] s2;
        Some s3
      })"

section \<open>Page allocation\<close>

definition page_alloc ::
  "'z pm_state_scheme \<Rightarrow> ((kerr + nat) \<times> 'z pm_state_scheme) option" where
  "page_alloc s =
     (if LIST_EMPTY (page_free_list s) then Some (Inl E_NO_MEM, s)
      else do {
        newPage \<leftarrow> LIST_FIRST (page_free_list s);
        fl \<leftarrow> LIST_REMOVE newPage (page_free_list s);
        let s1 = s\<lparr>page_free_list := fl\<rparr>;
        kva \<leftarrow> page2kva newPage s1;
        Some (Inr newPage, zero_page kva s1)
      })"

definition page_free :: "nat \<Rightarrow> 'z pm_state_scheme \<Rightarrow> 'z pm_state_scheme option" where
  "page_free pp s =
     (if pp_ref s pp \<noteq> 0 then None
      else Some (s\<lparr>page_free_list := LIST_INSERT_HEAD pp (page_free_list s)\<rparr>))"

definition page_decref :: "nat \<Rightarrow> 'z pm_state_scheme \<Rightarrow> 'z pm_state_scheme option" where
  "page_decref pp s =
     (if pp_ref s pp = 0 then None
      else let s1 = s\<lparr>pp_ref := (pp_ref s)(pp := pp_ref s pp - 1)\<rparr>
           in if pp_ref s1 pp = 0 then page_free pp s1 else Some s1)"

section \<open>The TLB\<close>

text \<open>
  The TLB maps an EntryHi value (page address and \<^verbatim>\<open>asid << 6\<close>) to its EntryLo. A probe
  hits the entry with that EntryHi, or one with the G bit for the same page
  (the comment on \<^verbatim>\<open>PTE_G\<close> in mmu.h).
\<close>

definition tlb_hit :: "u32 \<Rightarrow> u32 \<Rightarrow> u32 \<Rightarrow> bool" where
  "tlb_hit hi k lo \<longleftrightarrow> k = hi \<or> (PTE_ADDR k = PTE_ADDR hi \<and> lo AND PTE_G \<noteq> 0)"

definition tlb_out :: "u32 \<Rightarrow> 'z pm_state_scheme \<Rightarrow> 'z pm_state_scheme" where
  "tlb_out hi s =
     s\<lparr>tlb := (\<lambda>k. case tlb s k of
                     None \<Rightarrow> None
                   | Some lo \<Rightarrow> if tlb_hit hi k lo then None else Some lo)\<rparr>"

definition tlb_invalidate :: "u32 \<Rightarrow> u32 \<Rightarrow> 'z pm_state_scheme \<Rightarrow> 'z pm_state_scheme" where
  "tlb_invalidate asid va s = tlb_out (PTE_ADDR va OR push_bit 6 asid) s"

section \<open>Page tables\<close>

text \<open>
  \<open>pgdir_walk\<close> gives \<open>Inr None\<close> where the C returns 1 with a null \<^verbatim>\<open>*ppte\<close>.
\<close>

definition pgdir_walk ::
  "nat \<Rightarrow> u32 \<Rightarrow> bool \<Rightarrow> 'z pm_state_scheme
     \<Rightarrow> ((kerr + pteptr option) \<times> 'z pm_state_scheme) option" where
  "pgdir_walk pgdir va create s =
     (let pgdir_entryp = (pgdir, PDX va)
      in if \<not> pte_valid (pte_at pgdir_entryp s) then
           (if create then do {
              (ret, s1) \<leftarrow> page_alloc s;
              case ret of
                Inl e \<Rightarrow> Some (Inl e, s1)
              | Inr pp \<Rightarrow> do {
                  let s2 = incr_ref pp s1;
                  let s3 = set_pte pgdir_entryp (page2pa pp) s2;
                  let s4 = set_pte pgdir_entryp (pte_at pgdir_entryp s3 OR (PTE_D OR PTE_V)) s3;
                  pt \<leftarrow> KADDR_page (PTE_ADDR (pte_at pgdir_entryp s4)) s4;
                  Some (Inr (Some (pt, PTX va)), s4)
                }
            }
            else Some (Inr None, s))
         else do {
           pt \<leftarrow> KADDR_page (PTE_ADDR (pte_at pgdir_entryp s)) s;
           Some (Inr (Some (pt, PTX va)), s)
         })"

definition page_lookup ::
  "nat \<Rightarrow> u32 \<Rightarrow> 'z pm_state_scheme \<Rightarrow> (nat \<times> pteptr) option option" where
  "page_lookup pgdir va s = do {
     (r, _) \<leftarrow> pgdir_walk pgdir va False s;
     case r of
       Inr (Some pte) \<Rightarrow>
         if \<not> pte_valid (pte_at pte s) then Some None
         else do { pp \<leftarrow> pa2page (pte_at pte s) s; Some (Some (pp, pte)) }
     | _ \<Rightarrow> Some None
   }"

definition page_remove ::
  "nat \<Rightarrow> u32 \<Rightarrow> u32 \<Rightarrow> 'z pm_state_scheme \<Rightarrow> 'z pm_state_scheme option" where
  "page_remove pgdir asid va s = do {
     l \<leftarrow> page_lookup pgdir va s;
     case l of
       None \<Rightarrow> Some s
     | Some (pp, pte) \<Rightarrow> do {
         s1 \<leftarrow> page_decref pp s;
         Some (tlb_invalidate asid va (set_pte pte 0 s1))
       }
   }"

text \<open>The second half of \<open>page_insert\<close>: flush, walk again with \<^verbatim>\<open>create\<close>, store the entry.\<close>

definition page_insert_new ::
  "nat \<Rightarrow> u32 \<Rightarrow> nat \<Rightarrow> u32 \<Rightarrow> u32 \<Rightarrow> 'z pm_state_scheme
     \<Rightarrow> ((kerr + unit) \<times> 'z pm_state_scheme) option" where
  "page_insert_new pgdir asid pp va perm s = do {
     (r, s1) \<leftarrow> pgdir_walk pgdir va True (tlb_invalidate asid va s);
     case r of
       Inr (Some pte) \<Rightarrow>
         Some (Inr (), incr_ref pp (set_pte pte (mk_pte pp perm) s1))
     | _ \<Rightarrow> Some (Inl E_NO_MEM, s1)
   }"

definition page_insert ::
  "nat \<Rightarrow> u32 \<Rightarrow> nat \<Rightarrow> u32 \<Rightarrow> u32 \<Rightarrow> 'z pm_state_scheme
     \<Rightarrow> ((kerr + unit) \<times> 'z pm_state_scheme) option" where
  "page_insert pgdir asid pp va perm s = do {
     (r, _) \<leftarrow> pgdir_walk pgdir va False s;
     case r of
       Inr (Some pte) \<Rightarrow>
         if pte_valid (pte_at pte s) then do {
           old \<leftarrow> pa2page (pte_at pte s) s;
           if old \<noteq> pp then do {
             s1 \<leftarrow> page_remove pgdir asid va s;
             page_insert_new pgdir asid pp va perm s1
           }
           else Some (Inr (), set_pte pte (mk_pte pp perm) (tlb_invalidate asid va s))
         }
         else page_insert_new pgdir asid pp va perm s
     | _ \<Rightarrow> page_insert_new pgdir asid pp va perm s
   }"

definition va2pa :: "nat \<Rightarrow> u32 \<Rightarrow> 'z pm_state_scheme \<Rightarrow> u32 option" where
  "va2pa pgdir va s =
     (let pde = pte_at (pgdir, PDX va) s
      in if \<not> pte_valid pde then Some (NOT 0)
         else do {
           pt \<leftarrow> KADDR_page (PTE_ADDR pde) s;
           let pte = pte_at (pt, PTX va) s;
           if \<not> pte_valid pte then Some (NOT 0) else Some (PTE_ADDR pte)
         })"

section \<open>Basic facts of the state updates\<close>

lemma pte_at_set_pte: "pte_at q (set_pte p v s) = (if q = p then v else pte_at q s)"
  by (cases p; cases q) (auto simp: pte_at_def set_pte_def)

lemma pte_at_zero_page: "pte_at q (zero_page p s) = (if fst q = p then 0 else pte_at q s)"
  by (auto simp: pte_at_def zero_page_def)

lemma pte_at_frame [simp]:
  "pte_at q (incr_ref p s) = pte_at q s"
  "pte_at q (tlb_invalidate a va s) = pte_at q s"
  "pte_at q (s\<lparr>page_free_list := l\<rparr>) = pte_at q s"
  "pte_at q (s\<lparr>pp_ref := r\<rparr>) = pte_at q s"
  by (simp_all add: pte_at_def incr_ref_def tlb_invalidate_def tlb_out_def)

lemma pm_frame [simp]:
  "npage (set_pte p v s) = npage s" "npage (zero_page pp s) = npage s"
  "npage (incr_ref pp s) = npage s" "npage (tlb_invalidate a va s) = npage s"
  "page_free_list (set_pte p v s) = page_free_list s"
  "page_free_list (zero_page pp s) = page_free_list s"
  "page_free_list (incr_ref pp s) = page_free_list s"
  "page_free_list (tlb_invalidate a va s) = page_free_list s"
  "pp_ref (set_pte p v s) = pp_ref s" "pp_ref (zero_page pp s) = pp_ref s"
  "pp_ref (tlb_invalidate a va s) = pp_ref s"
  "pp_ref (incr_ref pp s) = (pp_ref s)(pp := pp_ref s pp + 1)"
  "tlb (set_pte p v s) = tlb s" "tlb (zero_page pp s) = tlb s" "tlb (incr_ref pp s) = tlb s"
  by (simp_all add: set_pte_def zero_page_def incr_ref_def tlb_invalidate_def tlb_out_def)

lemma set_pte_twice [simp]: "set_pte p v (set_pte p w s) = set_pte p v s"
  by (cases p) (simp add: set_pte_def)

text \<open>The state after a page table has been created for a directory slot.\<close>

lemma pgdir_walk_present:
  "pte_valid (pte_at (d, PDX va) s) \<Longrightarrow> PPN (pte_at (d, PDX va) s) < npage s \<Longrightarrow>
     pgdir_walk d va c s = Some (Inr (Some (PPN (pte_at (d, PDX va) s), PTX va)), s)"
  by (simp add: pgdir_walk_def KADDR_page_def)

lemma pgdir_walk_absent:
  "\<not> pte_valid (pte_at (d, PDX va) s) \<Longrightarrow> pgdir_walk d va False s = Some (Inr None, s)"
  by (simp add: pgdir_walk_def)

lemma pgdir_walk_False_state:
  "pgdir_walk d va False s = Some (r, s') \<Longrightarrow> s' = s"
  by (auto simp: pgdir_walk_def KADDR_page_def Let_def split: if_splits)

section \<open>The memory operations leave the rest of the kernel state alone\<close>

text \<open>Everything the record is extended with is one value, \<open>pm_state.more\<close>.\<close>

lemma more_frame [simp]:
  "pm_state.more (set_pte p v s) = pm_state.more s"
  "pm_state.more (zero_page pp s) = pm_state.more s"
  "pm_state.more (incr_ref pp s) = pm_state.more s"
  "pm_state.more (tlb_invalidate a va s) = pm_state.more s"
  by (simp_all add: set_pte_def zero_page_def incr_ref_def tlb_invalidate_def tlb_out_def)

lemma more_page_alloc: "page_alloc s = Some (r, s') \<Longrightarrow> pm_state.more s' = pm_state.more s"
  by (auto simp: page_alloc_def Let_def split: if_splits bind_splits)

lemma more_page_decref: "page_decref pp s = Some s' \<Longrightarrow> pm_state.more s' = pm_state.more s"
  by (auto simp: page_decref_def page_free_def Let_def split: if_splits)

lemma more_pgdir_walk:
  "pgdir_walk d va c s = Some (r, s') \<Longrightarrow> pm_state.more s' = pm_state.more s"
  by (auto simp: pgdir_walk_def Let_def split: if_splits bind_splits sum.splits
      dest!: more_page_alloc)

lemma more_page_remove: "page_remove d a va s = Some s' \<Longrightarrow> pm_state.more s' = pm_state.more s"
  by (auto simp: page_remove_def split: bind_splits option.splits dest!: more_page_decref)

lemma more_page_insert_new:
  "page_insert_new d a pp va perm s = Some (r, s') \<Longrightarrow> pm_state.more s' = pm_state.more s"
  by (auto simp: page_insert_new_def split: bind_splits sum.splits option.splits
      dest!: more_pgdir_walk)

lemma more_page_insert:
  "page_insert d a pp va perm s = Some (r, s') \<Longrightarrow> pm_state.more s' = pm_state.more s"
  by (auto simp: page_insert_def split: bind_splits sum.splits option.splits if_splits
      dest!: more_page_insert_new more_page_remove)

lemmas more_pm = more_page_alloc more_page_decref more_pgdir_walk more_page_remove more_page_insert

lemma more_foldo:
  assumes "\<And>x s s'. f x s = Some s' \<Longrightarrow> pm_state.more s' = pm_state.more s"
  shows "foldo f xs s = Some s' \<Longrightarrow> pm_state.more s' = pm_state.more s"
proof (induction xs arbitrary: s)
  case Nil
  then show ?case by simp
next
  case (Cons x xs)
  then show ?case using assms by (fastforce split: bind_splits)
qed

text \<open>Nor do they switch the address space.\<close>

lemma cur_frame [simp]:
  "cur_pgdir (set_pte p v s) = cur_pgdir s" "cur_pgdir (zero_page pp s) = cur_pgdir s"
  "cur_pgdir (incr_ref pp s) = cur_pgdir s" "cur_pgdir (tlb_invalidate a va s) = cur_pgdir s"
  by (simp_all add: set_pte_def zero_page_def incr_ref_def tlb_invalidate_def tlb_out_def)

lemma cur_page_alloc: "page_alloc s = Some (r, s') \<Longrightarrow> cur_pgdir s' = cur_pgdir s"
  by (auto simp: page_alloc_def Let_def split: if_splits bind_splits)

lemma cur_page_decref: "page_decref pp s = Some s' \<Longrightarrow> cur_pgdir s' = cur_pgdir s"
  by (auto simp: page_decref_def page_free_def Let_def split: if_splits)

lemma cur_pgdir_walk: "pgdir_walk d va c s = Some (r, s') \<Longrightarrow> cur_pgdir s' = cur_pgdir s"
  by (auto simp: pgdir_walk_def Let_def split: if_splits bind_splits sum.splits
      dest!: cur_page_alloc)

lemma cur_page_remove: "page_remove d a va s = Some s' \<Longrightarrow> cur_pgdir s' = cur_pgdir s"
  by (auto simp: page_remove_def split: bind_splits option.splits dest!: cur_page_decref)

lemma cur_page_insert_new:
  "page_insert_new d a pp va perm s = Some (r, s') \<Longrightarrow> cur_pgdir s' = cur_pgdir s"
  by (auto simp: page_insert_new_def split: bind_splits sum.splits option.splits
      dest!: cur_pgdir_walk)

lemma cur_page_insert: "page_insert d a pp va perm s = Some (r, s') \<Longrightarrow> cur_pgdir s' = cur_pgdir s"
  by (auto simp: page_insert_def split: bind_splits sum.splits option.splits if_splits
      dest!: cur_page_insert_new cur_page_remove)

end
