(* ===== verification/Aspace.thy ===== *)
theory Aspace
  imports Pmap
begin

text \<open>
  The abstract view of the page tables and its refinement by \<^verbatim>\<open>kern/pmap.c\<close>. For a
  set \<open>K\<close> of directory slots (directory page, index), \<open>tab\<close> gives the page table a slot
  points at and \<open>vmap\<close> the valid entries below it, both as partial maps. The
  invariant \<open>pm_inv\<close> ties them to the reference counts and to the free list:
  the count of every page is the number of directory slots and page table entries that
  point at it, plus a fixed number \<open>ext\<close> of kernel references; every operation on the
  concrete memory is then one update of the two maps.
\<close>

definition tab :: "'z pm_state_scheme \<Rightarrow> (nat \<times> nat) set \<Rightarrow> nat \<times> nat \<Rightarrow> nat option" where
  "tab s K k = (if k \<in> K \<and> pte_valid (pte_at k s) then Some (PPN (pte_at k s)) else None)"

definition vmap :: "'z pm_state_scheme \<Rightarrow> (nat \<times> nat) set \<Rightarrow> nat \<times> nat \<times> nat \<Rightarrow> u32 option" where
  "vmap s K = (\<lambda>(d, i, j).
     (case tab s K (d, i) of
        None \<Rightarrow> None
      | Some t \<Rightarrow> if j < 1024 \<and> pte_valid (pte_at (t, j) s) then Some (pte_at (t, j) s) else None))"

definition free_inv :: "'z pm_state_scheme \<Rightarrow> nat list \<Rightarrow> bool" where
  "free_inv s fl \<longleftrightarrow> lq_rep (page_free_list s) fl
     \<and> (\<forall>p \<in> set fl. p < npage s \<and> pp_ref s p = 0) \<and> npage s \<le> 2 ^ 20"

definition tab_inv :: "'z pm_state_scheme \<Rightarrow> (nat \<times> nat) set \<Rightarrow> bool" where
  "tab_inv s K \<longleftrightarrow> finite K \<and> (\<forall>k \<in> K. fst k < npage s)
     \<and> (\<forall>k t. tab s K k = Some t \<longrightarrow> t < npage s \<and> t \<notin> fst ` K)
     \<and> inj_on (tab s K) (dom (tab s K))
     \<and> (\<forall>k e. vmap s K k = Some e \<longrightarrow>
           PPN e < npage s \<and> PPN e \<notin> fst ` K \<and> PPN e \<notin> ran (tab s K))"

definition ref_inv :: "'z pm_state_scheme \<Rightarrow> (nat \<times> nat) set \<Rightarrow> (nat \<Rightarrow> nat) \<Rightarrow> bool" where
  "ref_inv s K ext \<longleftrightarrow>
     (\<forall>k \<in> K. 0 < ext (fst k))
     \<and> (\<forall>p < npage s. unat (pp_ref s p)
           = ext p + nrefs id (tab s K) p + nrefs PPN (vmap s K) p)"

definition pm_inv :: "'z pm_state_scheme \<Rightarrow> (nat \<times> nat) set \<Rightarrow> (nat \<Rightarrow> nat) \<Rightarrow> nat list \<Rightarrow> bool" where
  "pm_inv s K ext fl \<longleftrightarrow> free_inv s fl \<and> tab_inv s K \<and> ref_inv s K ext"

lemma vmap_inv_page:
  "tab_inv s K \<Longrightarrow> vmap s K k = Some e \<Longrightarrow>
     PPN e < npage s \<and> PPN e \<notin> fst ` K \<and> PPN e \<notin> ran (tab s K)"
  unfolding tab_inv_def by blast

lemma tab_inv_page: "tab_inv s K \<Longrightarrow> tab s K k = Some t \<Longrightarrow> t < npage s \<and> t \<notin> fst ` K"
  unfolding tab_inv_def by blast

lemma tab_inv_finite: "tab_inv s K \<Longrightarrow> finite K"
  by (simp add: tab_inv_def)

lemma tab_Some: "tab s K k = Some t \<longleftrightarrow> k \<in> K \<and> pte_valid (pte_at k s) \<and> t = PPN (pte_at k s)"
  by (auto simp: tab_def)

lemma tab_None: "tab s K k = None \<longleftrightarrow> k \<notin> K \<or> \<not> pte_valid (pte_at k s)"
  by (auto simp: tab_def)

lemma vmap_Some: "vmap s K (d, i, j) = Some e \<longleftrightarrow>
    (\<exists>t. tab s K (d, i) = Some t \<and> j < 1024 \<and> pte_valid (pte_at (t, j) s) \<and> e = pte_at (t, j) s)"
  by (auto simp: vmap_def split: option.splits)

lemma dom_tab: "dom (tab s K) \<subseteq> K"
  by (auto simp: tab_def dom_def)

lemma dom_vmap: "dom (vmap s K) \<subseteq> (\<lambda>((d, i), j). (d, i, j)) ` (K \<times> {..<1024})"
proof
  fix k assume "k \<in> dom (vmap s K)"
  then obtain d i j e where k: "k = (d, i, j)" and e: "vmap s K (d, i, j) = Some e"
    by (cases k) auto
  then have "(d, i) \<in> K" "j < 1024" by (auto simp: vmap_Some tab_Some)
  then show "k \<in> (\<lambda>((d, i), j). (d, i, j)) ` (K \<times> {..<1024})" using k by force
qed

lemma finite_dom_tab: "finite K \<Longrightarrow> finite (dom (tab s K))"
  by (rule finite_subset [OF dom_tab])

lemma finite_dom_vmap: "finite K \<Longrightarrow> finite (dom (vmap s K))"
  by (rule finite_subset [OF dom_vmap]) auto

lemma tab_cong: "(\<And>k. k \<in> K \<Longrightarrow> pte_at k s' = pte_at k s) \<Longrightarrow> tab s' K = tab s K"
  by (auto simp: tab_def fun_eq_iff)

lemma vmap_cong:
  assumes tb: "tab s' K = tab s K"
    and eq: "\<And>t j. t \<in> ran (tab s K) \<Longrightarrow> pte_at (t, j) s' = pte_at (t, j) s"
  shows "vmap s' K = vmap s K"
proof
  fix k :: "nat \<times> nat \<times> nat"
  obtain d i j where k: "k = (d, i, j)" by (cases k) auto
  show "vmap s' K k = vmap s K k"
  proof (cases "tab s K (d, i)")
    case None
    then show ?thesis by (simp add: k vmap_def tb)
  next
    case (Some t)
    then have "pte_at (t, j) s' = pte_at (t, j) s" by (intro eq ranI)
    then show ?thesis using Some by (simp add: k vmap_def tb)
  qed
qed

text \<open>Updates that leave the tables alone.\<close>

lemma tab_frame [simp]:
  "tab (incr_ref p s) K = tab s K" "tab (tlb_invalidate a va s) K = tab s K"
  "tab (s\<lparr>page_free_list := l\<rparr>) K = tab s K" "tab (s\<lparr>pp_ref := r\<rparr>) K = tab s K"
  by (simp_all add: tab_def fun_eq_iff)

lemma vmap_frame [simp]:
  "vmap (incr_ref p s) K = vmap s K" "vmap (tlb_invalidate a va s) K = vmap s K"
  "vmap (s\<lparr>page_free_list := l\<rparr>) K = vmap s K" "vmap (s\<lparr>pp_ref := r\<rparr>) K = vmap s K"
  by (rule vmap_cong; simp)+

lemma tab_zero_page: "p \<notin> fst ` K \<Longrightarrow> tab (zero_page p s) K = tab s K"
  by (rule tab_cong) (auto simp: pte_at_zero_page)

lemma vmap_zero_page:
  "p \<notin> fst ` K \<Longrightarrow> p \<notin> ran (tab s K) \<Longrightarrow> vmap (zero_page p s) K = vmap s K"
  by (rule vmap_cong) (auto simp: tab_zero_page pte_at_zero_page)

text \<open>Storing a page table entry is one update of \<open>vmap\<close>.\<close>

lemma tab_not_dir: "tab_inv s K \<Longrightarrow> tab s K k = Some t \<Longrightarrow> (t, j) \<notin> K"
  unfolding tab_inv_def by (metis fst_conv imageI)

lemma tab_set_pte:
  "tab_inv s K \<Longrightarrow> tab s K k = Some t \<Longrightarrow> tab (set_pte (t, j) v s) K = tab s K"
  by (rule tab_cong) (auto simp: pte_at_set_pte dest: tab_not_dir)

lemma vmap_set_pte:
  assumes inv: "tab_inv s K" and t: "tab s K (d, i) = Some t" and j: "j < 1024"
  shows "vmap (set_pte (t, j) v s) K
      = (vmap s K)((d, i, j) := (if pte_valid v then Some v else None))"
proof
  fix k :: "nat \<times> nat \<times> nat"
  obtain d' i' j' where k: "k = (d', i', j')" by (cases k) auto
  have tb: "tab (set_pte (t, j) v s) K = tab s K" by (rule tab_set_pte [OF inv t])
  show "vmap (set_pte (t, j) v s) K k
      = ((vmap s K)((d, i, j) := (if pte_valid v then Some v else None))) k"
  proof (cases "(d', i') = (d, i)")
    case True
    then show ?thesis using t j k by (auto simp: vmap_def tb pte_at_set_pte)
  next
    case False
    have "tab s K (d', i') \<noteq> Some t"
    proof
      assume "tab s K (d', i') = Some t"
      with t inv have "(d', i') = (d, i)"
        unfolding tab_inv_def by (auto dest!: inj_onD [of "tab s K" _ "(d', i')" "(d, i)"])
      with False show False by simp
    qed
    then show ?thesis using False k
      by (auto simp: vmap_def tb pte_at_set_pte split: option.splits)
  qed
qed

text \<open>Pointing an empty slot at a zeroed page is one update of \<open>tab\<close>.\<close>

lemma tab_set_pde:
  "k \<in> K \<Longrightarrow> pte_valid v \<Longrightarrow> tab (set_pte k v s) K = (tab s K)(k \<mapsto> PPN v)"
  by (auto simp: tab_def fun_eq_iff pte_at_set_pte)

lemma vmap_set_pde:
  assumes inv: "tab_inv s K" and k: "k \<in> K" "tab s K k = None" and v: "pte_valid v"
    and z: "\<And>j. \<not> pte_valid (pte_at (PPN v, j) s)" and d: "PPN v \<notin> fst ` K"
  shows "vmap (set_pte k v s) K = vmap s K"
proof
  fix q :: "nat \<times> nat \<times> nat"
  obtain d' i' j' where q: "q = (d', i', j')" by (cases q) auto
  have tb: "tab (set_pte k v s) K = (tab s K)(k \<mapsto> PPN v)" by (rule tab_set_pde [OF k(1) v])
  have nd: "(t, j) \<noteq> k" if "tab s K k' = Some t" for t j k'
    using tab_not_dir [OF inv that] k(1) by auto
  have nv: "(PPN v, j) \<noteq> k" for j using d k(1) by force
  show "vmap (set_pte k v s) K q = vmap s K q"
    using z nd nv k(2) unfolding q vmap_def tb
    by (auto simp: pte_at_set_pte split: option.splits)
qed

section \<open>Reference counts and the free list\<close>

lemma free_inv_ref: "free_inv s fl \<Longrightarrow> p \<in> set fl \<Longrightarrow> pp_ref s p = 0"
  by (simp add: free_inv_def)

lemma ref_zero_unused:
  assumes "pm_inv s K ext fl" and "p < npage s" and "pp_ref s p = 0"
  shows "p \<notin> fst ` K" and "p \<notin> ran (tab s K)" and "vmap s K k = Some e \<Longrightarrow> PPN e \<noteq> p"
proof -
  from assms have fin: "finite K"
    and z: "ext p = 0" "nrefs id (tab s K) p = 0" "nrefs PPN (vmap s K) p = 0"
    by (auto simp: pm_inv_def tab_inv_def ref_inv_def)
  show "p \<notin> fst ` K" using z(1) assms(1) by (force simp: pm_inv_def ref_inv_def)
  show "p \<notin> ran (tab s K)"
    using nrefs_zero [OF finite_dom_tab [OF fin] z(2)] by (force simp: ran_def)
  show "vmap s K k = Some e \<Longrightarrow> PPN e \<noteq> p"
    by (rule nrefs_zero [OF finite_dom_vmap [OF fin] z(3)])
qed

lemma used_not_free:
  assumes "pm_inv s K ext fl" and "p \<in> set fl"
  shows "p \<notin> fst ` K" and "p \<notin> ran (tab s K)" and "vmap s K k = Some e \<Longrightarrow> PPN e \<noteq> p"
proof -
  from assms have "p < npage s" "pp_ref s p = 0" by (auto simp: pm_inv_def free_inv_def)
  from ref_zero_unused [OF assms(1) this]
  show "p \<notin> fst ` K" and "p \<notin> ran (tab s K)" and "vmap s K k = Some e \<Longrightarrow> PPN e \<noteq> p" by auto
qed

lemma page_alloc_empty:
  "free_inv s [] \<Longrightarrow> page_alloc s = Some (Inl E_NO_MEM, s)"
  using lq_rep_empty [of "page_free_list s" "[]"] by (simp add: page_alloc_def free_inv_def)

lemma page_alloc_cons:
  assumes "free_inv s (p # fl)"
  shows "\<exists>q. page_alloc s = Some (Inr p, zero_page p (s\<lparr>page_free_list := q\<rparr>)) \<and> lq_rep q fl"
proof -
  from assms have rep: "lq_rep (page_free_list s) (p # fl)" and p: "p < npage s" "npage s \<le> 2 ^ 20"
    by (auto simp: free_inv_def)
  from lists.remove_first [OF rep] obtain q
    where q: "LIST_REMOVE p (page_free_list s) = Some q" "lq_rep q fl" by auto
  have "page2kva p (s\<lparr>page_free_list := q\<rparr>) = Some p"
    using p PPN_page2pa [of p] by (simp add: page2kva_def KADDR_page_def)
  then show ?thesis
    using q lq_rep_empty [OF rep] lists.rep_first [OF rep]
    by (intro exI [of _ q]) (simp add: page_alloc_def)
qed

lemma page_alloc_cases:
  assumes "free_inv s fl"
  obtains (empty) "fl = []" "page_alloc s = Some (Inl E_NO_MEM, s)"
    | (page) p fl' q where "fl = p # fl'" "lq_rep q fl'"
        "page_alloc s = Some (Inr p, zero_page p (s\<lparr>page_free_list := q\<rparr>))"
proof (cases fl)
  case Nil
  then show ?thesis using empty page_alloc_empty [of s] assms by simp
next
  case (Cons p fl')
  then show ?thesis using page page_alloc_cons assms by blast
qed

lemma pm_inv_page_alloc:
  assumes inv: "pm_inv s K ext (p # fl)" and q: "lq_rep q fl"
  shows "pm_inv (zero_page p (s\<lparr>page_free_list := q\<rparr>)) K ext fl"
    and "tab (zero_page p (s\<lparr>page_free_list := q\<rparr>)) K = tab s K"
    and "vmap (zero_page p (s\<lparr>page_free_list := q\<rparr>)) K = vmap s K"
proof -
  let ?s = "zero_page p (s\<lparr>page_free_list := q\<rparr>)"
  have un: "p \<notin> fst ` K" "p \<notin> ran (tab s K)"
    using used_not_free [OF inv, of p] by auto
  show t: "tab ?s K = tab s K" using tab_zero_page [OF un(1), of "s\<lparr>page_free_list := q\<rparr>"] by simp
  show v: "vmap ?s K = vmap s K" using vmap_zero_page [of p K "s\<lparr>page_free_list := q\<rparr>"] un by simp
  show "pm_inv ?s K ext fl"
    using inv q unfolding pm_inv_def free_inv_def tab_inv_def ref_inv_def t v by simp
qed

section \<open>Lookup, removal and insertion on the abstract maps\<close>

text \<open>The key of a virtual address below directory \<open>d\<close>.\<close>

definition vkey :: "nat \<Rightarrow> u32 \<Rightarrow> nat \<times> nat \<times> nat" where
  "vkey d va = (d, PDX va, PTX va)"

lemma vmap_vkey_Some:
  "vmap s K (vkey d va) = Some e \<Longrightarrow>
     \<exists>t. tab s K (d, PDX va) = Some t \<and> pte_valid e \<and> e = pte_at (t, PTX va) s"
  by (auto simp: vkey_def vmap_Some)

lemma page_lookup_vmap:
  assumes inv: "tab_inv s K" and k: "(d, PDX va) \<in> K"
  shows "page_lookup d va s =
     Some (case vmap s K (vkey d va) of
             None \<Rightarrow> None
           | Some e \<Rightarrow> Some (PPN e, (PPN (pte_at (d, PDX va) s), PTX va)))"
proof (cases "tab s K (d, PDX va)")
  case None
  then have "\<not> pte_valid (pte_at (d, PDX va) s)" using k by (simp add: tab_None)
  then show ?thesis
    using None by (simp add: page_lookup_def pgdir_walk_absent vkey_def vmap_def)
next
  case (Some t)
  then have t: "t = PPN (pte_at (d, PDX va) s)" "pte_valid (pte_at (d, PDX va) s)" "t < npage s"
    using inv by (auto simp: tab_Some tab_inv_def)
  have walk: "pgdir_walk d va False s = Some (Inr (Some (t, PTX va)), s)"
    using pgdir_walk_present [of d va s False] t by simp
  show ?thesis
  proof (cases "vmap s K (vkey d va)")
    case None
    then have "\<not> pte_valid (pte_at (t, PTX va) s)" using Some by (simp add: vkey_def vmap_def split: if_splits)
    then show ?thesis using None walk by (simp add: page_lookup_def)
  next
    case e: (Some e)
    then have "e = pte_at (t, PTX va) s" "pte_valid e"
      using Some by (auto simp: vkey_def vmap_Some)
    moreover have "PPN e < npage s" using vmap_inv_page [OF inv e] by simp
    ultimately show ?thesis using e walk t by (simp add: page_lookup_def pa2page_def)
  qed
qed

lemma vmap_ref_pos:
  assumes "pm_inv s K ext fl" and "vmap s K k = Some e"
  shows "0 < unat (pp_ref s (PPN e))" and "PPN e < npage s"
proof -
  have ti: "tab_inv s K" using assms(1) by (simp add: pm_inv_def)
  have fin: "finite K" and p: "PPN e < npage s"
    using tab_inv_finite [OF ti] vmap_inv_page [OF ti assms(2)] by auto
  then show "PPN e < npage s" by simp
  have "0 < nrefs PPN (vmap s K) (PPN e)"
    by (rule nrefs_pos [OF finite_dom_vmap [OF fin] assms(2)])
  then show "0 < unat (pp_ref s (PPN e))"
    using assms(1) p by (simp add: pm_inv_def ref_inv_def)
qed

text \<open>The state after a reference to page \<open>p\<close> has been given back.\<close>

definition decref_state :: "nat \<Rightarrow> 'z pm_state_scheme \<Rightarrow> 'z pm_state_scheme" where
  "decref_state p s =
     (let s1 = s\<lparr>pp_ref := (pp_ref s)(p := pp_ref s p - 1)\<rparr>
      in if pp_ref s p = 1 then s1\<lparr>page_free_list := LIST_INSERT_HEAD p (page_free_list s)\<rparr> else s1)"

lemma page_decref_eq: "pp_ref s p \<noteq> 0 \<Longrightarrow> page_decref p s = Some (decref_state p s)"
  by (auto simp: page_decref_def decref_state_def page_free_def Let_def)

lemma decref_frame [simp]:
  "npage (decref_state p s) = npage s" "pte_at q (decref_state p s) = pte_at q s"
  "pp_ref (decref_state p s) = (pp_ref s)(p := pp_ref s p - 1)"
  "tlb (decref_state p s) = tlb s"
  by (simp_all add: decref_state_def Let_def pte_at_def)

lemma free_inv_decref:
  assumes "free_inv s fl" and "pp_ref s p \<noteq> 0" and "p < npage s"
  shows "free_inv (decref_state p s) (if pp_ref s p = 1 then p # fl else fl)"
proof -
  have p: "p \<notin> set fl" using assms by (auto simp: free_inv_def)
  show ?thesis
    using assms p lq_rep_insert_head [of "page_free_list s" fl p]
    by (auto simp: free_inv_def decref_state_def Let_def)
qed

lemma unat_u16_minus_1: "w \<noteq> 0 \<Longrightarrow> unat (w - 1) = unat w - 1" for w :: u16
  by (simp add: unat_minus_one)

lemma unat_u16_plus_1: "unat w < 65535 \<Longrightarrow> unat (w + 1) = unat w + 1" for w :: u16
  by (simp add: unat_word_ariths)

lemma page_remove_mapped:
  fixes s :: "'z pm_state_scheme" and asid :: u32
  assumes inv: "pm_inv s K ext fl" and k: "(d, PDX va) \<in> K" and e: "vmap s K (vkey d va) = Some e"
  defines "s' \<equiv> tlb_invalidate asid va
                   (set_pte (PPN (pte_at (d, PDX va) s), PTX va) 0 (decref_state (PPN e) s))"
  shows "page_remove d asid va s = Some s'"
    and "tab s' K = tab s K" and "vmap s' K = (vmap s K)(vkey d va := None)"
    and "pm_inv s' K ext (if pp_ref s (PPN e) = 1 then PPN e # fl else fl)"
proof -
  from inv have ti: "tab_inv s K" and fi: "free_inv s fl" and ri: "ref_inv s K ext"
    by (simp_all add: pm_inv_def)
  from e obtain t where t: "tab s K (d, PDX va) = Some t" by (auto dest: vmap_vkey_Some)
  then have tp: "t = PPN (pte_at (d, PDX va) s)" by (simp add: tab_Some)
  have ref: "pp_ref s (PPN e) \<noteq> 0" and p: "PPN e < npage s"
    using vmap_ref_pos [OF inv e] by auto
  let ?s1 = "decref_state (PPN e) s"
  have tb1: "tab ?s1 K = tab s K" by (rule tab_cong) simp
  have vm1: "vmap ?s1 K = vmap s K" by (rule vmap_cong [OF tb1]) simp
  have ti1: "tab_inv ?s1 K" using ti by (simp add: tab_inv_def tb1 vm1)
  show "page_remove d asid va s = Some s'"
    using page_lookup_vmap [OF ti k] e ref
    by (simp add: page_remove_def page_decref_eq s'_def)
  show tb: "tab s' K = tab s K"
    using tab_set_pte [OF ti1, of "(d, PDX va)" t] t tb1 tp by (simp add: s'_def)
  show vm: "vmap s' K = (vmap s K)(vkey d va := None)"
    using vmap_set_pte [OF ti1, of d "PDX va" t "PTX va" 0] t tb1 vm1 tp
    by (simp add: s'_def vkey_def)
  have fi': "free_inv s' (if pp_ref s (PPN e) = 1 then PPN e # fl else fl)"
    using free_inv_decref [OF fi ref p] by (simp add: s'_def free_inv_def)
  have "tab_inv s' K"
    using ti unfolding tab_inv_def tb vm by (auto simp: s'_def split: if_splits)
  moreover have "ref_inv s' K ext"
    unfolding ref_inv_def
  proof (intro conjI allI impI)
    show "\<forall>k \<in> K. 0 < ext (fst k)" using ri by (simp add: ref_inv_def)
    fix q assume q: "q < npage s'"
    then have q': "q < npage s" by (simp add: s'_def)
    have fin: "finite (dom (vmap s K))" using ti finite_dom_vmap by (auto simp: tab_inv_def)
    have "nrefs PPN ((vmap s K)(vkey d va := None)) q + (if PPN e = q then 1 else 0)
        = nrefs PPN (vmap s K) q"
      by (rule nrefs_delete [OF fin e])
    then show "unat (pp_ref s' q) = ext q + nrefs id (tab s' K) q + nrefs PPN (vmap s' K) q"
      using ri q' ref unfolding tb vm ref_inv_def
      by (auto simp: s'_def unat_u16_minus_1 split: if_splits)
  qed
  ultimately show "pm_inv s' K ext (if pp_ref s (PPN e) = 1 then PPN e # fl else fl)"
    using fi' by (simp add: pm_inv_def)
qed

lemma page_remove_unmapped:
  assumes "tab_inv s K" and "(d, PDX va) \<in> K" and "vmap s K (vkey d va) = None"
  shows "page_remove d asid va s = Some s"
  using page_lookup_vmap [OF assms(1,2)] assms(3) by (simp add: page_remove_def)

lemma pm_inv_tlb [simp]: "pm_inv (tlb_invalidate a va s) K ext fl = pm_inv s K ext fl"
  by (simp add: pm_inv_def free_inv_def tab_inv_def ref_inv_def)

text \<open>A page that \<open>page_insert\<close> may map: allocated, and not one of the tables.\<close>

definition mappable :: "'z pm_state_scheme \<Rightarrow> (nat \<times> nat) set \<Rightarrow> nat list \<Rightarrow> nat \<Rightarrow> bool" where
  "mappable s K fl pp \<longleftrightarrow> pp < npage s \<and> pp \<notin> set fl \<and> pp \<notin> fst ` K \<and> pp \<notin> ran (tab s K)
     \<and> unat (pp_ref s pp) < 65535"

lemma pm_inv_set_entry:
  fixes s :: "'z pm_state_scheme"
  assumes inv: "pm_inv s K ext fl" and t: "tab s K (d, PDX va) = Some t"
    and new: "vmap s K (vkey d va) = None" and pp: "mappable s K fl pp" and perm: "perm < 4096"
  defines "s' \<equiv> incr_ref pp (set_pte (t, PTX va) (mk_pte pp perm) s)"
  shows "tab s' K = tab s K" and "vmap s' K = (vmap s K)(vkey d va \<mapsto> mk_pte pp perm)"
    and "pm_inv s' K ext fl"
proof -
  from inv have ti: "tab_inv s K" and fi: "free_inv s fl" and ri: "ref_inv s K ext"
    by (simp_all add: pm_inv_def)
  have ppn: "PPN (mk_pte pp perm) = pp"
    using pp perm fi by (intro PPN_mk_pte) (auto simp: mappable_def free_inv_def)
  show tb: "tab s' K = tab s K" using tab_set_pte [OF ti t] by (simp add: s'_def)
  show vm: "vmap s' K = (vmap s K)(vkey d va \<mapsto> mk_pte pp perm)"
    using vmap_set_pte [OF ti t] by (simp add: s'_def vkey_def)
  have "free_inv s' fl" using fi pp by (auto simp: s'_def free_inv_def mappable_def)
  moreover have "tab_inv s' K"
    using ti pp ppn unfolding tab_inv_def tb vm mappable_def by (auto simp: s'_def split: if_splits)
  moreover have "ref_inv s' K ext"
    unfolding ref_inv_def
  proof (intro conjI allI impI)
    show "\<forall>k \<in> K. 0 < ext (fst k)" using ri by (simp add: ref_inv_def)
    fix q assume q: "q < npage s'"
    have fin: "finite (dom (vmap s K))" using finite_dom_vmap [OF tab_inv_finite [OF ti]] .
    have "nrefs PPN (vmap s' K) q = nrefs PPN (vmap s K) q + (if pp = q then 1 else 0)"
      using nrefs_insert [OF fin new, of PPN "mk_pte pp perm" q] by (simp only: vm ppn)
    then show "unat (pp_ref s' q) = ext q + nrefs id (tab s' K) q + nrefs PPN (vmap s' K) q"
      using ri q pp unfolding tb ref_inv_def mappable_def
      by (auto simp: s'_def unat_u16_plus_1)
  qed
  ultimately show "pm_inv s' K ext fl" by (simp add: pm_inv_def)
qed

lemma pgdir_walk_create:
  fixes s :: "'z pm_state_scheme"
  assumes inv: "pm_inv s K ext (t # fl)" and k: "(d, PDX va) \<in> K" "tab s K (d, PDX va) = None"
  shows "\<exists>s'. pgdir_walk d va True s = Some (Inr (Some (t, PTX va)), s')
     \<and> tab s' K = (tab s K)((d, PDX va) \<mapsto> t) \<and> vmap s' K = vmap s K
     \<and> pm_inv s' K ext fl \<and> npage s' = npage s \<and> pp_ref s' = (pp_ref s)(t := 1) \<and> tlb s' = tlb s"
proof -
  let ?k = "(d, PDX va)"
  from inv have fi: "free_inv s (t # fl)" and t: "t < npage s" "npage s \<le> 2 ^ 20" "pp_ref s t = 0"
    by (auto simp: pm_inv_def free_inv_def)
  from page_alloc_cons [OF fi] obtain q where
    al: "page_alloc s = Some (Inr t, zero_page t (s\<lparr>page_free_list := q\<rparr>))" and q: "lq_rep q fl" by auto
  define s1 where "s1 = zero_page t (s\<lparr>page_free_list := q\<rparr>)"
  note a = pm_inv_page_alloc [OF inv q, folded s1_def]
  from a(1) have ti: "tab_inv s1 K" and fi1: "free_inv s1 fl" and ri1: "ref_inv s1 K ext"
    by (simp_all add: pm_inv_def)
  have un: "t \<notin> fst ` K" "t \<notin> ran (tab s K)" "\<And>k e. vmap s K k = Some e \<Longrightarrow> PPN e \<noteq> t"
    using used_not_free [OF inv, of t] by auto
  have d: "?k \<noteq> (t, j)" for j using un(1) k(1) by force
  define v where "v = mk_pte t PTE_D"
  have v: "pte_valid v" "PPN v = t"
    using PPN_mk_pte [of t PTE_D] t by (simp_all add: v_def PTE_D_def)
  define s' where "s' = set_pte ?k v (incr_ref t s1)"
  have abs: "\<not> pte_valid (pte_at ?k s)" using k by (simp add: tab_None)
  have walk: "pgdir_walk d va True s = Some (Inr (Some (t, PTX va)), s')"
    using abs al v t
    by (simp add: pgdir_walk_def Let_def s'_def s1_def pte_at_set_pte pde_value v_def KADDR_page_def)
  have tb: "tab s' K = (tab s K)(?k \<mapsto> t)"
    using tab_set_pde [OF k(1) v(1), of "incr_ref t s1"] a(2) v by (simp add: s'_def)
  have ti': "tab_inv (incr_ref t s1) K" using ti by (simp add: tab_inv_def)
  have vm: "vmap s' K = vmap s K"
    using vmap_set_pde [OF ti' k(1), of v] a(2,3) k(2) v un(1)
    by (simp add: s'_def) (simp add: s1_def pte_at_zero_page)
  have np: "npage s' = npage s" "pp_ref s' = (pp_ref s)(t := 1)" "page_free_list s' = page_free_list s1"
    using t by (simp_all add: s'_def s1_def)
  have "free_inv s' fl"
    using fi1 fi lists.rep_distinct [of "page_free_list s" "t # fl"] np
    by (auto simp: free_inv_def s1_def)
  moreover have "tab_inv s' K"
    unfolding tab_inv_def tb vm np
  proof (intro conjI allI impI)
    show "finite K" "\<forall>k \<in> K. fst k < npage s"
      using inv by (auto simp: pm_inv_def tab_inv_def)
    have ti0: "tab_inv s K" using inv by (simp add: pm_inv_def)
    have "inj_on (tab s K) (dom (tab s K))" using ti0 by (simp add: tab_inv_def)
    then show "inj_on ((tab s K)(?k \<mapsto> t)) (dom ((tab s K)(?k \<mapsto> t)))"
      using k(2) un(2) by (rule inj_on_map_upd)
    fix k' t' assume "((tab s K)(?k \<mapsto> t)) k' = Some t'"
    then show "t' < npage s" "t' \<notin> fst ` K"
      using tab_inv_page [OF ti0, of k' t'] t un(1) by (auto split: if_splits)
  next
    fix k' e assume e: "vmap s K k' = Some e"
    have ti0: "tab_inv s K" using inv by (simp add: pm_inv_def)
    show "PPN e < npage s" "PPN e \<notin> fst ` K" "PPN e \<notin> ran ((tab s K)(?k \<mapsto> t))"
      using vmap_inv_page [OF ti0 e] un(3) [OF e] k(2) by auto
  qed
  moreover have "ref_inv s' K ext"
    unfolding ref_inv_def
  proof (intro conjI allI impI)
    show "\<forall>k \<in> K. 0 < ext (fst k)" using ri1 by (simp add: ref_inv_def)
    fix p assume p: "p < npage s'"
    have fin: "finite (dom (tab s K))"
      using finite_dom_tab [OF tab_inv_finite [OF ti]] .
    have "nrefs id (tab s' K) p = nrefs id (tab s K) p + (if t = p then 1 else 0)"
      using nrefs_insert [OF fin k(2), of id t p] by (simp add: tb)
    moreover have "unat (pp_ref s p) = ext p + nrefs id (tab s K) p + nrefs PPN (vmap s K) p"
      using inv p by (simp add: pm_inv_def ref_inv_def np)
    ultimately show "unat (pp_ref s' p) = ext p + nrefs id (tab s' K) p + nrefs PPN (vmap s' K) p"
      using t(3) by (auto simp: np vm)
  qed
  ultimately have "pm_inv s' K ext fl" by (simp add: pm_inv_def)
  then show ?thesis using walk tb vm np by (auto simp: s'_def s1_def)
qed

text \<open>\<^verbatim>\<open>page_insert\<close> where nothing is mapped yet.\<close>

lemma page_insert_new_ok:
  fixes s :: "'z pm_state_scheme"
  assumes inv: "pm_inv s K ext fl" and k: "(d, PDX va) \<in> K"
    and new: "vmap s K (vkey d va) = None" and pp: "mappable s K fl pp" and perm: "perm < 4096"
    and mem: "tab s K (d, PDX va) \<noteq> None \<or> fl \<noteq> []"
  shows "\<exists>s' fl'. page_insert_new d asid pp va perm s = Some (Inr (), s')
     \<and> vmap s' K = (vmap s K)(vkey d va \<mapsto> mk_pte pp perm) \<and> pm_inv s' K ext fl'
     \<and> npage s' = npage s \<and> tlb s' = tlb (tlb_invalidate asid va s)
     \<and> fl' = (if tab s K (d, PDX va) = None then tl fl else fl)"
proof (cases "tab s K (d, PDX va)")
  case (Some t)
  let ?s = "tlb_invalidate asid va s"
  have t: "t = PPN (pte_at (d, PDX va) s)" "pte_valid (pte_at (d, PDX va) s)" "t < npage s"
    using Some inv tab_inv_page [of s K _ t] by (auto simp: tab_Some pm_inv_def)
  have walk: "pgdir_walk d va True ?s = Some (Inr (Some (t, PTX va)), ?s)"
    using pgdir_walk_present [of d va ?s True] t by simp
  have "mappable ?s K fl pp" using pp by (simp add: mappable_def)
  note e = pm_inv_set_entry [of ?s K ext fl d va t pp perm] 
  show ?thesis
    using e inv Some new \<open>mappable ?s K fl pp\<close> perm walk by (simp add: page_insert_new_def)
next
  case None
  let ?s = "tlb_invalidate asid va s"
  from None mem obtain t fl' where fl: "fl = t # fl'" by (cases fl) auto
  have inv': "pm_inv ?s K ext (t # fl')" using inv fl by simp
  from pgdir_walk_create [OF inv' k] None obtain s1 where
      walk: "pgdir_walk d va True ?s = Some (Inr (Some (t, PTX va)), s1)"
    and s1: "tab s1 K = (tab s K)((d, PDX va) \<mapsto> t)" "vmap s1 K = vmap s K" "pm_inv s1 K ext fl'"
      "npage s1 = npage s" "pp_ref s1 = (pp_ref s)(t := 1)" "tlb s1 = tlb ?s"
    by auto
  have "pp \<noteq> t" using pp fl by (auto simp: mappable_def)
  then have "mappable s1 K fl' pp"
    using pp fl s1 None by (auto simp: mappable_def)
  note e = pm_inv_set_entry [of s1 K ext fl' d va t pp perm]
  show ?thesis
    using e s1 None new \<open>mappable s1 K fl' pp\<close> perm walk fl by (simp add: page_insert_new_def)
qed

lemma page_insert_new_nomem:
  fixes s :: "'z pm_state_scheme"
  assumes inv: "pm_inv s K ext []" and k: "(d, PDX va) \<in> K" and none: "tab s K (d, PDX va) = None"
  shows "page_insert_new d asid pp va perm s = Some (Inl E_NO_MEM, tlb_invalidate asid va s)"
proof -
  let ?s = "tlb_invalidate asid va s"
  have "\<not> pte_valid (pte_at (d, PDX va) ?s)" using k none by (simp add: tab_None)
  moreover have "page_alloc ?s = Some (Inl E_NO_MEM, ?s)"
    using inv page_alloc_empty [of ?s] by (simp add: pm_inv_def free_inv_def)
  ultimately show ?thesis by (simp add: page_insert_new_def pgdir_walk_def)
qed

text \<open>Reduction of \<open>page_insert\<close> to the entry that is there before.\<close>

lemma page_insert_by_vmap:
  fixes s :: "'z pm_state_scheme"
  assumes inv: "pm_inv s K ext fl" and k: "(d, PDX va) \<in> K"
  shows "page_insert d asid pp va perm s =
    (case vmap s K (vkey d va) of
       None \<Rightarrow> page_insert_new d asid pp va perm s
     | Some e \<Rightarrow>
         if PPN e \<noteq> pp then Option.bind (page_remove d asid va s) (page_insert_new d asid pp va perm)
         else Some (Inr (), set_pte (PPN (pte_at (d, PDX va) s), PTX va) (mk_pte pp perm)
                              (tlb_invalidate asid va s)))"
proof (cases "tab s K (d, PDX va)")
  case None
  then have "\<not> pte_valid (pte_at (d, PDX va) s)" using k by (simp add: tab_None)
  then show ?thesis
    using None by (simp add: page_insert_def pgdir_walk_absent vkey_def vmap_def)
next
  case (Some t)
  have ti: "tab_inv s K" using inv by (simp add: pm_inv_def)
  have t: "t = PPN (pte_at (d, PDX va) s)" "pte_valid (pte_at (d, PDX va) s)" "t < npage s"
    using Some tab_inv_page [OF ti Some] by (auto simp: tab_Some)
  have walk: "pgdir_walk d va False s = Some (Inr (Some (t, PTX va)), s)"
    using pgdir_walk_present [of d va s False] t by simp
  show ?thesis
  proof (cases "vmap s K (vkey d va)")
    case None
    then have "\<not> pte_valid (pte_at (t, PTX va) s)"
      using Some by (simp add: vkey_def vmap_def split: if_splits)
    then show ?thesis using None walk by (simp add: page_insert_def)
  next
    case e: (Some e)
    then have "e = pte_at (t, PTX va) s" "pte_valid e"
      using Some by (auto simp: vkey_def vmap_Some)
    moreover have "PPN e < npage s" using vmap_inv_page [OF ti e] by simp
    ultimately show ?thesis using e walk t by (simp add: page_insert_def pa2page_def)
  qed
qed

lemma tlb_invalidate_cong: "tlb s1 = tlb s2 \<Longrightarrow> tlb (tlb_invalidate a va s1) = tlb (tlb_invalidate a va s2)"
  by (simp add: tlb_invalidate_def tlb_out_def)

lemma tlb_invalidate_twice [simp]:
  "tlb (tlb_invalidate a va (tlb_invalidate a va s)) = tlb (tlb_invalidate a va s)"
  by (auto simp: tlb_invalidate_def tlb_out_def fun_eq_iff split: option.splits)

lemma page_insert_remap:
  fixes s :: "'z pm_state_scheme" and asid :: u32
  assumes inv: "pm_inv s K ext fl" and e: "vmap s K (vkey d va) = Some e" and perm: "perm < 4096"
  defines "s' \<equiv> set_pte (PPN (pte_at (d, PDX va) s), PTX va) (mk_pte (PPN e) perm)
                  (tlb_invalidate asid va s)"
  shows "vmap s' K = (vmap s K)(vkey d va \<mapsto> mk_pte (PPN e) perm)" and "pm_inv s' K ext fl"
proof -
  from inv have ti: "tab_inv s K" and fi: "free_inv s fl" and ri: "ref_inv s K ext"
    by (simp_all add: pm_inv_def)
  from e obtain t where t: "tab s K (d, PDX va) = Some t" by (auto dest: vmap_vkey_Some)
  then have tp: "t = PPN (pte_at (d, PDX va) s)" by (simp add: tab_Some)
  have p: "PPN e < npage s" "PPN e \<notin> fst ` K" "PPN e \<notin> ran (tab s K)"
    using vmap_inv_page [OF ti e] by auto
  have ppn: "PPN (mk_pte (PPN e) perm) = PPN e"
    using PPN_less [of e] perm by (intro PPN_mk_pte) auto
  have ti2: "tab_inv (tlb_invalidate asid va s) K" using ti by (simp add: tab_inv_def)
  have tb: "tab s' K = tab s K"
    using tab_set_pte [OF ti2, of "(d, PDX va)" t] t tp by (simp add: s'_def)
  show vm: "vmap s' K = (vmap s K)(vkey d va \<mapsto> mk_pte (PPN e) perm)"
    using vmap_set_pte [OF ti2, of d "PDX va" t "PTX va" "mk_pte (PPN e) perm"] t tp
    by (simp add: s'_def vkey_def)
  have "free_inv s' fl" using fi by (simp add: s'_def free_inv_def)
  moreover have "tab_inv s' K"
    using ti p ppn unfolding tab_inv_def tb vm by (auto simp: s'_def split: if_splits)
  moreover have "ref_inv s' K ext"
    using ri nrefs_replace [OF finite_dom_vmap [OF tab_inv_finite [OF ti]] e, of PPN "mk_pte (PPN e) perm"]
    unfolding ref_inv_def tb vm by (simp add: s'_def ppn)
  ultimately show "pm_inv s' K ext fl" by (simp add: pm_inv_def)
qed

text \<open>
  The refinement theorem of \<^verbatim>\<open>page_insert\<close>: unless a page table is needed and no page is
  free, it succeeds, its effect is one update of the abstract map, the invariant is kept
  and the TLB loses the entry of \<open>va\<close>.
\<close>

lemma page_insert_refines:
  fixes s :: "'z pm_state_scheme"
  assumes inv: "pm_inv s K ext fl" and k: "(d, PDX va) \<in> K"
    and pp: "mappable s K fl pp \<or> map_option PPN (vmap s K (vkey d va)) = Some pp"
    and perm: "perm < 4096"
    and mem: "tab s K (d, PDX va) \<noteq> None \<or> fl \<noteq> []"
  shows "\<exists>s' fl'. page_insert d asid pp va perm s = Some (Inr (), s')
     \<and> vmap s' K = (vmap s K)(vkey d va \<mapsto> mk_pte pp perm) \<and> pm_inv s' K ext fl'
     \<and> npage s' = npage s \<and> tlb s' = tlb (tlb_invalidate asid va s)"
proof (cases "vmap s K (vkey d va)")
  case None
  then have "mappable s K fl pp" using pp by simp
  then obtain s' fl' where "page_insert_new d asid pp va perm s = Some (Inr (), s')"
     "vmap s' K = (vmap s K)(vkey d va \<mapsto> mk_pte pp perm)" "pm_inv s' K ext fl'"
     "npage s' = npage s" "tlb s' = tlb (tlb_invalidate asid va s)"
    using page_insert_new_ok [OF inv k None _ perm mem] by metis
  then show ?thesis using None page_insert_by_vmap [OF inv k] by auto
next
  case e: (Some e)
  show ?thesis
  proof (cases "PPN e = pp")
    case True
    then show ?thesis
      using page_insert_remap [OF inv e perm, of asid] page_insert_by_vmap [OF inv k, of asid pp perm] e
      by auto
  next
    case False
    then have m: "mappable s K fl pp" using pp e by simp
    define s1 where "s1 = tlb_invalidate asid va
        (set_pte (PPN (pte_at (d, PDX va) s), PTX va) 0 (decref_state (PPN e) s))"
    define fl1 where "fl1 = (if pp_ref s (PPN e) = 1 then PPN e # fl else fl)"
    note r = page_remove_mapped [OF inv k e, of asid, folded s1_def fl1_def]
    have t: "tab s1 K (d, PDX va) \<noteq> None" using e r(2) by (auto dest: vmap_vkey_Some)
    have "mappable s1 K fl1 pp"
      using m False r(2) by (auto simp: mappable_def fl1_def s1_def)
    moreover have "vmap s1 K (vkey d va) = None" using r(3) by simp
    ultimately obtain s' fl' where "page_insert_new d asid pp va perm s1 = Some (Inr (), s')"
       "vmap s' K = (vmap s1 K)(vkey d va \<mapsto> mk_pte pp perm)" "pm_inv s' K ext fl'"
       "npage s' = npage s1" "tlb s' = tlb (tlb_invalidate asid va s1)"
      using page_insert_new_ok [OF r(4) k _ _ perm] t by metis
    moreover have "tlb (tlb_invalidate asid va s1) = tlb (tlb_invalidate asid va s)"
    proof -
      have "tlb s1 = tlb (tlb_invalidate asid va s)"
        unfolding s1_def by (rule tlb_invalidate_cong) simp
      then have "tlb (tlb_invalidate asid va s1) = tlb (tlb_invalidate asid va (tlb_invalidate asid va s))"
        by (rule tlb_invalidate_cong)
      then show ?thesis by simp
    qed
    moreover have "npage s1 = npage s" by (simp add: s1_def)
    ultimately show ?thesis
      using page_insert_by_vmap [OF inv k, of asid pp perm] e False r(1,3) by auto
  qed
qed

lemma page_insert_nomem:
  fixes s :: "'z pm_state_scheme"
  assumes inv: "pm_inv s K ext []" and k: "(d, PDX va) \<in> K" and none: "tab s K (d, PDX va) = None"
  shows "page_insert d asid pp va perm s = Some (Inl E_NO_MEM, tlb_invalidate asid va s)"
proof -
  have "vmap s K (vkey d va) = None" using none by (simp add: vkey_def vmap_def)
  then show ?thesis
    using page_insert_by_vmap [OF inv k] page_insert_new_nomem [OF inv k none] by simp
qed

section \<open>The invariant holds after boot\<close>

lemma fold_mark_used:
  fixes s :: "'z pm_state_scheme"
  shows "fold mark_used xs s = s\<lparr>pp_ref := (\<lambda>p. if p \<in> set xs then 1 else pp_ref s p)\<rparr>"
proof (induction xs arbitrary: s)
  case Nil
  then show ?case by simp
next
  case (Cons x xs)
  have "(\<lambda>p. if p \<in> set xs then 1 else pp_ref (mark_used x s) p)
      = (\<lambda>p. if p \<in> set (x # xs) then 1 else pp_ref s p)"
    by (auto simp: mark_used_def fun_eq_iff)
  then show ?case by (simp only: fold.simps comp_apply Cons.IH) (simp add: mark_used_def)
qed

lemma fold_mark_free:
  fixes s :: "'z pm_state_scheme"
  assumes "lq_rep (page_free_list s) fl" and "distinct xs" and "set xs \<inter> set fl = {}"
  shows "\<exists>q. fold mark_free xs s
      = s\<lparr>page_free_list := q, pp_ref := (\<lambda>p. if p \<in> set xs then 0 else pp_ref s p)\<rparr>
      \<and> lq_rep q (rev xs @ fl)"
  using assms
proof (induction xs arbitrary: s fl)
  case Nil
  then show ?case by (intro exI [of _ "page_free_list s"]) simp
next
  case (Cons x xs)
  have rep: "lq_rep (page_free_list (mark_free x s)) (x # fl)"
    using lq_rep_insert_head [OF Cons.prems(1), of x] Cons.prems(3) by (simp add: mark_free_def)
  have "distinct xs" "set xs \<inter> set (x # fl) = {}" using Cons.prems(2,3) by auto
  from Cons.IH [OF rep this] obtain q where
     q: "fold mark_free xs (mark_free x s) = (mark_free x s)\<lparr>page_free_list := q,
           pp_ref := (\<lambda>p. if p \<in> set xs then 0 else pp_ref (mark_free x s) p)\<rparr>"
      and rq: "lq_rep q (rev xs @ x # fl)" by blast
  have "(\<lambda>p. if p \<in> set xs then 0 else pp_ref (mark_free x s) p)
      = (\<lambda>p. if p \<in> set (x # xs) then 0 else pp_ref s p)"
    by (auto simp: mark_free_def Let_def fun_eq_iff)
  then show ?case using rq
    by (intro exI [of _ q]) (simp only: fold.simps comp_apply q, simp add: mark_free_def Let_def)
qed

lemma tab_empty [simp]: "tab s {} = Map.empty"
  by (simp add: tab_def fun_eq_iff)

lemma vmap_empty [simp]: "vmap s {} = Map.empty"
  by (auto simp: vmap_def fun_eq_iff)

lemma page_init_result:
  fixes s :: "'z pm_state_scheme"
  assumes f: "ULIM \<le> ROUND (freemem s) BY2PG"
    and k: "k = PPN (ROUND (freemem s) BY2PG - ULIM)" "k < npage s" and n: "npage s \<le> 2 ^ 20"
  shows "\<exists>s'. page_init s = Some s' \<and> pmem s' = pmem s \<and> npage s' = npage s
    \<and> free_inv s' (rev [k..<npage s]) \<and> (\<forall>p < npage s. pp_ref s' p = (if p < k then 1 else 0))"
proof -
  let ?s1 = "s\<lparr>page_free_list := LIST_INIT (page_free_list s), freemem := ROUND (freemem s) BY2PG\<rparr>"
  let ?s2 = "?s1\<lparr>pp_ref := (\<lambda>p. if p \<in> set [0..<k] then 1 else pp_ref ?s1 p)\<rparr>"
  have rep: "lq_rep (page_free_list ?s2) []" by (simp add: lq_rep_init)
  from fold_mark_free [OF rep, of "[k..<npage s]"] obtain q where
    q: "fold mark_free [k..<npage s] ?s2
        = ?s2\<lparr>page_free_list := q, pp_ref := (\<lambda>p. if p \<in> set [k..<npage s] then 0 else pp_ref ?s2 p)\<rparr>"
      "lq_rep q (rev [k..<npage s])" by auto
  have s2: "fold mark_used [0..<k] ?s1 = ?s2" by (simp only: fold_mark_used)
  have "npage (fold mark_used [0..<k] ?s1) = npage s" by (simp only: s2) simp
  then have "page_init s = Some (fold mark_free [k..<npage s] (fold mark_used [0..<k] ?s1))"
    using f k by (simp add: page_init_def PADDR_def pa2page_def Let_def)
  then have "page_init s = Some (?s2\<lparr>page_free_list := q,
      pp_ref := (\<lambda>p. if p \<in> set [k..<npage s] then 0 else pp_ref ?s2 p)\<rparr>)"
    by (simp only: s2 q(1))
  then show ?thesis using q(2) n k by (auto simp: free_inv_def)
qed

section \<open>A small machine\<close>

text \<open>
  Four pages: page 0 belongs to the kernel, page 1 is an empty page directory and
  pages 2 and 3 are free. It satisfies the invariant, and the properties below are
  applied to it.
\<close>

definition small_free :: "nat lq" where
  "small_free = LIST_INSERT_HEAD 2 (LIST_INSERT_HEAD 3
     \<lparr>lh_first = None, le_next = (\<lambda>_. None), le_prev = (\<lambda>_. LNull)\<rparr>)"

definition small :: pm_state where
  "small = \<lparr>memsize = 0x4000, npage = 4, freemem = 0x80002000, pages_kva = 0x80000000,
     cur_pgdir = Some 1, pp_ref = (\<lambda>p. if p < 2 then 1 else 0), page_free_list = small_free,
     pmem = (\<lambda>_ _. 0), tlb = (\<lambda>_. None)\<rparr>"

definition small_slots :: "(nat \<times> nat) set" where
  "small_slots = {1} \<times> {..<1024}"

definition small_ext :: "nat \<Rightarrow> nat" where
  "small_ext p = (if p < 2 then 1 else 0)"

lemma lq_rep_small_free: "lq_rep small_free [2, 3]"
  unfolding small_free_def
  by (intro lq_rep_insert_head) (auto simp: lq_rep_def)

lemma small_tab: "tab small K = Map.empty"
  by (simp add: tab_def small_def pte_at_def fun_eq_iff)

lemma small_vmap: "vmap small K = Map.empty"
  by (auto simp: vmap_def small_tab fun_eq_iff)

lemma small_inv: "pm_inv small small_slots small_ext [2, 3]"
proof -
  have "free_inv small [2, 3]"
    using lq_rep_small_free by (simp add: free_inv_def small_def)
  moreover have "tab_inv small small_slots"
    by (auto simp: tab_inv_def small_tab small_vmap small_slots_def) (simp add: small_def)
  moreover have "ref_inv small small_slots small_ext"
    unfolding ref_inv_def small_tab small_vmap
    by (auto simp: small_slots_def small_ext_def small_def)
  ultimately show ?thesis by (simp add: pm_inv_def)
qed

section \<open>Properties\<close>

text \<open>C1: after \<^verbatim>\<open>page_init\<close> every page above the boot-time allocations is on the free
  list, in descending order and unreferenced, every page below is held once by the kernel,
  and the accounting invariant of the address spaces holds.\<close>

theorem page_init_establishes:
  fixes s :: "'z pm_state_scheme"
  assumes "ULIM \<le> ROUND (freemem s) BY2PG"
    and "k = PPN (ROUND (freemem s) BY2PG - ULIM)" and "k < npage s" and "npage s \<le> 2 ^ 20"
  shows "\<exists>s'. page_init s = Some s' \<and> pmem s' = pmem s
    \<and> pm_inv s' {} (\<lambda>p. if p < k then 1 else 0) (rev [k..<npage s])"
proof -
  from page_init_result [OF assms] obtain s' where s': "page_init s = Some s'"
      "pmem s' = pmem s" "npage s' = npage s" "free_inv s' (rev [k..<npage s])"
      "\<forall>p < npage s. pp_ref s' p = (if p < k then 1 else 0)"
    by blast
  then have "pm_inv s' {} (\<lambda>p. if p < k then 1 else 0) (rev [k..<npage s])"
    by (simp add: pm_inv_def tab_inv_def ref_inv_def)
  with s' show ?thesis by blast
qed

lemma page_init_establishes_witness:
  "\<exists>s'. page_init small = Some s' \<and> pmem s' = pmem small
    \<and> pm_inv s' {} (\<lambda>p. if p < 2 then 1 else 0) (rev [2..<npage small])"
proof -
  have "ROUND (freemem small) BY2PG = 0x80002000"
    by (simp add: ROUND_def small_def BY2PG_def)
  moreover have "PPN (0x2000 :: u32) = 2"
    by (simp add: PPN_def drop_bit_eq_div unat_div)
  ultimately show ?thesis
    by (intro page_init_establishes) (simp_all add: small_def ULIM_def)
qed

text \<open>\<^verbatim>\<open>page_alloc\<close> fails exactly when the free list is empty, and then changes
  nothing; otherwise it takes the first free page, zeroes that page and no other, and keeps
  the invariant and every mapping.\<close>

theorem page_alloc_correct:
  fixes s :: "'z pm_state_scheme"
  assumes "pm_inv s K ext fl"
  shows "case fl of
      [] \<Rightarrow> page_alloc s = Some (Inl E_NO_MEM, s)
    | p # fl' \<Rightarrow> (\<exists>s'. page_alloc s = Some (Inr p, s') \<and> pm_inv s' K ext fl'
          \<and> vmap s' K = vmap s K \<and> pmem s' = (pmem s)(p := (\<lambda>_. 0)) \<and> pp_ref s' = pp_ref s)"
proof -
  have fi: "free_inv s fl" using assms by (simp add: pm_inv_def)
  from fi show ?thesis
  proof (cases rule: page_alloc_cases)
    case empty
    then show ?thesis by simp
  next
    case (page p fl' q)
    then show ?thesis
      using pm_inv_page_alloc [of s K ext p fl' q] assms by (auto simp: zero_page_def)
  qed
qed

lemma page_alloc_correct_witness:
  "\<exists>s'. page_alloc small = Some (Inr 2, s') \<and> pm_inv s' small_slots small_ext [3]"
  using page_alloc_correct [OF small_inv] by auto

text \<open>C2: \<^verbatim>\<open>page_insert\<close> with memory for a page table maps the page at the address with
  the permission bits, replaces what was mapped there and changes no other mapping of any
  directory; a lookup then finds the page, the reference counts still count exactly the
  mappings, and no TLB entry of the address is left.\<close>

theorem page_insert_correct:
  fixes s :: "'z pm_state_scheme"
  assumes "pm_inv s K ext fl" and "(d, PDX va) \<in> K"
    and "mappable s K fl pp \<or> map_option PPN (vmap s K (vkey d va)) = Some pp"
    and "perm < 4096"
    and "tab s K (d, PDX va) \<noteq> None \<or> fl \<noteq> []"
  shows "\<exists>s' fl' pte. page_insert d asid pp va perm s = Some (Inr (), s')
     \<and> vmap s' K = (vmap s K)(vkey d va \<mapsto> mk_pte pp perm) \<and> pm_inv s' K ext fl'
     \<and> page_lookup d va s' = Some (Some (pp, pte))
     \<and> tlb s' (PTE_ADDR va OR push_bit 6 asid) = None"
proof -
  from page_insert_refines [OF assms, of asid] obtain s' fl' where
    s': "page_insert d asid pp va perm s = Some (Inr (), s')"
      "vmap s' K = (vmap s K)(vkey d va \<mapsto> mk_pte pp perm)" "pm_inv s' K ext fl'"
      "npage s' = npage s" "tlb s' = tlb (tlb_invalidate asid va s)"
    by blast
  have "PPN (mk_pte pp perm) = pp"
  proof (rule PPN_mk_pte [OF _ assms(4)])
    have n: "npage s \<le> 2 ^ 20" using assms(1) by (simp add: pm_inv_def free_inv_def)
    show "pp < 2 ^ 20"
      using assms(3)
    proof
      assume "mappable s K fl pp"
      then show ?thesis using n by (simp add: mappable_def)
    next
      assume "map_option PPN (vmap s K (vkey d va)) = Some pp"
      then obtain e where "pp = PPN e" by auto
      then show ?thesis using PPN_less [of e] by simp
    qed
  qed
  then have "\<exists>pte. page_lookup d va s' = Some (Some (pp, pte))"
    using page_lookup_vmap [of s' K d va] s'(2,3) assms(2) by (simp add: pm_inv_def)
  moreover have "tlb s' (PTE_ADDR va OR push_bit 6 asid) = None"
    using s'(5) by (simp add: tlb_invalidate_def tlb_out_def tlb_hit_def split: option.splits)
  ultimately show ?thesis using s'(1-3) by blast
qed

lemma small_slot: "(1, PDX va) \<in> small_slots"
  by (simp add: small_slots_def)

lemma small_mappable: "mappable small small_slots [2, 3] 0"
  by (simp add: mappable_def small_tab small_slots_def) (simp add: small_def)

lemma page_insert_correct_witness:
  "\<exists>s' fl' pte. page_insert 1 7 0 0x400000 PTE_D small = Some (Inr (), s')
     \<and> vmap s' small_slots = (vmap small small_slots)(vkey 1 0x400000 \<mapsto> mk_pte 0 PTE_D)
     \<and> pm_inv s' small_slots small_ext fl'
     \<and> page_lookup 1 0x400000 s' = Some (Some (0, pte))
     \<and> tlb s' (PTE_ADDR 0x400000 OR push_bit 6 7) = None"
  by (rule page_insert_correct [OF small_inv small_slot])
    (simp_all add: small_mappable PTE_D_def)

text \<open>without memory for the page table, \<^verbatim>\<open>page_insert\<close> reports E_NO_MEM and has
  only flushed the TLB entry of the address.\<close>

theorem page_insert_no_memory:
  fixes s :: "'z pm_state_scheme"
  assumes "pm_inv s K ext []" and "(d, PDX va) \<in> K" and "tab s K (d, PDX va) = None"
  shows "page_insert d asid pp va perm s = Some (Inl E_NO_MEM, tlb_invalidate asid va s)"
  by (rule page_insert_nomem [OF assms])

definition full :: pm_state where
  "full = small\<lparr>page_free_list := LIST_INIT small_free\<rparr>"

lemma full_inv: "pm_inv full small_slots small_ext []"
  using small_inv unfolding full_def pm_inv_def free_inv_def tab_inv_def ref_inv_def
  by (simp add: lq_rep_init)

lemma page_insert_no_memory_witness:
  "page_insert 1 7 0 0x400000 PTE_D full = Some (Inl E_NO_MEM, tlb_invalidate 7 0x400000 full)"
  by (rule page_insert_no_memory [OF full_inv small_slot]) (simp add: full_def small_tab)

text \<open>C3: \<^verbatim>\<open>page_remove\<close> unmaps exactly the address: the page goes back to the free list
  iff that was its last reference, no other mapping changes, a later lookup finds nothing and no
  TLB entry of the address is left; removing an unmapped address changes nothing.\<close>

theorem page_remove_correct:
  fixes s :: "'z pm_state_scheme"
  assumes "pm_inv s K ext fl" and "(d, PDX va) \<in> K"
  shows "case vmap s K (vkey d va) of
      None \<Rightarrow> page_remove d asid va s = Some s
    | Some e \<Rightarrow> (\<exists>s'. page_remove d asid va s = Some s'
          \<and> vmap s' K = (vmap s K)(vkey d va := None) \<and> page_lookup d va s' = Some None
          \<and> pm_inv s' K ext (if pp_ref s (PPN e) = 1 then PPN e # fl else fl)
          \<and> pp_ref s' = (pp_ref s)(PPN e := pp_ref s (PPN e) - 1)
          \<and> tlb s' (PTE_ADDR va OR push_bit 6 asid) = None)"
proof (cases "vmap s K (vkey d va)")
  case None
  then show ?thesis using page_remove_unmapped [of s K d va asid] assms by (simp add: pm_inv_def)
next
  case (Some e)
  let ?s = "tlb_invalidate asid va (set_pte (PPN (pte_at (d, PDX va) s), PTX va) 0
      (decref_state (PPN e) s))"
  note r = page_remove_mapped [OF assms Some, of asid]
  have "page_lookup d va ?s = Some None"
    using page_lookup_vmap [of ?s K d va] r(3,4) assms(2) by (simp add: pm_inv_def)
  moreover have "tlb ?s (PTE_ADDR va OR push_bit 6 asid) = None"
    by (simp add: tlb_invalidate_def tlb_out_def tlb_hit_def split: option.splits)
  ultimately show ?thesis using r Some by simp
qed

lemma small_insert:
  "\<exists>s' fl'. page_insert 1 7 0 0x400000 PTE_D small = Some (Inr (), s')
     \<and> vmap s' small_slots (vkey 1 0x400000) = Some (mk_pte 0 PTE_D)
     \<and> pm_inv s' small_slots small_ext fl'"
proof -
  have p: "PTE_D < 4096" by (simp add: PTE_D_def)
  from page_insert_refines [OF small_inv small_slot disjI1 [OF small_mappable] p, where va = "0x400000" and asid = 7]
  show ?thesis by fastforce
qed

lemma page_remove_correct_witness:
  "\<exists>s1 s2. page_insert 1 7 0 0x400000 PTE_D small = Some (Inr (), s1)
     \<and> page_remove 1 7 0x400000 s1 = Some s2 \<and> page_lookup 1 0x400000 s2 = Some None"
proof -
  from small_insert obtain s1 fl1 where
     s1: "page_insert 1 7 0 0x400000 PTE_D small = Some (Inr (), s1)"
       "vmap s1 small_slots (vkey 1 0x400000) = Some (mk_pte 0 PTE_D)"
       "pm_inv s1 small_slots small_ext fl1" by blast
  from page_remove_correct [OF s1(3) small_slot, where va = "0x400000" and asid = 7] s1(1,2) show ?thesis by auto
qed

text \<open>\<^verbatim>\<open>va2pa\<close> translates an address to the page the abstract map gives for it, and to
  \<^verbatim>\<open>~0\<close> when it is unmapped.\<close>

theorem va2pa_correct:
  fixes s :: "'z pm_state_scheme"
  assumes "pm_inv s K ext fl" and "(d, PDX va) \<in> K"
  shows "va2pa d va s = Some (case vmap s K (vkey d va) of None \<Rightarrow> NOT 0 | Some e \<Rightarrow> PTE_ADDR e)"
proof (cases "tab s K (d, PDX va)")
  case None
  then have "vmap s K (vkey d va) = None" by (simp add: vkey_def vmap_def)
  then show ?thesis using assms(2) None by (simp add: va2pa_def tab_None)
next
  case (Some t)
  then have "t < npage s" using assms(1) tab_inv_page [of s K _ t] by (auto simp: pm_inv_def)
  moreover have "t = PPN (pte_at (d, PDX va) s)" "pte_valid (pte_at (d, PDX va) s)"
    using Some by (simp_all add: tab_Some)
  ultimately show ?thesis using Some
    by (simp add: va2pa_def vkey_def vmap_def KADDR_page_def Let_def)
qed

lemma va2pa_correct_witness:
  "\<exists>s1. page_insert 1 7 0 0x400000 PTE_D small = Some (Inr (), s1)
     \<and> va2pa 1 0x400000 s1 = Some (PTE_ADDR (mk_pte 0 PTE_D))"
proof -
  from small_insert obtain s1 fl1 where
     s1: "page_insert 1 7 0 0x400000 PTE_D small = Some (Inr (), s1)"
       "vmap s1 small_slots (vkey 1 0x400000) = Some (mk_pte 0 PTE_D)"
       "pm_inv s1 small_slots small_ext fl1" by blast
  from va2pa_correct [OF s1(3) small_slot, where va = "0x400000"] s1(1,2) show ?thesis by auto
qed

end
