(* ===== verification/ElfLoad.thy ===== *)
theory ElfLoad
  imports Prelude
begin

text \<open>
  The ELF loader of \<^verbatim>\<open>lib/elfloader.c\<close>, shared by the kernel and by \<^verbatim>\<open>spawn\<close>. A
  \<^verbatim>\<open>const void *\<close> is the memory seen from it, a function from offsets to bytes. The callback
  \<^verbatim>\<open>map_page\<close> is an argument, generic in the state it updates. The loops keep the C
  \<^verbatim>\<open>size_t\<close> counter, which can wrap, so they are partial functions; the segment of every
  binary that fits the address space is then shown to be one finite list of calls.
\<close>

section \<open>Reading the headers\<close>

type_synonym bytes = "nat \<Rightarrow> u8"

definition skip :: "nat \<Rightarrow> bytes \<Rightarrow> bytes" where
  "skip n m = (\<lambda>k. m (n + k))"

definition rd16 :: "bytes \<Rightarrow> nat \<Rightarrow> u16" where
  "rd16 m a = ucast (m a) OR push_bit 8 (ucast (m (a + 1)))"

record Elf32_Ehdr =
  e_type :: u16
  e_entry :: u32
  e_phoff :: u32
  e_phentsize :: u16
  e_phnum :: u16

record Elf32_Phdr =
  p_type :: u32
  p_offset :: u32
  p_vaddr :: u32
  p_filesz :: u32
  p_memsz :: u32
  p_flags :: u32

definition ehdr_at :: "bytes \<Rightarrow> Elf32_Ehdr" where
  "ehdr_at m = \<lparr>e_type = rd16 m 16, e_entry = rd32 m 24, e_phoff = rd32 m 28,
                 e_phentsize = rd16 m 42, e_phnum = rd16 m 44\<rparr>"

definition phdr_at :: "bytes \<Rightarrow> Elf32_Phdr" where
  "phdr_at m = \<lparr>p_type = rd32 m 0, p_offset = rd32 m 4, p_vaddr = rd32 m 8,
                 p_filesz = rd32 m 16, p_memsz = rd32 m 20, p_flags = rd32 m 24\<rparr>"

definition elf_from :: "bytes \<Rightarrow> u32 \<Rightarrow> Elf32_Ehdr option" where
  "elf_from binary n =
     (let ehdr = ehdr_at binary
      in if 52 \<le> n \<and> binary 0 = 0x7f \<and> binary 1 = 0x45 \<and> binary 2 = 0x4c \<and> binary 3 = 0x46
            \<and> e_type ehdr = 2
         then Some ehdr else None)"

text \<open>\<^verbatim>\<open>ELF_FOREACH_PHDR_OFF\<close>: the offsets the loop visits.\<close>

definition phdr_offs :: "Elf32_Ehdr \<Rightarrow> u32 list" where
  "phdr_offs ehdr =
     map (\<lambda>i. e_phoff ehdr + word_of_nat i * ucast (e_phentsize ehdr)) [0..<unat (e_phnum ehdr)]"

section \<open>Loading a segment\<close>

text \<open>The arguments of one call of \<^verbatim>\<open>map_page\<close>: va, offset, perm, src and len.\<close>

type_synonym mapcall = "u32 \<times> u32 \<times> u32 \<times> bytes option \<times> u32"

type_synonym 's mapper = "mapcall \<Rightarrow> 's \<Rightarrow> ((kerr + unit) \<times> 's) option"

definition PF_W :: u32 where "PF_W = 2"
definition PT_LOAD :: u32 where "PT_LOAD = 1"

definition seg_perm :: "Elf32_Phdr \<Rightarrow> u32" where
  "seg_perm ph = (if p_flags ph AND PF_W \<noteq> 0 then PTE_V OR PTE_D else PTE_V)"

partial_function (option) load_file ::
  "'s mapper \<Rightarrow> u32 \<Rightarrow> bytes \<Rightarrow> u32 \<Rightarrow> u32 \<Rightarrow> u32 \<Rightarrow> 's \<Rightarrow> ((kerr + u32) \<times> 's) option" where
  "load_file map_page va bin bin_size perm i s =
     (if i < bin_size then
        Option.bind (map_page (va + i, 0, perm, Some (skip (unat i) bin), min (bin_size - i) BY2PG) s)
          (\<lambda>(r, s1). case r of
              Inl e \<Rightarrow> Some (Inl e, s1)
            | Inr _ \<Rightarrow> load_file map_page va bin bin_size perm (i + BY2PG) s1)
      else Some (Inr i, s))"

partial_function (option) load_zero ::
  "'s mapper \<Rightarrow> u32 \<Rightarrow> u32 \<Rightarrow> u32 \<Rightarrow> u32 \<Rightarrow> 's \<Rightarrow> ((kerr + unit) \<times> 's) option" where
  "load_zero map_page va sgsize perm i s =
     (if i < sgsize then
        Option.bind (map_page (va + i, 0, perm, None, min (sgsize - i) BY2PG) s)
          (\<lambda>(r, s1). case r of
              Inl e \<Rightarrow> Some (Inl e, s1)
            | Inr _ \<Rightarrow> load_zero map_page va sgsize perm (i + BY2PG) s1)
      else Some (Inr (), s))"

definition elf_load_seg ::
  "Elf32_Phdr \<Rightarrow> bytes \<Rightarrow> 's mapper \<Rightarrow> 's \<Rightarrow> ((kerr + unit) \<times> 's) option" where
  "elf_load_seg ph bin map_page s =
     (let va = p_vaddr ph; bin_size = p_filesz ph; sgsize = p_memsz ph; perm = seg_perm ph;
          offset = va - ROUNDDOWN va BY2PG
      in do {
        (r, s1) \<leftarrow> (if offset \<noteq> 0
                    then map_page (va, offset, perm, Some bin, min bin_size (BY2PG - offset)) s
                    else Some (Inr (), s));
        case r of
          Inl e \<Rightarrow> Some (Inl e, s1)
        | Inr _ \<Rightarrow> do {
            (r2, s2) \<leftarrow> load_file map_page va bin bin_size perm
                          (if offset \<noteq> 0 then min bin_size (BY2PG - offset) else 0) s1;
            case r2 of
              Inl e \<Rightarrow> Some (Inl e, s2)
            | Inr i \<Rightarrow> load_zero map_page va sgsize perm i s2
          }
      })"

section \<open>The calls of a segment\<close>

fun run_calls :: "'s mapper \<Rightarrow> mapcall list \<Rightarrow> 's \<Rightarrow> ((kerr + unit) \<times> 's) option" where
  "run_calls f [] s = Some (Inr (), s)"
| "run_calls f (c # cs) s =
     Option.bind (f c s) (\<lambda>(r, s1). case r of Inl e \<Rightarrow> Some (Inl e, s1) | Inr _ \<Rightarrow> run_calls f cs s1)"

lemma run_calls_append:
  "run_calls f (xs @ ys) s =
     Option.bind (run_calls f xs s)
       (\<lambda>(r, s1). case r of Inl e \<Rightarrow> Some (Inl e, s1) | Inr _ \<Rightarrow> run_calls f ys s1)"
  by (induction xs arbitrary: s) (auto split: bind_splits sum.splits)

definition page_count :: "nat \<Rightarrow> nat \<Rightarrow> nat" where
  "page_count i n = (n - i + 4095) div 4096"

definition pages_from :: "nat \<Rightarrow> nat \<Rightarrow> nat list" where
  "pages_from i n = map (\<lambda>k. i + 4096 * k) [0..<page_count i n]"

lemma page_count_done: "n \<le> i \<Longrightarrow> page_count i n = 0"
  by (simp add: page_count_def)

lemma pages_from_done: "n \<le> i \<Longrightarrow> pages_from i n = []"
  by (simp add: pages_from_def page_count_done)

lemma page_count_step:
  assumes "i < n"
  shows "page_count i n = Suc (page_count (i + 4096) n)"
proof -
  obtain d where d: "n = i + Suc d" using less_imp_Suc_add [OF assms] by auto
  have "page_count i n = Suc (d div 4096)" by (simp add: page_count_def d)
  moreover have "page_count (i + 4096) n = d div 4096"
    using d by (cases "d < 4096") (simp_all add: page_count_def)
  ultimately show ?thesis by simp
qed

lemma pages_from_step:
  assumes "i < n"
  shows "pages_from i n = i # pages_from (i + 4096) n"
  using page_count_step [OF assms]
  by (simp add: pages_from_def upt_rec [of 0] map_Suc_upt [symmetric] comp_def del: upt_Suc)

definition file_call :: "u32 \<Rightarrow> bytes \<Rightarrow> u32 \<Rightarrow> u32 \<Rightarrow> nat \<Rightarrow> mapcall" where
  "file_call va bin bin_size perm i =
     (va + word_of_nat i, 0, perm, Some (skip i bin), min (bin_size - word_of_nat i) BY2PG)"

definition zero_call :: "u32 \<Rightarrow> u32 \<Rightarrow> u32 \<Rightarrow> nat \<Rightarrow> mapcall" where
  "zero_call va sgsize perm i =
     (va + word_of_nat i, 0, perm, None, min (sgsize - word_of_nat i) BY2PG)"

definition seg_offset :: "Elf32_Phdr \<Rightarrow> u32" where
  "seg_offset ph = p_vaddr ph - ROUNDDOWN (p_vaddr ph) BY2PG"

text \<open>Where the loop over whole pages starts and where it leaves its counter.\<close>

definition file_start :: "Elf32_Phdr \<Rightarrow> nat" where
  "file_start ph = (if seg_offset ph \<noteq> 0
     then min (unat (p_filesz ph)) (4096 - unat (seg_offset ph)) else 0)"

definition file_end :: "nat \<Rightarrow> nat \<Rightarrow> nat" where
  "file_end i n = i + 4096 * page_count i n"

definition seg_calls :: "Elf32_Phdr \<Rightarrow> bytes \<Rightarrow> mapcall list" where
  "seg_calls ph bin =
     (let va = p_vaddr ph; fs = p_filesz ph; perm = seg_perm ph; off = seg_offset ph
      in (if off \<noteq> 0 then [(va, off, perm, Some bin, min fs (BY2PG - off))] else [])
         @ map (file_call va bin fs perm) (pages_from (file_start ph) (unat fs))
         @ map (zero_call va (p_memsz ph) perm)
             (pages_from (file_end (file_start ph) (unat fs)) (unat (p_memsz ph))))"

lemma unat_add_page: "unat i \<le> 0xFFFFEFFF \<Longrightarrow> unat (i + BY2PG) = unat i + 4096" for i :: u32
  by (simp add: BY2PG_def unat_word_ariths)

lemma load_file_calls:
  assumes "unat bin_size \<le> 0xFFFFF000" and "i < 2 ^ 32"
  shows "load_file f va bin bin_size perm (word_of_nat i) s =
    map_option (map_prod (map_sum id (\<lambda>_. word_of_nat (file_end i (unat bin_size)))) id)
      (run_calls f (map (file_call va bin bin_size perm) (pages_from i (unat bin_size))) s)"
  using assms(2)
proof (induction "unat bin_size - i" arbitrary: i s rule: less_induct)
  case less
  have u: "unat (word_of_nat i :: u32) = i" using less.prems by (simp add: unat_of_nat)
  show ?case
  proof (cases "i < unat bin_size")
    case False
    then have "\<not> (word_of_nat i :: u32) < bin_size" "unat bin_size \<le> i"
      by (simp_all add: word_less_nat_alt u)
    then show ?thesis
      by (subst load_file.simps) (simp add: pages_from_done page_count_done file_end_def)
  next
    case True
    have lt: "(word_of_nat i :: u32) < bin_size" using True by (simp add: word_less_nat_alt u)
    have nx: "i + 4096 < 2 ^ 32" using True assms(1) by simp
    have w: "(word_of_nat i :: u32) + BY2PG = word_of_nat (i + 4096)" by (simp add: BY2PG_def)
    have fe: "file_end (i + 4096) (unat bin_size) = file_end i (unat bin_size)"
      using page_count_step [OF True] by (simp add: file_end_def)
    have IH: "load_file f va bin bin_size perm (word_of_nat i + BY2PG) s1 =
        map_option (map_prod (map_sum id (\<lambda>_. word_of_nat (file_end i (unat bin_size)))) id)
          (run_calls f (map (file_call va bin bin_size perm) (pages_from (i + 4096) (unat bin_size))) s1)"
      for s1 unfolding w using less.hyps [of "i + 4096" s1] True nx fe by simp
    show ?thesis
      by (subst load_file.simps)
        (auto simp: lt u IH pages_from_step [OF True] file_call_def
          split: bind_splits sum.splits option.splits)
  qed
qed

lemma load_zero_calls:
  assumes "unat sgsize \<le> 0xFFFFF000" and "i < 2 ^ 32"
  shows "load_zero f va sgsize perm (word_of_nat i) s =
      run_calls f (map (zero_call va sgsize perm) (pages_from i (unat sgsize))) s"
  using assms(2)
proof (induction "unat sgsize - i" arbitrary: i s rule: less_induct)
  case less
  have u: "unat (word_of_nat i :: u32) = i" using less.prems by (simp add: unat_of_nat)
  show ?case
  proof (cases "i < unat sgsize")
    case False
    then have "\<not> (word_of_nat i :: u32) < sgsize" by (simp add: word_less_nat_alt u)
    then show ?thesis using False
      by (subst load_zero.simps) (simp add: pages_from_done)
  next
    case True
    have lt: "(word_of_nat i :: u32) < sgsize" using True by (simp add: word_less_nat_alt u)
    have nx: "i + 4096 < 2 ^ 32" using True assms(1) by simp
    have w: "(word_of_nat i :: u32) + BY2PG = word_of_nat (i + 4096)" by (simp add: BY2PG_def)
    have IH: "load_zero f va sgsize perm (word_of_nat i + BY2PG) s1 =
        run_calls f (map (zero_call va sgsize perm) (pages_from (i + 4096) (unat sgsize))) s1"
      for s1 unfolding w using less.hyps [of "i + 4096" s1] True nx by simp
    show ?thesis
      by (subst load_zero.simps)
        (auto simp: lt IH pages_from_step [OF True] zero_call_def split: bind_splits sum.splits)
  qed
qed

lemma unat_seg_offset_mod: "unat (seg_offset ph) = unat (p_vaddr ph) mod 4096"
proof -
  have "seg_offset ph = take_bit 12 (p_vaddr ph)"
  proof -
    have "ROUNDDOWN (p_vaddr ph) BY2PG = PTE_ADDR (p_vaddr ph)"
      by (simp add: ROUNDDOWN_def PTE_ADDR_def BY2PG_def)
    moreover have "p_vaddr ph = PTE_ADDR (p_vaddr ph) + take_bit 12 (p_vaddr ph)"
    proof -
      have "PTE_ADDR (p_vaddr ph) AND take_bit 12 (p_vaddr ph) = 0"
        by (rule bit_eqI) (simp add: bit_and_iff bit_PTE_ADDR bit_take_bit_iff)
      moreover have "PTE_ADDR (p_vaddr ph) OR take_bit 12 (p_vaddr ph) = p_vaddr ph"
        by (rule bit_eqI) (auto simp: bit_or_iff bit_PTE_ADDR bit_take_bit_iff)
      ultimately show ?thesis by (simp add: disjunctive_add_eq_or)
    qed
    ultimately show ?thesis unfolding seg_offset_def by (metis add_diff_cancel_left')
  qed
  then have "unat (seg_offset ph) = unat (p_vaddr ph) mod 2 ^ 12" by (simp only: unat_take_bit)
  then show ?thesis by simp
qed

lemma unat_seg_offset: "unat (seg_offset ph) < 4096"
  by (simp add: unat_seg_offset_mod)

lemma file_end_less: "file_end i n < max (i + 1) (n + 4096)"
proof -
  have "4096 * page_count i n \<le> n - i + 4095"
    using mult_div_mod_eq [of 4096 "n - i + 4095"] unfolding page_count_def by linarith
  moreover have "n \<le> i \<Longrightarrow> page_count i n = 0" by (rule page_count_done)
  ultimately show ?thesis by (cases "n \<le> i") (auto simp: file_end_def)
qed

lemma elf_load_seg_calls:
  assumes "unat (p_filesz ph) \<le> 0xFFFFF000" and "unat (p_memsz ph) \<le> 0xFFFFF000"
  shows "elf_load_seg ph bin f s = run_calls f (seg_calls ph bin) s"
proof -
  let ?i = "if seg_offset ph \<noteq> 0 then min (p_filesz ph) (BY2PG - seg_offset ph) else 0"
  have off: "unat (BY2PG - seg_offset ph) = 4096 - unat (seg_offset ph)"
    using unat_seg_offset [of ph] by (simp add: unat_sub word_le_nat_alt BY2PG_def)
  have i: "?i = word_of_nat (file_start ph)"
    by (auto simp: file_start_def off [symmetric] min_def word_le_nat_alt)
  have lt: "file_start ph < 2 ^ 32" using unat_seg_offset [of ph] by (auto simp: file_start_def)
  have "file_end (file_start ph) (unat (p_filesz ph)) < 2 ^ 32"
    using assms(1) lt file_end_less [of "file_start ph" "unat (p_filesz ph)"] by simp
  note F = load_file_calls [OF assms(1) lt] and Z = load_zero_calls [OF assms(2) this]
  show ?thesis
    unfolding elf_load_seg_def seg_calls_def Let_def seg_offset_def [symmetric] i
    by (simp add: F Z run_calls_append split: bind_splits sum.splits)
qed

section \<open>The memory image a segment leaves\<close>

text \<open>
  A call maps a fresh zeroed page and copies \<open>len\<close> bytes to \<open>offset\<close>, which is what both
  mappers of the repository do; a later call for the same page replaces the earlier one.
\<close>

fun call_page :: "mapcall \<Rightarrow> bytes" where
  "call_page (va, off, perm, src, len) =
     (\<lambda>k. case src of
            None \<Rightarrow> 0
          | Some m \<Rightarrow> if unat off \<le> k \<and> k < unat off + unat len then m (k - unat off) else 0)"

definition map_image :: "mapcall \<Rightarrow> (nat \<Rightarrow> bytes option) \<Rightarrow> nat \<Rightarrow> bytes option" where
  "map_image c im = im(VPN (fst c) \<mapsto> call_page c)"

definition seg_image :: "Elf32_Phdr \<Rightarrow> bytes \<Rightarrow> nat \<Rightarrow> bytes option" where
  "seg_image ph bin = fold map_image (seg_calls ph bin) Map.empty"

lemma fold_map_image_other:
  "p \<notin> (VPN \<circ> fst) ` set cs \<Longrightarrow> fold map_image cs im p = im p"
  by (induction cs arbitrary: im) (auto simp: map_image_def)

lemma fold_map_image:
  "distinct (map (VPN \<circ> fst) cs) \<Longrightarrow> c \<in> set cs \<Longrightarrow>
     fold map_image cs im (VPN (fst c)) = Some (call_page c)"
proof (induction cs arbitrary: im)
  case Nil
  then show ?case by simp
next
  case (Cons d cs)
  show ?case
  proof (cases "c \<in> set cs")
    case True
    then show ?thesis using Cons by simp
  next
    case False
    then have "VPN (fst c) \<notin> (VPN \<circ> fst) ` set cs" and "c = d" using Cons.prems by auto
    then have "fold map_image (d # cs) im (VPN (fst c)) = map_image d im (VPN (fst c))"
      using fold_map_image_other [of "VPN (fst c)" cs "map_image d im"] by simp
    moreover have "map_image d im (VPN (fst c)) = Some (call_page c)"
      using \<open>c = d\<close> by (simp add: map_image_def)
    ultimately show ?thesis by simp
  qed
qed

lemma VPN_add:
  assumes "unat va + i < 2 ^ 32"
  shows "VPN (va + word_of_nat i) = (unat va + i) div 4096"
    and "VPO (va + word_of_nat i) = (unat va + i) mod 4096"
proof -
  have u: "unat (va + word_of_nat i) = unat va + i"
    using assms by (simp add: unat_word_ariths unat_of_nat)
  show "VPN (va + word_of_nat i) = (unat va + i) div 4096"
    by (simp only: VPN_def unat_drop_bit u) simp
  show "VPO (va + word_of_nat i) = (unat va + i) mod 4096"
    by (simp only: VPO_def mask12_eq take_bit_eq_mask [symmetric] unat_take_bit u) simp
qed

lemma page_count_less: "k < page_count i n \<longleftrightarrow> i + 4096 * k < n"
proof -
  have "k < page_count i n \<longleftrightarrow> 4096 * Suc k \<le> n - i + 4095"
    unfolding page_count_def by (subst Suc_le_eq [symmetric], subst less_eq_div_iff_mult_less_eq) auto
  then show ?thesis by auto
qed

lemma pages_from_vpns:
  assumes "unat va + i = 4096 * P" and "unat va + n \<le> 2 ^ 32"
  shows "map (\<lambda>i. VPN (va + word_of_nat i)) (pages_from i n) = [P..<P + page_count i n]"
proof (rule nth_equalityI)
  show "length (map (\<lambda>i. VPN (va + word_of_nat i)) (pages_from i n)) = length [P..<P + page_count i n]"
    by (simp add: pages_from_def)
  fix k assume "k < length (map (\<lambda>i. VPN (va + word_of_nat i)) (pages_from i n))"
  then have k: "k < page_count i n" by (simp add: pages_from_def)
  then have "unat va + (i + 4096 * k) < 2 ^ 32" using assms(2) page_count_less by auto
  from VPN_add(1) [OF this] assms(1) have "VPN (va + word_of_nat (i + 4096 * k)) = P + k" by simp
  then show "map (\<lambda>i. VPN (va + word_of_nat i)) (pages_from i n) ! k = [P..<P + page_count i n] ! k"
    using k by (simp add: pages_from_def)
qed

lemma pages_from_mem: "j \<in> set (pages_from i n) \<longleftrightarrow> (\<exists>k. j = i + 4096 * k \<and> j < n)"
  by (auto simp: pages_from_def page_count_less)

text \<open>A segment that the loader places byte for byte: its data reach the first page
  boundary, or nothing but data is loaded.\<close>

definition seg_fits :: "Elf32_Phdr \<Rightarrow> bool" where
  "seg_fits ph \<longleftrightarrow> p_filesz ph \<le> p_memsz ph \<and> unat (p_vaddr ph) + unat (p_memsz ph) \<le> 2 ^ 32
     \<and> (seg_offset ph = 0 \<or> 4096 - unat (seg_offset ph) \<le> unat (p_filesz ph)
        \<or> p_memsz ph = p_filesz ph)"

lemma seg_calls_distinct:
  assumes "seg_fits ph"
  shows "distinct (map (VPN \<circ> fst) (seg_calls ph bin))"
proof -
  define va where "va = p_vaddr ph"
  define fs where "fs = unat (p_filesz ph)"
  define ms where "ms = unat (p_memsz ph)"
  define i0 where "i0 = file_start ph"
  define off where "off = unat (seg_offset ph)"
  have H: "fs \<le> ms" "unat va + ms \<le> 2 ^ 32" "off = 0 \<or> 4096 - off \<le> fs \<or> ms = fs"
    using assms by (auto simp: seg_fits_def va_def fs_def ms_def off_def word_le_nat_alt unat_eq_0)
  have off: "off = unat va mod 4096" "off < 4096" 
    using unat_seg_offset_mod [of ph] by (simp_all add: off_def va_def)
  have i0: "i0 = (if off \<noteq> 0 then min fs (4096 - off) else 0)"
    by (simp add: i0_def file_start_def fs_def off_def unat_eq_0)
  have first: "VPN va = unat va div 4096" using VPN_add(1) [of va 0] unat_u32_less [of va] by simp
  define F where "F = map (\<lambda>i. VPN (va + word_of_nat i)) (pages_from i0 fs)"
  define Z where "Z = map (\<lambda>i. VPN (va + word_of_nat i)) (pages_from (file_end i0 fs) ms)"
  have split: "map (VPN \<circ> fst) (seg_calls ph bin) = (if off \<noteq> 0 then [VPN va] else []) @ F @ Z"
    by (simp add: seg_calls_def Let_def F_def Z_def file_call_def zero_call_def comp_def
        va_def fs_def ms_def i0_def off_def unat_eq_0)
  show ?thesis
  proof (cases "off \<noteq> 0 \<and> fs < 4096 - off")
    case True
    then have "F = []" "Z = []" using H(3) i0
      by (auto simp: F_def Z_def pages_from_done file_end_def page_count_done)
    then show ?thesis unfolding split by simp
  next
    case False
    then have i0': "i0 = (if off \<noteq> 0 then 4096 - off else 0)" using i0 by auto
    define P where "P = unat va div 4096 + (if off \<noteq> 0 then 1 else 0)"
    have va: "unat va = 4096 * (unat va div 4096) + off" using off(1) by simp
    have P: "unat va + i0 = 4096 * P"
      unfolding P_def i0' using off(2) by (subst va) simp
    have Fv: "F = [P..<P + page_count i0 fs]"
      unfolding F_def by (rule pages_from_vpns [OF P]) (use H in simp)
    have P1: "unat va + file_end i0 fs = 4096 * (P + page_count i0 fs)"
      using P by (simp add: file_end_def)
    have Zv: "Z = [P + page_count i0 fs..<P + page_count i0 fs + page_count (file_end i0 fs) ms]"
      unfolding Z_def by (rule pages_from_vpns [OF P1 H(2)])
    have "off \<noteq> 0 \<Longrightarrow> unat va div 4096 < P"
      by (simp add: P_def)
    then show ?thesis unfolding split Fv Zv first by auto
  qed
qed

lemma seg_aligned:
  assumes "seg_fits ph" and "file_start ph < unat (p_memsz ph)"
  shows "4096 dvd unat (p_vaddr ph) + file_start ph"
proof -
  define off where "off = unat (seg_offset ph)"
  define A where "A = unat (p_vaddr ph)"
  have off: "off = A mod 4096" "off < 4096"
    using unat_seg_offset_mod [of ph] by (simp_all add: off_def A_def)
  have s: "file_start ph = (if off \<noteq> 0 then 4096 - off else 0)"
    using assms by (auto simp: seg_fits_def file_start_def off_def unat_eq_0)
  have "A = 4096 * (A div 4096) + off" using off(1) by simp
  then have "A + file_start ph = 4096 * (A div 4096 + (if off \<noteq> 0 then 1 else 0))"
    using off(2) unfolding s by (auto simp: distrib_left)
  then show ?thesis unfolding A_def by (metis dvd_triv_left)
qed

lemma seg_page_of:
  assumes "seg_fits ph" and "n < unat (p_memsz ph)"
  obtains c where "c \<in> set (seg_calls ph bin)"
    and "VPN (p_vaddr ph + word_of_nat n) = VPN (fst c)"
    and "call_page c (VPO (p_vaddr ph + word_of_nat n)) = (if n < unat (p_filesz ph) then bin n else 0)"
proof -
  define va where "va = p_vaddr ph"
  define fs where "fs = unat (p_filesz ph)"
  define ms where "ms = unat (p_memsz ph)"
  define i0 where "i0 = file_start ph"
  have H: "fs \<le> ms" "unat va + ms \<le> 2 ^ 32" "n < ms"
    using assms by (auto simp: seg_fits_def va_def fs_def ms_def word_le_nat_alt)
  have An: "unat va + n < 2 ^ 32" using H by simp
  have page: "VPN (va + word_of_nat n) = (unat va + n) div 4096"
      "VPO (va + word_of_nat n) = (unat va + n) mod 4096"
    using VPN_add [OF An] by simp_all
  show thesis
  proof (cases "n < i0")
    case True
    define off where "off = seg_offset ph"
    have o: "off \<noteq> 0" "i0 = min fs (4096 - unat off)"
      using True by (auto simp: i0_def file_start_def off_def fs_def split: if_splits)
    have off: "unat off = unat va mod 4096" "unat off < 4096"
      using unat_seg_offset_mod [of ph] by (simp_all add: off_def va_def)
    let ?c = "(va, off, seg_perm ph, Some bin, min (p_filesz ph) (BY2PG - off)) :: mapcall"
    have len: "unat (min (p_filesz ph) (BY2PG - off)) = i0"
      using off(2) o(2) by (auto simp: min_def word_le_nat_alt unat_sub BY2PG_def fs_def)
    have c: "?c \<in> set (seg_calls ph bin)" using o(1) by (simp add: seg_calls_def Let_def off_def va_def)
    have lt: "unat va mod 4096 + n < 4096" using True o(2) off by (simp add: less_diff_conv)
    have A: "unat va + n = (unat off + n) + 4096 * (unat va div 4096)"
      unfolding off(1) using mod_mult_div_eq [of "unat va" 4096] by linarith
    have dm: "(unat va + n) div 4096 = unat va div 4096" "(unat va + n) mod 4096 = unat off + n"
      using lt by (simp_all only: A off(1) [symmetric] div_mult_self2 mod_mult_self2) simp_all
    have "VPN va = unat va div 4096" using VPN_add(1) [of va 0] unat_u32_less [of va] by simp
    then have "VPN (va + word_of_nat n) = VPN (fst ?c)" using page(1) dm(1) by simp
    moreover have "call_page ?c (VPO (va + word_of_nat n)) = (if n < fs then bin n else 0)"
      using page(2) dm(2) True len o(2) by simp
    ultimately show thesis using that [OF c] by (simp add: va_def fs_def)
  next
    case False
    define k where "k = (n - i0) div 4096"
    define j where "j = i0 + 4096 * k"
    have jn: "j \<le> n" "n < j + 4096"
      using False div_mult_mod_eq [of "n - i0" 4096] mod_less_divisor [of 4096 "n - i0"]
      unfolding j_def k_def by linarith+
    have "4096 dvd unat va + i0" using seg_aligned [OF assms(1)] H False by (simp add: va_def i0_def ms_def)
    then have "4096 dvd unat va + j" by (simp add: j_def add.assoc [symmetric])
    then obtain Q where Q: "unat va + j = 4096 * Q" by blast
    have n: "unat va + n = 4096 * Q + (n - j)" using Q jn by simp
    have Aj: "unat va + j < 2 ^ 32" using An jn by simp
    have vj: "VPN (va + word_of_nat j) = VPN (va + word_of_nat n)"
      using VPN_add(1) [OF Aj] page(1) Q jn unfolding n by simp
    have "n - j < 4096" using jn by simp
    then have ofs: "VPO (va + word_of_nat n) = n - j"
      unfolding page(2) n mod_mult_self4 by (rule mod_less)
    show thesis
    proof (cases "j < fs")
      case True
      let ?c = "file_call va bin (p_filesz ph) (seg_perm ph) j"
      have "?c \<in> set (seg_calls ph bin)"
        using True by (auto simp: seg_calls_def Let_def pages_from_mem j_def i0_def va_def fs_def)
      moreover have "call_page ?c (VPO (va + word_of_nat n)) = (if n < fs then bin n else 0)"
      proof -
        have "unat (word_of_nat j :: u32) = j" using Aj by (simp add: unat_of_nat)
        then have "unat (min (p_filesz ph - word_of_nat j) BY2PG) = min (fs - j) 4096"
          using True by (auto simp: min_def word_le_nat_alt unat_sub BY2PG_def fs_def)
        then show ?thesis using jn by (auto simp: file_call_def skip_def ofs)
      qed
      moreover have "VPN (va + word_of_nat n) = VPN (fst ?c)" using vj by (simp add: file_call_def)
      ultimately show thesis using that [of ?c] unfolding va_def fs_def by blast
    next
      case False
      let ?c = "zero_call va (p_memsz ph) (seg_perm ph) j"
      have "page_count i0 fs \<le> k" using False page_count_less [of k i0 fs] by (simp add: j_def)
      then have "j = file_end i0 fs + 4096 * (k - page_count i0 fs)" by (simp add: j_def file_end_def)
      then have "?c \<in> set (seg_calls ph bin)"
        using H(3) jn(1)
        by (auto simp: seg_calls_def Let_def pages_from_mem i0_def va_def fs_def ms_def)
      then show thesis
        using that [of ?c] vj ofs False jn by (simp add: va_def fs_def zero_call_def)
    qed
  qed
qed

section \<open>Properties\<close>

text \<open>for every mapper, \<^verbatim>\<open>elf_load_seg\<close> of a segment below the last page of the
  address space ends and is exactly the finite list of \<^verbatim>\<open>map_page\<close> calls computed from the
  program header, stopped at the first error.\<close>

theorem elf_load_seg_terminates:
  assumes "unat (p_filesz ph) \<le> 0xFFFFF000" and "unat (p_memsz ph) \<le> 0xFFFFF000"
  shows "elf_load_seg ph bin map_page s = run_calls map_page (seg_calls ph bin) s"
  by (rule elf_load_seg_calls [OF assms])

text \<open>the calls for a fitting segment leave every byte of it right: the file's bytes
  first, then zeros up to the size in memory.\<close>

theorem elf_load_seg_image:
  assumes "seg_fits ph" and "n < unat (p_memsz ph)"
  shows "\<exists>pg. seg_image ph bin (VPN (p_vaddr ph + word_of_nat n)) = Some pg
     \<and> pg (VPO (p_vaddr ph + word_of_nat n)) = (if n < unat (p_filesz ph) then bin n else 0)"
proof -
  obtain c where c: "c \<in> set (seg_calls ph bin)"
      "VPN (p_vaddr ph + word_of_nat n) = VPN (fst c)"
      "call_page c (VPO (p_vaddr ph + word_of_nat n)) = (if n < unat (p_filesz ph) then bin n else 0)"
    by (rule seg_page_of [OF assms])
  from fold_map_image [OF seg_calls_distinct [OF assms(1)] c(1)] c(2,3) show ?thesis
    by (simp add: seg_image_def)
qed

text \<open>When the data end before the first page boundary, the first zero page has the same page as the data,
  and the other zero pages are different ones.\<close>

lemma short_data_calls:
  assumes "seg_offset ph \<noteq> 0" and "unat (p_filesz ph) < 4096 - unat (seg_offset ph)"
    and "p_filesz ph < p_memsz ph" and "unat (p_vaddr ph) + unat (p_memsz ph) \<le> 2 ^ 32"
  obtains js where "seg_calls ph bin =
      (p_vaddr ph, seg_offset ph, seg_perm ph, Some bin, min (p_filesz ph) (BY2PG - seg_offset ph))
      # zero_call (p_vaddr ph) (p_memsz ph) (seg_perm ph) (unat (p_filesz ph))
      # map (zero_call (p_vaddr ph) (p_memsz ph) (seg_perm ph)) js"
    and "VPN (p_vaddr ph + word_of_nat (unat (p_filesz ph))) = VPN (p_vaddr ph)"
    and "distinct (map (\<lambda>j. VPN (p_vaddr ph + word_of_nat j)) js)"
    and "\<forall>j \<in> set js. j < unat (p_memsz ph) \<and> VPN (p_vaddr ph + word_of_nat j) \<noteq> VPN (p_vaddr ph)"
proof -
  define va where "va = p_vaddr ph"
  define fs where "fs = unat (p_filesz ph)"
  define ms where "ms = unat (p_memsz ph)"
  have lt: "fs < ms" "unat va + ms \<le> 2 ^ 32" using assms(3,4) by (auto simp: fs_def ms_def va_def word_less_nat_alt)
  have st: "file_start ph = fs" "file_end fs fs = fs" "pages_from fs fs = []"
    using assms(1,2) by (auto simp: file_start_def file_end_def pages_from_done page_count_done fs_def)
  have A: "unat va = 4096 * (unat va div 4096) + unat (seg_offset ph)"
    using unat_seg_offset_mod [of ph] by (simp add: va_def)
  have "VPN (va + word_of_nat fs) = (unat va + fs) div 4096" using VPN_add(1) [of va fs] lt by simp
  also have "(unat va + fs) div 4096 = unat va div 4096" using assms(2) by (subst A) (simp add: fs_def)
  finally have same: "VPN (va + word_of_nat fs) = VPN va" using VPN_add(1) [of va 0] unat_u32_less [of va] by simp
  have page: "VPN (va + word_of_nat (fs + 4096 + 4096 * k)) = VPN va + Suc k" if "fs + 4096 + 4096 * k < ms" for k
  proof -
    have "VPN (va + word_of_nat (fs + 4096 + 4096 * k)) = (unat va + fs + 4096 * Suc k) div 4096"
      using VPN_add(1) [of va "fs + 4096 + 4096 * k"] that lt(2) by (simp add: algebra_simps)
    also have "\<dots> = (unat va + fs) div 4096 + Suc k" by simp
    finally show ?thesis using same VPN_add(1) [of va fs] lt by simp
  qed
  let ?js = "pages_from (fs + 4096) ms"
  have "distinct ?js" by (simp add: pages_from_def distinct_map inj_on_def)
  moreover have "inj_on (\<lambda>j. VPN (va + word_of_nat j)) (set ?js)"
    using page by (auto simp: inj_on_def pages_from_mem)
  ultimately have "distinct (map (\<lambda>j. VPN (va + word_of_nat j)) ?js)" by (simp add: distinct_map)
  moreover have "\<forall>j \<in> set ?js. j < ms \<and> VPN (va + word_of_nat j) \<noteq> VPN va"
    using page by (auto simp: pages_from_mem)
  moreover have "seg_calls ph bin = (va, seg_offset ph, seg_perm ph, Some bin, min (p_filesz ph) (BY2PG - seg_offset ph))
      # zero_call va (p_memsz ph) (seg_perm ph) fs # map (zero_call va (p_memsz ph) (seg_perm ph)) ?js"
    using assms(1) st pages_from_step [OF lt(1)]
    by (simp add: seg_calls_def Let_def va_def [symmetric] fs_def [symmetric] ms_def [symmetric])
  ultimately show ?thesis using that same by (simp add: va_def fs_def ms_def)
qed

definition demo_seg :: Elf32_Phdr where
  "demo_seg = \<lparr>p_type = 1, p_offset = 0, p_vaddr = 0x400FF0, p_filesz = 32, p_memsz = 64, p_flags = 7\<rparr>"

lemma demo_offset: "seg_offset demo_seg = 0xFF0"
  by (simp add: seg_offset_def demo_seg_def ROUNDDOWN_def BY2PG_def)

lemma elf_load_seg_terminates_witness:
  "elf_load_seg demo_seg (\<lambda>k. word_of_nat k) (\<lambda>c s. Some (Inr (), c # s)) [] =
     run_calls (\<lambda>c s. Some (Inr (), c # s)) (seg_calls demo_seg (\<lambda>k. word_of_nat k)) []"
  by (rule elf_load_seg_terminates) (simp_all add: demo_seg_def)

lemma elf_load_seg_image_witness:
  "\<exists>pg. seg_image demo_seg (\<lambda>k. word_of_nat k) (VPN (0x400FF0 + 20)) = Some pg
     \<and> pg (VPO (0x400FF0 + 20)) = 20"
proof -
  have "seg_fits demo_seg"
    by (simp add: seg_fits_def demo_offset) (simp add: demo_seg_def)
  from elf_load_seg_image [OF this, of 20 "\<lambda>k. word_of_nat k"] show ?thesis by (simp add: demo_seg_def)
qed

end
