(* ===== verification/Env.thy ===== *)
theory Env
  imports Aspace ElfLoad
begin

text \<open>
  Processes: \<^verbatim>\<open>kern/env.c\<close> with \<^verbatim>\<open>struct Env\<close> of \<^verbatim>\<open>include/env.h\<close> and \<^verbatim>\<open>struct Trapframe\<close>
  of \<^verbatim>\<open>include/trap.h\<close>. A \<^verbatim>\<open>struct Env *\<close> is an index into \<^verbatim>\<open>envs\<close>; a page directory is the
  page that holds it. The kernel state extends the memory state of Pmap by the table, the
  two lists, the ASID bitmap, the trap frame below \<^verbatim>\<open>KSTACKTOP\<close> (\<open>ktf\<close>), the registers that
  user mode was last entered with, and the console: the bytes written to it and the values that
  successive reads of its register give. \<^verbatim>\<open>printk\<close> messages are left out.
\<close>

section \<open>State\<close>

record trapframe =
  regs :: "nat \<Rightarrow> u32"
  cp0_status :: u32
  tf_hi :: u32
  tf_lo :: u32
  cp0_badvaddr :: u32
  cp0_cause :: u32
  cp0_epc :: u32

datatype env_state = ENV_FREE | ENV_RUNNABLE | ENV_NOT_RUNNABLE

record env =
  env_tf :: trapframe
  env_id :: u32
  env_asid :: u32
  env_parent_id :: u32
  env_status :: env_state
  env_pgdir :: "nat option"
  env_pri :: u32
  env_ipc_value :: u32
  env_ipc_from :: u32
  env_ipc_recving :: u32
  env_ipc_dstva :: u32
  env_ipc_perm :: u32
  env_user_tlb_mod_entry :: u32
  env_runs :: u32

record kstate = pm_state +
  envs :: "nat \<Rightarrow> env"
  envs_kva :: u32
  curenv :: "nat option"
  env_free_list :: "nat lq"
  env_sched_list :: "nat tq"
  base_pgdir :: nat
  asid_bitmap :: "nat \<Rightarrow> u32"
  mkenvid_i :: u32
  sched_count :: u32
  ktf :: trapframe
  cpu_tf :: trapframe
  cpu_entryhi :: u32
  cons_out :: "u8 list"
  cons_in :: "nat \<Rightarrow> u8"
  cons_pos :: nat

definition NENV :: nat where "NENV = 1024"
definition NASID :: nat where "NASID = 64"

definition ENVX :: "u32 \<Rightarrow> nat" where
  "ENVX envid = unat (envid AND 0x3FF)"

text \<open>One field update of \<^verbatim>\<open>envs[e]\<close>.\<close>

definition upd_env :: "nat \<Rightarrow> (env \<Rightarrow> env) \<Rightarrow> kstate \<Rightarrow> kstate" where
  "upd_env e f s = s\<lparr>envs := (envs s)(e := f (envs s e))\<rparr>"

section \<open>Address space identifiers\<close>

definition asid_used :: "(nat \<Rightarrow> u32) \<Rightarrow> nat \<Rightarrow> bool" where
  "asid_used bm i \<longleftrightarrow> bm (i div 32) AND push_bit (i mod 32) 1 \<noteq> 0"

definition asid_alloc :: "kstate \<Rightarrow> (kerr + u32) \<times> kstate" where
  "asid_alloc s =
     (case find (\<lambda>i. \<not> asid_used (asid_bitmap s) i) [0..<NASID] of
        None \<Rightarrow> (Inl E_NO_FREE_ENV, s)
      | Some i \<Rightarrow>
          (Inr (word_of_nat i),
           s\<lparr>asid_bitmap := (asid_bitmap s)(i div 32 :=
                asid_bitmap s (i div 32) OR push_bit (i mod 32) 1)\<rparr>))"

definition asid_free :: "u32 \<Rightarrow> kstate \<Rightarrow> kstate" where
  "asid_free i s =
     (let index = unat (drop_bit 5 i); inner = unat (i AND 31)
      in s\<lparr>asid_bitmap := (asid_bitmap s)(index := asid_bitmap s index AND NOT (push_bit inner 1))\<rparr>)"

section \<open>Identifiers\<close>

definition mkenvid :: "nat \<Rightarrow> kstate \<Rightarrow> u32 \<times> kstate" where
  "mkenvid e s =
     (let i = mkenvid_i s + 1
      in (push_bit 11 i OR word_of_nat e, s\<lparr>mkenvid_i := i\<rparr>))"

text \<open>
  The result is the error, or the \<^verbatim>\<open>*penv\<close>, which is null when \<^verbatim>\<open>curenv\<close> is. \<open>None\<close> is the
  read of \<^verbatim>\<open>curenv->env_id\<close> through a null \<^verbatim>\<open>curenv\<close>.
\<close>

definition envid2env :: "u32 \<Rightarrow> bool \<Rightarrow> kstate \<Rightarrow> (kerr + nat option) option" where
  "envid2env envid checkperm s =
     (if envid = 0 then Some (Inr (curenv s))
      else let e = ENVX envid
           in if env_status (envs s e) = ENV_FREE \<or> env_id (envs s e) \<noteq> envid
              then Some (Inl E_BAD_ENV)
              else if checkperm then do {
                c \<leftarrow> curenv s;
                if \<not> (env_id (envs s e) = env_id (envs s c)
                       \<or> env_parent_id (envs s e) = env_id (envs s c))
                then Some (Inl E_BAD_ENV) else Some (Inr (Some e))
              }
              else Some (Inr (Some e)))"

section \<open>Initialisation\<close>

definition map_segment ::
  "nat \<Rightarrow> u32 \<Rightarrow> u32 \<Rightarrow> u32 \<Rightarrow> u32 \<Rightarrow> u32 \<Rightarrow> kstate \<Rightarrow> kstate option" where
  "map_segment pgdir asid pa va sz perm s =
     (if pa mod BY2PG \<noteq> 0 \<or> va mod BY2PG \<noteq> 0 \<or> sz mod BY2PG \<noteq> 0 then None
      else foldo (\<lambda>k s. do {
             let i = word_of_nat k * BY2PG;
             pp \<leftarrow> pa2page (pa + i) s;
             (_, s1) \<leftarrow> page_insert pgdir asid pp (va + i) (perm OR PTE_V) s;
             Some s1
           }) [0..<unat (sz div BY2PG)] s)"

definition init_env :: "nat \<Rightarrow> kstate \<Rightarrow> kstate" where
  "init_env i s =
     (let s1 = upd_env i (env_status_update (\<lambda>_. ENV_FREE)) s
      in s1\<lparr>env_free_list := LIST_INSERT_HEAD i (env_free_list s1)\<rparr>)"

text \<open>\<^verbatim>\<open>sizeof(struct Page)\<close> is 12 and \<^verbatim>\<open>sizeof(struct Env)\<close> is 220.\<close>

definition env_init :: "kstate \<Rightarrow> kstate option" where
  "env_init s =
     (let s1 = s\<lparr>env_free_list := LIST_INIT (env_free_list s),
                  env_sched_list := TAILQ_INIT (env_sched_list s)\<rparr>;
          s2 = fold init_env (rev [0..<NENV]) s1
      in do {
        (r, s3) \<leftarrow> page_alloc s2;
        case r of
          Inl _ \<Rightarrow> None
        | Inr p \<Rightarrow> do {
            let s4 = incr_ref p s3;
            kva \<leftarrow> page2kva p s4;
            let s5 = s4\<lparr>base_pgdir := kva\<rparr>;
            pa1 \<leftarrow> PADDR (pages_kva s5);
            s6 \<leftarrow> map_segment (base_pgdir s5) 0 pa1 UPAGES
                     (ROUND (word_of_nat (npage s5) * 12) BY2PG) PTE_G s5;
            pa2 \<leftarrow> PADDR (envs_kva s6);
            map_segment (base_pgdir s6) 0 pa2 UENVS (ROUND (word_of_nat NENV * 220) BY2PG) PTE_G s6
          }
      })"

section \<open>Creation\<close>

definition copy_pdes :: "nat \<Rightarrow> nat \<Rightarrow> nat list \<Rightarrow> kstate \<Rightarrow> kstate" where
  "copy_pdes dst src = fold (\<lambda>i s. set_pte (dst, i) (pte_at (src, i) s) s)"

definition env_setup_vm :: "nat \<Rightarrow> kstate \<Rightarrow> ((kerr + unit) \<times> kstate) option" where
  "env_setup_vm e s = do {
     (r, s1) \<leftarrow> page_alloc s;
     case r of
       Inl err \<Rightarrow> Some (Inl err, s1)
     | Inr p \<Rightarrow> do {
         let s2 = incr_ref p s1;
         kva \<leftarrow> page2kva p s2;
         let s3 = upd_env e (env_pgdir_update (\<lambda>_. Some kva)) s2;
         let s4 = copy_pdes kva (base_pgdir s3) [PDX UTOP..<PDX UVPT] s3;
         Some (Inr (), set_pte (kva, PDX UVPT) (page2pa kva OR PTE_V) s4)
       }
   }"

definition STATUS_IM4 :: u32 where "STATUS_IM4 = 0x1000"
definition STATUS_KUp :: u32 where "STATUS_KUp = 8"
definition STATUS_IEp :: u32 where "STATUS_IEp = 4"

definition init_tf :: "trapframe \<Rightarrow> trapframe" where
  "init_tf tf = tf\<lparr>cp0_status := STATUS_IM4 OR STATUS_KUp OR STATUS_IEp,
                   regs := (regs tf)(29 := USTACKTOP - 4 - 4)\<rparr>"

definition env_alloc :: "u32 \<Rightarrow> kstate \<Rightarrow> ((kerr + nat) \<times> kstate) option" where
  "env_alloc parent_id s =
     (if LIST_EMPTY (env_free_list s) then Some (Inl E_NO_FREE_ENV, s)
      else do {
        e \<leftarrow> LIST_FIRST (env_free_list s);
        (r, s1) \<leftarrow> env_setup_vm e s;
        case r of
          Inl err \<Rightarrow> Some (Inl err, s1)
        | Inr _ \<Rightarrow> do {
            let s2 = upd_env e (\<lambda>v. v\<lparr>env_user_tlb_mod_entry := 0, env_runs := 0\<rparr>) s1;
            let (i, s3) = mkenvid e s2;
            let s4 = upd_env e (env_id_update (\<lambda>_. i)) s3;
            let (a, s5) = asid_alloc s4;
            case a of
              Inl _ \<Rightarrow> None
            | Inr asid \<Rightarrow> do {
                let s6 = upd_env e (\<lambda>v. v\<lparr>env_asid := asid, env_parent_id := parent_id,
                                          env_tf := init_tf (env_tf v)\<rparr>) s5;
                fl \<leftarrow> LIST_REMOVE e (env_free_list s6);
                Some (Inr e, s6\<lparr>env_free_list := fl\<rparr>)
              }
          }
      })"

text \<open>\<^verbatim>\<open>memcpy\<close> of \<open>len\<close> bytes to a physical address, through the kernel's direct mapping.\<close>

definition write_phys :: "nat \<Rightarrow> bytes \<Rightarrow> nat \<Rightarrow> 'z pm_state_scheme \<Rightarrow> 'z pm_state_scheme" where
  "write_phys pa src len s =
     s\<lparr>pmem := (\<lambda>p w. fold (\<lambda>k v. let a = 4096 * p + 4 * w + k
                                  in if w < 1024 \<and> pa \<le> a \<and> a < pa + len
                                     then set_byte v k (src (a - pa)) else v)
                          [0..<4] (pmem s p w))\<rparr>"

definition load_icode_mapper :: "nat \<Rightarrow> mapcall \<Rightarrow> kstate \<Rightarrow> ((kerr + unit) \<times> kstate) option" where
  "load_icode_mapper e c s =
     (case c of (va, offset, perm, src, len) \<Rightarrow> do {
        (r, s1) \<leftarrow> page_alloc s;
        case r of
          Inl err \<Rightarrow> Some (Inl err, s1)
        | Inr pp \<Rightarrow> do {
            s2 \<leftarrow> (case src of
                     None \<Rightarrow> Some s1
                   | Some m \<Rightarrow> do {
                       kva \<leftarrow> page2kva pp s1;
                       Some (write_phys (4096 * kva + unat offset) m (unat len) s1)
                     });
            pgdir \<leftarrow> env_pgdir (envs s2 e);
            page_insert pgdir (env_asid (envs s2 e)) pp va perm s2
          }
      })"

definition load_phdr :: "nat \<Rightarrow> bytes \<Rightarrow> u32 \<Rightarrow> kstate \<Rightarrow> kstate option" where
  "load_phdr e binary ph_off s =
     (let ph = phdr_at (skip (unat ph_off) binary)
      in if p_type ph = PT_LOAD then do {
           (r, s1) \<leftarrow> elf_load_seg ph (skip (unat (p_offset ph)) binary) (load_icode_mapper e) s;
           case r of Inl _ \<Rightarrow> None | Inr _ \<Rightarrow> Some s1
         }
         else Some s)"

definition load_icode :: "nat \<Rightarrow> bytes \<Rightarrow> u32 \<Rightarrow> kstate \<Rightarrow> kstate option" where
  "load_icode e binary n s = do {
     ehdr \<leftarrow> elf_from binary n;
     s1 \<leftarrow> foldo (load_phdr e binary) (phdr_offs ehdr) s;
     Some (upd_env e (\<lambda>v. v\<lparr>env_tf := (env_tf v)\<lparr>cp0_epc := e_entry ehdr\<rparr>\<rparr>) s1)
   }"

text \<open>
  \<^verbatim>\<open>env_create\<close> ignores the result of \<^verbatim>\<open>env_alloc\<close>. Without a free process it then writes
  through null, and after a failed \<^verbatim>\<open>env_setup_vm\<close> through an uninitialised pointer: both \<open>None\<close>.
\<close>

definition env_create :: "bytes \<Rightarrow> u32 \<Rightarrow> u32 \<Rightarrow> kstate \<Rightarrow> (nat \<times> kstate) option" where
  "env_create binary n priority s = do {
     (r, s1) \<leftarrow> env_alloc 0 s;
     case r of
       Inl _ \<Rightarrow> None
     | Inr e \<Rightarrow> do {
         let s2 = upd_env e (\<lambda>v. v\<lparr>env_pri := priority, env_status := ENV_RUNNABLE\<rparr>) s1;
         s3 \<leftarrow> load_icode e binary n s2;
         Some (e, s3\<lparr>env_sched_list := TAILQ_INSERT_HEAD e (env_sched_list s3)\<rparr>)
       }
   }"

section \<open>Release\<close>

definition free_pte :: "nat \<Rightarrow> u32 \<Rightarrow> nat \<Rightarrow> nat \<Rightarrow> nat \<Rightarrow> 'z pm_state_scheme \<Rightarrow> 'z pm_state_scheme option" where
  "free_pte pgdir asid pdeno pt pteno s =
     (if pte_valid (pte_at (pt, pteno) s)
      then page_remove pgdir asid
             (push_bit 22 (word_of_nat pdeno) OR push_bit 12 (word_of_nat pteno)) s
      else Some s)"

definition free_pde :: "nat \<Rightarrow> u32 \<Rightarrow> nat \<Rightarrow> 'z pm_state_scheme \<Rightarrow> 'z pm_state_scheme option" where
  "free_pde pgdir asid pdeno s =
     (if \<not> pte_valid (pte_at (pgdir, pdeno) s) then Some s
      else do {
        let pa = PTE_ADDR (pte_at (pgdir, pdeno) s);
        pt \<leftarrow> KADDR_page pa s;
        s1 \<leftarrow> foldo (free_pte pgdir asid pdeno pt) [0..<Suc (PTX (NOT 0))] s;
        let s2 = set_pte (pgdir, pdeno) 0 s1;
        pp \<leftarrow> pa2page pa s2;
        s3 \<leftarrow> page_decref pp s2;
        Some (tlb_invalidate asid (UVPT + push_bit 12 (word_of_nat pdeno)) s3)
      })"

definition env_free :: "nat \<Rightarrow> kstate \<Rightarrow> kstate option" where
  "env_free e s = do {
     let asid = env_asid (envs s e);
     pgdir \<leftarrow> env_pgdir (envs s e);
     s1 \<leftarrow> foldo (free_pde pgdir asid) [0..<PDX UTOP] s;
     pp \<leftarrow> pa2page (page2pa pgdir) s1;
     s2 \<leftarrow> page_decref pp s1;
     let s3 = asid_free asid s2;
     let s4 = tlb_invalidate asid (UVPT + push_bit 12 (word_of_nat (PDX UVPT))) s3;
     let s5 = upd_env e (env_status_update (\<lambda>_. ENV_FREE)) s4;
     let s6 = s5\<lparr>env_free_list := LIST_INSERT_HEAD e (env_free_list s5)\<rparr>;
     q \<leftarrow> TAILQ_REMOVE e (env_sched_list s6);
     Some (s6\<lparr>env_sched_list := q\<rparr>)
   }"

section \<open>Running\<close>

definition env_pop_tf :: "trapframe \<Rightarrow> u32 \<Rightarrow> kstate \<Rightarrow> kstate" where
  "env_pop_tf tf asid s = s\<lparr>cpu_tf := tf, cpu_entryhi := push_bit 6 asid\<rparr>"

definition env_run :: "nat \<Rightarrow> kstate \<Rightarrow> kstate option" where
  "env_run e s =
     (if env_status (envs s e) \<noteq> ENV_RUNNABLE then None
      else
        let s1 = (case curenv s of
                    None \<Rightarrow> s
                  | Some c \<Rightarrow> upd_env c (env_tf_update (\<lambda>_. ktf s)) s);
            s2 = s1\<lparr>curenv := Some e\<rparr>;
            s3 = upd_env e (env_runs_update (\<lambda>n. n + 1)) s2;
            s4 = s3\<lparr>cur_pgdir := env_pgdir (envs s3 e)\<rparr>
        in Some (env_pop_tf (env_tf (envs s4 e)) (env_asid (envs s4 e)) s4))"

section \<open>Frames\<close>

text \<open>The part of the kernel state that the memory operations cannot change.\<close>

lemma more_eqD:
  fixes s s' :: kstate
  assumes "pm_state.more s' = pm_state.more s"
  shows "envs s' = envs s" "envs_kva s' = envs_kva s" "curenv s' = curenv s"
    "env_free_list s' = env_free_list s" "env_sched_list s' = env_sched_list s"
    "base_pgdir s' = base_pgdir s" "asid_bitmap s' = asid_bitmap s" "mkenvid_i s' = mkenvid_i s"
    "sched_count s' = sched_count s" "ktf s' = ktf s" "cpu_tf s' = cpu_tf s"
    "cpu_entryhi s' = cpu_entryhi s" "cons_out s' = cons_out s" "cons_in s' = cons_in s"
    "cons_pos s' = cons_pos s"
  using assms by (cases s; cases s'; simp)+

lemma upd_env_frame [simp]:
  "npage (upd_env e f s) = npage s" "page_free_list (upd_env e f s) = page_free_list s"
  "pp_ref (upd_env e f s) = pp_ref s" "pmem (upd_env e f s) = pmem s" "tlb (upd_env e f s) = tlb s"
  "envs (upd_env e f s) = (envs s)(e := f (envs s e))"
  "curenv (upd_env e f s) = curenv s" "env_free_list (upd_env e f s) = env_free_list s"
  "env_sched_list (upd_env e f s) = env_sched_list s" "base_pgdir (upd_env e f s) = base_pgdir s"
  "asid_bitmap (upd_env e f s) = asid_bitmap s" "mkenvid_i (upd_env e f s) = mkenvid_i s"
  "sched_count (upd_env e f s) = sched_count s" "ktf (upd_env e f s) = ktf s"
  "cpu_tf (upd_env e f s) = cpu_tf s" "cpu_entryhi (upd_env e f s) = cpu_entryhi s"
  "pte_at q (upd_env e f s) = pte_at q s"
  by (simp_all add: upd_env_def pte_at_def)

section \<open>Address space identifiers\<close>

lemma bit_push1: "bit (2 ^ i :: u32) n \<longleftrightarrow> n = i \<and> i < 32"
  by (auto simp: bit_exp_iff)

lemma asid_used_bit: "i < 64 \<Longrightarrow> asid_used bm i \<longleftrightarrow> bit (bm (i div 32)) (i mod 32)"
  using and_bit_eq_0_iff [of "2 ^ (i mod 32)" "i mod 32" "bm (i div 32)"]
  by (simp add: asid_used_def bit_push1)

lemma div_mod_32_inj: "(i::nat) div 32 = j div 32 \<Longrightarrow> i mod 32 = j mod 32 \<Longrightarrow> i = j"
  by (metis div_mult_mod_eq)

lemma asid_used_set:
  assumes "i < 64" "j < 64"
  shows "asid_used (bm(i div 32 := bm (i div 32) OR push_bit (i mod 32) 1)) j
     \<longleftrightarrow> j = i \<or> asid_used bm j"
proof (cases "j div 32 = i div 32")
  case True
  then have "j mod 32 = i mod 32 \<longleftrightarrow> j = i" using div_mod_32_inj [of j i] by auto
  then show ?thesis
    using True by (simp add: asid_used_bit [OF assms(2)] bit_or_iff bit_push1 disj_commute)
next
  case False
  then show ?thesis by (auto simp: asid_used_bit [OF assms(2)])
qed

lemma asid_used_clear:
  assumes "i < 64" "j < 64"
  shows "asid_used (bm(i div 32 := bm (i div 32) AND NOT (push_bit (i mod 32) 1))) j
     \<longleftrightarrow> j \<noteq> i \<and> asid_used bm j"
proof (cases "j div 32 = i div 32")
  case True
  then have "j mod 32 = i mod 32 \<longleftrightarrow> j = i" using div_mod_32_inj [of j i] by auto
  then show ?thesis
    using True by (simp add: asid_used_bit [OF assms(2)] bit_and_iff bit_not_iff bit_push1 conj_commute)
next
  case False
  then show ?thesis by (auto simp: asid_used_bit [OF assms(2)])
qed

lemma asid_free_index:
  assumes "unat a < 64"
  shows "asid_free a s = s\<lparr>asid_bitmap := (asid_bitmap s)(unat a div 32 :=
       asid_bitmap s (unat a div 32) AND NOT (push_bit (unat a mod 32) 1))\<rparr>"
proof -
  have m: "(31 :: u32) = mask 5" by (simp add: mask_eq_exp_minus_1)
  have "unat (a AND 31) = unat a mod 2 ^ 5"
    by (simp only: m take_bit_eq_mask [symmetric] unat_take_bit)
  moreover have "unat (drop_bit 5 a) = unat a div 2 ^ 5" by (simp only: unat_drop_bit)
  ultimately show ?thesis by (simp add: asid_free_def Let_def)
qed

end
