(* ===== verification/EnvSpace.thy ===== *)
theory EnvSpace
  imports Env
begin

text \<open>
  Address spaces over their life: \<^verbatim>\<open>env_setup_vm\<close> adds an empty directory to the accounting
  invariant of Aspace, \<^verbatim>\<open>env_free\<close> gives every page, table and the directory back. The user
  slots of a directory \<open>d\<close> are the pairs \<open>uslots d\<close>.
\<close>

definition uslots :: "nat \<Rightarrow> (nat \<times> nat) set" where
  "uslots d = {d} \<times> {..<PDX UTOP}"

lemma PDX_numeral_eq: "PDX va = unat va div 2 ^ 22"
proof -
  have "PDX va = (unat va div 2 ^ 22) mod 2 ^ 10"
    by (simp only: PDX_def mask10_eq take_bit_eq_mask [symmetric] unat_take_bit unat_drop_bit)
  moreover have "unat va div 2 ^ 22 < 2 ^ 10"
    using unat_u32_less [of va] by (intro less_mult_imp_div_less) simp
  ultimately show ?thesis by simp
qed

lemma PDX_UTOP: "PDX UTOP = 509"
  by (simp add: PDX_numeral_eq mmu_defs)

lemma PDX_UVPT: "PDX UVPT = 511"
  by (simp add: PDX_numeral_eq mmu_defs)

lemma PTX_numeral_eq: "PTX va = unat va div 4096 mod 1024"
proof -
  have "PTX va = (unat va div 2 ^ 12) mod 2 ^ 10"
    by (simp only: PTX_def mask10_eq take_bit_eq_mask [symmetric] unat_take_bit unat_drop_bit)
  then show ?thesis by simp
qed

lemma PTX_top: "PTX (NOT 0) = 1023"
  by (simp add: PTX_numeral_eq unsigned_minus_1_eq_mask mask_eq_exp_minus_1)

lemma all_ptes: "[0..<Suc (PTX (NOT 0))] = [0..<1024]"
  unfolding PTX_top by simp

lemma unat_va_of:
  assumes "i < 1024" "j < 1024"
  shows "unat (push_bit 22 (word_of_nat i) OR push_bit 12 (word_of_nat j) :: u32) = i * 4194304 + j * 4096"
proof -
  have bi: "bit (word_of_nat i :: u32) n \<Longrightarrow> n < 10" and bj: "bit (word_of_nat j :: u32) n \<Longrightarrow> n < 10" for n
    using assms word_less_exp_bit [of "word_of_nat i" 10 n] word_less_exp_bit [of "word_of_nat j" 10 n]
    by (simp_all add: word_less_nat_alt unat_of_nat)
  have "push_bit 22 (word_of_nat i) AND push_bit 12 (word_of_nat j) = (0 :: u32)"
    by (rule bit_eqI) (auto simp: bit_and_iff bit_push_bit_iff dest: bi bj)
  then have "push_bit 22 (word_of_nat i) OR push_bit 12 (word_of_nat j)
      = (push_bit 22 (word_of_nat i) + push_bit 12 (word_of_nat j) :: u32)"
    by (simp add: disjunctive_add_eq_or)
  also have "\<dots> = word_of_nat (i * 4194304 + j * 4096)" by (simp add: push_bit_eq_mult)
  finally have "push_bit 22 (word_of_nat i) OR push_bit 12 (word_of_nat j)
      = (word_of_nat (i * 4194304 + j * 4096) :: u32)" .
  then have "unat (push_bit 22 (word_of_nat i) OR push_bit 12 (word_of_nat j) :: u32)
      = (i * 4194304 + j * 4096) mod 2 ^ 32"
    by (simp only: unat_of_nat) simp
  moreover have "i * 4194304 + j * 4096 < 2 ^ 32" using assms by simp
  ultimately show ?thesis by simp
qed

lemma va_of_index:
  assumes "i < 1024" "j < 1024"
  defines "va \<equiv> push_bit 22 (word_of_nat i) OR push_bit 12 (word_of_nat j) :: u32"
  shows "PDX va = i" and "PTX va = j"
proof -
  have u: "unat va = 4096 * (1024 * i + j)" using unat_va_of [OF assms(1,2)] by (simp add: va_def)
  then have "unat va div 4096 = 1024 * i + j" by simp
  then show "PTX va = j" using assms(2) by (simp add: PTX_numeral_eq)
  have "unat va div 4194304 = unat va div 4096 div 1024" by (simp add: div_mult2_eq [symmetric])
  then show "PDX va = i" using assms(2) u by (simp add: PDX_numeral_eq)
qed

section \<open>Dropping a page table\<close>

lemma tab_clear_pde: "tab (set_pte k 0 s) K = (tab s K)(k := None)"
  by (auto simp: tab_def fun_eq_iff pte_at_set_pte)

lemma vmap_clear_pde:
  assumes inv: "tab_inv s K" and k: "(d, i) \<in> K" and none: "\<And>j. vmap s K (d, i, j) = None"
  shows "vmap (set_pte (d, i) 0 s) K = vmap s K"
proof
  fix q :: "nat \<times> nat \<times> nat"
  obtain d' i' j' where q: "q = (d', i', j')" by (cases q) auto
  have nd: "(t, j) \<noteq> (d, i)" if "tab s K k' = Some t" for t j k'
    using tab_not_dir [OF inv that] k by auto
  show "vmap (set_pte (d, i) 0 s) K q = vmap s K q"
  proof (cases "(d', i') = (d, i)")
    case True
    then show ?thesis using none [of j'] by (simp add: q vmap_def tab_clear_pde)
  next
    case False
    then show ?thesis using nd
      by (auto simp: q vmap_def tab_clear_pde pte_at_set_pte split: option.splits)
  qed
qed

lemma pm_inv_drop_table:
  fixes s :: "'z pm_state_scheme"
  assumes inv: "pm_inv s K ext fl" and k: "(d, i) \<in> K" and t: "tab s K (d, i) = Some t"
    and none: "\<And>j. vmap s K (d, i, j) = None"
  defines "s' \<equiv> decref_state t (set_pte (d, i) 0 s)"
  shows "tab s' K = (tab s K)((d, i) := None)" and "vmap s' K = vmap s K"
    and "pp_ref s t \<noteq> 0" and "t < npage s"
    and "pm_inv s' K ext (if pp_ref s t = 1 then t # fl else fl)"
proof -
  from inv have ti: "tab_inv s K" and fi: "free_inv s fl" and ri: "ref_inv s K ext"
    by (simp_all add: pm_inv_def)
  show tp: "t < npage s" using tab_inv_page [OF ti t] by simp
  have fin: "finite (dom (tab s K))" by (rule finite_dom_tab [OF tab_inv_finite [OF ti]])
  have "0 < nrefs id (tab s K) (id t)" by (rule nrefs_pos [OF fin t])
  then show ref: "pp_ref s t \<noteq> 0" using ri tp by (force simp: ref_inv_def)
  show tb: "tab s' K = (tab s K)((d, i) := None)"
    unfolding s'_def by (subst tab_cong [of K _ "set_pte (d, i) 0 s"]) (simp_all add: tab_clear_pde)
  have tb0: "tab s' K = tab (set_pte (d, i) 0 s) K" using tb by (simp add: tab_clear_pde)
  have "vmap s' K = vmap (set_pte (d, i) 0 s) K"
    by (rule vmap_cong [OF tb0]) (simp add: s'_def)
  then show vm: "vmap s' K = vmap s K" using vmap_clear_pde [OF ti k none] by simp
  have np: "npage s' = npage s" by (simp add: s'_def)
  have "free_inv s' (if pp_ref s t = 1 then t # fl else fl)"
    using free_inv_decref [of "set_pte (d, i) 0 s" fl t] fi ref tp by (simp add: s'_def free_inv_def)
  moreover have "tab_inv s' K"
    using ti unfolding tab_inv_def tb vm np
    by (auto simp: inj_on_def dom_def ran_def split: if_splits)
  moreover have "ref_inv s' K ext"
    unfolding ref_inv_def
  proof (intro conjI allI impI)
    show "\<forall>k \<in> K. 0 < ext (fst k)" using ri by (simp add: ref_inv_def)
    fix p assume p: "p < npage s'"
    have "nrefs id ((tab s K)((d, i) := None)) p + (if id t = p then 1 else 0) = nrefs id (tab s K) p"
      by (rule nrefs_delete [OF fin t])
    then show "unat (pp_ref s' p) = ext p + nrefs id (tab s' K) p + nrefs PPN (vmap s' K) p"
      using ri p ref unfolding tb vm ref_inv_def np
      by (auto simp: s'_def unat_u16_minus_1 split: if_splits)
  qed
  ultimately show "pm_inv s' K ext (if pp_ref s t = 1 then t # fl else fl)" by (simp add: pm_inv_def)
qed

section \<open>Freeing the mappings of a directory\<close>

lemma restrict_minus_insert: "(f |` (- A))(k := None) = f |` (- insert k A)"
  by (auto simp: restrict_map_def fun_eq_iff)

lemma restrict_minus_absent: "f k = None \<Longrightarrow> f |` (- insert k A) = f |` (- A)"
  by (auto simp: restrict_map_def fun_eq_iff)

text \<open>What holds between the steps: the invariant, and the mappings of \<open>A\<close> are gone.\<close>

definition dropped :: "'z pm_state_scheme \<Rightarrow> (nat \<times> nat) set \<Rightarrow> (nat \<Rightarrow> nat) \<Rightarrow>
    (nat \<times> nat \<times> nat) set \<Rightarrow> (nat \<times> nat) set \<Rightarrow> 'z pm_state_scheme \<Rightarrow> bool" where
  "dropped s K ext A B s' \<longleftrightarrow>
     vmap s' K = vmap s K |` (- A) \<and> tab s' K = tab s K |` (- B) \<and> (\<exists>fl. pm_inv s' K ext fl)
     \<and> npage s' = npage s \<and> pm_state.more s' = pm_state.more s"

lemma dropped_refl: "pm_inv s K ext fl \<Longrightarrow> dropped s K ext {} {} s"
  by (auto simp: dropped_def)

lemma free_pte_step:
  fixes s :: "'z pm_state_scheme"
  assumes d: "dropped s K ext A B s1" and k: "(d, i) \<in> K" "i < 1024" and j: "j < 1024"
    and t: "tab s1 K (d, i) = Some t"
  shows "\<exists>s2. free_pte d asid i t j s1 = Some s2 \<and> dropped s K ext (insert (d, i, j) A) B s2
     \<and> tab s2 K (d, i) = Some t"
proof -
  obtain fl where inv: "pm_inv s1 K ext fl" and vm: "vmap s1 K = vmap s K |` (- A)"
    using d by (auto simp: dropped_def)
  define va where "va = (push_bit 22 (word_of_nat i) OR push_bit 12 (word_of_nat j) :: u32)"
  have ix: "PDX va = i" "PTX va = j" using va_of_index [OF k(2) j] by (simp_all add: va_def)
  have kk: "(d, PDX va) \<in> K" and vk: "vkey d va = (d, i, j)" using k(1) ix by (simp_all add: vkey_def)
  show ?thesis
  proof (cases "vmap s1 K (d, i, j)")
    case None
    then have "free_pte d asid i t j s1 = Some s1" using t j by (simp add: free_pte_def vmap_def split: if_splits)
    moreover have "vmap s K |` (- insert (d, i, j) A) = vmap s K |` (- A)"
    proof (cases "(d, i, j) \<in> A")
      case False
      then have "vmap s K (d, i, j) = None" using None vm by (simp add: restrict_map_def)
      then show ?thesis by (rule restrict_minus_absent)
    qed (simp add: insert_absorb)
    ultimately show ?thesis using d t by (simp add: dropped_def)
  next
    case (Some e)
    then have e: "vmap s1 K (vkey d va) = Some e" by (simp add: vk)
    note r = page_remove_mapped [OF inv kk e, of asid]
    let ?s2 = "tlb_invalidate asid va (set_pte (PPN (pte_at (d, PDX va) s1), PTX va) 0
        (decref_state (PPN e) s1))"
    have "pte_valid (pte_at (t, j) s1)" using Some t by (auto simp: vmap_Some)
    then have "free_pte d asid i t j s1 = Some ?s2" using r(1) by (simp add: free_pte_def va_def)
    moreover have "pm_state.more ?s2 = pm_state.more s1" using more_page_remove [OF r(1)] .
    moreover have "vmap ?s2 K = vmap s K |` (- insert (d, i, j) A)"
      using r(3) vm vk by (simp only: restrict_minus_insert)
    ultimately show ?thesis using d r(2,4) t by (auto simp: dropped_def)
  qed
qed

lemma free_ptes:
  fixes s :: "'z pm_state_scheme"
  assumes d: "dropped s K ext A B s1" and k: "(d, i) \<in> K" "i < 1024"
    and t: "tab s1 K (d, i) = Some t"
  shows "\<exists>s2. foldo (free_pte d asid i t) [0..<1024] s1 = Some s2
     \<and> dropped s K ext (A \<union> {d} \<times> {i} \<times> {..<1024}) B s2 \<and> tab s2 K (d, i) = Some t"
proof -
  let ?P = "\<lambda>js s2. dropped s K ext (A \<union> {d} \<times> {i} \<times> set js) B s2 \<and> tab s2 K (d, i) = Some t"
  have "\<exists>s2. foldo (free_pte d asid i t) [0..<1024] s1 = Some s2 \<and> ?P [0..<1024] s2"
  proof (rule foldo_rule)
    show "?P [] s1" using d t by simp
  next
    fix js j and s2 :: "'z pm_state_scheme"
    assume j: "set (js @ [j]) \<subseteq> set [0..<1024]" and P: "?P js s2"
    have "insert (d, i, j) (A \<union> {d} \<times> {i} \<times> set js) = A \<union> {d} \<times> {i} \<times> set (js @ [j])" by auto
    then show "\<exists>s3. free_pte d asid i t j s2 = Some s3 \<and> ?P (js @ [j]) s3"
      using free_pte_step [of s K ext _ B s2 d i j t asid] P k j by auto
  qed
  then show ?thesis by (simp add: lessThan_atLeast0)
qed

lemma set_clear_comm: "decref_state t (set_pte k v s) = set_pte k v (decref_state t s)"
  by (simp add: decref_state_def set_pte_def Let_def)

lemma more_decref [simp]: "pm_state.more (decref_state p s) = pm_state.more s"
  by (simp add: decref_state_def Let_def)

lemma dropped_tlb [simp]: "dropped s K ext A B (tlb_invalidate a va s') = dropped s K ext A B s'"
  by (simp add: dropped_def)

lemma free_pde_step:
  fixes s :: "'z pm_state_scheme"
  assumes d: "dropped s K ext A B s1" and k: "(d, i) \<in> K" "i < 1024"
    and A: "\<And>j. vmap s1 K (d, i, j) \<noteq> None \<Longrightarrow> j < 1024"
  shows "\<exists>s2. free_pde d asid i s1 = Some s2
     \<and> dropped s K ext (A \<union> {d} \<times> {i} \<times> {..<1024}) (insert (d, i) B) s2"
proof (cases "tab s1 K (d, i)")
  case None
  then have nv: "\<not> pte_valid (pte_at (d, i) s1)" using k by (simp add: tab_None)
  have vn: "vmap s1 K (d, i, j) = None" for j using None by (simp add: vmap_def)
  have "vmap s K |` (- (A \<union> {d} \<times> {i} \<times> {..<1024})) = vmap s K |` (- A)"
  proof
    fix q
    have "(d, i, j) \<notin> A \<Longrightarrow> vmap s K (d, i, j) = None" for j
      using vn [of j] d by (auto simp: dropped_def restrict_map_def split: if_splits)
    then show "(vmap s K |` (- (A \<union> {d} \<times> {i} \<times> {..<1024}))) q = (vmap s K |` (- A)) q"
      by (cases q) (auto simp: restrict_map_def)
  qed
  moreover have "tab s K |` (- insert (d, i) B) = tab s K |` (- B)"
    using None d by (auto simp: dropped_def restrict_map_def fun_eq_iff split: if_splits)
  ultimately have "dropped s K ext (A \<union> {d} \<times> {i} \<times> {..<1024}) (insert (d, i) B) s1"
    using d by (simp add: dropped_def)
  then show ?thesis using nv by (simp add: free_pde_def)
next
  case (Some t)
  then have v: "pte_valid (pte_at (d, i) s1)" and tp: "t = PPN (pte_at (d, i) s1)"
    by (simp_all add: tab_Some)
  have "t < npage s1"
    using Some d tab_inv_page [of s1 K "(d, i)" t] by (auto simp: dropped_def pm_inv_def)
  from free_ptes [OF d k Some, of asid] obtain s2 where
    s2: "foldo (free_pte d asid i t) [0..<1024] s1 = Some s2"
      "dropped s K ext (A \<union> {d} \<times> {i} \<times> {..<1024}) B s2" "tab s2 K (d, i) = Some t" by blast
  then obtain fl where inv: "pm_inv s2 K ext fl"
    and vm: "vmap s2 K = vmap s K |` (- (A \<union> {d} \<times> {i} \<times> {..<1024}))" by (auto simp: dropped_def)
  have none: "vmap s2 K (d, i, j) = None" for j
  proof (cases "j < 1024")
    case True
    then show ?thesis by (simp add: vm restrict_map_def)
  next
    case False
    then show ?thesis by (simp add: vmap_def split: option.split)
  qed
  note r = pm_inv_drop_table [OF inv k(1) s2(3) none]
  define s3 where "s3 = decref_state t (set_pte (d, i) 0 s2)"
  have np: "npage s2 = npage s1" using s2(2) d by (simp add: dropped_def)
  have "page_decref t (set_pte (d, i) 0 s2) = Some s3"
    using page_decref_eq [of "set_pte (d, i) 0 s2" t] r(3) by (simp add: s3_def)
  then have "free_pde d asid i s1
      = Some (tlb_invalidate asid (UVPT + push_bit 12 (word_of_nat i)) s3)"
    using v tp s2(1) \<open>t < npage s1\<close> np
    unfolding free_pde_def all_ptes by (simp add: KADDR_page_def pa2page_def)
  moreover have "tab s3 K = tab s K |` (- insert (d, i) B)"
  proof -
    have "tab s3 K = (tab s K |` (- B))((d, i) := None)" using r(1) s2(2) by (simp only: s3_def dropped_def)
    then show ?thesis by (simp only: restrict_minus_insert)
  qed
  then have "dropped s K ext (A \<union> {d} \<times> {i} \<times> {..<1024}) (insert (d, i) B) s3"
    using r(2,5) s2(2) by (auto simp: dropped_def s3_def)
  ultimately show ?thesis by simp
qed

lemma free_pdes:
  fixes s :: "'z pm_state_scheme"
  assumes inv: "pm_inv s K ext fl" and k: "{d} \<times> {..<n} \<subseteq> K" "n \<le> 1024"
  shows "\<exists>s2. foldo (free_pde d asid) [0..<n] s = Some s2
     \<and> dropped s K ext ({d} \<times> {..<n} \<times> {..<1024}) ({d} \<times> {..<n}) s2"
proof -
  let ?P = "\<lambda>ds s2. dropped s K ext ({d} \<times> set ds \<times> {..<1024}) ({d} \<times> set ds) s2"
  have "\<exists>s2. foldo (free_pde d asid) [0..<n] s = Some s2 \<and> ?P [0..<n] s2"
  proof (rule foldo_rule)
    show "?P [] s" using dropped_refl [OF inv] by simp
  next
    fix ds i and s1 :: "'z pm_state_scheme"
    assume i: "set (ds @ [i]) \<subseteq> set [0..<n]" and P: "?P ds s1"
    have "(d, i) \<in> K" "i < 1024" using i k by auto
    moreover have "\<And>j. vmap s1 K (d, i, j) \<noteq> None \<Longrightarrow> j < 1024"
      by (auto simp: vmap_def split: option.splits if_splits)
    moreover have "{d} \<times> set ds \<times> {..<1024} \<union> {d} \<times> {i} \<times> {..<1024} = {d} \<times> set (ds @ [i]) \<times> {..<1024::nat}"
      "insert (d, i) ({d} \<times> set ds) = {d} \<times> set (ds @ [i])" by auto
    ultimately show "\<exists>s3. free_pde d asid i s1 = Some s3 \<and> ?P (ds @ [i]) s3"
      using free_pde_step [OF P, of d i asid] by auto
  qed
  then show ?thesis by (simp add: lessThan_atLeast0)
qed

section \<open>Adding and dropping a directory\<close>

lemma pm_core_cong:
  fixes s s' :: "'z pm_state_scheme"
  assumes "pmem s' = pmem s" "pp_ref s' = pp_ref s" "page_free_list s' = page_free_list s"
    "npage s' = npage s"
  shows "tab s' K = tab s K" and "vmap s' K = vmap s K" and "pm_inv s' K ext fl = pm_inv s K ext fl"
proof -
  have p: "pte_at q s' = pte_at q s" for q using assms by (simp add: pte_at_def)
  show t: "tab s' K = tab s K" by (rule tab_cong) (rule p)
  show v: "vmap s' K = vmap s K" by (rule vmap_cong [OF t]) (rule p)
  show "pm_inv s' K ext fl = pm_inv s K ext fl"
    using assms by (simp add: pm_inv_def free_inv_def tab_inv_def ref_inv_def t v)
qed

lemma tab_subset:
  assumes "K' \<subseteq> K" and "\<And>k. k \<in> K - K' \<Longrightarrow> \<not> pte_valid (pte_at k s)"
  shows "tab s K' = tab s K" and "vmap s K' = vmap s K"
proof -
  show t: "tab s K' = tab s K" using assms by (auto simp: tab_def fun_eq_iff)
  show "vmap s K' = vmap s K" by (simp add: vmap_def t fun_eq_iff)
qed

lemma pm_inv_drop_dir:
  fixes s :: "'z pm_state_scheme"
  assumes inv: "pm_inv s K ext fl" and d: "(d, i) \<in> K"
    and none: "\<And>j. (d, j) \<in> K \<Longrightarrow> tab s K (d, j) = None"
  defines "s' \<equiv> decref_state d s" and "K' \<equiv> K - {d} \<times> UNIV"
  shows "pp_ref s d \<noteq> 0" and "d < npage s" and "tab s' K' = tab s K" and "vmap s' K' = vmap s K"
    and "pm_inv s' K' (ext(d := ext d - 1)) (if pp_ref s d = 1 then d # fl else fl)"
proof -
  from inv have ti: "tab_inv s K" and fi: "free_inv s fl" and ri: "ref_inv s K ext"
    by (simp_all add: pm_inv_def)
  have fin: "finite K" by (rule tab_inv_finite [OF ti])
  have dK: "d \<in> fst ` K" using d by force
  show dn: "d < npage s" using ti d by (auto simp: tab_inv_def)
  have z: "nrefs id (tab s K) d = 0" "nrefs PPN (vmap s K) d = 0"
  proof -
    have "{k. \<exists>e. tab s K k = Some e \<and> id e = d} = {}" using tab_inv_page [OF ti] dK by fastforce
    then show "nrefs id (tab s K) d = 0" unfolding nrefs_def by (simp only: card.empty)
    have "{k. \<exists>e. vmap s K k = Some e \<and> PPN e = d} = {}" using vmap_inv_page [OF ti] dK by fastforce
    then show "nrefs PPN (vmap s K) d = 0" unfolding nrefs_def by (simp only: card.empty)
  qed
  have ed: "0 < ext d" using ri d by (force simp: ref_inv_def)
  have rd: "unat (pp_ref s d) = ext d" using ri dn z by (simp add: ref_inv_def)
  then show ref: "pp_ref s d \<noteq> 0" using ed by auto
  have "\<not> pte_valid (pte_at k s)" if "k \<in> K - K'" for k
  proof -
    from that obtain j where "k = (d, j)" "(d, j) \<in> K" by (cases k) (auto simp: K'_def)
    then show ?thesis using none [of j] by (auto simp: tab_None)
  qed
  then have sub: "tab s K' = tab s K" "vmap s K' = vmap s K"
    using tab_subset [of K' K s] by (auto simp: K'_def)
  have t1: "tab s' K' = tab s K'" by (rule tab_cong) (simp add: s'_def)
  show tb: "tab s' K' = tab s K" using t1 sub by simp
  have "vmap s' K' = vmap s K'" by (rule vmap_cong [OF t1]) (simp add: s'_def)
  then show vm: "vmap s' K' = vmap s K" using sub by simp
  have np: "npage s' = npage s" by (simp add: s'_def)
  have "free_inv s' (if pp_ref s d = 1 then d # fl else fl)"
    using free_inv_decref [OF fi ref dn] by (simp add: s'_def)
  moreover have "tab_inv s' K'"
  proof -
    have sub: "K' \<subseteq> K" "fst ` K' \<subseteq> fst ` K" by (auto simp: K'_def)
    then show ?thesis
      using ti finite_subset [OF sub(1) fin] unfolding tab_inv_def tb vm np by (meson subsetD)
  qed
  moreover have "ref_inv s' K' (ext(d := ext d - 1))"
    using ri rd z ref unfolding ref_inv_def tb vm np
    by (auto simp: K'_def s'_def unat_u16_minus_1)
  ultimately show "pm_inv s' K' (ext(d := ext d - 1)) (if pp_ref s d = 1 then d # fl else fl)"
    by (simp add: pm_inv_def)
qed

lemma pm_inv_add_dir:
  fixes s :: "'z pm_state_scheme"
  assumes inv: "pm_inv s K ext fl" and d: "d < npage s" "pp_ref s d = 0" "d \<notin> set fl"
    and z: "\<And>i. i \<in> I \<Longrightarrow> \<not> pte_valid (pte_at (d, i) s)" and I: "finite I"
  defines "K' \<equiv> K \<union> {d} \<times> I"
  shows "tab (incr_ref d s) K' = tab s K" and "vmap (incr_ref d s) K' = vmap s K"
    and "pm_inv (incr_ref d s) K' (ext(d := Suc (ext d))) fl"
proof -
  from inv have ti: "tab_inv s K" and fi: "free_inv s fl" and ri: "ref_inv s K ext"
    by (simp_all add: pm_inv_def)
  note un = ref_zero_unused [OF inv d(1,2)]
  have sub: "tab s K' = tab s K" "vmap s K' = vmap s K"
  proof -
    have nv: "\<And>k. k \<in> K' - K \<Longrightarrow> \<not> pte_valid (pte_at k s)" using z by (auto simp: K'_def)
    have "K \<subseteq> K'" by (simp add: K'_def)
    from tab_subset [OF this nv] show "tab s K' = tab s K" "vmap s K' = vmap s K" by simp_all
  qed
  show tb: "tab (incr_ref d s) K' = tab s K" by (simp add: sub)
  show vm: "vmap (incr_ref d s) K' = vmap s K" by (simp add: sub)
  have e0: "ext d = 0" using ri d(1,2) by (auto simp: ref_inv_def)
  have "free_inv (incr_ref d s) fl" using fi d(3) by (auto simp: free_inv_def)
  moreover have "tab_inv (incr_ref d s) K'"
    unfolding tab_inv_def tb vm pm_frame
  proof (intro conjI allI impI)
    show "finite K'" using ti I by (auto simp: tab_inv_def K'_def)
    show "\<forall>k \<in> K'. fst k < npage s" using ti d(1) by (auto simp: tab_inv_def K'_def)
    show "inj_on (tab s K) (dom (tab s K))" using ti by (simp add: tab_inv_def)
    fix k t assume t: "tab s K k = Some t"
    show "t < npage s" using tab_inv_page [OF ti t] by simp
    show "t \<notin> fst ` K'" using tab_inv_page [OF ti t] un(2) ranI [of "tab s K" k t, OF t]
      by (auto simp: K'_def)
  next
    fix k e assume e: "vmap s K k = Some e"
    show "PPN e < npage s" "PPN e \<notin> fst ` K'" "PPN e \<notin> ran (tab s K)"
      using vmap_inv_page [OF ti e] un(3) [OF e] by (auto simp: K'_def)
  qed
  moreover have "ref_inv (incr_ref d s) K' (ext(d := Suc (ext d)))"
    using ri d e0 unfolding ref_inv_def tb vm pm_frame by (auto simp: K'_def)
  ultimately show "pm_inv (incr_ref d s) K' (ext(d := Suc (ext d))) fl" by (simp add: pm_inv_def)
qed

lemma set_pte_outside:
  fixes s :: "'z pm_state_scheme"
  assumes "k \<notin> K" and "fst k \<notin> ran (tab s K)"
  shows "tab (set_pte k v s) K = tab s K" and "vmap (set_pte k v s) K = vmap s K"
    and "pm_inv (set_pte k v s) K ext fl = pm_inv s K ext fl"
proof -
  show t: "tab (set_pte k v s) K = tab s K"
    using assms(1) by (intro tab_cong) (auto simp: pte_at_set_pte)
  show v: "vmap (set_pte k v s) K = vmap s K"
    using assms(2) by (intro vmap_cong [OF t]) (auto simp: pte_at_set_pte)
  show "pm_inv (set_pte k v s) K ext fl = pm_inv s K ext fl"
    by (simp add: pm_inv_def free_inv_def tab_inv_def ref_inv_def t v)
qed

lemma copy_pdes_outside:
  fixes s :: kstate
  assumes "\<And>i. i \<in> set xs \<Longrightarrow> (d, i) \<notin> K" and "d \<notin> ran (tab s K)"
  shows "tab (copy_pdes d b xs s) K = tab s K \<and> vmap (copy_pdes d b xs s) K = vmap s K
    \<and> pm_inv (copy_pdes d b xs s) K ext fl = pm_inv s K ext fl
    \<and> npage (copy_pdes d b xs s) = npage s \<and> pm_state.more (copy_pdes d b xs s) = pm_state.more s"
  using assms
proof (induction xs arbitrary: s)
  case Nil
  then show ?case by (simp add: copy_pdes_def)
next
  case (Cons i js)
  have i: "(d, i) \<notin> K" "fst (d, i) \<notin> ran (tab s K)" using Cons.prems by auto
  note o = set_pte_outside [OF i, of "pte_at (b, i) s"]
  have "copy_pdes d b (i # js) s = copy_pdes d b js (set_pte (d, i) (pte_at (b, i) s) s)"
    by (simp add: copy_pdes_def)
  then show ?case using Cons.IH [of "set_pte (d, i) (pte_at (b, i) s) s"] Cons.prems o by simp
qed

lemma copy_pdes_at:
  fixes s :: kstate
  assumes "d \<noteq> b"
  shows "pte_at q (copy_pdes d b xs s)
     = (if fst q = d \<and> snd q \<in> set xs then pte_at (b, snd q) s else pte_at q s)"
proof (induction xs arbitrary: s)
  case Nil
  then show ?case by (simp add: copy_pdes_def)
next
  case (Cons i js)
  have "copy_pdes d b (i # js) s = copy_pdes d b js (set_pte (d, i) (pte_at (b, i) s) s)"
    by (simp add: copy_pdes_def)
  then show ?case using assms by (auto simp: Cons.IH pte_at_set_pte prod_eq_iff)
qed

lemma more_upd_env:
  "pm_state.more s' = pm_state.more s \<Longrightarrow> pm_state.more (upd_env e f s') = pm_state.more (upd_env e f s)"
  by (cases s; cases s') (simp add: upd_env_def)

text \<open>\<^verbatim>\<open>env_setup_vm\<close> adds the new directory, with no user page mapped in it.\<close>

lemma env_setup_vm_ok:
  fixes s :: kstate
  assumes inv: "pm_inv s K ext (d # fl)" and b: "base_pgdir s \<noteq> d"
  shows "\<exists>s'. env_setup_vm e s = Some (Inr (), s')
    \<and> pm_inv s' (K \<union> uslots d) (ext(d := Suc (ext d))) fl
    \<and> vmap s' (K \<union> uslots d) = vmap s K \<and> tab s' (K \<union> uslots d) = tab s K
    \<and> npage s' = npage s
    \<and> pm_state.more s' = pm_state.more (upd_env e (env_pgdir_update (\<lambda>_. Some d)) s)
    \<and> (\<forall>i. pte_at (d, i) s' = (if i = 509 \<or> i = 510 then pte_at (base_pgdir s, i) s
          else if i = 511 then page2pa d OR PTE_V else 0))"
proof -
  have fi: "free_inv s (d # fl)" using inv by (simp add: pm_inv_def)
  then have dn: "d < npage s" "pp_ref s d = 0" "d \<notin> set fl" "npage s \<le> 2 ^ 20"
    using lists.rep_distinct [of "page_free_list s" "d # fl"] by (auto simp: free_inv_def)
  from page_alloc_cons [OF fi] obtain q where q: "lq_rep q fl"
    and al: "page_alloc s = Some (Inr d, zero_page d (s\<lparr>page_free_list := q\<rparr>))" by auto
  define s1 where "s1 = zero_page d (s\<lparr>page_free_list := q\<rparr>)"
  note a = pm_inv_page_alloc [OF inv q, folded s1_def]
  have s1: "d < npage s1" "pp_ref s1 d = 0" "d \<notin> set fl" "\<And>i. \<not> pte_valid (pte_at (d, i) s1)"
    using dn by (simp_all add: s1_def pte_at_zero_page)
  note n = pm_inv_add_dir [OF a(1) s1(1-3) s1(4) finite_lessThan [of "PDX UTOP"], folded uslots_def]
  define s3 where "s3 = upd_env e (env_pgdir_update (\<lambda>_. Some d)) (incr_ref d s1)"
  have c: "tab s3 (K \<union> uslots d) = tab s K" "vmap s3 (K \<union> uslots d) = vmap s K"
      "pm_inv s3 (K \<union> uslots d) (ext(d := Suc (ext d))) fl" "npage s3 = npage s"
      "base_pgdir s3 = base_pgdir s"
    using pm_core_cong [of s3 "incr_ref d s1"] n a(2,3)
    by (simp_all add: s3_def) (simp_all add: s1_def zero_page_def incr_ref_def)
  have dK: "d \<notin> fst ` K" "d \<notin> ran (tab s K)" using used_not_free [OF inv, of d] by simp_all
  have out: "(d, i) \<notin> K \<union> uslots d" if "509 \<le> i" for i
    using dK(1) that by (force simp: uslots_def PDX_UTOP)
  define s4 where "s4 = copy_pdes d (base_pgdir s3) [PDX UTOP..<PDX UVPT] s3"
  have o: "i \<in> set [PDX UTOP..<PDX UVPT] \<Longrightarrow> (d, i) \<notin> K \<union> uslots d"
      "d \<notin> ran (tab s3 (K \<union> uslots d))" for i
    using out dK c by (auto simp: PDX_UTOP)
  have s4: "tab s4 (K \<union> uslots d) = tab s K \<and> vmap s4 (K \<union> uslots d) = vmap s K
    \<and> pm_inv s4 (K \<union> uslots d) (ext(d := Suc (ext d))) fl \<and> npage s4 = npage s
    \<and> pm_state.more s4 = pm_state.more s3"
    using copy_pdes_outside [of "[PDX UTOP..<PDX UVPT]" d "K \<union> uslots d" s3 "base_pgdir s3"
        "ext(d := Suc (ext d))" fl, OF o] c(1-4)
    unfolding s4_def by simp
  define s5 where "s5 = set_pte (d, PDX UVPT) (page2pa d OR PTE_V) s4"
  have o5: "(d, PDX UVPT) \<notin> K \<union> uslots d" "fst (d, PDX UVPT) \<notin> ran (tab s4 (K \<union> uslots d))"
    using out dK c s4 by (auto simp: PDX_UVPT)
  note s5 = set_pte_outside [OF o5, of "page2pa d OR PTE_V", folded s5_def]
  have run: "env_setup_vm e s = Some (Inr (), s5)"
    using al PPN_page2pa [of d] dn
    by (simp add: env_setup_vm_def page2kva_def KADDR_page_def s1_def [symmetric] s3_def [symmetric]
        s4_def [symmetric] s5_def [symmetric]) (simp add: s1_def s5_def s4_def s3_def)
  have "pm_state.more (incr_ref d s1) = pm_state.more s" by (simp add: s1_def)
  then have more: "pm_state.more s5 = pm_state.more (upd_env e (env_pgdir_update (\<lambda>_. Some d)) s)"
    using s4 more_upd_env unfolding s5_def s3_def by (metis more_frame(1))
  have e: "pte_at (d, i) s5 = (if i = 509 \<or> i = 510 then pte_at (base_pgdir s, i) s
          else if i = 511 then page2pa d OR PTE_V else 0)" for i
  proof -
    have "pte_at (base_pgdir s3, i) s3 = pte_at (base_pgdir s, i) s"
      using b by (simp add: c(5)) (simp add: s3_def s1_def pte_at_zero_page)
    moreover have "pte_at (d, i) s3 = 0" by (simp add: s3_def s1_def pte_at_zero_page)
    moreover have "d \<noteq> base_pgdir s3" using b c(5) by simp
    ultimately show ?thesis
      by (auto simp: s5_def s4_def pte_at_set_pte copy_pdes_at PDX_UTOP PDX_UVPT)
  qed
  have "npage s5 = npage s" using s4 by (simp add: s5_def)
  then show ?thesis
    using run s5 s4 more e by (intro exI [of _ s5]) simp
qed

section \<open>Releasing a process\<close>

lemma env_free_result:
  fixes s :: kstate
  assumes inv: "pm_inv s K ext fl" and d: "env_pgdir (envs s e) = Some d"
    and K: "K \<inter> {d} \<times> UNIV = uslots d"
    and sl: "tq_rep (env_sched_list s) sl" "e \<in> set sl"
    and efl: "lq_rep (env_free_list s) efl" "e \<notin> set efl"
  shows "\<exists>s' fl'. env_free e s = Some s' \<and> pm_inv s' (K - uslots d) (ext(d := ext d - 1)) fl'
    \<and> vmap s' (K - uslots d) = vmap s K |` (- ({d} \<times> UNIV))
    \<and> envs s' = (envs s)(e := (envs s e)\<lparr>env_status := ENV_FREE\<rparr>)
    \<and> asid_bitmap s' = asid_bitmap (asid_free (env_asid (envs s e)) s)
    \<and> lq_rep (env_free_list s') (e # efl) \<and> tq_rep (env_sched_list s') (remove1 e sl)
    \<and> curenv s' = curenv s \<and> mkenvid_i s' = mkenvid_i s"
proof -
  define asid where "asid = env_asid (envs s e)"
  have sub: "{d} \<times> {..<PDX UTOP} \<subseteq> K" using K by (auto simp: uslots_def)
  from free_pdes [OF inv sub, of asid] obtain s1 where
    s1: "foldo (free_pde d asid) [0..<PDX UTOP] s = Some s1"
    and dr: "dropped s K ext ({d} \<times> {..<PDX UTOP} \<times> {..<1024}) ({d} \<times> {..<PDX UTOP}) s1"
    by (auto simp: PDX_UTOP)
  then obtain fl1 where inv1: "pm_inv s1 K ext fl1" and np: "npage s1 = npage s"
    and more1: "pm_state.more s1 = pm_state.more s" and tb1: "tab s1 K = tab s K |` (- ({d} \<times> {..<PDX UTOP}))"
    and vm1: "vmap s1 K = vmap s K |` (- ({d} \<times> {..<PDX UTOP} \<times> {..<1024}))"
    by (auto simp: dropped_def)
  have d0: "(d, 0) \<in> K" using sub by (auto simp: PDX_UTOP)
  have none: "tab s1 K (d, j) = None" if "(d, j) \<in> K" for j
    using that K by (auto simp: tb1 restrict_map_def uslots_def)
  have Kd: "K - {d} \<times> UNIV = K - uslots d" using K by auto
  note r = pm_inv_drop_dir [OF inv1 d0 none, unfolded Kd]
  define s2 where "s2 = decref_state d s1"
  have n20: "npage s \<le> 2 ^ 20" using inv by (simp add: pm_inv_def free_inv_def)
  have pp: "pa2page (page2pa d) s1 = Some d"
    using PPN_page2pa [of d] r(2) np n20 by (simp add: pa2page_def)
  have dec: "page_decref d s1 = Some s2" using page_decref_eq r(1) by (simp add: s2_def)
  have more2: "pm_state.more s2 = pm_state.more s" using more1 by (simp add: s2_def)
  define s5 where "s5 = upd_env e (env_status_update (\<lambda>_. ENV_FREE))
      (tlb_invalidate asid (UVPT + push_bit 12 (word_of_nat (PDX UVPT))) (asid_free asid s2))"
  define s6 where "s6 = s5\<lparr>env_free_list := LIST_INSERT_HEAD e (env_free_list s5)\<rparr>"
  have q6: "env_sched_list s6 = env_sched_list s" "env_free_list s5 = env_free_list s"
    using more_eqD [OF more2]
    by (simp_all add: s6_def s5_def asid_free_def Let_def tlb_invalidate_def tlb_out_def)
  obtain q where q: "TAILQ_REMOVE e (env_sched_list s6) = Some q" "tq_rep q (remove1 e sl)"
    using tailqs.rep_remove [OF sl] q6 by auto
  define s7 where "s7 = s6\<lparr>env_sched_list := q\<rparr>"
  have run: "env_free e s = Some s7"
    using d s1 pp dec q(1) by (simp add: env_free_def asid_def s7_def s6_def s5_def Let_def)
  have core: "pmem s7 = pmem s2" "pp_ref s7 = pp_ref s2" "page_free_list s7 = page_free_list s2"
      "npage s7 = npage s2"
    by (simp_all add: s7_def s6_def s5_def asid_free_def Let_def tlb_invalidate_def tlb_out_def)
  note c = pm_core_cong [OF core]
  have ks: "envs s7 = (envs s)(e := (envs s e)\<lparr>env_status := ENV_FREE\<rparr>)"
      "asid_bitmap s7 = asid_bitmap (asid_free asid s)" "curenv s7 = curenv s"
      "mkenvid_i s7 = mkenvid_i s"
    using more_eqD [OF more2]
    by (simp_all add: s7_def s6_def s5_def asid_free_def Let_def tlb_invalidate_def tlb_out_def)
  have lists: "lq_rep (env_free_list s7) (e # efl)" "tq_rep (env_sched_list s7) (remove1 e sl)"
    using lq_rep_insert_head [OF efl] q(2) q6 by (simp_all add: s7_def s6_def)
  have vm: "vmap s7 (K - uslots d) = vmap s K |` (- ({d} \<times> UNIV))"
  proof -
    have "vmap s7 (K - uslots d) = vmap s K |` (- ({d} \<times> {..<PDX UTOP} \<times> {..<1024}))"
      using c(2) r(4) vm1 by (simp add: s2_def)
    moreover have "vmap s K k = None" if "k \<in> {d} \<times> UNIV - {d} \<times> {..<PDX UTOP} \<times> {..<1024}" for k
    proof -
      obtain d' i j where "k = (d', i, j)" by (rule prod_cases3)
      then have k: "k = (d, i, j)" using that by auto
      have "(d, i) \<in> K \<Longrightarrow> i < PDX UTOP" using K by (auto simp: uslots_def)
      then show ?thesis using that k by (auto simp: vmap_def tab_def split: option.splits)
    qed
    then have "vmap s K |` (- ({d} \<times> {..<PDX UTOP} \<times> {..<1024})) = vmap s K |` (- ({d} \<times> UNIV))"
      by (auto simp: restrict_map_def fun_eq_iff)
    ultimately show ?thesis by simp
  qed
  show ?thesis
    using run r(5) c(3) vm ks lists unfolding s2_def [symmetric] asid_def by blast
qed

section \<open>Creating a process\<close>

lemma find_upt_None: "find P [0..<n] = None \<longleftrightarrow> (\<forall>i < n. \<not> P i)"
  by (auto simp: find_None_iff)

lemma find_upt_Some:
  "find P [0..<n] = Some i \<Longrightarrow> i < n \<and> P i \<and> (\<forall>j < i. \<not> P j)"
  by (auto simp: find_Some_iff)

lemma asid_alloc_cases:
  assumes "asid_alloc s = (r, s')"
  obtains (full) "r = Inl E_NO_FREE_ENV" "s' = s" "\<forall>i < 64. asid_used (asid_bitmap s) i"
  | (fresh) i where "r = Inr (word_of_nat i)" "i < 64" "\<not> asid_used (asid_bitmap s) i"
      "\<forall>j < i. asid_used (asid_bitmap s) j"
      "s' = s\<lparr>asid_bitmap := (asid_bitmap s)(i div 32 :=
                asid_bitmap s (i div 32) OR push_bit (i mod 32) 1)\<rparr>"
proof (cases "find (\<lambda>i. \<not> asid_used (asid_bitmap s) i) [0..<NASID]")
  case None
  then show ?thesis
    using full assms find_upt_None [THEN iffD1, OF None] by (simp add: asid_alloc_def NASID_def)
next
  case (Some i)
  then show ?thesis
    using fresh [of i] assms find_upt_Some [OF Some] by (auto simp: asid_alloc_def NASID_def)
qed

lemma env_alloc_ok:
  fixes s :: kstate
  assumes inv: "pm_inv s K ext (d # fl)" and b: "base_pgdir s \<noteq> d"
    and efl: "lq_rep (env_free_list s) (e # efl)" and a: "\<not> (\<forall>i < 64. asid_used (asid_bitmap s) i)"
  shows "\<exists>s' a. env_alloc parent s = Some (Inr e, s')
    \<and> pm_inv s' (K \<union> uslots d) (ext(d := Suc (ext d))) fl \<and> vmap s' (K \<union> uslots d) = vmap s K
    \<and> (\<forall>i. pte_at (d, i) s' = (if i = 509 \<or> i = 510 then pte_at (base_pgdir s, i) s
          else if i = 511 then page2pa d OR PTE_V else 0))
    \<and> lq_rep (env_free_list s') efl \<and> env_sched_list s' = env_sched_list s
    \<and> a < 64 \<and> \<not> asid_used (asid_bitmap s) a
    \<and> (\<forall>i < 64. asid_used (asid_bitmap s') i \<longleftrightarrow> i = a \<or> asid_used (asid_bitmap s) i)
    \<and> mkenvid_i s' = mkenvid_i s + 1 \<and> ktf s' = ktf s \<and> curenv s' = curenv s
    \<and> envs s' = (envs s)(e := (envs s e)\<lparr>env_pgdir := Some d, env_user_tlb_mod_entry := 0,
          env_runs := 0, env_id := fst (mkenvid e s), env_asid := word_of_nat a,
          env_parent_id := parent, env_tf := init_tf (env_tf (envs s e))\<rparr>)"
proof -
  from env_setup_vm_ok [OF inv b, of e] obtain s1 where
    s1: "env_setup_vm e s = Some (Inr (), s1)"
      "pm_inv s1 (K \<union> uslots d) (ext(d := Suc (ext d))) fl" "vmap s1 (K \<union> uslots d) = vmap s K"
      "pm_state.more s1 = pm_state.more (upd_env e (env_pgdir_update (\<lambda>_. Some d)) s)"
      "\<forall>i. pte_at (d, i) s1 = (if i = 509 \<or> i = 510 then pte_at (base_pgdir s, i) s
          else if i = 511 then page2pa d OR PTE_V else 0)" by blast
  note m = more_eqD [OF s1(4)]
  define s2 where "s2 = upd_env e (\<lambda>v. v\<lparr>env_user_tlb_mod_entry := 0, env_runs := 0\<rparr>) s1"
  define s4 where "s4 = upd_env e (env_id_update (\<lambda>_. fst (mkenvid e s2))) (snd (mkenvid e s2))"
  have bm4: "asid_bitmap s4 = asid_bitmap s" "mkenvid_i s4 = mkenvid_i s + 1"
      "fst (mkenvid e s2) = fst (mkenvid e s)"
    using m by (simp_all add: s4_def s2_def mkenvid_def Let_def upd_env_def)
  obtain r s5 where as: "asid_alloc s4 = (r, s5)" by fastforce
  then obtain i where i: "r = Inr (word_of_nat i)" "i < 64" "\<not> asid_used (asid_bitmap s) i"
      "s5 = s4\<lparr>asid_bitmap := (asid_bitmap s4)(i div 32 :=
                asid_bitmap s4 (i div 32) OR push_bit (i mod 32) 1)\<rparr>"
    using a bm4 by (elim asid_alloc_cases) auto
  define s6 where "s6 = upd_env e (\<lambda>v. v\<lparr>env_asid := word_of_nat i, env_parent_id := parent,
      env_tf := init_tf (env_tf v)\<rparr>) s5"
  have fl6: "env_free_list s6 = env_free_list s" "env_sched_list s6 = env_sched_list s"
      "ktf s6 = ktf s" "curenv s6 = curenv s"
    using m by (simp_all add: s6_def i(4) s4_def s2_def mkenvid_def Let_def upd_env_def)
  obtain q where q: "LIST_REMOVE e (env_free_list s6) = Some q" "lq_rep q efl"
    using lists.remove_first [OF efl] fl6 by auto
  define s7 where "s7 = s6\<lparr>env_free_list := q\<rparr>"
  have run: "env_alloc parent s = Some (Inr e, s7)"
    using lq_rep_empty [OF efl] lists.rep_first [OF efl] s1(1) as i(1) q(1)
    by (simp add: env_alloc_def s2_def [symmetric] Let_def split_beta s4_def [symmetric]
        s6_def [symmetric] s7_def)
  have core: "pmem s7 = pmem s1" "pp_ref s7 = pp_ref s1" "page_free_list s7 = page_free_list s1"
      "npage s7 = npage s1"
    by (simp_all add: s7_def s6_def i(4) s4_def s2_def mkenvid_def Let_def)
  note c = pm_core_cong [OF core]
  have p: "pte_at k s7 = pte_at k s1" for k using core by (simp add: pte_at_def)
  have e7: "envs s7 = (envs s)(e := (envs s e)\<lparr>env_pgdir := Some d, env_user_tlb_mod_entry := 0,
          env_runs := 0, env_id := fst (mkenvid e s), env_asid := word_of_nat i,
          env_parent_id := parent, env_tf := init_tf (env_tf (envs s e))\<rparr>)"
    using m(1) bm4(3)
    by (simp add: s7_def s6_def i(4) s4_def) (simp add: s2_def mkenvid_def Let_def)
  have bm7: "asid_bitmap s7 = (asid_bitmap s)(i div 32 :=
                asid_bitmap s (i div 32) OR push_bit (i mod 32) 1)" "mkenvid_i s7 = mkenvid_i s + 1"
    using bm4 by (simp_all add: s7_def s6_def i(4))
  have "asid_used (asid_bitmap s7) j \<longleftrightarrow> j = i \<or> asid_used (asid_bitmap s) j" if "j < 64" for j
    unfolding bm7 by (rule asid_used_set [OF i(2) that])
  moreover have "lq_rep (env_free_list s7) efl" "env_sched_list s7 = env_sched_list s"
      "ktf s7 = ktf s" "curenv s7 = curenv s"
    using q fl6 by (simp_all add: s7_def)
  ultimately show ?thesis
    using run c s1(2,3,5) p i(2,3) e7 bm7(2) by (intro exI [of _ s7] exI [of _ i]) simp
qed

section \<open>Identifiers\<close>

lemma unat_mkenvid:
  assumes "unat (mkenvid_i s) + 1 < 2 ^ 21" and "e < 1024"
  shows "unat (fst (mkenvid e s)) = 2048 * (unat (mkenvid_i s) + 1) + e"
proof -
  define i where "i = mkenvid_i s + 1"
  have ui: "unat i = unat (mkenvid_i s) + 1" using assms(1) by (simp add: i_def unat_word_ariths)
  have be: "bit (word_of_nat e :: u32) n \<Longrightarrow> n < 10" for n
    using assms(2) word_less_exp_bit [of "word_of_nat e" 10 n]
    by (simp add: word_less_nat_alt unat_of_nat)
  have "push_bit 11 i AND word_of_nat e = (0 :: u32)"
    by (rule bit_eqI) (auto simp: bit_and_iff bit_push_bit_iff dest: be)
  then have "push_bit 11 i OR word_of_nat e = push_bit 11 i + word_of_nat e"
    by (simp add: disjunctive_add_eq_or)
  also have "\<dots> = word_of_nat (2048 * unat i + e)" by (simp add: push_bit_eq_mult)
  finally have "unat (push_bit 11 i OR word_of_nat e) = (2048 * unat i + e) mod 2 ^ 32"
    by (simp only: unat_of_nat) simp
  moreover have "2048 * unat i + e < 2 ^ 32" using assms ui by simp
  ultimately show ?thesis by (simp add: mkenvid_def Let_def i_def [symmetric] ui)
qed

lemma ENVX_mod: "ENVX x = unat x mod 1024"
proof -
  have "ENVX x = unat x mod 2 ^ 10"
    by (simp only: ENVX_def mask10_eq take_bit_eq_mask [symmetric] unat_take_bit)
  then show ?thesis by simp
qed

lemma ENVX_less [simp]: "ENVX x < 1024"
  by (simp add: ENVX_mod)

section \<open>A small kernel state\<close>

text \<open>One running process with an empty address space, on the four-page machine of Aspace.\<close>

definition zero_tf :: trapframe where
  "zero_tf = \<lparr>regs = (\<lambda>_. 0), cp0_status = 0, tf_hi = 0, tf_lo = 0, cp0_badvaddr = 0,
              cp0_cause = 0, cp0_epc = 0\<rparr>"

definition free_env :: env where
  "free_env = \<lparr>env_tf = zero_tf, env_id = 0, env_asid = 0, env_parent_id = 0, env_status = ENV_FREE,
     env_pgdir = None, env_pri = 1, env_ipc_value = 0, env_ipc_from = 0, env_ipc_recving = 0,
     env_ipc_dstva = 0, env_ipc_perm = 0, env_user_tlb_mod_entry = 0, env_runs = 0\<rparr>"

definition env_one :: env where
  "env_one = free_env\<lparr>env_id := 0x800, env_status := ENV_RUNNABLE, env_pgdir := Some 1\<rparr>"

definition one_free :: "nat lq" where
  "one_free = LIST_INSERT_HEAD 1 (LIST_INSERT_HEAD 2
     \<lparr>lh_first = None, le_next = (\<lambda>_. None), le_prev = (\<lambda>_. LNull)\<rparr>)"

definition one_sched :: "nat tq" where
  "one_sched = TAILQ_INSERT_HEAD 0
     (TAILQ_INIT \<lparr>tqh_first = None, tqh_last = LHead, tqe_next = (\<lambda>_. None), tqe_prev = (\<lambda>_. LNull)\<rparr>)"

definition kone :: kstate where
  "kone = pm_state.extend small
     \<lparr>envs = (\<lambda>_. free_env)(0 := env_one), envs_kva = 0x80400000, curenv = Some 0,
      env_free_list = one_free, env_sched_list = one_sched, base_pgdir = 0,
      asid_bitmap = (\<lambda>i. if i = 0 then 1 else 0), mkenvid_i = 1, sched_count = 0,
      ktf = zero_tf, cpu_tf = zero_tf, cpu_entryhi = 0, cons_out = [], cons_in = (\<lambda>_. 65), cons_pos = 0\<rparr>"

lemma kone_simps:
  "pmem kone = (\<lambda>_ _. 0)" "pp_ref kone = (\<lambda>p. if p < 2 then 1 else 0)" "npage kone = 4"
  "page_free_list kone = small_free" "envs kone = (\<lambda>_. free_env)(0 := env_one)"
  "curenv kone = Some 0" "env_free_list kone = one_free" "env_sched_list kone = one_sched"
  "base_pgdir kone = 0" "asid_bitmap kone = (\<lambda>i. if i = 0 then 1 else 0)" "mkenvid_i kone = 1"
  "sched_count kone = 0" "tlb kone = (\<lambda>_. None)" "ktf kone = zero_tf"
  by (simp_all add: kone_def small_def pm_state.defs kstate.defs)

lemma one_free_rep: "lq_rep one_free [1, 2]"
  unfolding one_free_def by (intro lq_rep_insert_head) (auto simp: lq_rep_def)

lemma one_sched_rep: "tq_rep one_sched [0]"
  unfolding one_sched_def by (intro tq_rep_insert_head tq_rep_init) auto

lemma kone_tab: "tab kone K = Map.empty"
  by (simp add: tab_def kone_simps pte_at_def fun_eq_iff)

lemma kone_vmap: "vmap kone K = Map.empty"
  by (auto simp: vmap_def kone_tab fun_eq_iff)

lemma kone_inv: "pm_inv kone (uslots 1) small_ext [2, 3]"
proof -
  have "free_inv kone [2, 3]"
    using lq_rep_small_free by (simp add: free_inv_def kone_simps)
  moreover have "tab_inv kone (uslots 1)"
    by (auto simp: tab_inv_def kone_tab kone_vmap uslots_def) (simp add: kone_simps)
  moreover have "ref_inv kone (uslots 1) small_ext"
    unfolding ref_inv_def kone_tab kone_vmap
    by (auto simp: uslots_def small_ext_def kone_simps)
  ultimately show ?thesis by (simp add: pm_inv_def)
qed

section \<open>Properties\<close>

text \<open>\<^verbatim>\<open>asid_alloc\<close> hands out the least unused identifier below 64 and marks it and no
  other as used; it fails exactly when all are used; \<^verbatim>\<open>asid_free\<close> undoes it.\<close>

theorem asid_alloc_correct:
  assumes "asid_alloc s = (r, s')"
  shows "case r of
      Inl err \<Rightarrow> err = E_NO_FREE_ENV \<and> s' = s \<and> (\<forall>i < 64. asid_used (asid_bitmap s) i)
    | Inr a \<Rightarrow> unat a < 64 \<and> \<not> asid_used (asid_bitmap s) (unat a)
        \<and> (\<forall>i < unat a. asid_used (asid_bitmap s) i)
        \<and> (\<forall>i < 64. asid_used (asid_bitmap s') i \<longleftrightarrow> i = unat a \<or> asid_used (asid_bitmap s) i)
        \<and> (\<forall>i < 64. asid_used (asid_bitmap (asid_free a s')) i \<longleftrightarrow> asid_used (asid_bitmap s) i)"
  using assms
proof (cases rule: asid_alloc_cases)
  case full
  then show ?thesis by simp
next
  case (fresh i)
  have u: "unat (word_of_nat i :: u32) = i" using fresh(2) by (simp add: unat_of_nat)
  have used: "asid_used (asid_bitmap s') j \<longleftrightarrow> j = i \<or> asid_used (asid_bitmap s) j" if "j < 64" for j
    using asid_used_set [OF fresh(2) that, of "asid_bitmap s"] fresh(5) by simp
  have "asid_used (asid_bitmap (asid_free (word_of_nat i) s')) j \<longleftrightarrow> asid_used (asid_bitmap s) j"
    if "j < 64" for j
    using asid_used_clear [OF fresh(2) that, of "asid_bitmap s'"] used [OF that] fresh(2,3)
    by (auto simp: asid_free_index u)
  then show ?thesis using fresh used by (simp add: u)
qed

lemma asid_alloc_correct_witness:
  "fst (asid_alloc kone) = Inr 1 \<and> asid_used (asid_bitmap (snd (asid_alloc kone))) 1"
proof -
  obtain r s' where rs: "asid_alloc kone = (r, s')" by fastforce
  have "find (\<lambda>i. \<not> asid_used (asid_bitmap kone) i) [0..<NASID] = Some 1"
    by (simp add: NASID_def upt_rec asid_used_def kone_simps)
  then have "r = Inr 1" using rs by (simp add: asid_alloc_def)
  then show ?thesis using asid_alloc_correct [OF rs] rs by simp
qed

text \<open>While the counter has not passed \<open>2 ^ 21\<close>, \<^verbatim>\<open>mkenvid\<close> gives a nonzero identifier whose
  low bits lead \<^verbatim>\<open>ENVX\<close> back to the process, and two calls never give the same one.\<close>

theorem mkenvid_unique:
  assumes "unat (mkenvid_i s) < unat (mkenvid_i s2)" and "unat (mkenvid_i s2) + 1 < 2 ^ 21"
    and "e < 1024" and "e2 < 1024"
  shows "fst (mkenvid e s) \<noteq> 0 \<and> ENVX (fst (mkenvid e s)) = e
    \<and> fst (mkenvid e s) \<noteq> fst (mkenvid e2 s2)"
proof (intro conjI)
  have u: "unat (fst (mkenvid e s)) = 2048 * (unat (mkenvid_i s) + 1) + e"
    using assms by (intro unat_mkenvid) simp_all
  have u2: "unat (fst (mkenvid e2 s2)) = 2048 * (unat (mkenvid_i s2) + 1) + e2"
    using assms by (intro unat_mkenvid) simp_all
  show "fst (mkenvid e s) \<noteq> 0" using u by auto
  show "ENVX (fst (mkenvid e s)) = e"
    unfolding ENVX_mod u using assms(3) by (simp add: mod_add_eq [symmetric] mult_mod_left)
  have "2048 * (unat (mkenvid_i s) + 1) + e < 2048 * (unat (mkenvid_i s2) + 1) + e2"
    using assms by simp
  then show "fst (mkenvid e s) \<noteq> fst (mkenvid e2 s2)" using u u2 by auto
qed

lemma mkenvid_unique_witness:
  "fst (mkenvid 3 kone) \<noteq> fst (mkenvid 3 (snd (mkenvid 3 kone))) \<and> ENVX (fst (mkenvid 3 kone)) = 3"
  using mkenvid_unique [of kone "snd (mkenvid 3 kone)" 3 3]
  by (simp add: mkenvid_def kone_simps)

text \<open>C5: a process that \<^verbatim>\<open>envid2env\<close> returns is the current one (for identifier 0) or the
  live owner of exactly that identifier, and, when permission is checked, the caller itself or
  a child of it.\<close>

theorem envid2env_sound:
  assumes "envid2env envid checkperm s = Some (Inr (Some e))"
  shows "if envid = 0 then curenv s = Some e
    else e = ENVX envid \<and> e < NENV \<and> env_id (envs s e) = envid \<and> env_status (envs s e) \<noteq> ENV_FREE
      \<and> (checkperm \<longrightarrow> (\<exists>c. curenv s = Some c \<and>
            (env_id (envs s c) = envid \<or> env_parent_id (envs s e) = env_id (envs s c))))"
  using assms ENVX_less [of envid] by (auto simp: envid2env_def NENV_def Let_def simp del: ENVX_less split: if_splits bind_splits)

lemma envid2env_sound_witness:
  "envid2env 0x800 True kone = Some (Inr (Some 0)) \<and> env_id (envs kone 0) = 0x800"
proof -
  have "envid2env 0x800 True kone = Some (Inr (Some 0))"
    by (simp add: envid2env_def ENVX_mod kone_simps env_one_def free_env_def)
  then show ?thesis using envid2env_sound [of "0x800" True kone 0] by simp
qed

text \<open>C6: with a free page, a free process and a free ASID, \<^verbatim>\<open>env_alloc\<close> takes the first free
  process, gives it an empty user address space in a fresh directory that shares the kernel
  windows of the template and maps itself at UVPT, an unused ASID and the next identifier; no
  mapping of any other directory changes and the accounting invariant holds with the new one.\<close>

theorem env_alloc_correct:
  fixes s :: kstate
  assumes "pm_inv s K ext (d # fl)" and "base_pgdir s \<noteq> d"
    and "lq_rep (env_free_list s) (e # efl)" and "\<not> (\<forall>i < 64. asid_used (asid_bitmap s) i)"
  shows "\<exists>s' a. env_alloc parent s = Some (Inr e, s')
    \<and> pm_inv s' (K \<union> uslots d) (ext(d := Suc (ext d))) fl \<and> vmap s' (K \<union> uslots d) = vmap s K
    \<and> (\<forall>i. pte_at (d, i) s' = (if i = 509 \<or> i = 510 then pte_at (base_pgdir s, i) s
          else if i = 511 then page2pa d OR PTE_V else 0))
    \<and> lq_rep (env_free_list s') efl \<and> a < 64 \<and> \<not> asid_used (asid_bitmap s) a
    \<and> asid_used (asid_bitmap s') a
    \<and> envs s' = (envs s)(e := (envs s e)\<lparr>env_pgdir := Some d, env_user_tlb_mod_entry := 0,
          env_runs := 0, env_id := fst (mkenvid e s), env_asid := word_of_nat a,
          env_parent_id := parent, env_tf := init_tf (env_tf (envs s e))\<rparr>)"
  using env_alloc_ok [OF assms, of parent] by blast

lemma kone_asid: "\<not> (\<forall>i < 64. asid_used (asid_bitmap kone) i)"
proof -
  have "\<not> asid_used (asid_bitmap kone) 1" by (simp add: asid_used_def kone_simps)
  then show ?thesis by (intro notI) (drule spec [of _ 1], simp)
qed

lemma env_alloc_correct_witness:
  "\<exists>s'. env_alloc 0x800 kone = Some (Inr 1, s') \<and> env_pgdir (envs s' 1) = Some 2
     \<and> pm_inv s' (uslots 1 \<union> uslots 2) (small_ext(2 := Suc (small_ext 2))) [3]"
proof -
  have "base_pgdir kone \<noteq> 2" "lq_rep (env_free_list kone) [1, 2]"
    using one_free_rep by (simp_all add: kone_simps)
  from env_alloc_correct [OF kone_inv this kone_asid, of "0x800"] show ?thesis by fastforce
qed

text \<open>C7: \<^verbatim>\<open>env_free\<close> of a queued process never halts the machine: it removes every user
  mapping of its directory and no other, gives back its page tables and its directory with
  exact reference counts, releases its ASID, and moves it from the run queue to the free list.\<close>

theorem env_free_correct:
  fixes s :: kstate
  assumes "pm_inv s K ext fl" and "env_pgdir (envs s e) = Some d"
    and "K \<inter> {d} \<times> UNIV = uslots d"
    and "tq_rep (env_sched_list s) sl" and "e \<in> set sl"
    and "lq_rep (env_free_list s) efl" and "e \<notin> set efl" and "unat (env_asid (envs s e)) < 64"
  shows "\<exists>s' fl'. env_free e s = Some s' \<and> pm_inv s' (K - uslots d) (ext(d := ext d - 1)) fl'
    \<and> vmap s' (K - uslots d) = vmap s K |` (- ({d} \<times> UNIV))
    \<and> envs s' = (envs s)(e := (envs s e)\<lparr>env_status := ENV_FREE\<rparr>)
    \<and> (\<forall>i < 64. asid_used (asid_bitmap s') i \<longleftrightarrow>
          i \<noteq> unat (env_asid (envs s e)) \<and> asid_used (asid_bitmap s) i)
    \<and> lq_rep (env_free_list s') (e # efl) \<and> tq_rep (env_sched_list s') (remove1 e sl)"
proof -
  have "asid_used (asid_bitmap (asid_free (env_asid (envs s e)) s)) i \<longleftrightarrow>
      i \<noteq> unat (env_asid (envs s e)) \<and> asid_used (asid_bitmap s) i" if "i < 64" for i
    using asid_used_clear [OF assms(8) that, of "asid_bitmap s"]
    by (simp add: asid_free_index [OF assms(8)])
  then show ?thesis using env_free_result [OF assms(1-7)] by auto
qed

lemma env_free_correct_witness:
  "\<exists>s' fl'. env_free 0 kone = Some s' \<and> pm_inv s' {} (small_ext(1 := 0)) fl'
     \<and> env_status (envs s' 0) = ENV_FREE \<and> lq_rep (env_free_list s') [0, 1, 2]"
proof -
  have h: "env_pgdir (envs kone 0) = Some 1" "uslots 1 \<inter> {1} \<times> UNIV = uslots 1"
    "tq_rep (env_sched_list kone) [0]" "lq_rep (env_free_list kone) [1, 2]"
    "unat (env_asid (envs kone 0)) < 64" "small_ext 1 = 1"
    using one_free_rep one_sched_rep
    by (auto simp: kone_simps env_one_def free_env_def uslots_def small_ext_def)
  from env_free_correct [OF kone_inv h(1,2,3) _ h(4) _ h(5)] h(6) show ?thesis by fastforce
qed

end
