(* ===== verification/Sched.thy ===== *)
theory Sched
  imports EnvSpace
begin

text \<open>
  The scheduler of \<^verbatim>\<open>kern/sched.c\<close> and \<^verbatim>\<open>env_destroy\<close>, which calls it. \<open>sched_inv\<close> is the
  invariant stated above \<^verbatim>\<open>env_sched_list\<close> in \<^verbatim>\<open>kern/env.c\<close>: the run queue holds exactly the
  runnable processes.
\<close>

definition runnable :: "kstate \<Rightarrow> nat option \<Rightarrow> bool" where
  "runnable s e = (case e of None \<Rightarrow> False | Some i \<Rightarrow> env_status (envs s i) = ENV_RUNNABLE)"

text \<open>\<^verbatim>\<open>count\<close> is a signed \<^verbatim>\<open>int\<close>; its test is the sign of the word.\<close>

definition schedule :: "bool \<Rightarrow> kstate \<Rightarrow> kstate option" where
  "schedule yield s =
     (let e = curenv s; s1 = s\<lparr>sched_count := sched_count s - 1\<rparr>
      in if yield \<or> sint (sched_count s1) \<le> 0 \<or> \<not> runnable s1 e then do {
           s2 \<leftarrow> (case e of
                    Some i \<Rightarrow>
                      if runnable s1 e then do {
                        q1 \<leftarrow> TAILQ_REMOVE i (env_sched_list s1);
                        q2 \<leftarrow> TAILQ_INSERT_TAIL i q1;
                        Some (s1\<lparr>env_sched_list := q2\<rparr>)
                      }
                      else Some s1
                  | None \<Rightarrow> Some s1);
           if TAILQ_EMPTY (env_sched_list s2) then None
           else do {
             e' \<leftarrow> TAILQ_FIRST (env_sched_list s2);
             env_run e' (s2\<lparr>sched_count := env_pri (envs s2 e')\<rparr>)
           }
         }
         else do { i \<leftarrow> e; env_run i s1 })"

text \<open>The flag tells whether \<^verbatim>\<open>env_destroy\<close> returned to its caller or switched to another process.\<close>

definition env_destroy :: "nat \<Rightarrow> kstate \<Rightarrow> (bool \<times> kstate) option" where
  "env_destroy e s = do {
     s1 \<leftarrow> env_free e s;
     if curenv s1 = Some e then do {
       s2 \<leftarrow> schedule True (s1\<lparr>curenv := None\<rparr>);
       Some (False, s2)
     }
     else Some (True, s1)
   }"

section \<open>The run queue invariant\<close>

definition sched_inv :: "kstate \<Rightarrow> nat list \<Rightarrow> bool" where
  "sched_inv s xs \<longleftrightarrow> tq_rep (env_sched_list s) xs
     \<and> (\<forall>e. e \<in> set xs \<longleftrightarrow> env_status (envs s e) = ENV_RUNNABLE)"

lemma sched_inv_rep: "sched_inv s xs \<Longrightarrow> tq_rep (env_sched_list s) xs"
  by (simp add: sched_inv_def)

lemma sched_inv_runnable: "sched_inv s xs \<Longrightarrow> runnable s (Some e) \<longleftrightarrow> e \<in> set xs"
  by (simp add: sched_inv_def runnable_def)

lemma env_run_runnable:
  assumes "env_status (envs s e) = ENV_RUNNABLE"
  obtains s' where "env_run e s = Some s'" "curenv s' = Some e"
    "env_sched_list s' = env_sched_list s" "sched_count s' = sched_count s"
    "\<And>i. env_status (envs s' i) = env_status (envs s i)"
    "\<And>i. env_pri (envs s' i) = env_pri (envs s i)"
  using assms that
  by (cases "curenv s") (auto simp: env_run_def env_pop_tf_def Let_def)

text \<open>What one call does to the queue and to the current process.\<close>

lemma schedule_keep:
  assumes inv: "sched_inv s xs" and c: "curenv s = Some e" "e \<in> set xs"
    and n: "0 < sint (sched_count s - 1)"
  obtains s' where "schedule False s = Some s'" "curenv s' = Some e" "sched_inv s' xs"
    "sched_count s' = sched_count s - 1" "\<And>i. env_pri (envs s' i) = env_pri (envs s i)"
proof -
  let ?s1 = "s\<lparr>sched_count := sched_count s - 1\<rparr>"
  have r: "env_status (envs ?s1 e) = ENV_RUNNABLE" using inv c by (simp add: sched_inv_def)
  obtain s' where s': "env_run e ?s1 = Some s'" "curenv s' = Some e"
      "env_sched_list s' = env_sched_list ?s1" "sched_count s' = sched_count ?s1"
      "\<And>i. env_status (envs s' i) = env_status (envs ?s1 i)"
      "\<And>i. env_pri (envs s' i) = env_pri (envs ?s1 i)"
    using env_run_runnable [OF r] by blast
  have "schedule False s = Some s'"
    using c n r s'(1) by (simp add: schedule_def runnable_def)
  moreover have "sched_inv s' xs" using inv s' by (simp add: sched_inv_def)
  ultimately show thesis using that s' by simp
qed

lemma schedule_switch:
  assumes inv: "sched_inv s xs" and y: "yield \<or> sint (sched_count s - 1) \<le> 0"
    and c: "curenv s = Some e" "e \<in> set xs" and ys: "remove1 e xs @ [e] = z # ys"
  obtains s' where "schedule yield s = Some s'" "curenv s' = Some z" "sched_inv s' (z # ys)"
    "sched_count s' = env_pri (envs s z)" "\<And>i. env_pri (envs s' i) = env_pri (envs s i)"
proof -
  let ?s1 = "s\<lparr>sched_count := sched_count s - 1\<rparr>"
  have r: "env_status (envs ?s1 e) = ENV_RUNNABLE" using inv c by (simp add: sched_inv_def)
  obtain q1 q2 where q: "TAILQ_REMOVE e (env_sched_list s) = Some q1"
      "TAILQ_INSERT_TAIL e q1 = Some q2" "tq_rep q2 (z # ys)"
    using tailqs.move_to_tail [OF sched_inv_rep [OF inv] c(2)] ys by auto
  have sub: "set (z # ys) = set xs"
    using inv c(2) tailqs.rep_distinct [OF sched_inv_rep [OF inv]] ys [symmetric] by auto
  let ?s2 = "?s1\<lparr>env_sched_list := q2\<rparr>"
  let ?s3 = "?s2\<lparr>sched_count := env_pri (envs ?s2 z)\<rparr>"
  have rz: "env_status (envs ?s3 z) = ENV_RUNNABLE" using inv sub by (auto simp: sched_inv_def)
  obtain s' where s': "env_run z ?s3 = Some s'" "curenv s' = Some z"
      "env_sched_list s' = env_sched_list ?s3" "sched_count s' = sched_count ?s3"
      "\<And>i. env_status (envs s' i) = env_status (envs ?s3 i)"
      "\<And>i. env_pri (envs s' i) = env_pri (envs ?s3 i)"
    using env_run_runnable [OF rz] by blast
  have "schedule yield s = Some s'"
    using c y r q s'(1) tq_rep_empty [OF q(3)] tailqs.rep_first [OF q(3)]
    by (simp add: schedule_def runnable_def)
  moreover have "sched_inv s' (z # ys)" using inv s' q(3) sub by (auto simp: sched_inv_def)
  ultimately show thesis using that s' by simp
qed

lemma schedule_idle:
  assumes inv: "sched_inv s (z # ys)" and c: "\<not> runnable s (curenv s)"
  obtains s' where "schedule yield s = Some s'" "curenv s' = Some z" "sched_inv s' (z # ys)"
    "sched_count s' = env_pri (envs s z)"
    "env_run z (s\<lparr>sched_count := env_pri (envs s z)\<rparr>) = Some s'"
proof -
  let ?s1 = "s\<lparr>sched_count := sched_count s - 1\<rparr>"
  let ?s3 = "?s1\<lparr>sched_count := env_pri (envs ?s1 z)\<rparr>"
  have rz: "env_status (envs ?s3 z) = ENV_RUNNABLE" using inv by (auto simp: sched_inv_def)
  have rep: "tq_rep (env_sched_list s) (z # ys)" using inv by (rule sched_inv_rep)
  obtain s' where s': "env_run z ?s3 = Some s'" "curenv s' = Some z"
      "env_sched_list s' = env_sched_list ?s3" "sched_count s' = sched_count ?s3"
      "\<And>i. env_status (envs s' i) = env_status (envs ?s3 i)"
      "\<And>i. env_pri (envs s' i) = env_pri (envs ?s3 i)"
    using env_run_runnable [OF rz] by blast
  have nr: "\<not> runnable ?s1 (curenv s)" using c by (simp add: runnable_def split: option.splits)
  have "schedule yield s = Some s'"
    using nr s'(1) tq_rep_empty [OF rep] tailqs.rep_first [OF rep]
    by (cases "curenv s") (simp_all add: schedule_def)
  moreover have "sched_inv s' (z # ys)" using inv s' by (auto simp: sched_inv_def)
  ultimately show thesis using that [of s'] s' by simp
qed

lemma schedule_no_process:
  assumes inv: "sched_inv s []"
  shows "schedule yield s = None"
proof -
  have "\<not> runnable s (curenv s)" using inv by (simp add: sched_inv_def runnable_def split: option.split)
  then have "\<not> runnable (s\<lparr>sched_count := sched_count s - 1\<rparr>) (curenv s)"
    by (simp add: runnable_def split: option.splits)
  then show ?thesis
    using tq_rep_empty [of "env_sched_list s" "[]"] inv
    by (cases "curenv s") (simp_all add: schedule_def sched_inv_def)
qed

section \<open>Sequences of scheduler calls\<close>

text \<open>\<open>n\<close> calls in a row, by timer interrupts (\<open>False\<close>) or by \<^verbatim>\<open>sys_yield\<close> (\<open>True\<close>).\<close>

definition schedules :: "bool \<Rightarrow> nat \<Rightarrow> kstate \<Rightarrow> kstate option" where
  "schedules yield n = foldo (\<lambda>_. schedule yield) [0..<n]"

lemma schedules_0 [simp]: "schedules yield 0 s = Some s"
  by (simp add: schedules_def)

lemma foldo_single: "foldo f [x] = f x"
proof
  fix s
  show "foldo f [x] s = f x s" by (cases "f x s") simp_all
qed

lemma schedules_Suc: "schedules yield (Suc n) s = Option.bind (schedules yield n s) (schedule yield)"
  by (simp add: schedules_def foldo_append foldo_single del: foldo.simps)

lemma rotate1_hd: "xs \<noteq> [] \<Longrightarrow> distinct xs \<Longrightarrow> remove1 (hd xs) xs @ [hd xs] = rotate1 xs"
  by (cases xs) simp_all

lemma yields_rotate:
  assumes "sched_inv s xs" and "xs \<noteq> []" and "curenv s = Some (hd xs)"
  shows "\<exists>s'. schedules True n s = Some s' \<and> sched_inv s' (rotate n xs)
    \<and> curenv s' = Some (hd (rotate n xs))"
proof (induction n)
  case 0
  then show ?case using assms by simp
next
  case (Suc n)
  then obtain s1 where s1: "schedules True n s = Some s1" "sched_inv s1 (rotate n xs)"
      "curenv s1 = Some (hd (rotate n xs))" by blast
  let ?ys = "rotate n xs"
  have ne: "?ys \<noteq> []" using assms(2) by simp
  have d: "distinct ?ys" using tailqs.rep_distinct [OF sched_inv_rep [OF s1(2)]] .
  have rot: "remove1 (hd ?ys) ?ys @ [hd ?ys] = rotate (Suc n) xs" using rotate1_hd [OF ne d] by simp
  then obtain z zs where z: "rotate (Suc n) xs = z # zs" using assms(2) by (cases "rotate (Suc n) xs") auto
  have "hd ?ys \<in> set ?ys" using ne by (rule hd_in_set)
  from schedule_switch [OF s1(2) disjI1 [OF TrueI] s1(3) this rot [unfolded z]]
  obtain s2 where "schedule True s1 = Some s2" "curenv s2 = Some z" "sched_inv s2 (z # zs)"
    by auto
  then show ?case using s1(1) z by (simp add: schedules_Suc)
qed

lemma sint_minus: "0 < sint w \<Longrightarrow> sint (w - 1) = sint w - 1" for w :: u32
proof -
  assume w: "0 < sint w"
  have "sint w < 2 ^ 31" using sint_lt [of w] by simp
  then have "signed_take_bit 31 (sint w - 1) = sint w - 1"
    using w by (intro signed_take_bit_int_eq_self) auto
  then show ?thesis by (simp add: sint_word_ariths)
qed

lemma ticks_keep:
  assumes "sched_inv s xs" and "curenv s = Some e" and "e \<in> set xs" and "int n < sint (sched_count s)"
  shows "\<exists>s'. schedules False n s = Some s' \<and> sched_inv s' xs \<and> curenv s' = Some e
    \<and> sint (sched_count s') = sint (sched_count s) - int n
    \<and> (\<forall>i. env_pri (envs s' i) = env_pri (envs s i))"
  using assms(4)
proof (induction n)
  case 0
  then show ?case using assms by simp
next
  case (Suc n)
  then obtain s1 where s1: "schedules False n s = Some s1" "sched_inv s1 xs" "curenv s1 = Some e"
      "sint (sched_count s1) = sint (sched_count s) - int n"
      "\<forall>i. env_pri (envs s1 i) = env_pri (envs s i)" by auto
  have c: "sint (sched_count s1 - 1) = sint (sched_count s) - int (Suc n)"
    using sint_minus [of "sched_count s1"] s1(4) Suc.prems by simp
  then have "0 < sint (sched_count s1 - 1)" using Suc.prems by simp
  from schedule_keep [OF s1(2,3) assms(3) this] obtain s2 where
    "schedule False s1 = Some s2" "curenv s2 = Some e" "sched_inv s2 xs"
    "sched_count s2 = sched_count s1 - 1" "\<And>i. env_pri (envs s2 i) = env_pri (envs s1 i)" by blast
  then show ?case using s1 c by (simp add: schedules_Suc)
qed

section \<open>Properties\<close>

text \<open>C8: \<^verbatim>\<open>sys_yield\<close> is fair: when every runnable process gives up the CPU in turn, the
  queue rotates and after \<open>n\<close> yields the process at position \<open>n\<close> modulo the queue length runs,
  so all runnable processes run within one round.\<close>

theorem yield_round_robin:
  assumes "sched_inv s xs" and "xs \<noteq> []" and "curenv s = Some (hd xs)"
  shows "\<exists>s'. schedules True n s = Some s' \<and> sched_inv s' (rotate n xs)
    \<and> curenv s' = Some (xs ! (n mod length xs))"
  using yields_rotate [OF assms, of n] assms(2) by (auto simp: hd_rotate_conv_nth)

text \<open>A process with \<open>count\<close> time slices left keeps the CPU for exactly \<open>count - 1\<close> timer
  ticks; the next tick moves it to the end of the queue and gives the process behind it as many
  slices as its priority.\<close>

theorem time_slices:
  assumes "sched_inv s (e # z # ys)" and "curenv s = Some e" and "sint (sched_count s) = int (Suc n)"
  shows "\<exists>s1 s2. schedules False n s = Some s1 \<and> curenv s1 = Some e \<and> sched_inv s1 (e # z # ys)
    \<and> schedules False (Suc n) s = Some s2 \<and> curenv s2 = Some z \<and> sched_inv s2 (z # ys @ [e])
    \<and> sched_count s2 = env_pri (envs s z)"
proof -
  from ticks_keep [OF assms(1,2), of n] assms(3) obtain s1 where
    s1: "schedules False n s = Some s1" "sched_inv s1 (e # z # ys)" "curenv s1 = Some e"
      "sint (sched_count s1) = 1" "\<forall>i. env_pri (envs s1 i) = env_pri (envs s i)" by auto
  have c: "sint (sched_count s1 - 1) \<le> 0" using sint_minus [of "sched_count s1"] s1(4) by simp
  have "e \<noteq> z" using tailqs.rep_distinct [OF sched_inv_rep [OF assms(1)]] by auto
  then have r: "remove1 e (e # z # ys) @ [e] = z # ys @ [e]" by simp
  from schedule_switch [OF s1(2) disjI2 [OF c] s1(3) _ r, of False] obtain s2 where
    "schedule False s1 = Some s2" "curenv s2 = Some z" "sched_inv s2 (z # ys @ [e])"
    "sched_count s2 = env_pri (envs s1 z)" by auto
  then show ?thesis using s1 by (simp add: schedules_Suc)
qed

text \<open>a yielding process is scheduled again only when no other process is runnable, and
  with no runnable process at all the scheduler halts the machine.\<close>

theorem schedule_yield_other:
  assumes "sched_inv s xs"
  shows "(xs = [] \<longrightarrow> schedule yield s = None)
    \<and> (curenv s = Some e \<and> e \<in> set xs \<and> 1 < length xs \<longrightarrow>
      (\<exists>s' z. schedule True s = Some s' \<and> curenv s' = Some z \<and> z \<in> set xs \<and> z \<noteq> e))"
proof (intro conjI impI)
  show "schedule yield s = None" if "xs = []" using schedule_no_process assms that by simp
next
  assume "curenv s = Some e \<and> e \<in> set xs \<and> 1 < length xs"
  then have c: "curenv s = Some e" "e \<in> set xs" "1 < length xs" by simp_all
  have d: "distinct xs" using tailqs.rep_distinct [OF sched_inv_rep [OF assms]] .
  have "length (remove1 e xs) = length xs - 1" using c(2) by (simp add: length_remove1)
  then have "remove1 e xs \<noteq> []" using c(3) by auto
  then obtain z zs where z: "remove1 e xs = z # zs" by (cases "remove1 e xs") auto
  then have "z \<in> set (remove1 e xs)" by simp
  then have "z \<in> set xs" "z \<noteq> e" by (simp_all add: set_remove1_eq [OF d])
  moreover have "remove1 e xs @ [e] = z # (zs @ [e])" using z by simp
  ultimately show "\<exists>s' z. schedule True s = Some s' \<and> curenv s' = Some z \<and> z \<in> set xs \<and> z \<noteq> e"
    using schedule_switch [OF assms disjI1 [OF TrueI] c(1,2)] by metis
qed

text \<open>\<^verbatim>\<open>env_run\<close> saves the trap frame of the interrupted process, loads the saved frame,
  page directory and ASID of the new one and counts the run; running the current process
  again resumes it with the frame it was interrupted with.\<close>

theorem env_run_context:
  assumes "env_run e s = Some s'"
  shows "curenv s' = Some e \<and> cur_pgdir s' = env_pgdir (envs s e)
    \<and> cpu_entryhi s' = push_bit 6 (env_asid (envs s e))
    \<and> cpu_tf s' = (if curenv s = Some e then ktf s else env_tf (envs s e))
    \<and> env_runs (envs s' e) = env_runs (envs s e) + 1
    \<and> (\<forall>c. curenv s = Some c \<longrightarrow> env_tf (envs s' c) = ktf s)
    \<and> (\<forall>i. curenv s \<noteq> Some i \<longrightarrow> env_tf (envs s' i) = env_tf (envs s i))"
  using assms
  by (cases "curenv s") (auto simp: env_run_def env_pop_tf_def Let_def split: if_splits)

text \<open>Two runnable processes.\<close>

definition env_two :: env where
  "env_two = env_one\<lparr>env_id := 0x1001, env_asid := 1, env_parent_id := 0x800, env_pri := 3\<rparr>"

definition ktwo :: kstate where
  "ktwo = kone\<lparr>envs := (envs kone)(1 := env_two), env_sched_list := TAILQ_INSERT_HEAD 0 (TAILQ_INSERT_HEAD 1
      (TAILQ_INIT one_sched)), sched_count := 2\<rparr>"

lemma ktwo_simps:
  "curenv ktwo = Some 0" "sched_count ktwo = 2"
  "envs ktwo = (\<lambda>_. free_env)(0 := env_one, 1 := env_two)"
  by (simp_all add: ktwo_def kone_simps)

lemma ktwo_sched: "sched_inv ktwo [0, 1]"
proof -
  have "tq_rep (env_sched_list ktwo) [0, 1]"
    by (simp add: ktwo_def) (intro tq_rep_insert_head tq_rep_init; simp)
  then show ?thesis
    by (auto simp: sched_inv_def ktwo_simps free_env_def env_one_def env_two_def)
qed

lemma yield_round_robin_witness:
  "\<exists>s'. schedules True 3 ktwo = Some s' \<and> curenv s' = Some 1"
proof -
  have "[0, 1 :: nat] ! (3 mod length [0, 1 :: nat]) = 1" by code_simp
  then show ?thesis
    using yield_round_robin [OF ktwo_sched, of 3] ktwo_simps(1) by (metis list.sel(1) list.distinct(1))
qed

lemma time_slices_witness:
  "\<exists>s2. schedules False 2 ktwo = Some s2 \<and> curenv s2 = Some 1 \<and> sched_count s2 = 3"
proof -
  have "sint (sched_count ktwo) = int (Suc 1)" by (simp add: ktwo_simps)
  from time_slices [OF ktwo_sched ktwo_simps(1) this] show ?thesis
    by (auto simp: ktwo_simps env_two_def numeral_2_eq_2)
qed

lemma schedule_yield_other_witness:
  "\<exists>s' z. schedule True ktwo = Some s' \<and> curenv s' = Some z \<and> z \<in> set [0, 1] \<and> z \<noteq> 0"
  using schedule_yield_other [OF ktwo_sched, of True 0] by (simp add: ktwo_simps)

lemma env_run_context_witness:
  "\<exists>s'. env_run 1 ktwo = Some s' \<and> curenv s' = Some 1 \<and> cpu_entryhi s' = push_bit 6 1"
proof -
  have "env_status (envs ktwo 1) = ENV_RUNNABLE" "env_asid (envs ktwo 1) = 1"
    by (simp_all add: ktwo_simps env_two_def env_one_def)
  then show ?thesis using env_run_context [of 1 ktwo] env_run_runnable [of ktwo 1] by metis
qed

end
