(* ===== verification/Tlbex.thy ===== *)
theory Tlbex
  imports Sched
begin

text \<open>
  The TLB exceptions of \<^verbatim>\<open>kern/tlbex.c\<close>: refill with passive allocation, and the delivery of
  TLB Mod to the user handler. Below them are the accesses of the kernel to addresses that it
  got from user code: a user address goes through the refill handler and the page table, an
  address in KSEG0 is physical memory, an unaligned one is an exception that halts the kernel.
  A store to a page without \<^verbatim>\<open>PTE_D\<close> raises TLB Mod in kernel mode; that nested exception is
  outside the model and \<open>None\<close> as well.
\<close>

section \<open>Refill\<close>

definition passive_alloc :: "u32 \<Rightarrow> nat \<Rightarrow> u32 \<Rightarrow> 'z pm_state_scheme \<Rightarrow> 'z pm_state_scheme option" where
  "passive_alloc va pgdir asid s =
     (if va < UTEMP then None
      else if USTACKTOP \<le> va \<and> va < USTACKTOP + BY2PG then None
      else if UENVS \<le> va \<and> va < UPAGES then None
      else if UPAGES \<le> va \<and> va < UVPT then None
      else if ULIM \<le> va then None
      else do {
        (r, s1) \<leftarrow> page_alloc s;
        case r of
          Inl _ \<Rightarrow> None
        | Inr p \<Rightarrow> do {
            (r2, s2) \<leftarrow> page_insert pgdir asid p (PTE_ADDR va) PTE_D s1;
            case r2 of Inl _ \<Rightarrow> None | Inr _ \<Rightarrow> Some s2
          }
      })"

partial_function (option) do_tlb_refill ::
  "u32 \<Rightarrow> u32 \<Rightarrow> 'z pm_state_scheme \<Rightarrow> (u32 \<times> 'z pm_state_scheme) option" where
  "do_tlb_refill va asid s =
     Option.bind (cur_pgdir s) (\<lambda>d.
       Option.bind (page_lookup d va s) (\<lambda>l.
         case l of
           Some (_, pte) \<Rightarrow> Some (pte_at pte s, s)
         | None \<Rightarrow> Option.bind (passive_alloc va d asid s) (\<lambda>s1. do_tlb_refill va asid s1)))"

text \<open>\<^verbatim>\<open>do_tlb_refill\<close> of \<^verbatim>\<open>kern/tlb_asm.S\<close> around it: the ASID comes from EntryHi and the
  entry is written to the TLB.\<close>

definition tlb_refill :: "u32 \<Rightarrow> kstate \<Rightarrow> (u32 \<times> kstate) option" where
  "tlb_refill va s = do {
     let asid = drop_bit 6 (cpu_entryhi s) AND 0x3F;
     (e, s1) \<leftarrow> do_tlb_refill va asid s;
     Some (e, s1\<lparr>tlb := (tlb s1)(PTE_ADDR va OR push_bit 6 asid \<mapsto> e)\<rparr>)
   }"

section \<open>Accesses of the kernel to user addresses\<close>

text \<open>The page and word an address refers to, and whether it may be stored to.\<close>

definition kaddr :: "u32 \<Rightarrow> kstate \<Rightarrow> ((nat \<times> nat \<times> bool) \<times> kstate) option" where
  "kaddr va s =
     (if va < 0x80000000 then do {
        (e, s1) \<leftarrow> tlb_refill va s;
        Some ((PPN e, VPO va div 4, e AND PTE_D \<noteq> 0), s1)
      }
      else if va < 0xA0000000 \<and> PPN (va - ULIM) < npage s
      then Some ((PPN (va - ULIM), VPO va div 4, True), s)
      else None)"

definition load_word :: "u32 \<Rightarrow> kstate \<Rightarrow> (u32 \<times> kstate) option" where
  "load_word va s =
     (if va AND 3 \<noteq> 0 then None
      else do { ((p, w, _), s1) \<leftarrow> kaddr va s; Some (pmem s1 p w, s1) })"

definition store_word :: "u32 \<Rightarrow> u32 \<Rightarrow> kstate \<Rightarrow> kstate option" where
  "store_word va v s =
     (if va AND 3 \<noteq> 0 then None
      else do {
        ((p, w, d), s1) \<leftarrow> kaddr va s;
        if d then Some (set_pte (p, w) v s1) else None
      })"

definition load_byte :: "u32 \<Rightarrow> kstate \<Rightarrow> (u8 \<times> kstate) option" where
  "load_byte va s = do {
     ((p, w, _), s1) \<leftarrow> kaddr va s;
     Some (get_byte (pmem s1 p w) (VPO va mod 4), s1)
   }"

definition store_byte :: "u32 \<Rightarrow> u8 \<Rightarrow> kstate \<Rightarrow> kstate option" where
  "store_byte va b s = do {
     ((p, w, d), s1) \<leftarrow> kaddr va s;
     if d then Some (set_pte (p, w) (set_byte (pmem s1 p w) (VPO va mod 4) b) s1) else None
   }"

fun load_bytes :: "u32 \<Rightarrow> nat \<Rightarrow> kstate \<Rightarrow> (u8 list \<times> kstate) option" where
  "load_bytes va 0 s = Some ([], s)"
| "load_bytes va (Suc n) s = do {
     (b, s1) \<leftarrow> load_byte va s;
     (bs, s2) \<leftarrow> load_bytes (va + 1) n s1;
     Some (b # bs, s2)
   }"

fun store_bytes :: "u32 \<Rightarrow> u8 list \<Rightarrow> kstate \<Rightarrow> kstate option" where
  "store_bytes va [] s = Some s"
| "store_bytes va (b # bs) s = Option.bind (store_byte va b s) (store_bytes (va + 1) bs)"

fun load_words :: "u32 \<Rightarrow> nat \<Rightarrow> kstate \<Rightarrow> (u32 list \<times> kstate) option" where
  "load_words va 0 s = Some ([], s)"
| "load_words va (Suc n) s = do {
     (b, s1) \<leftarrow> load_word va s;
     (bs, s2) \<leftarrow> load_words (va + 4) n s1;
     Some (b # bs, s2)
   }"

fun store_words :: "u32 \<Rightarrow> u32 list \<Rightarrow> kstate \<Rightarrow> kstate option" where
  "store_words va [] s = Some s"
| "store_words va (w # ws) s = Option.bind (store_word va w s) (store_words (va + 4) ws)"

section \<open>TLB Mod\<close>

text \<open>\<^verbatim>\<open>struct Trapframe\<close> in memory: 38 words, in the order of its declaration.\<close>

definition tf_words :: "trapframe \<Rightarrow> u32 list" where
  "tf_words tf = map (regs tf) [0..<32]
     @ [cp0_status tf, tf_hi tf, tf_lo tf, cp0_badvaddr tf, cp0_cause tf, cp0_epc tf]"

definition words_tf :: "u32 list \<Rightarrow> trapframe" where
  "words_tf ws = \<lparr>regs = (\<lambda>i. if i < 32 then ws ! i else 0), cp0_status = ws ! 32, tf_hi = ws ! 33,
     tf_lo = ws ! 34, cp0_badvaddr = ws ! 35, cp0_cause = ws ! 36, cp0_epc = ws ! 37\<rparr>"

definition TF_SIZE :: u32 where "TF_SIZE = 152"

definition set_reg :: "nat \<Rightarrow> u32 \<Rightarrow> trapframe \<Rightarrow> trapframe" where
  "set_reg i v tf = tf\<lparr>regs := (regs tf)(i := v)\<rparr>"

definition do_tlb_mod :: "kstate \<Rightarrow> kstate option" where
  "do_tlb_mod s = do {
     let tf = ktf s;
     let tmp_tf = tf;
     let tf1 = (if regs tf 29 < USTACKTOP \<or> UXSTACKTOP \<le> regs tf 29
                then set_reg 29 UXSTACKTOP tf else tf);
     let tf2 = set_reg 29 (regs tf1 29 - TF_SIZE) tf1;
     s1 \<leftarrow> store_words (regs tf2 29) (tf_words tmp_tf) (s\<lparr>ktf := tf2\<rparr>);
     c \<leftarrow> curenv s1;
     if env_user_tlb_mod_entry (envs s1 c) \<noteq> 0 then do {
       let tf3 = set_reg 4 (regs tf2 29) tf2;
       let tf4 = set_reg 29 (regs tf3 29 - 4) tf3;
       Some (s1\<lparr>ktf := tf4\<lparr>cp0_epc := env_user_tlb_mod_entry (envs s1 c)\<rparr>\<rparr>)
     }
     else None
   }"

section \<open>Passive allocation succeeds\<close>

lemma unat_PTE_ADDR: "unat (PTE_ADDR va) = unat va div 4096 * 4096"
proof -
  have "PTE_ADDR va = push_bit 12 (drop_bit 12 va)"
    by (rule bit_eqI) (auto simp: bit_PTE_ADDR bit_push_bit_iff bit_drop_bit_eq dest: bit_imp_le_length)
  also have "\<dots> = word_of_nat (unat va div 4096 * 4096)"
    by (simp add: push_bit_eq_mult drop_bit_eq_div word_arith_nat_div mult.commute)
  finally have "unat (PTE_ADDR va) = unat va div 4096 * 4096 mod 2 ^ 32"
    by (simp only: unat_of_nat) simp
  moreover have "unat va div 4096 * 4096 < 2 ^ 32"
    using unat_u32_less [of va] by (meson div_times_less_eq_dividend le_less_trans)
  ultimately show ?thesis by simp
qed

lemma vkey_PTE_ADDR [simp]: "vkey d (PTE_ADDR va) = vkey d va"
proof -
  have "unat va div 4096 * 4096 div 4194304 = unat va div 4194304"
  proof -
    have "unat va div 4096 * 4096 div 4194304 = unat va div 4096 div 1024"
      by (simp add: div_mult2_eq [of _ 4096 1024, simplified])
    then show ?thesis by (simp add: div_mult2_eq [symmetric])
  qed
  then show ?thesis by (simp add: vkey_def PDX_numeral_eq PTX_numeral_eq unat_PTE_ADDR)
qed

lemma PDX_PTE_ADDR [simp]: "PDX (PTE_ADDR va) = PDX va"
  using vkey_PTE_ADDR [of 0 va] by (simp add: vkey_def)

definition passive_ok :: "u32 \<Rightarrow> bool" where
  "passive_ok va \<longleftrightarrow> UTEMP \<le> va \<and> va < UENVS \<and> \<not> (USTACKTOP \<le> va \<and> va < USTACKTOP + BY2PG)"

lemma page_alloc_insert:
  fixes s :: "'z pm_state_scheme"
  assumes inv: "pm_inv s K ext (p # fl)" and k: "(d, PDX va) \<in> K" and perm: "perm < 4096"
    and mem: "tab s K (d, PDX va) \<noteq> None \<or> fl \<noteq> []"
  shows "\<exists>s1 s2 fl2. page_alloc s = Some (Inr p, s1) \<and> page_insert d asid p va perm s1 = Some (Inr (), s2)
    \<and> vmap s2 K = (vmap s K)(vkey d va \<mapsto> mk_pte p perm) \<and> pm_inv s2 K ext fl2 \<and> npage s2 = npage s"
proof -
  have fi: "free_inv s (p # fl)" using inv by (simp add: pm_inv_def)
  from page_alloc_cons [OF fi] obtain q where q: "lq_rep q fl"
    and al: "page_alloc s = Some (Inr p, zero_page p (s\<lparr>page_free_list := q\<rparr>))" by auto
  define s1 where "s1 = zero_page p (s\<lparr>page_free_list := q\<rparr>)"
  note a = pm_inv_page_alloc [OF inv q, folded s1_def]
  have "mappable s1 K fl p"
    using fi used_not_free [OF inv, of p] lists.rep_distinct [of "page_free_list s" "p # fl"] a(2)
    by (auto simp: mappable_def free_inv_def s1_def)
  from page_insert_refines [OF a(1) k disjI1 [OF this] perm, of asid] mem a(2,3)
  obtain s2 fl2 where "page_insert d asid p va perm s1 = Some (Inr (), s2)"
    "vmap s2 K = (vmap s K)(vkey d va \<mapsto> mk_pte p perm)" "pm_inv s2 K ext fl2" "npage s2 = npage s1"
    by auto
  then show ?thesis using al by (auto simp: s1_def)
qed

lemma passive_alloc_ok:
  fixes s :: "'z pm_state_scheme"
  assumes inv: "pm_inv s K ext (p # fl)" and k: "(d, PDX va) \<in> K" and va: "passive_ok va"
    and mem: "tab s K (d, PDX va) \<noteq> None \<or> fl \<noteq> []"
  shows "\<exists>s2 fl2. passive_alloc va d asid s = Some s2
    \<and> vmap s2 K = (vmap s K)(vkey d va \<mapsto> mk_pte p PTE_D) \<and> pm_inv s2 K ext fl2
    \<and> cur_pgdir s2 = cur_pgdir s \<and> pm_state.more s2 = pm_state.more s"
proof -
  have "PTE_D < 4096" by (simp add: PTE_D_def)
  from page_alloc_insert [OF inv, of d "PTE_ADDR va" PTE_D asid] k mem this obtain s1 s2 fl2 where
    r: "page_alloc s = Some (Inr p, s1)" "page_insert d asid p (PTE_ADDR va) PTE_D s1 = Some (Inr (), s2)"
      "vmap s2 K = (vmap s K)(vkey d va \<mapsto> mk_pte p PTE_D)" "pm_inv s2 K ext fl2"
    by auto
  have "va < UENVS \<Longrightarrow> va < ULIM \<and> \<not> UPAGES \<le> va"
    by (simp add: mmu_defs word_less_nat_alt word_le_nat_alt)
  then have "passive_alloc va d asid s = Some s2"
    using va r(1,2) by (auto simp: passive_alloc_def passive_ok_def)
  moreover have "cur_pgdir s2 = cur_pgdir s"
    using cur_page_alloc [OF r(1)] cur_page_insert [OF r(2)] by simp
  moreover have "pm_state.more s2 = pm_state.more s"
    using more_page_alloc [OF r(1)] more_page_insert [OF r(2)] by simp
  ultimately show ?thesis using r by blast
qed

lemma pte_at_lookup:
  assumes "vmap s K (vkey d va) = Some e"
  shows "pte_at (PPN (pte_at (d, PDX va) s), PTX va) s = e"
  using assms by (auto simp: vkey_def vmap_Some tab_Some)

lemma refill_mapped:
  fixes s :: "'z pm_state_scheme"
  assumes inv: "pm_inv s K ext fl" and d: "cur_pgdir s = Some d" and k: "(d, PDX va) \<in> K"
    and e: "vmap s K (vkey d va) = Some e"
  shows "do_tlb_refill va asid s = Some (e, s)"
  using page_lookup_vmap [of s K d va] inv k e d pte_at_lookup [OF e]
  by (subst do_tlb_refill.simps) (simp add: pm_inv_def)

section \<open>When there is no page\<close>

lemma passive_alloc_forbidden: "\<not> passive_ok va \<Longrightarrow> va < UVPT \<Longrightarrow> passive_alloc va d asid s = None"
  by (auto simp: passive_alloc_def passive_ok_def not_less not_le)

lemma passive_alloc_short:
  fixes s :: "'z pm_state_scheme"
  assumes inv: "pm_inv s K ext fl" and k: "(d, PDX va) \<in> K" and none: "tab s K (d, PDX va) = None \<or> fl = []"
    and short: "length fl \<le> 1"
  shows "passive_alloc va d asid s = None"
proof (cases fl)
  case Nil
  then have "page_alloc s = Some (Inl E_NO_MEM, s)"
    using page_alloc_empty [of s] inv by (simp add: pm_inv_def)
  then show ?thesis by (simp add: passive_alloc_def)
next
  case (Cons p fl')
  then have fl: "fl = [p]" and t: "tab s K (d, PDX va) = None" using short none by simp_all
  have fi: "free_inv s [p]" using inv by (simp add: fl pm_inv_def)
  obtain q where q: "page_alloc s = Some (Inr p, zero_page p (s\<lparr>page_free_list := q\<rparr>))" "lq_rep q []"
    using page_alloc_cons [OF fi] by blast
  note a = pm_inv_page_alloc [OF inv [unfolded fl] q(2)]
  have "page_insert d asid p (PTE_ADDR va) PTE_D (zero_page p (s\<lparr>page_free_list := q\<rparr>))
      = Some (Inl E_NO_MEM, tlb_invalidate asid (PTE_ADDR va) (zero_page p (s\<lparr>page_free_list := q\<rparr>)))"
    by (rule page_insert_nomem [OF a(1)]) (use k t in \<open>simp_all add: a(2)\<close>)
  then show ?thesis using q(1) by (simp add: passive_alloc_def)
qed

section \<open>Properties\<close>

text \<open>The address may be allocated, and there is a page for it and one for its page table if that is missing.\<close>

definition can_alloc :: "'z pm_state_scheme \<Rightarrow> (nat \<times> nat) set \<Rightarrow> nat \<Rightarrow> u32 \<Rightarrow> nat list \<Rightarrow> bool" where
  "can_alloc s K d va fl \<longleftrightarrow> passive_ok va \<and> (if tab s K (d, PDX va) = None then 2 \<le> length fl else 1 \<le> length fl)"

text \<open>C9: Every outcome of a TLB refill below \<^verbatim>\<open>UVPT\<close>. The entry of a mapped address is returned and nothing changes.
  For an unmapped address that may be allocated, with a free page and one more if its page table is missing, the
  loop ends: the first free page is mapped there with \<^verbatim>\<open>PTE_D\<close>, no other mapping changes and the new entry is
  returned. In every other case \<^verbatim>\<open>passive_alloc\<close> panics in the first round.\<close>

theorem tlb_refill_correct:
  fixes s :: "'z pm_state_scheme"
  assumes "pm_inv s K ext fl" and "cur_pgdir s = Some d" and "(d, PDX va) \<in> K" and "va < UVPT"
  shows "case vmap s K (vkey d va) of
      Some e \<Rightarrow> do_tlb_refill va asid s = Some (e, s)
    | None \<Rightarrow>
        if can_alloc s K d va fl then
          \<exists>s2 fl2. do_tlb_refill va asid s = Some (mk_pte (hd fl) PTE_D, s2)
            \<and> vmap s2 K = (vmap s K)(vkey d va \<mapsto> mk_pte (hd fl) PTE_D) \<and> pm_inv s2 K ext fl2
        else passive_alloc va d asid s = None \<and> do_tlb_refill va asid s = None"
proof (cases "vmap s K (vkey d va)")
  case (Some e)
  then show ?thesis using refill_mapped [OF assms(1-3)] by simp
next
  case None
  have look: "page_lookup d va s = Some None"
    using page_lookup_vmap [of s K d va] assms(1,3) None by (simp add: pm_inv_def)
  show ?thesis
  proof (cases "can_alloc s K d va fl")
    case True
    then obtain p fl' where fl: "fl = p # fl'" by (cases fl) (auto simp: can_alloc_def split: if_splits)
    have ok: "passive_ok va" "tab s K (d, PDX va) \<noteq> None \<or> fl' \<noteq> []"
      using True by (auto simp: can_alloc_def fl split: if_splits)
    obtain s2 fl2 where s2: "passive_alloc va d asid s = Some s2"
      "vmap s2 K = (vmap s K)(vkey d va \<mapsto> mk_pte p PTE_D)" "pm_inv s2 K ext fl2"
      "cur_pgdir s2 = cur_pgdir s"
      using passive_alloc_ok [OF assms(1) [unfolded fl] assms(3) ok, of asid] by blast
    have "do_tlb_refill va asid s = do_tlb_refill va asid s2"
      using assms(2) s2(1) look by (subst do_tlb_refill.simps) simp
    also have "\<dots> = Some (mk_pte p PTE_D, s2)"
      using refill_mapped [OF s2(3) _ assms(3)] s2(2,4) assms(2) by simp
    finally show ?thesis using None True s2 by (auto simp: fl)
  next
    case False
    have "passive_alloc va d asid s = None"
    proof (cases "passive_ok va")
      case True
      then have "tab s K (d, PDX va) = None \<or> fl = []" "length fl \<le> 1"
        using False by (auto simp: can_alloc_def not_le less_Suc_eq_le split: if_splits)
      then show ?thesis by (rule passive_alloc_short [OF assms(1,3)])
    qed (rule passive_alloc_forbidden [OF _ assms(4)])
    moreover from this have "do_tlb_refill va asid s = None"
      using assms(2) look by (subst do_tlb_refill.simps) simp
    ultimately show ?thesis using None False by simp
  qed
qed

text \<open>Allocation at an address that is not mapped.\<close>

lemma tlb_refill_correct_witness:
  "\<exists>s2. do_tlb_refill 0x400000 7 small = Some (mk_pte 2 PTE_D, s2)
     \<and> vmap s2 small_slots (vkey 1 0x400000) = Some (mk_pte 2 PTE_D)"
proof -
  have d: "cur_pgdir small = Some 1" by (simp add: small_def)
  have ok: "passive_ok 0x400000" "(0x400000 :: u32) < UVPT" by (simp_all add: passive_ok_def mmu_defs)
  have none: "vmap small small_slots (vkey 1 0x400000) = None" by (simp add: small_vmap)
  have can: "can_alloc small small_slots 1 0x400000 [2, 3]" using ok(1) by (simp add: can_alloc_def)
  show ?thesis
    using tlb_refill_correct [OF small_inv d small_slot ok(2), of 7]
    unfolding none option.case if_P [OF can] list.sel by fastforce
qed

end
