(* ===== verification/Syscall.thy ===== *)
theory Syscall
  imports Tlbex
begin

text \<open>
  The system calls of \<^verbatim>\<open>kern/syscall_all.c\<close> and their dispatch by \<^verbatim>\<open>do_syscall\<close>. A call that
  returns gives \<open>Ret\<close> with the error or the value that \<^verbatim>\<open>$v0\<close> gets; a call that ends in the
  scheduler gives \<open>Switched\<close>. Devices are not part of the kernel: the two accesses of the
  kernel to their registers, \<open>dev_write\<close> and \<open>dev_read\<close>, are arguments.
\<close>

datatype sysres = Ret "kerr + u32" | Switched

type_synonym 'a sysm = "kstate \<Rightarrow> ('a \<times> kstate) option"

section \<open>Address checks\<close>

definition is_illegal_va :: "u32 \<Rightarrow> bool" where
  "is_illegal_va va \<longleftrightarrow> va < UTEMP \<or> UTOP \<le> va"

definition is_illegal_va_range :: "u32 \<Rightarrow> u32 \<Rightarrow> bool" where
  "is_illegal_va_range va len \<longleftrightarrow>
     (if len = 0 then False else va + len < va \<or> va < UTEMP \<or> UTOP < va + len)"

definition in_range :: "u32 \<Rightarrow> u32 \<Rightarrow> u32 \<Rightarrow> u32 \<Rightarrow> bool" where
  "in_range base rng beg len \<longleftrightarrow> base \<le> beg \<and> beg + len \<le> base + rng"

definition is_illegal_dev_pa_range :: "u32 \<Rightarrow> u32 \<Rightarrow> bool" where
  "is_illegal_dev_pa_range pa len \<longleftrightarrow>
     (if len = 0 then False
      else if pa + len < pa then True
      else \<not> (in_range 0x10000000 0x20 pa len \<or> in_range 0x13000000 0x4200 pa len
              \<or> in_range 0x15000000 0x200 pa len))"

section \<open>Console\<close>

definition printcharc :: "u8 \<Rightarrow> kstate \<Rightarrow> kstate" where
  "printcharc ch s = s\<lparr>cons_out := cons_out s @ [ch]\<rparr>"

definition scancharc :: "kstate \<Rightarrow> u8 \<times> kstate" where
  "scancharc s = (cons_in s (cons_pos s), s\<lparr>cons_pos := Suc (cons_pos s)\<rparr>)"

text \<open>\<^verbatim>\<open>sys_putchar\<close> is \<^verbatim>\<open>void\<close>; the dispatcher still stores a value for it, here 0.\<close>

definition sys_putchar :: "u32 \<Rightarrow> (kerr + u32) sysm" where
  "sys_putchar c s = Some (Inr 0, printcharc (ucast c) s)"

fun print_bytes :: "u32 \<Rightarrow> nat \<Rightarrow> kstate \<Rightarrow> kstate option" where
  "print_bytes s0 0 s = Some s"
| "print_bytes s0 (Suc n) s = do {
     (b, s1) \<leftarrow> load_byte s0 s;
     print_bytes (s0 + 1) n (printcharc b s1)
   }"

definition sys_print_cons :: "u32 \<Rightarrow> u32 \<Rightarrow> (kerr + u32) sysm" where
  "sys_print_cons p num s =
     (if UTOP < p + num \<or> UTOP \<le> p \<or> p + num < p then Some (Inl E_INVAL, s)
      else do { s1 \<leftarrow> print_bytes p (unat num) s; Some (Inr 0, s1) })"

text \<open>The kernel waits for a character, and never returns if none comes.\<close>

partial_function (option) sys_cgetc :: "kstate \<Rightarrow> ((kerr + u32) \<times> kstate) option" where
  "sys_cgetc s =
     (case scancharc s of
        (ch, s1) \<Rightarrow> if ch = 0 then sys_cgetc s1 else Some (Inr (scast ch), s1))"

section \<open>Processes\<close>

definition sys_getenvid :: "(kerr + u32) sysm" where
  "sys_getenvid s = do { c \<leftarrow> curenv s; Some (Inr (env_id (envs s c)), s) }"

definition sys_yield :: "sysres sysm" where
  "sys_yield s = do { s1 \<leftarrow> schedule True s; Some (Switched, s1) }"

text \<open>\<^verbatim>\<open>try(envid2env(...))\<close> followed by a use of the process: null \<^verbatim>\<open>curenv\<close> faults.\<close>

definition with_env ::
  "u32 \<Rightarrow> bool \<Rightarrow> (nat \<Rightarrow> kstate \<Rightarrow> ((kerr + 'a) \<times> kstate) option)
     \<Rightarrow> kstate \<Rightarrow> ((kerr + 'a) \<times> kstate) option" where
  "with_env envid checkperm f s = do {
     r \<leftarrow> envid2env envid checkperm s;
     case r of
       Inl e \<Rightarrow> Some (Inl e, s)
     | Inr penv \<Rightarrow> do { e \<leftarrow> penv; f e s }
   }"

definition sys_env_destroy :: "u32 \<Rightarrow> sysres sysm" where
  "sys_env_destroy envid s = do {
     r \<leftarrow> envid2env envid True s;
     case r of
       Inl err \<Rightarrow> Some (Ret (Inl err), s)
     | Inr penv \<Rightarrow> do {
         e \<leftarrow> penv;
         (back, s1) \<leftarrow> env_destroy e s;
         Some (if back then Ret (Inr 0) else Switched, s1)
       }
   }"

definition sys_set_tlb_mod_entry :: "u32 \<Rightarrow> u32 \<Rightarrow> (kerr + u32) sysm" where
  "sys_set_tlb_mod_entry envid func =
     with_env envid True (\<lambda>e s. Some (Inr 0, upd_env e (env_user_tlb_mod_entry_update (\<lambda>_. func)) s))"

text \<open>The child's status is set after the copy of the frame, and the value is its identifier.\<close>

definition sys_exofork :: "(kerr + u32) sysm" where
  "sys_exofork s = do {
     c \<leftarrow> curenv s;
     (r, s1) \<leftarrow> env_alloc (env_id (envs s c)) s;
     case r of
       Inl err \<Rightarrow> Some (Inl err, s1)
     | Inr e \<Rightarrow> do {
         let s2 = upd_env e (env_tf_update (\<lambda>_. ktf s1)) s1;
         let s3 = upd_env e (env_tf_update (set_reg 2 0)) s2;
         let s4 = upd_env e (env_status_update (\<lambda>_. ENV_NOT_RUNNABLE)) s3;
         let s5 = upd_env e (env_pri_update (\<lambda>_. env_pri (envs s4 c))) s4;
         Some (Inr (env_id (envs s5 e)), s5)
       }
   }"

fun status_of :: "env_state \<Rightarrow> u32" where
  "status_of ENV_FREE = 0"
| "status_of ENV_RUNNABLE = 1"
| "status_of ENV_NOT_RUNNABLE = 2"

definition sys_set_env_status :: "u32 \<Rightarrow> u32 \<Rightarrow> (kerr + u32) sysm" where
  "sys_set_env_status envid status s =
     (if \<not> (status = status_of ENV_RUNNABLE \<or> status = status_of ENV_NOT_RUNNABLE)
      then Some (Inl E_INVAL, s)
      else with_env envid True (\<lambda>e s. do {
        q \<leftarrow> (if status = status_of ENV_RUNNABLE then TAILQ_INSERT_TAIL e (env_sched_list s)
              else TAILQ_REMOVE e (env_sched_list s));
        let s1 = s\<lparr>env_sched_list := q\<rparr>;
        Some (Inr 0, upd_env e (env_status_update (\<lambda>_.
          if status = status_of ENV_RUNNABLE then ENV_RUNNABLE else ENV_NOT_RUNNABLE)) s1)
      }) s)"

definition sys_set_trapframe :: "u32 \<Rightarrow> u32 \<Rightarrow> (kerr + u32) sysm" where
  "sys_set_trapframe envid tf s =
     (if is_illegal_va_range tf TF_SIZE then Some (Inl E_INVAL, s)
      else with_env envid True (\<lambda>e s. do {
        (ws, s1) \<leftarrow> load_words tf 38 s;
        if curenv s1 = Some e then do {
          let s2 = s1\<lparr>ktf := words_tf ws\<rparr>;
          (v, s3) \<leftarrow> load_word (tf + 8) s2;
          Some (Inr v, s3)
        }
        else Some (Inr 0, upd_env e (env_tf_update (\<lambda>_. words_tf ws)) s1)
      }) s)"

text \<open>\<^verbatim>\<open>panic\<close> halts the machine.\<close>

definition sys_panic :: "u32 \<Rightarrow> (kerr + u32) sysm" where
  "sys_panic msg s = None"

section \<open>Memory\<close>

definition insert_ret :: "((kerr + unit) \<times> kstate) option \<Rightarrow> ((kerr + u32) \<times> kstate) option" where
  "insert_ret r = map_option (map_prod (map_sum id (\<lambda>_. 0)) id) r"

definition sys_mem_alloc :: "u32 \<Rightarrow> u32 \<Rightarrow> u32 \<Rightarrow> (kerr + u32) sysm" where
  "sys_mem_alloc envid va perm s =
     (if is_illegal_va va then Some (Inl E_INVAL, s)
      else with_env envid True (\<lambda>e s. do {
        (r, s1) \<leftarrow> page_alloc s;
        case r of
          Inl err \<Rightarrow> Some (Inl err, s1)
        | Inr pp \<Rightarrow> do {
            pgdir \<leftarrow> env_pgdir (envs s1 e);
            insert_ret (page_insert pgdir (env_asid (envs s1 e)) pp va perm s1)
          }
      }) s)"

definition sys_mem_map :: "u32 \<Rightarrow> u32 \<Rightarrow> u32 \<Rightarrow> u32 \<Rightarrow> u32 \<Rightarrow> (kerr + u32) sysm" where
  "sys_mem_map srcid srcva dstid dstva perm s =
     (if is_illegal_va srcva \<or> is_illegal_va dstva then Some (Inl E_INVAL, s)
      else with_env srcid True (\<lambda>srcenv. with_env dstid True (\<lambda>dstenv s. do {
        d1 \<leftarrow> env_pgdir (envs s srcenv);
        l \<leftarrow> page_lookup d1 srcva s;
        case l of
          None \<Rightarrow> Some (Inl E_INVAL, s)
        | Some (pp, _) \<Rightarrow> do {
            d2 \<leftarrow> env_pgdir (envs s dstenv);
            insert_ret (page_insert d2 (env_asid (envs s dstenv)) pp dstva perm s)
          }
      })) s)"

definition sys_mem_unmap :: "u32 \<Rightarrow> u32 \<Rightarrow> (kerr + u32) sysm" where
  "sys_mem_unmap envid va s =
     (if is_illegal_va va then Some (Inl E_INVAL, s)
      else with_env envid True (\<lambda>e s. do {
        d \<leftarrow> env_pgdir (envs s e);
        s1 \<leftarrow> page_remove d (env_asid (envs s e)) va s;
        Some (Inr 0, s1)
      }) s)"

section \<open>Messages\<close>

definition sys_ipc_recv :: "u32 \<Rightarrow> sysres sysm" where
  "sys_ipc_recv dstva s =
     (if dstva \<noteq> 0 \<and> is_illegal_va dstva then Some (Ret (Inl E_INVAL), s)
      else do {
        c \<leftarrow> curenv s;
        let s1 = upd_env c (\<lambda>v. v\<lparr>env_ipc_recving := 1, env_ipc_dstva := dstva,
                                  env_status := ENV_NOT_RUNNABLE\<rparr>) s;
        q \<leftarrow> TAILQ_REMOVE c (env_sched_list s1);
        let s2 = s1\<lparr>env_sched_list := q\<rparr>;
        let s3 = s2\<lparr>ktf := set_reg 2 0 (ktf s2)\<rparr>;
        s4 \<leftarrow> schedule True s3;
        Some (Switched, s4)
      })"

definition sys_ipc_try_send :: "u32 \<Rightarrow> u32 \<Rightarrow> u32 \<Rightarrow> u32 \<Rightarrow> (kerr + u32) sysm" where
  "sys_ipc_try_send envid val srcva perm s =
     (if srcva \<noteq> 0 \<and> is_illegal_va srcva then Some (Inl E_INVAL, s)
      else with_env envid False (\<lambda>e s.
        if env_ipc_recving (envs s e) = 0 then Some (Inl E_IPC_NOT_RECV, s)
        else do {
          c \<leftarrow> curenv s;
          let s1 = upd_env e (\<lambda>v. v\<lparr>env_ipc_value := val, env_ipc_from := env_id (envs s c),
                                    env_ipc_perm := PTE_V OR perm, env_ipc_recving := 0,
                                    env_status := ENV_RUNNABLE\<rparr>) s;
          q \<leftarrow> TAILQ_INSERT_TAIL e (env_sched_list s1);
          let s2 = s1\<lparr>env_sched_list := q\<rparr>;
          if srcva \<noteq> 0 then do {
            d \<leftarrow> env_pgdir (envs s2 c);
            l \<leftarrow> page_lookup d srcva s2;
            case l of
              None \<Rightarrow> Some (Inl E_INVAL, s2)
            | Some (p, _) \<Rightarrow> do {
                d2 \<leftarrow> env_pgdir (envs s2 e);
                insert_ret (page_insert d2 (env_asid (envs s2 e)) p
                  (env_ipc_dstva (envs s2 e)) perm s2)
              }
          }
          else Some (Inr 0, s2)
        }) s)"

section \<open>Devices\<close>

type_synonym dev_write = "u32 \<Rightarrow> u8 list \<Rightarrow> kstate \<Rightarrow> kstate"
type_synonym dev_read = "u32 \<Rightarrow> nat \<Rightarrow> kstate \<Rightarrow> u8 list \<times> kstate"

definition sys_write_dev :: "dev_write \<Rightarrow> u32 \<Rightarrow> u32 \<Rightarrow> u32 \<Rightarrow> (kerr + u32) sysm" where
  "sys_write_dev dw va pa len s =
     (if is_illegal_va_range va len \<or> is_illegal_dev_pa_range pa len then Some (Inl E_INVAL, s)
      else do {
        (bs, s1) \<leftarrow> load_bytes va (unat len) s;
        Some (Inr 0, dw (pa + KSEG1) bs s1)
      })"

definition sys_read_dev :: "dev_read \<Rightarrow> u32 \<Rightarrow> u32 \<Rightarrow> u32 \<Rightarrow> (kerr + u32) sysm" where
  "sys_read_dev dr va pa len s =
     (if is_illegal_va_range va len \<or> is_illegal_dev_pa_range pa len then Some (Inl E_INVAL, s)
      else do {
        let (bs, s1) = dr (pa + KSEG1) (unat len) s;
        s2 \<leftarrow> store_bytes va bs s1;
        Some (Inr 0, s2)
      })"

section \<open>Dispatch\<close>

definition MAX_SYSNO :: int where "MAX_SYSNO = 18"

definition ret :: "((kerr + u32) \<times> kstate) option \<Rightarrow> (sysres \<times> kstate) option" where
  "ret r = map_option (map_prod Ret id) r"

text \<open>\<^verbatim>\<open>syscall_table\<close>, in the order of the \<^verbatim>\<open>SYS_\<close> enumeration of \<^verbatim>\<open>include/syscall.h\<close>.\<close>

definition syscall_table ::
  "dev_write \<Rightarrow> dev_read \<Rightarrow> (u32 \<Rightarrow> u32 \<Rightarrow> u32 \<Rightarrow> u32 \<Rightarrow> u32 \<Rightarrow> sysres sysm) list" where
  "syscall_table dw dr =
     [\<lambda>a1 a2 a3 a4 a5 s. ret (sys_putchar a1 s),
      \<lambda>a1 a2 a3 a4 a5 s. ret (sys_print_cons a1 a2 s),
      \<lambda>a1 a2 a3 a4 a5 s. ret (sys_getenvid s),
      \<lambda>a1 a2 a3 a4 a5 s. sys_yield s,
      \<lambda>a1 a2 a3 a4 a5 s. sys_env_destroy a1 s,
      \<lambda>a1 a2 a3 a4 a5 s. ret (sys_set_tlb_mod_entry a1 a2 s),
      \<lambda>a1 a2 a3 a4 a5 s. ret (sys_mem_alloc a1 a2 a3 s),
      \<lambda>a1 a2 a3 a4 a5 s. ret (sys_mem_map a1 a2 a3 a4 a5 s),
      \<lambda>a1 a2 a3 a4 a5 s. ret (sys_mem_unmap a1 a2 s),
      \<lambda>a1 a2 a3 a4 a5 s. ret (sys_exofork s),
      \<lambda>a1 a2 a3 a4 a5 s. ret (sys_set_env_status a1 a2 s),
      \<lambda>a1 a2 a3 a4 a5 s. ret (sys_set_trapframe a1 a2 s),
      \<lambda>a1 a2 a3 a4 a5 s. ret (sys_panic a1 s),
      \<lambda>a1 a2 a3 a4 a5 s. ret (sys_ipc_try_send a1 a2 a3 a4 s),
      \<lambda>a1 a2 a3 a4 a5 s. sys_ipc_recv a1 s,
      \<lambda>a1 a2 a3 a4 a5 s. ret (sys_cgetc s),
      \<lambda>a1 a2 a3 a4 a5 s. ret (sys_write_dev dw a1 a2 a3 s),
      \<lambda>a1 a2 a3 a4 a5 s. ret (sys_read_dev dr a1 a2 a3 s)]"

fun v0_of :: "kerr + u32 \<Rightarrow> u32" where
  "v0_of (Inl e) = word_of_int (- errno e)"
| "v0_of (Inr v) = v"

definition do_syscall :: "dev_write \<Rightarrow> dev_read \<Rightarrow> kstate \<Rightarrow> kstate option" where
  "do_syscall dw dr s =
     (let sysno = sint (regs (ktf s) 4)
      in if sysno < 0 \<or> MAX_SYSNO \<le> sysno
         then Some (s\<lparr>ktf := set_reg 2 (v0_of (Inl E_NO_SYS)) (ktf s)\<rparr>)
         else do {
           let s1 = s\<lparr>ktf := (ktf s)\<lparr>cp0_epc := cp0_epc (ktf s) + 4\<rparr>\<rparr>;
           let func = syscall_table dw dr ! nat sysno;
           let arg1 = regs (ktf s1) 5;
           let arg2 = regs (ktf s1) 6;
           let arg3 = regs (ktf s1) 7;
           (arg4, s2) \<leftarrow> load_word (regs (ktf s1) 29 + 16) s1;
           (arg5, s3) \<leftarrow> load_word (regs (ktf s2) 29 + 20) s2;
           (r, s4) \<leftarrow> func arg1 arg2 arg3 arg4 arg5 s3;
           case r of
             Switched \<Rightarrow> Some s4
           | Ret v \<Rightarrow> Some (s4\<lparr>ktf := set_reg 2 (v0_of v) (ktf s4)\<rparr>)
         })"

end
