(* ===== verification/DataPages.thy ===== *)
theory DataPages
  imports Tlbex
begin

text \<open>
  What the page operations leave alone: the contents of every page that is neither free nor
  one of the tables, and the page tables that exist. The system calls of \<open>SyscallSpec\<close> and
  copy-on-write rest on it.
\<close>

definition data_page :: "'z pm_state_scheme \<Rightarrow> (nat \<times> nat) set \<Rightarrow> nat \<Rightarrow> bool" where
  "data_page s K q \<longleftrightarrow> q \<notin> fst ` K \<and> q \<notin> ran (tab s K)"

lemma data_page_tab: "tab s' K = tab s K \<Longrightarrow> data_page s' K q = data_page s K q"
  by (simp add: data_page_def)

lemma mapped_data_page:
  "pm_inv s K ext fl \<Longrightarrow> vmap s K k = Some e \<Longrightarrow> data_page s K (PPN e) \<and> PPN e \<notin> set fl"
  using vmap_inv_page [of s K k e] used_not_free(3) [of s K ext fl "PPN e" k e]
  by (auto simp: data_page_def pm_inv_def)

lemma free_data_page: "pm_inv s K ext fl \<Longrightarrow> p \<in> set fl \<Longrightarrow> data_page s K p"
  using used_not_free(1,2) [of s K ext fl p] by (simp add: data_page_def)

lemma pmem_frame [simp]:
  "q \<noteq> fst p \<Longrightarrow> pmem (set_pte p v s) q = pmem s q"
  "q \<noteq> pp \<Longrightarrow> pmem (zero_page pp s) q = pmem s q"
  "pmem (incr_ref pp s) q = pmem s q" "pmem (tlb_invalidate a va s) q = pmem s q"
  "pmem (decref_state pp s) q = pmem s q"
  by (simp_all add: set_pte_def zero_page_def incr_ref_def tlb_invalidate_def tlb_out_def
      decref_state_def Let_def)

lemma pmem_page_remove:
  fixes s :: "'z pm_state_scheme"
  assumes "pm_inv s K ext fl" and "(d, PDX va) \<in> K" and "page_remove d asid va s = Some s'"
    and "data_page s K q"
  shows "pmem s' q = pmem s q"
proof (cases "vmap s K (vkey d va)")
  case None
  then show ?thesis using page_remove_unmapped [of s K d va asid] assms by (simp add: pm_inv_def)
next
  case (Some e)
  from Some obtain t where "tab s K (d, PDX va) = Some t" by (auto dest: vmap_vkey_Some)
  then have "PPN (pte_at (d, PDX va) s) \<noteq> q"
    using assms(4) by (auto simp: tab_Some data_page_def ran_def)
  then show ?thesis
    using page_remove_mapped(1) [OF assms(1,2) Some, of asid] assms(3) by auto
qed

lemma tab_page_remove:
  fixes s :: "'z pm_state_scheme"
  assumes "pm_inv s K ext fl" and "(d, PDX va) \<in> K" and "page_remove d asid va s = Some s'"
  shows "tab s' K = tab s K"
proof (cases "vmap s K (vkey d va)")
  case None
  then show ?thesis using page_remove_unmapped [of s K d va asid] assms by (simp add: pm_inv_def)
next
  case (Some e)
  then show ?thesis
    using page_remove_mapped(1,2) [OF assms(1,2) Some, of asid] assms(3) by auto
qed

lemma pmem_walk_create:
  assumes "page_alloc s = Some (Inr p, zero_page p s0)" and "pmem s0 = pmem s"
    and "pgdir_walk d va True s = Some (r, s')" and "\<not> pte_valid (pte_at (d, PDX va) s)"
    and "q \<noteq> d" and "q \<noteq> p"
  shows "pmem s' q = pmem s q"
  using assms by (auto simp: pgdir_walk_def Let_def split: bind_splits)

lemma page_insert_new_frame:
  fixes s :: "'z pm_state_scheme"
  assumes inv: "pm_inv s K ext fl" and k: "(d, PDX va) \<in> K"
    and run: "page_insert_new d asid pp va perm s = Some (r, s')"
  shows "tab s K \<subseteq>\<^sub>m tab s' K
    \<and> (\<forall>q. data_page s K q \<and> (tab s K (d, PDX va) = None \<longrightarrow> q \<notin> set fl) \<longrightarrow> pmem s' q = pmem s q)"
proof (cases "tab s K (d, PDX va)")
  case (Some t)
  let ?s = "tlb_invalidate asid va s"
  have ti: "tab_inv ?s K" using inv by (simp add: pm_inv_def tab_inv_def)
  have t: "t = PPN (pte_at (d, PDX va) s)" "pte_valid (pte_at (d, PDX va) s)" "t < npage s"
    using Some inv tab_inv_page [of s K _ t] by (auto simp: tab_Some pm_inv_def)
  have "pgdir_walk d va True ?s = Some (Inr (Some (t, PTX va)), ?s)"
    using pgdir_walk_present [of d va ?s True] t by simp
  then have s': "s' = incr_ref pp (set_pte (t, PTX va) (mk_pte pp perm) ?s)"
    using run by (simp add: page_insert_new_def)
  have "tab s' K = tab s K"
    using tab_set_pte [OF ti, of "(d, PDX va)" t] Some by (simp add: s')
  moreover have "q \<noteq> t" if "data_page s K q" for q
    using that Some by (auto simp: data_page_def ran_def)
  ultimately show ?thesis by (auto simp: s')
next
  case None
  let ?s = "tlb_invalidate asid va s"
  have nv: "\<not> pte_valid (pte_at (d, PDX va) ?s)" using None k by (simp add: tab_None)
  have d: "data_page s K q \<Longrightarrow> q \<noteq> d" for q using k by (force simp: data_page_def)
  have fi: "free_inv ?s fl" using inv by (simp add: pm_inv_def free_inv_def)
  from fi show ?thesis
  proof (cases rule: page_alloc_cases)
    case empty
    then have "s' = ?s"
      using run nv by (auto simp: page_insert_new_def pgdir_walk_def Let_def)
    then show ?thesis by simp
  next
    case (page t fl' q)
    have inv': "pm_inv ?s K ext (t # fl')" using inv page(1) by simp
    from pgdir_walk_create [OF inv' k] None obtain s1 where
      walk: "pgdir_walk d va True ?s = Some (Inr (Some (t, PTX va)), s1)"
      and s1: "tab s1 K = (tab s K)((d, PDX va) \<mapsto> t)" "pm_inv s1 K ext fl'"
      by auto
    have s': "s' = incr_ref pp (set_pte (t, PTX va) (mk_pte pp perm) s1)"
      using run walk by (simp add: page_insert_new_def)
    have ti1: "tab_inv s1 K" using s1(2) by (simp add: pm_inv_def)
    have "tab s' K = tab s1 K"
      using tab_set_pte [OF ti1, of "(d, PDX va)" t] s1(1) by (simp add: s')
    then have "tab s K \<subseteq>\<^sub>m tab s' K" using s1(1) None by (auto simp: map_le_def)
    moreover have "pmem s' x = pmem s x" if "data_page s K x" "x \<notin> set fl" for x
      using pmem_walk_create [OF page(3) _ walk nv, of x] that d [of x] page(1) by (simp add: s')
    ultimately show ?thesis using None by blast
  qed
qed

lemma page_insert_frame:
  fixes s :: "'z pm_state_scheme"
  assumes inv: "pm_inv s K ext fl" and k: "(d, PDX va) \<in> K"
    and run: "page_insert d asid pp va perm s = Some (r, s')"
  shows "tab s K \<subseteq>\<^sub>m tab s' K \<and> (\<forall>q. data_page s K q \<and> q \<notin> set fl \<longrightarrow> pmem s' q = pmem s q)"
proof (cases "vmap s K (vkey d va)")
  case None
  then show ?thesis
    using page_insert_new_frame [OF inv k, of asid pp perm r s'] run page_insert_by_vmap [OF inv k, of asid pp perm]
    by auto
next
  case (Some e)
  then obtain t where t: "tab s K (d, PDX va) = Some t" "t = PPN (pte_at (d, PDX va) s)"
    by (auto dest!: vmap_vkey_Some simp: tab_Some)
  show ?thesis
  proof (cases "PPN e = pp")
    case True
    let ?s = "tlb_invalidate asid va s"
    have ti: "tab_inv ?s K" using inv by (simp add: pm_inv_def tab_inv_def)
    have s': "s' = set_pte (t, PTX va) (mk_pte pp perm) ?s"
      using run True Some page_insert_by_vmap [OF inv k, of asid pp perm] t by simp
    have "tab s' K = tab s K" using tab_set_pte [OF ti, of "(d, PDX va)" t] t by (simp add: s')
    moreover have "q \<noteq> t" if "data_page s K q" for q
      using that t by (auto simp: data_page_def ran_def)
    ultimately show ?thesis by (auto simp: s')
  next
    case False
    then obtain s1 where s1: "page_remove d asid va s = Some s1"
      "page_insert_new d asid pp va perm s1 = Some (r, s')"
      using run Some page_insert_by_vmap [OF inv k, of asid pp perm] by (auto split: bind_splits)
    have tb: "tab s1 K = tab s K" by (rule tab_page_remove [OF inv k s1(1)])
    obtain fl1 where "pm_inv s1 K ext fl1"
      using page_remove_mapped(1,4) [OF inv k Some, of asid] s1(1) by auto
    from page_insert_new_frame [OF this k s1(2)] show ?thesis
      using pmem_page_remove [OF inv k s1(1)] t by (auto simp: tb data_page_tab [OF tb])
  qed
qed

end
