(* ===== verification/SyscallSpec.thy ===== *)
theory SyscallSpec
  imports Syscall DataPages
begin

text \<open>
  What the system calls of Syscall promise: address checks as statements on natural numbers,
  the memory calls as updates of the abstract map of mappings, messages and status changes
  as updates of the run queue. \<open>owns s K e d\<close> says that process \<open>e\<close> has directory \<open>d\<close> and
  that its user slots are covered by the accounting invariant.
\<close>

section \<open>Address checks\<close>

lemma UTOP_nat: "unat UTOP = 0x7F400000" and UTEMP_nat: "unat UTEMP = 0x3FE000"
  by (simp_all add: mmu_defs)

lemma unat_add_nowrap: "\<not> x + y < x \<Longrightarrow> unat (x + y) = unat x + unat y" for x y :: u32
  by (simp add: not_less no_olen_add_nat unat_word_ariths)

lemma unat_add_wrap: "x + y < x \<longleftrightarrow> 2 ^ 32 \<le> unat x + unat y" for x y :: u32
proof -
  have "x \<le> x + y \<longleftrightarrow> unat x + unat y < 2 ^ LENGTH(32)" by (rule no_olen_add_nat)
  then show ?thesis by (simp add: not_le [symmetric])
qed

lemma is_illegal_va_range_iff:
  "is_illegal_va_range va len \<longleftrightarrow> len \<noteq> 0 \<and>
     (unat va < unat UTEMP \<or> unat UTOP < unat va + unat len)"
proof (cases "va + len < va")
  case True
  then have "2 ^ 32 \<le> unat va + unat len" by (simp add: unat_add_wrap)
  then show ?thesis using True by (auto simp: is_illegal_va_range_def UTOP_nat)
next
  case False
  then show ?thesis
    using unat_add_nowrap [OF False] by (auto simp: is_illegal_va_range_def word_less_nat_alt)
qed

lemma legal_va_PDX: "\<not> is_illegal_va va \<Longrightarrow> PDX va < 509"
proof -
  assume "\<not> is_illegal_va va"
  then have "unat va < 0x7F400000" using UTOP_nat by (simp add: is_illegal_va_def word_le_nat_alt)
  then have "unat va div 2 ^ 22 < 509" by (intro less_mult_imp_div_less) simp
  then show ?thesis by (simp add: PDX_numeral_eq)
qed

definition owns :: "kstate \<Rightarrow> (nat \<times> nat) set \<Rightarrow> nat \<Rightarrow> nat \<Rightarrow> bool" where
  "owns s K e d \<longleftrightarrow> env_pgdir (envs s e) = Some d \<and> uslots d \<subseteq> K"

lemma owns_slot: "owns s K e d \<Longrightarrow> \<not> is_illegal_va va \<Longrightarrow> (d, PDX va) \<in> K"
  using legal_va_PDX [of va] by (auto simp: owns_def uslots_def PDX_UTOP)

lemma insert_ret_simps [simp]:
  "insert_ret (Some (Inr (), s)) = Some (Inr 0, s)"
  "insert_ret (Some (Inl e, s)) = Some (Inl e, s)"
  by (simp_all add: insert_ret_def)

section \<open>The run queue\<close>

lemma sched_inv_same_status:
  assumes "sched_inv s xs" and "env_sched_list s' = env_sched_list s"
    and "\<And>e. env_status (envs s' e) = env_status (envs s e)"
  shows "sched_inv s' xs"
  using assms by (simp add: sched_inv_def)

lemma sched_inv_wake:
  assumes inv: "sched_inv s xs" and e: "e \<notin> set xs" and q: "tq_rep (env_sched_list s') (xs @ [e])"
    and st: "\<And>i. env_status (envs s' i) = (if i = e then ENV_RUNNABLE else env_status (envs s i))"
  shows "sched_inv s' (xs @ [e])"
  using inv q by (auto simp: sched_inv_def st)

lemma sched_inv_sleep:
  assumes inv: "sched_inv s xs" and q: "tq_rep (env_sched_list s') (remove1 e xs)"
    and st: "\<And>i. env_status (envs s' i) = (if i = e then ENV_NOT_RUNNABLE else env_status (envs s i))"
  shows "sched_inv s' (remove1 e xs)"
  using inv q tailqs.rep_distinct [OF sched_inv_rep [OF inv]]
  by (auto simp: sched_inv_def st set_remove1_eq)

text \<open>Appending an element that is on the queue already leaves no well-formed queue.\<close>

lemma lseg_last_None: "lseg nx pv r p xs \<Longrightarrow> xs \<noteq> [] \<Longrightarrow> nx (last xs) = None"
proof (induction xs arbitrary: r p)
  case (Cons x xs)
  then show ?case by (cases "xs = []") auto
qed simp

lemma lseg_unique_next: "lseg nx pv r p xs \<Longrightarrow> lseg nx pv' r' p ys \<Longrightarrow> xs = ys"
proof (induction xs arbitrary: r r' p ys)
  case (Cons x xs)
  then show ?case by (cases ys) auto
qed simp

lemma last_ref_LNext: "last_ref LHead ys = LNext x \<Longrightarrow> ys \<noteq> [] \<and> last ys = x"
  by (auto simp: last_ref_cases split: if_splits)

lemma tailq_double_insert:
  assumes rep: "tq_rep q xs" and x: "x \<in> set xs" and ins: "TAILQ_INSERT_TAIL x q = Some q'"
  shows "\<not> tq_rep q' ys"
proof
  assume rep': "tq_rep q' ys"
  have ne: "xs \<noteq> []" using x by auto
  then have l: "tqh_last q = LNext (last xs)" using rep by (simp add: tq_rep_def last_ref_cases)
  have q': "tqe_next q' = (tqe_next q)(x := None, last xs := Some x)"
      "tqe_prev q' = (tqe_prev q)(x := LNext (last xs))"
      "tqh_first q' = tqh_first q" "tqh_last q' = LNext x"
    using ins l by (auto simp: TAILQ_INSERT_TAIL_def tq_store_def Let_def)
  from rep' q'(4) have ys: "ys \<noteq> []" "last ys = x"
    using last_ref_LNext [of ys x] by (auto simp: tq_rep_def)
  have seg': "lseg (tqe_next q') (tqe_prev q') LHead (tqh_first q) ys"
    using rep' q'(3) by (simp add: tq_rep_def)
  have "tqe_next q' x = None" using lseg_last_None [OF seg' ys(1)] ys(2) by simp
  then have xl: "x \<noteq> last xs" using q'(1) by auto
  obtain us zs where xs: "xs = us @ x # zs" using x by (meson split_list)
  then have d: "distinct (us @ x # zs)" and lz: "last xs \<in> set zs"
    using rep xl by (auto simp: tq_rep_def)
  have seg: "lseg (tqe_next q) (tqe_prev q) LHead (tqh_first q) (us @ x # zs)"
    using rep xs by (simp add: tq_rep_def)
  have "lseg ((tqe_next q)(x := None)) (tqe_prev q) LHead (tqh_first q) (us @ [x])"
    using lseg_replace_tail [OF seg, of "[]" None] d by simp
  then have "lseg (tqe_next q') (tqe_prev q) LHead (tqh_first q) (us @ [x])"
  proof -
    have "last xs \<notin> set (us @ [x])" using d lz by auto
    from lseg_upd_next [OF this] \<open>lseg _ _ _ _ (us @ [x])\<close> show ?thesis unfolding q'(1) by simp
  qed
  then have ysx: "ys = us @ [x]" using lseg_unique_next [OF seg'] by blast
  then have "tqe_prev q' x = last_ref LHead us"
    using lseg_append_split [of _ _ _ _ us x "[]"] seg' by auto
  then have "us \<noteq> [] \<and> last us = last xs" using q'(2) last_ref_LNext [of us "last xs"] by auto
  then show False using d lz last_in_set [of us] by auto
qed

section \<open>Memory calls\<close>

lemma with_env_ok:
  "envid2env envid p s = Some (Inr (Some e)) \<Longrightarrow> with_env envid p f s = f e s"
  by (simp add: with_env_def)

lemma with_env_error:
  "envid2env envid p s = Some (Inl err) \<Longrightarrow> with_env envid p f s = Some (Inl err, s)"
  by (simp add: with_env_def)

lemma vkey_perm_page:
  assumes "pm_inv s K ext fl" and "page_lookup d va s = Some (Some (pp, pte))" and "(d, PDX va) \<in> K"
  shows "map_option PPN (vmap s K (vkey d va)) = Some pp"
  using assms page_lookup_vmap [of s K d va] by (auto simp: pm_inv_def split: option.splits)

text \<open>What a memory call leaves alone: the processes, the current address space, the page tables
  that exist and the contents of the pages in use.\<close>

definition mem_call_frame :: "kstate \<Rightarrow> (nat \<times> nat) set \<Rightarrow> nat list \<Rightarrow> kstate \<Rightarrow> bool" where
  "mem_call_frame s K fl s' \<longleftrightarrow> pm_state.more s' = pm_state.more s \<and> cur_pgdir s' = cur_pgdir s
     \<and> tab s K \<subseteq>\<^sub>m tab s' K \<and> (\<forall>q. data_page s K q \<and> q \<notin> set fl \<longrightarrow> pmem s' q = pmem s q)"

lemma mem_call_frame_more:
  assumes "mem_call_frame s K fl s'"
  shows "envs s' = envs s" "curenv s' = curenv s" "env_sched_list s' = env_sched_list s"
    "cur_pgdir s' = cur_pgdir s" "envid2env i p s' = envid2env i p s" "owns s' K e d = owns s K e d"
  using more_eqD [of s' s] assms
  by (simp_all add: mem_call_frame_def envid2env_def owns_def Let_def)

lemma mem_call_frame_insert:
  assumes "pm_inv s K ext fl" and "(d, PDX va) \<in> K" and "page_insert d asid pp va perm s = Some (r, s')"
  shows "mem_call_frame s K fl s'"
  using page_insert_frame [OF assms] more_page_insert [OF assms(3)] cur_page_insert [OF assms(3)]
  by (simp add: mem_call_frame_def)

lemma mem_alloc_ok:
  assumes "pm_inv s K ext (p # fl)" and "envid2env envid True s = Some (Inr (Some e))"
    and "owns s K e d" and "\<not> is_illegal_va va" and "perm < 4096"
    and "tab s K (d, PDX va) \<noteq> None \<or> fl \<noteq> []"
  shows "\<exists>s' fl'. sys_mem_alloc envid va perm s = Some (Inr 0, s')
    \<and> vmap s' K = (vmap s K)(vkey d va \<mapsto> mk_pte p perm) \<and> pm_inv s' K ext fl'
    \<and> mem_call_frame s K (p # fl) s'"
proof -
  have k: "(d, PDX va) \<in> K" by (rule owns_slot [OF assms(3,4)])
  from page_alloc_insert [OF assms(1) k assms(5,6), of "env_asid (envs s e)"] obtain s1 s2 fl2 where
    r: "page_alloc s = Some (Inr p, s1)"
      "page_insert d (env_asid (envs s e)) p va perm s1 = Some (Inr (), s2)"
      "vmap s2 K = (vmap s K)(vkey d va \<mapsto> mk_pte p perm)" "pm_inv s2 K ext fl2" by blast
  have e1: "envs s1 = envs s" using more_eqD [OF more_page_alloc [OF r(1)]] by simp
  obtain q where q: "s1 = zero_page p (s\<lparr>page_free_list := q\<rparr>)" "lq_rep q fl"
    using page_alloc_cons [of s p fl] assms(1) r(1) by (auto simp: pm_inv_def)
  note a = pm_inv_page_alloc [OF assms(1) q(2), folded q(1)]
  have "mem_call_frame s1 K fl s2" by (rule mem_call_frame_insert [OF a(1) k r(2)])
  moreover have "pmem s1 x = pmem s x" if "x \<noteq> p" for x using that by (simp add: q(1))
  ultimately have "mem_call_frame s K (p # fl) s2"
    using more_page_alloc [OF r(1)] cur_page_alloc [OF r(1)]
    by (auto simp: mem_call_frame_def a(2) data_page_tab [OF a(2)])
  then show ?thesis
    using assms(3,4) r e1 by (auto simp: sys_mem_alloc_def with_env_ok [OF assms(2)] owns_def)
qed

text \<open>The reference count of the source must not wrap, unless the destination maps the page already.\<close>

lemma mem_map_ok:
  assumes "pm_inv s K ext fl" and "envid2env srcid True s = Some (Inr (Some e1))"
    and "envid2env dstid True s = Some (Inr (Some e2))" and "owns s K e1 d1" and "owns s K e2 d2"
    and "\<not> is_illegal_va srcva" and "\<not> is_illegal_va dstva" and "perm < 4096"
    and "tab s K (d2, PDX dstva) \<noteq> None \<or> fl \<noteq> []"
    and "vmap s K (vkey d1 srcva) = Some en"
    and "unat (pp_ref s (PPN en)) < 65535 \<or> vkey d1 srcva = vkey d2 dstva"
  shows "\<exists>s' fl'. sys_mem_map srcid srcva dstid dstva perm s = Some (Inr 0, s')
        \<and> vmap s' K = (vmap s K)(vkey d2 dstva \<mapsto> mk_pte (PPN en) perm) \<and> pm_inv s' K ext fl'
        \<and> mem_call_frame s K fl s'"
proof -
  have k1: "(d1, PDX srcva) \<in> K" and k2: "(d2, PDX dstva) \<in> K"
    using owns_slot assms(4-7) by auto
  have ti: "tab_inv s K" using assms(1) by (simp add: pm_inv_def)
  have call: "sys_mem_map srcid srcva dstid dstva perm s =
      insert_ret (page_insert d2 (env_asid (envs s e2)) (PPN en) dstva perm s)"
    using assms(4-7) page_lookup_vmap [OF ti k1] assms(10)
    by (simp add: sys_mem_map_def with_env_ok [OF assms(2)] with_env_ok [OF assms(3)] owns_def
        cong: option.case_cong)
  have pn: "PPN en < npage s" "PPN en \<notin> fst ` K" "PPN en \<notin> ran (tab s K)"
    using vmap_inv_page [OF ti assms(10)] by auto
  have "PPN en \<notin> set fl"
    using used_not_free(3) [OF assms(1), of "PPN en"] assms(10) by blast
  then have "mappable s K fl (PPN en) \<or> map_option PPN (vmap s K (vkey d2 dstva)) = Some (PPN en)"
    using pn assms(10,11) by (auto simp: mappable_def)
  from page_insert_refines [OF assms(1) k2 this assms(8,9), of "env_asid (envs s e2)"]
  obtain s' fl' where r: "page_insert d2 (env_asid (envs s e2)) (PPN en) dstva perm s = Some (Inr (), s')"
    "vmap s' K = (vmap s K)(vkey d2 dstva \<mapsto> mk_pte (PPN en) perm)" "pm_inv s' K ext fl'" by auto
  then show ?thesis using mem_call_frame_insert [OF assms(1) k2 r(1)] by (auto simp: call)
qed

lemma mem_unmap_ok:
  assumes "pm_inv s K ext fl" and "envid2env envid True s = Some (Inr (Some e))"
    and "owns s K e d" and "\<not> is_illegal_va va"
  shows "\<exists>s' fl'. sys_mem_unmap envid va s = Some (Inr 0, s')
    \<and> vmap s' K = (vmap s K)(vkey d va := None) \<and> pm_inv s' K ext fl'
    \<and> mem_call_frame s K [] s'"
proof -
  have k: "(d, PDX va) \<in> K" by (rule owns_slot [OF assms(3,4)])
  have call: "sys_mem_unmap envid va s =
      Option.bind (page_remove d (env_asid (envs s e)) va s) (\<lambda>s1. Some (Inr 0, s1))"
    using assms(3,4) by (simp add: sys_mem_unmap_def with_env_ok [OF assms(2)] owns_def)
  obtain s' fl' where r: "page_remove d (env_asid (envs s e)) va s = Some s'"
    "vmap s' K = (vmap s K)(vkey d va := None)" "pm_inv s' K ext fl'"
  proof (cases "vmap s K (vkey d va)")
    case None
    then show ?thesis
      using that [of s fl] page_remove_unmapped [of s K d va] k assms(1) by (auto simp: pm_inv_def fun_upd_idem)
  next
    case (Some en)
    from that page_remove_mapped(1,3,4) [OF assms(1) k Some, of "env_asid (envs s e)"] show ?thesis by blast
  qed
  have "mem_call_frame s K [] s'"
    using tab_page_remove [OF assms(1) k r(1)] pmem_page_remove [OF assms(1) k r(1)]
      more_page_remove [OF r(1)] cur_page_remove [OF r(1)]
    by (simp add: mem_call_frame_def)
  then show ?thesis using r by (simp add: call) blast
qed

section \<open>Properties\<close>

text \<open>a range that \<^verbatim>\<open>is_illegal_va_range\<close> accepts is empty or lies between UTEMP and UTOP
  without wrapping around, and every address in it is legal on its own.\<close>

theorem va_range_sound:
  assumes "\<not> is_illegal_va_range va len" and "k < unat len"
  shows "unat va + unat len \<le> unat UTOP \<and> \<not> is_illegal_va (va + word_of_nat k)"
proof -
  have "len \<noteq> 0" using assms(2) by auto
  then have r: "unat UTEMP \<le> unat va" "unat va + unat len \<le> unat UTOP"
    using assms(1) is_illegal_va_range_iff [of va len] by auto
  then have "unat (va + word_of_nat k) = unat va + k"
    using assms(2) by (simp add: unat_word_ariths unat_of_nat UTOP_nat)
  then show ?thesis using r assms(2) by (simp add: is_illegal_va_def word_less_nat_alt word_le_nat_alt)
qed

lemma va_range_sound_witness:
  "\<not> is_illegal_va (0x400000 + word_of_nat 99)"
  using va_range_sound [of "0x400000" 100 99]
  by (simp add: is_illegal_va_range_def mmu_defs)

text \<open>\<^verbatim>\<open>sys_write_dev\<close> and \<^verbatim>\<open>sys_read_dev\<close> touch device registers only within one of the
  three windows: an accepted nonempty range lies inside the console, the disk or the clock.\<close>

theorem dev_range_sound:
  assumes "\<not> is_illegal_dev_pa_range pa len" and "len \<noteq> 0"
  shows "(0x10000000 \<le> unat pa \<and> unat pa + unat len \<le> 0x10000020)
    \<or> (0x13000000 \<le> unat pa \<and> unat pa + unat len \<le> 0x13004200)
    \<or> (0x15000000 \<le> unat pa \<and> unat pa + unat len \<le> 0x15000200)"
proof -
  have nw: "\<not> pa + len < pa" using assms by (auto simp: is_illegal_dev_pa_range_def split: if_splits)
  have "unat (pa + len) = unat pa + unat len" by (rule unat_add_nowrap [OF nw])
  then show ?thesis
    using assms by (auto simp: is_illegal_dev_pa_range_def in_range_def word_le_nat_alt split: if_splits)
qed

lemma dev_range_sound_witness:
  "(0x13000000 :: nat) \<le> unat (0x13004000 :: u32) \<and> unat (0x13004000 :: u32) + unat (0x200 :: u32) \<le> 0x13004200"
  using dev_range_sound [of "0x13004000" "0x200"]
  by (simp add: is_illegal_dev_pa_range_def in_range_def)

text \<open>\<^verbatim>\<open>sys_mem_alloc\<close> on a permitted process maps a newly allocated page at the address
  with the permission bits asked for, replaces nothing else in any address space and keeps the
  reference counts exact.\<close>

theorem sys_mem_alloc_correct:
  assumes "pm_inv s K ext (p # fl)" and "envid2env envid True s = Some (Inr (Some e))"
    and "owns s K e d" and "\<not> is_illegal_va va" and "perm < 4096"
    and "tab s K (d, PDX va) \<noteq> None \<or> fl \<noteq> []"
  shows "\<exists>s' fl'. sys_mem_alloc envid va perm s = Some (Inr 0, s')
    \<and> vmap s' K = (vmap s K)(vkey d va \<mapsto> mk_pte p perm) \<and> pm_inv s' K ext fl'
    \<and> envs s' = envs s \<and> env_sched_list s' = env_sched_list s"
  using mem_alloc_ok [OF assms] mem_call_frame_more(1,3) by metis

text \<open>\<^verbatim>\<open>sys_mem_map\<close> between permitted processes maps the page found at the source also
  at the destination, so that both addresses then lead to the same page; an unmapped source is
  E_INVAL and changes nothing.\<close>

theorem sys_mem_map_correct:
  assumes "pm_inv s K ext fl" and "envid2env srcid True s = Some (Inr (Some e1))"
    and "envid2env dstid True s = Some (Inr (Some e2))" and "owns s K e1 d1" and "owns s K e2 d2"
    and "\<not> is_illegal_va srcva" and "\<not> is_illegal_va dstva" and "perm < 4096"
    and "tab s K (d2, PDX dstva) \<noteq> None \<or> fl \<noteq> []"
    and "\<forall>p < npage s. unat (pp_ref s p) < 65535"
  shows "case vmap s K (vkey d1 srcva) of
      None \<Rightarrow> sys_mem_map srcid srcva dstid dstva perm s = Some (Inl E_INVAL, s)
    | Some en \<Rightarrow> (\<exists>s' fl'. sys_mem_map srcid srcva dstid dstva perm s = Some (Inr 0, s')
        \<and> vmap s' K = (vmap s K)(vkey d2 dstva \<mapsto> mk_pte (PPN en) perm) \<and> pm_inv s' K ext fl'
        \<and> envs s' = envs s)"
proof (cases "vmap s K (vkey d1 srcva)")
  case None
  have "(d1, PDX srcva) \<in> K" using owns_slot assms(4,6) by auto
  then have "page_lookup d1 srcva s = Some None"
    using page_lookup_vmap [of s K d1 srcva] assms(1) None by (simp add: pm_inv_def)
  then show ?thesis
    using None assms(4-7)
    by (simp add: sys_mem_map_def with_env_ok [OF assms(2)] with_env_ok [OF assms(3)] owns_def)
next
  case (Some en)
  have "PPN en < npage s" using vmap_inv_page [OF _ Some] assms(1) by (simp add: pm_inv_def)
  then have "unat (pp_ref s (PPN en)) < 65535 \<or> vkey d1 srcva = vkey d2 dstva"
    using assms(10) by blast
  from mem_map_ok [OF assms(1-9) Some this] show ?thesis
    using Some by (fastforce dest: mem_call_frame_more(1))
qed

text \<open>C10: A process that is neither the caller nor a child of it is protected: every call that
  takes a target with permission checking answers E_BAD_ENV and changes nothing; \<^verbatim>\<open>sys_mem_map\<close>, which takes two,
  does so for the source and, when the source is permitted, for the destination.\<close>

theorem syscalls_check_permission:
  assumes "envid2env envid True s = Some (Inl E_BAD_ENV)" and "\<not> is_illegal_va va" and "\<not> is_illegal_va va2"
    and "\<not> is_illegal_va_range tf TF_SIZE" and "status = 1 \<or> status = 2"
    and "envid2env okid True s = Some (Inr (Some e))"
  shows "sys_mem_alloc envid va perm s = Some (Inl E_BAD_ENV, s)
    \<and> sys_mem_map envid va dstid va2 perm s = Some (Inl E_BAD_ENV, s)
    \<and> sys_mem_map okid va envid va2 perm s = Some (Inl E_BAD_ENV, s)
    \<and> sys_mem_unmap envid va s = Some (Inl E_BAD_ENV, s)
    \<and> sys_set_tlb_mod_entry envid func s = Some (Inl E_BAD_ENV, s)
    \<and> sys_set_env_status envid status s = Some (Inl E_BAD_ENV, s)
    \<and> sys_set_trapframe envid tf s = Some (Inl E_BAD_ENV, s)
    \<and> sys_env_destroy envid s = Some (Ret (Inl E_BAD_ENV), s)"
  using assms
  by (auto simp: sys_mem_alloc_def sys_mem_map_def sys_mem_unmap_def sys_set_tlb_mod_entry_def
      sys_set_env_status_def sys_set_trapframe_def sys_env_destroy_def with_env_error with_env_ok)

text \<open>C11: waiting for a message takes the caller off the run queue, and the message of a later
  sender reaches it: \<^verbatim>\<open>sys_ipc_try_send\<close> without a page stores the value and the sender,
  makes the receiver runnable at the end of the queue, and refuses a second message.\<close>

theorem ipc_rendezvous:
  assumes "sched_inv s xs" and "envid2env envid False s = Some (Inr (Some e))"
    and "env_ipc_recving (envs s e) \<noteq> 0" and "env_status (envs s e) = ENV_NOT_RUNNABLE"
    and "curenv s = Some c"
  shows "\<exists>s'. sys_ipc_try_send envid val 0 perm s = Some (Inr 0, s') \<and> sched_inv s' (xs @ [e])
    \<and> env_ipc_value (envs s' e) = val \<and> env_ipc_from (envs s' e) = env_id (envs s c)
    \<and> env_ipc_recving (envs s' e) = 0 \<and> curenv s' = Some c
    \<and> (envid \<noteq> 0 \<longrightarrow> sys_ipc_try_send envid val2 0 perm s' = Some (Inl E_IPC_NOT_RECV, s'))"
proof -
  have ex: "e \<notin> set xs" using assms(1,4) by (simp add: sched_inv_def)
  define s1 where "s1 = upd_env e (\<lambda>v. v\<lparr>env_ipc_value := val, env_ipc_from := env_id (envs s c),
      env_ipc_perm := PTE_V OR perm, env_ipc_recving := 0, env_status := ENV_RUNNABLE\<rparr>) s"
  have l1: "env_sched_list s1 = env_sched_list s" by (simp add: s1_def)
  obtain q where q: "TAILQ_INSERT_TAIL e (env_sched_list s) = Some q" "tq_rep q (xs @ [e])"
    using tailqs.rep_insert_tail [OF sched_inv_rep [OF assms(1)] ex] by auto
  define s2 where "s2 = s1\<lparr>env_sched_list := q\<rparr>"
  have run: "sys_ipc_try_send envid val 0 perm s = Some (Inr 0, s2)"
    using assms(3,5) q(1)
    by (simp add: sys_ipc_try_send_def with_env_ok [OF assms(2)] s1_def [symmetric] l1 s2_def)
  have e2: "envs s2 = (envs s)(e := (envs s e)\<lparr>env_ipc_value := val, env_ipc_from := env_id (envs s c),
      env_ipc_perm := PTE_V OR perm, env_ipc_recving := 0, env_status := ENV_RUNNABLE\<rparr>)"
    "curenv s2 = Some c"
    using assms(5) by (simp_all add: s2_def s1_def)
  have "sched_inv s2 (xs @ [e])"
    by (rule sched_inv_wake [OF assms(1) ex]) (use q(2) in \<open>simp_all add: e2, simp add: s2_def\<close>)
  moreover have "envid2env envid False s2 = Some (Inr (Some e))" if "envid \<noteq> 0"
    using assms(2) that by (auto simp: envid2env_def e2 Let_def split: if_splits)
  then have "envid \<noteq> 0 \<Longrightarrow> sys_ipc_try_send envid val2 0 perm s2 = Some (Inl E_IPC_NOT_RECV, s2)"
    by (simp add: sys_ipc_try_send_def with_env_ok e2)
  ultimately show ?thesis using run e2 by (intro exI [of _ s2]) simp
qed

text \<open>\<^verbatim>\<open>sys_ipc_recv\<close> blocks: the caller is marked as receiving, leaves the run queue with
  0 as the result it will see, and another process runs; the run queue invariant is kept.\<close>

theorem ipc_recv_blocks:
  assumes "sched_inv s xs" and "curenv s = Some c" and "c \<in> set xs" and "1 < length xs"
    and "dstva = 0 \<or> \<not> is_illegal_va dstva"
  shows "\<exists>s' z. sys_ipc_recv dstva s = Some (Switched, s') \<and> sched_inv s' (remove1 c xs)
    \<and> env_status (envs s' c) = ENV_NOT_RUNNABLE \<and> env_ipc_recving (envs s' c) = 1
    \<and> env_ipc_dstva (envs s' c) = dstva \<and> regs (env_tf (envs s' c)) 2 = 0
    \<and> curenv s' = Some z \<and> z \<noteq> c"
proof -
  define s1 where "s1 = upd_env c (\<lambda>v. v\<lparr>env_ipc_recving := 1, env_ipc_dstva := dstva,
      env_status := ENV_NOT_RUNNABLE\<rparr>) s"
  have l1: "env_sched_list s1 = env_sched_list s" by (simp add: s1_def)
  obtain q where q: "TAILQ_REMOVE c (env_sched_list s) = Some q" "tq_rep q (remove1 c xs)"
    using tailqs.rep_remove [OF sched_inv_rep [OF assms(1)] assms(3)] by auto
  define s3 where "s3 = s1\<lparr>env_sched_list := q, ktf := set_reg 2 0 (ktf s)\<rparr>"
  have c3: "curenv s3 = Some c" "ktf s3 = set_reg 2 0 (ktf s)"
      "envs s3 = (envs s)(c := (envs s c)\<lparr>env_ipc_recving := 1, env_ipc_dstva := dstva,
          env_status := ENV_NOT_RUNNABLE\<rparr>)"
    using assms(2) by (simp_all add: s3_def s1_def)
  have inv3: "sched_inv s3 (remove1 c xs)"
    by (rule sched_inv_sleep [OF assms(1)]) (use q(2) in \<open>simp_all add: c3, simp add: s3_def\<close>)
  have "length (remove1 c xs) = length xs - 1" using assms(3) by (simp add: length_remove1)
  then obtain z ys where z: "remove1 c xs = z # ys" using assms(4) by (cases "remove1 c xs") auto
  have "z \<noteq> c"
    using z tailqs.rep_distinct [OF sched_inv_rep [OF assms(1)]] set_remove1_eq [of xs c]
    by auto
  have nr: "\<not> runnable s3 (curenv s3)" by (simp add: runnable_def c3)
  obtain s' where s': "schedule True s3 = Some s'" "curenv s' = Some z" "sched_inv s' (z # ys)"
      "env_run z (s3\<lparr>sched_count := env_pri (envs s3 z)\<rparr>) = Some s'"
    using schedule_idle [OF inv3 [unfolded z] nr] by blast
  have "ktf s1 = ktf s" by (simp add: s1_def)
  then have run: "sys_ipc_recv dstva s = Some (Switched, s')"
    using assms(2,5) q(1) s'(1)
    by (auto simp: sys_ipc_recv_def s1_def [symmetric] l1 s3_def)
  have "env_tf (envs s' c) = ktf s3 \<and> env_ipc_recving (envs s' c) = 1
      \<and> env_ipc_dstva (envs s' c) = dstva \<and> env_status (envs s' c) = ENV_NOT_RUNNABLE"
    using s'(4) \<open>z \<noteq> c\<close> by (auto simp: env_run_def env_pop_tf_def Let_def c3 split: if_splits)
  then show ?thesis
    using run s'(2,3) z \<open>z \<noteq> c\<close> by (intro exI [of _ s'] exI [of _ z]) (simp add: c3 set_reg_def)
qed

text \<open>C12: \<^verbatim>\<open>sys_set_env_status\<close> keeps the run queue equal to the set of runnable processes
  when it changes the status: a process that is made runnable comes to the end, one that is made not
  runnable is taken out. But the status is not tested: making a process runnable that is runnable
  already corrupts the queue, which is no well-formed queue at all afterwards.\<close>

theorem set_env_status_queue:
  assumes "sched_inv s xs" and "envid2env envid True s = Some (Inr (Some e))"
  shows "(e \<notin> set xs \<longrightarrow> (\<exists>s'. sys_set_env_status envid 1 s = Some (Inr 0, s')
        \<and> sched_inv s' (xs @ [e])))
    \<and> (e \<in> set xs \<longrightarrow> (\<exists>s'. sys_set_env_status envid 2 s = Some (Inr 0, s')
        \<and> sched_inv s' (remove1 e xs)))
    \<and> (e \<in> set xs \<longrightarrow> (\<exists>s'. sys_set_env_status envid 1 s = Some (Inr 0, s')
        \<and> \<not> (\<exists>ys. sched_inv s' ys)))"
proof (intro conjI impI)
  note rep = sched_inv_rep [OF assms(1)]
  note call = with_env_ok [OF assms(2)]
  show "\<exists>s'. sys_set_env_status envid 1 s = Some (Inr 0, s') \<and> sched_inv s' (xs @ [e])"
    if e: "e \<notin> set xs"
  proof -
    obtain q where q: "TAILQ_INSERT_TAIL e (env_sched_list s) = Some q" "tq_rep q (xs @ [e])"
      using tailqs.rep_insert_tail [OF rep e] by auto
    let ?s' = "upd_env e (env_status_update (\<lambda>_. ENV_RUNNABLE)) (s\<lparr>env_sched_list := q\<rparr>)"
    have "sched_inv ?s' (xs @ [e])"
      by (rule sched_inv_wake [OF assms(1) e]) (use q(2) in simp_all)
    then show ?thesis using q(1) by (intro exI [of _ ?s']) (simp add: sys_set_env_status_def call)
  qed
  show "\<exists>s'. sys_set_env_status envid 2 s = Some (Inr 0, s') \<and> sched_inv s' (remove1 e xs)"
    if e: "e \<in> set xs"
  proof -
    obtain q where q: "TAILQ_REMOVE e (env_sched_list s) = Some q" "tq_rep q (remove1 e xs)"
      using tailqs.rep_remove [OF rep e] by auto
    let ?s' = "upd_env e (env_status_update (\<lambda>_. ENV_NOT_RUNNABLE)) (s\<lparr>env_sched_list := q\<rparr>)"
    have "sched_inv ?s' (remove1 e xs)"
      by (rule sched_inv_sleep [OF assms(1)]) (use q(2) in simp_all)
    then show ?thesis using q(1) by (intro exI [of _ ?s']) (simp add: sys_set_env_status_def call)
  qed
  show "\<exists>s'. sys_set_env_status envid 1 s = Some (Inr 0, s') \<and> \<not> (\<exists>ys. sched_inv s' ys)"
    if e: "e \<in> set xs"
  proof -
    have "xs \<noteq> []" using e by auto
    then have "tqh_last (env_sched_list s) = LNext (last xs)"
      using rep by (simp add: tq_rep_def last_ref_cases)
    then obtain q where q: "TAILQ_INSERT_TAIL e (env_sched_list s) = Some q"
      by (simp add: TAILQ_INSERT_TAIL_def tq_store_def Let_def)
    let ?s' = "upd_env e (env_status_update (\<lambda>_. ENV_RUNNABLE)) (s\<lparr>env_sched_list := q\<rparr>)"
    have "\<not> sched_inv ?s' ys" for ys
      using tailq_double_insert [OF rep e q, of ys] by (simp add: sched_inv_def)
    then show ?thesis using q by (intro exI [of _ ?s']) (simp add: sys_set_env_status_def call)
  qed
qed

text \<open>\<^verbatim>\<open>sys_exofork\<close> returns the identifier of a new blocked child of the caller, which has
  the caller's priority, an empty address space and the caller's registers except for 0 in
  \<^verbatim>\<open>$v0\<close>; the caller and every other process are unchanged.\<close>

theorem sys_exofork_correct:
  assumes "pm_inv s K ext (d # fl)" and "base_pgdir s \<noteq> d"
    and "lq_rep (env_free_list s) (e # efl)" and "\<not> (\<forall>i < 64. asid_used (asid_bitmap s) i)"
    and "curenv s = Some c" and "c \<noteq> e"
  shows "\<exists>s'. sys_exofork s = Some (Inr (env_id (envs s' e)), s')
    \<and> env_tf (envs s' e) = set_reg 2 0 (ktf s) \<and> env_status (envs s' e) = ENV_NOT_RUNNABLE
    \<and> env_parent_id (envs s' e) = env_id (envs s c) \<and> env_pri (envs s' e) = env_pri (envs s c)
    \<and> owns s' (K \<union> uslots d) e d \<and> pm_inv s' (K \<union> uslots d) (ext(d := Suc (ext d))) fl
    \<and> vmap s' (K \<union> uslots d) = vmap s K \<and> lq_rep (env_free_list s') efl
    \<and> (\<forall>i. i \<noteq> e \<longrightarrow> envs s' i = envs s i)"
proof -
  from env_alloc_ok [OF assms(1-4), of "env_id (envs s c)"] obtain s1 a where
    r: "env_alloc (env_id (envs s c)) s = Some (Inr e, s1)"
      "pm_inv s1 (K \<union> uslots d) (ext(d := Suc (ext d))) fl" "vmap s1 (K \<union> uslots d) = vmap s K"
      "lq_rep (env_free_list s1) efl"
      "envs s1 = (envs s)(e := (envs s e)\<lparr>env_pgdir := Some d, env_user_tlb_mod_entry := 0,
          env_runs := 0, env_id := fst (mkenvid e s), env_asid := word_of_nat a,
          env_parent_id := env_id (envs s c), env_tf := init_tf (env_tf (envs s e))\<rparr>)"
      "ktf s1 = ktf s"
    by blast
  define s5 where "s5 = upd_env e (env_pri_update (\<lambda>_. env_pri (envs s c)))
     (upd_env e (env_status_update (\<lambda>_. ENV_NOT_RUNNABLE))
       (upd_env e (env_tf_update (set_reg 2 0)) (upd_env e (env_tf_update (\<lambda>_. ktf s1)) s1)))"
  have run: "sys_exofork s = Some (Inr (env_id (envs s5 e)), s5)"
    using assms(5,6) r(1,5) by (simp add: sys_exofork_def s5_def)
  have core: "pmem s5 = pmem s1" "pp_ref s5 = pp_ref s1" "page_free_list s5 = page_free_list s1"
      "npage s5 = npage s1"
    by (simp_all add: s5_def)
  note c = pm_core_cong [OF core]
  show ?thesis
    using run r c by (intro exI [of _ s5]) (simp add: s5_def owns_def)
qed

text \<open>\<^verbatim>\<open>sys_mem_unmap\<close> of a permitted process always succeeds and unmaps exactly the
  address, whether or not a page was mapped there.\<close>

theorem sys_mem_unmap_correct:
  assumes "pm_inv s K ext fl" and "envid2env envid True s = Some (Inr (Some e))"
    and "owns s K e d" and "\<not> is_illegal_va va"
  shows "\<exists>s' fl'. sys_mem_unmap envid va s = Some (Inr 0, s')
    \<and> vmap s' K = (vmap s K)(vkey d va := None) \<and> pm_inv s' K ext fl' \<and> envs s' = envs s"
  using mem_unmap_ok [OF assms] mem_call_frame_more(1) by metis

text \<open>an unknown system call number gives E_NO_SYS, changes nothing else and, unlike every
  known call, leaves the saved program counter at the \<^verbatim>\<open>syscall\<close> instruction, so that the
  process executes it again.\<close>

theorem do_syscall_unknown:
  assumes "sint (regs (ktf s) 4) < 0 \<or> 18 \<le> sint (regs (ktf s) 4)"
  shows "\<exists>s'. do_syscall dw dr s = Some s' \<and> regs (ktf s') 2 = word_of_int (- 5)
    \<and> cp0_epc (ktf s') = cp0_epc (ktf s) \<and> do_syscall dw dr s' = Some s'
    \<and> pm_state.truncate s' = pm_state.truncate s \<and> envs s' = envs s"
proof -
  let ?s' = "s\<lparr>ktf := set_reg 2 (v0_of (Inl E_NO_SYS)) (ktf s)\<rparr>"
  have "do_syscall dw dr s = Some ?s'" using assms by (simp add: do_syscall_def MAX_SYSNO_def)
  moreover have "do_syscall dw dr ?s' = Some ?s'"
    using assms by (simp add: do_syscall_def MAX_SYSNO_def set_reg_def)
  ultimately show ?thesis
    by (intro exI [of _ ?s']) (simp add: set_reg_def pm_state.defs)
qed

text \<open>\<^verbatim>\<open>sys_cgetc\<close> returns the next character that the console gives, however many empty
  reads come before it.\<close>

theorem sys_cgetc_waits:
  assumes "cons_in s (cons_pos s + n) \<noteq> 0" and "\<forall>k < n. cons_in s (cons_pos s + k) = 0"
  shows "sys_cgetc s = Some (Inr (scast (cons_in s (cons_pos s + n))),
     s\<lparr>cons_pos := Suc (cons_pos s + n)\<rparr>)"
  using assms
proof (induction n arbitrary: s)
  case 0
  then show ?case by (subst sys_cgetc.simps) (simp add: scancharc_def)
next
  case (Suc n)
  let ?s1 = "s\<lparr>cons_pos := Suc (cons_pos s)\<rparr>"
  have "\<forall>k < n. cons_in ?s1 (cons_pos ?s1 + k) = 0"
    using Suc.prems(2) by (auto dest: spec [of _ "Suc _"])
  then have "sys_cgetc ?s1 = Some (Inr (scast (cons_in ?s1 (cons_pos ?s1 + n))),
      ?s1\<lparr>cons_pos := Suc (cons_pos ?s1 + n)\<rparr>)"
    using Suc.prems(1) by (intro Suc.IH) simp_all
  moreover have "cons_in s (cons_pos s) = 0" using Suc.prems(2) by (auto dest: spec [of _ 0])
  ultimately show ?case by (subst sys_cgetc.simps) (simp add: scancharc_def)
qed

section \<open>Concrete calls\<close>

text \<open>\<open>kone\<close> with page 0 mapped at 0x400000, through the page table in page 2.\<close>

definition kmap :: kstate where
  "kmap = kone\<lparr>pmem := (\<lambda>p w. if p = 1 \<and> w = 1 then mk_pte 2 PTE_D
        else if p = 2 \<and> w = 0 then mk_pte 0 PTE_D else 0),
     pp_ref := (\<lambda>p. if p = 0 then 2 else if p < 3 then 1 else 0),
     page_free_list := LIST_INSERT_HEAD 3 (LIST_INIT small_free)\<rparr>"

lemma kmap_pte: "pte_at k kmap
    = (if k = (1, 1) then mk_pte 2 PTE_D else if k = (2, 0) then mk_pte 0 PTE_D else 0)"
  by (cases k) (simp add: kmap_def pte_at_def)

lemma PTE_D_less: "PTE_D < 4096"
  by (simp add: PTE_D_def)

lemma small_PPN: "PPN (mk_pte 2 PTE_D) = 2" "PPN (mk_pte 0 PTE_D) = 0"
  by (rule PPN_mk_pte [OF _ PTE_D_less]; simp)+

lemma kmap_tab: "tab kmap (uslots 1) = [(1, 1) \<mapsto> 2]"
  by (auto simp: tab_def kmap_pte fun_eq_iff uslots_def PDX_UTOP small_PPN)

lemma kmap_vmap: "vmap kmap (uslots 1) = [(1, 1, 0) \<mapsto> mk_pte 0 PTE_D]"
  unfolding vmap_def kmap_tab by (auto simp: fun_eq_iff kmap_pte split: if_splits)

lemma nrefs_single: "nrefs g [k \<mapsto> e] p = (if g e = p then 1 else 0)"
  using nrefs_insert [of Map.empty k g e p] by simp

lemma kmap_simps:
  "npage kmap = 4" "pp_ref kmap = (\<lambda>p. if p = 0 then 2 else if p < 3 then 1 else 0)"
  "envs kmap = envs kone" "curenv kmap = Some 0"
  "page_free_list kmap = LIST_INSERT_HEAD 3 (LIST_INIT small_free)"
  by (simp_all add: kmap_def kone_simps)

lemma kmap_inv: "pm_inv kmap (uslots 1) small_ext [3]"
proof -
  have "lq_rep (page_free_list kmap) [3]"
    unfolding kmap_simps by (intro lq_rep_insert_head lq_rep_init) simp
  then have "free_inv kmap [3]" by (simp add: free_inv_def kmap_simps)
  moreover have "tab_inv kmap (uslots 1)"
    unfolding tab_inv_def kmap_tab kmap_vmap kmap_simps
    by (auto simp: uslots_def small_PPN split: if_splits)
  moreover have "ref_inv kmap (uslots 1) small_ext"
    unfolding ref_inv_def kmap_tab kmap_vmap kmap_simps
    by (auto simp: uslots_def nrefs_single small_PPN small_ext_def)
  ultimately show ?thesis by (simp add: pm_inv_def)
qed

lemma self_env:
  "envid2env 0 p kone = Some (Inr (Some 0))" "envid2env 0 p kmap = Some (Inr (Some 0))"
  by (simp_all add: envid2env_def kone_simps kmap_simps)

lemma self_owns: "owns kone (uslots 1) 0 1" "owns kmap (uslots 1) 0 1"
  by (simp_all add: owns_def kone_simps kmap_simps env_one_def)

lemma legal_vas: "\<not> is_illegal_va 0x400000" "\<not> is_illegal_va 0x401000"
  by (simp_all add: is_illegal_va_def mmu_defs)

lemma sys_mem_alloc_correct_witness:
  "\<exists>s'. sys_mem_alloc 0 0x400000 PTE_D kone = Some (Inr 0, s')
     \<and> vmap s' (uslots 1) (vkey 1 0x400000) = Some (mk_pte 2 PTE_D)"
  using sys_mem_alloc_correct [OF kone_inv self_env(1) self_owns(1) legal_vas(1) PTE_D_less] by fastforce

lemma sys_mem_map_correct_witness:
  "\<exists>s'. sys_mem_map 0 0x400000 0 0x401000 PTE_D kmap = Some (Inr 0, s')
     \<and> vmap s' (uslots 1) (vkey 1 0x401000) = Some (mk_pte 0 PTE_D)"
proof -
  have "vkey 1 0x400000 = (1, 1, 0)" "PDX 0x401000 = 1"
    by (simp_all add: vkey_def PDX_numeral_eq PTX_numeral_eq)
  moreover have "\<forall>p < npage kmap. unat (pp_ref kmap p) < 65535" by (simp add: kmap_simps)
  ultimately show ?thesis
    using sys_mem_map_correct [OF kmap_inv self_env(2) self_env(2) self_owns(2) self_owns(2)
        legal_vas PTE_D_less]
    by (auto simp: kmap_vmap [unfolded One_nat_def] kmap_tab [unfolded One_nat_def] small_PPN)
qed

lemma sys_mem_unmap_correct_witness:
  "\<exists>s'. sys_mem_unmap 0 0x400000 kmap = Some (Inr 0, s') \<and> vmap s' (uslots 1) = Map.empty"
proof -
  have "vkey 1 0x400000 = (1, 1, 0)"
    by (simp add: vkey_def PDX_numeral_eq PTX_numeral_eq)
  then show ?thesis
    using sys_mem_unmap_correct [OF kmap_inv self_env(2) self_owns(2) legal_vas(1)]
    by (auto simp: kmap_vmap [unfolded One_nat_def])
qed

lemma syscalls_check_permission_witness:
  "sys_mem_map 0 0x400000 0x1001 0x400000 0 (ktwo\<lparr>envs := (envs ktwo)(1 := env_two\<lparr>env_parent_id := 5\<rparr>)\<rparr>)
     = Some (Inl E_BAD_ENV, ktwo\<lparr>envs := (envs ktwo)(1 := env_two\<lparr>env_parent_id := 5\<rparr>)\<rparr>)"
proof -
  let ?s = "ktwo\<lparr>envs := (envs ktwo)(1 := env_two\<lparr>env_parent_id := 5\<rparr>)\<rparr>"
  have bad: "envid2env 0x1001 True ?s = Some (Inl E_BAD_ENV)"
    by (simp add: envid2env_def ENVX_mod ktwo_simps env_two_def env_one_def)
  have self: "envid2env 0 True ?s = Some (Inr (Some 0))" by (simp add: envid2env_def ktwo_simps)
  have range: "\<not> is_illegal_va_range 0x400000 TF_SIZE" by (simp add: is_illegal_va_range_def TF_SIZE_def mmu_defs)
  show ?thesis
    using syscalls_check_permission [OF bad legal_vas(1) legal_vas(1) range disjI1 [OF refl] self] by blast
qed

text \<open>Process 1 of \<open>ktwo\<close> waiting for a message.\<close>

definition kwait :: kstate where
  "kwait = ktwo\<lparr>envs := (envs ktwo)(1 := env_two\<lparr>env_status := ENV_NOT_RUNNABLE, env_ipc_recving := 1\<rparr>),
     env_sched_list := one_sched\<rparr>"

lemma kwait_sched: "sched_inv kwait [0]"
  using one_sched_rep
  by (auto simp: sched_inv_def kwait_def ktwo_simps free_env_def env_one_def env_two_def)

lemma ipc_rendezvous_witness:
  "\<exists>s'. sys_ipc_try_send 0x1001 42 0 0 kwait = Some (Inr 0, s') \<and> env_ipc_value (envs s' 1) = 42
     \<and> sched_inv s' [0, 1]"
proof -
  have "envid2env 0x1001 False kwait = Some (Inr (Some 1))"
    by (simp add: envid2env_def ENVX_mod kwait_def env_two_def env_one_def)
  moreover have "env_ipc_recving (envs kwait 1) \<noteq> 0" "env_status (envs kwait 1) = ENV_NOT_RUNNABLE"
      "curenv kwait = Some 0"
    by (simp_all add: kwait_def ktwo_simps)
  ultimately show ?thesis using ipc_rendezvous [OF kwait_sched, of "0x1001" 1 0 42 0] by auto
qed

lemma ipc_recv_blocks_witness:
  "\<exists>s'. sys_ipc_recv 0 ktwo = Some (Switched, s') \<and> sched_inv s' [1] \<and> curenv s' \<noteq> Some 0"
  using ipc_recv_blocks [OF ktwo_sched ktwo_simps(1), of 0] by fastforce

lemma set_env_status_queue_witness:
  "\<exists>s'. sys_set_env_status 0 1 kone = Some (Inr 0, s') \<and> \<not> (\<exists>ys. sched_inv s' ys)"
proof -
  have "sched_inv kone [0]"
    using one_sched_rep by (auto simp: sched_inv_def kone_simps free_env_def env_one_def)
  from set_env_status_queue [OF this self_env(1)] show ?thesis by simp
qed

lemma sys_exofork_correct_witness:
  "\<exists>s'. sys_exofork kone = Some (Inr (env_id (envs s' 1)), s')
     \<and> env_parent_id (envs s' 1) = 0x800 \<and> regs (env_tf (envs s' 1)) 2 = 0"
proof -
  have h: "base_pgdir kone \<noteq> 2" "lq_rep (env_free_list kone) [1, 2]" "curenv kone = Some 0" "(0::nat) \<noteq> 1"
      "env_id (envs kone 0) = 0x800"
    using one_free_rep by (simp_all add: kone_simps env_one_def)
  from sys_exofork_correct [OF kone_inv h(1,2) kone_asid h(3,4)] h(5) show ?thesis
    by (auto simp: set_reg_def)
qed

lemma do_syscall_unknown_witness:
  "\<exists>s'. do_syscall (\<lambda>_ _ s. s) (\<lambda>_ n s. (replicate n 0, s)) (kone\<lparr>ktf := set_reg 4 18 zero_tf\<rparr>) = Some s' \<and> cp0_epc (ktf s') = 0"
  using do_syscall_unknown [of "kone\<lparr>ktf := set_reg 4 18 zero_tf\<rparr>" "\<lambda>_ _ s. s"
      "\<lambda>_ n s. (replicate n 0, s)"]
  by (auto simp: set_reg_def zero_tf_def)

lemma sys_cgetc_waits_witness:
  "sys_cgetc (kone\<lparr>cons_in := (\<lambda>i. if i < 2 then 0 else 65)\<rparr>)
     = Some (Inr 65, kone\<lparr>cons_in := (\<lambda>i. if i < 2 then 0 else 65), cons_pos := 3\<rparr>)"
proof -
  have "cons_pos kone = 0" by (simp add: kone_def pm_state.defs kstate.defs)
  then show ?thesis
    using sys_cgetc_waits [of "kone\<lparr>cons_in := (\<lambda>i. if i < 2 then 0 else 65)\<rparr>" 2] by simp
qed

end
