(* ===== verification/Fork.thy ===== *)
theory Fork
  imports SyscallSpec
begin

text \<open>
  User-level \<^verbatim>\<open>fork\<close> with copy-on-write (\<^verbatim>\<open>user/lib/fork.c\<close>), run by the current process on the
  kernel's system calls. \<^verbatim>\<open>vpd\<close> and \<^verbatim>\<open>vpt\<close> are the current directory and its page tables, seen
  through the self-map at UVPT; reading \<^verbatim>\<open>vpt\<close> below an invalid directory entry is a fault
  that the code never risks, and \<open>None\<close> here, like \<^verbatim>\<open>user_panic\<close>. The process is not preempted
  between the calls of one operation.
\<close>

section \<open>Operations\<close>

definition vpd_at :: "nat \<Rightarrow> kstate \<Rightarrow> u32 option" where
  "vpd_at i s = map_option (\<lambda>d. pte_at (d, i) s) (cur_pgdir s)"

definition vpt_at :: "nat \<Rightarrow> kstate \<Rightarrow> u32 option" where
  "vpt_at vpn s = do {
     pde \<leftarrow> vpd_at (vpn div 1024) s;
     if pte_valid pde then Some (pte_at (PPN pde, vpn mod 1024) s) else None
   }"

text \<open>\<^verbatim>\<open>memcpy\<close> between two page-aligned user addresses: its word loop.\<close>

fun copy_user_words :: "u32 \<Rightarrow> u32 \<Rightarrow> nat \<Rightarrow> kstate \<Rightarrow> kstate option" where
  "copy_user_words dst src 0 s = Some s"
| "copy_user_words dst src (Suc n) s = do {
     (w, s1) \<leftarrow> load_word src s;
     s2 \<leftarrow> store_word dst w s1;
     copy_user_words (dst + 4) (src + 4) n s2
   }"

text \<open>\<^verbatim>\<open>cow_entry\<close> up to the return through the saved frame; results of the calls are ignored.\<close>

definition cow_page :: "u32 \<Rightarrow> kstate \<Rightarrow> kstate option" where
  "cow_page va s = do {
     pte \<leftarrow> vpt_at (VPN va) s;
     let perm = PTE_PERM pte;
     if perm AND PTE_COW = 0 then None
     else do {
       let perm1 = PTE_SET (PTE_CLR perm PTE_COW) PTE_D;
       (_, s1) \<leftarrow> sys_mem_alloc 0 UCOW perm1 s;
       s2 \<leftarrow> copy_user_words UCOW (ROUNDDOWN va BY2PG) 1024 s1;
       (_, s3) \<leftarrow> sys_mem_map 0 UCOW 0 (ROUNDDOWN va BY2PG) perm1 s2;
       (_, s4) \<leftarrow> sys_mem_unmap 0 UCOW s3;
       Some s4
     }
   }"

text \<open>\<^verbatim>\<open>tf->cp0_badvaddr\<close> is word 35 of the frame.\<close>

definition cow_entry :: "u32 \<Rightarrow> kstate \<Rightarrow> ((kerr + u32) \<times> kstate) option" where
  "cow_entry tf s = do {
     (va, s1) \<leftarrow> load_word (tf + 140) s;
     s2 \<leftarrow> cow_page va s1;
     sys_set_trapframe 0 tf s2
   }"

definition cow_perm :: "u32 \<Rightarrow> u32" where
  "cow_perm perm = PTE_SET (PTE_CLR perm PTE_D) PTE_COW"

definition duppage :: "u32 \<Rightarrow> nat \<Rightarrow> kstate \<Rightarrow> kstate option" where
  "duppage envid vpn s = do {
     let addr = push_bit 12 (word_of_nat vpn);
     pte \<leftarrow> vpt_at vpn s;
     let perm = PTE_PERM pte;
     let remap = (perm AND PTE_D \<noteq> 0 \<and> perm AND PTE_LIBRARY = 0);
     let perm1 = (if remap then cow_perm perm else perm);
     (_, s1) \<leftarrow> sys_mem_map 0 addr envid addr perm1 s;
     if remap then do { (_, s2) \<leftarrow> sys_mem_map 0 addr 0 addr perm1 s1; Some s2 }
     else Some s1
   }"

fun dup_pages :: "u32 \<Rightarrow> nat list \<Rightarrow> kstate \<Rightarrow> kstate option" where
  "dup_pages envid [] s = Some s"
| "dup_pages envid (vpn # vpns) s = do {
     pte \<leftarrow> vpt_at vpn s;
     s1 \<leftarrow> (if pte_valid pte then duppage envid vpn s else Some s);
     dup_pages envid vpns s1
   }"

fun dup_dirs :: "u32 \<Rightarrow> nat list \<Rightarrow> kstate \<Rightarrow> kstate option" where
  "dup_dirs envid [] s = Some s"
| "dup_dirs envid (i # is) s = do {
     pde \<leftarrow> vpd_at i s;
     s1 \<leftarrow> (if pte_valid pde
            then dup_pages envid (filter (\<lambda>vpn. vpn * 4096 < unat USTACKTOP) [i * 1024..<(i + 1) * 1024]) s
            else Some s);
     dup_dirs envid is s1
   }"

text \<open>\<^verbatim>\<open>try\<close> of a call; \<open>cow\<close> is the address of \<^verbatim>\<open>cow_entry\<close>. The result is that of the parent:
  the child returns 0 from its copy of the frame. An error of \<^verbatim>\<open>syscall_exofork\<close> is not checked.\<close>

definition must_ok :: "((kerr + u32) \<times> kstate) option \<Rightarrow> kstate option" where
  "must_ok r = (case r of Some (Inr _, s) \<Rightarrow> Some s | _ \<Rightarrow> None)"

definition fork :: "u32 \<Rightarrow> kstate \<Rightarrow> (u32 \<times> kstate) option" where
  "fork cow s = do {
     c \<leftarrow> curenv s;
     s1 \<leftarrow> (if env_user_tlb_mod_entry (envs s c) \<noteq> cow then must_ok (sys_set_tlb_mod_entry 0 cow s)
            else Some s);
     (r, s2) \<leftarrow> sys_exofork s1;
     let child = v0_of r;
     s3 \<leftarrow> dup_dirs child (filter (\<lambda>i. i * 0x400000 < unat USTACKTOP) [0..<1024]) s2;
     s4 \<leftarrow> must_ok (sys_set_tlb_mod_entry child cow s3);
     s5 \<leftarrow> must_ok (sys_set_env_status child 1 s4);
     Some (child, s5)
   }"

section \<open>Addresses\<close>

lemma unat_page_addr: "vpn < 2 ^ 20 \<Longrightarrow> unat (push_bit 12 (word_of_nat vpn) :: u32) = vpn * 4096"
  by (simp add: push_bit_eq_mult unat_word_ariths unat_of_nat mult.commute)

lemma page_addr_index:
  assumes "vpn < 2 ^ 20"
  shows "PDX (push_bit 12 (word_of_nat vpn)) = vpn div 1024"
    and "PTX (push_bit 12 (word_of_nat vpn)) = vpn mod 1024"
  using unat_page_addr [OF assms] div_mult2_eq [of "vpn * 4096" 4096 1024]
  by (simp_all add: PDX_numeral_eq PTX_numeral_eq)

lemma VPN_index: "VPN va div 1024 = PDX va" "VPN va mod 1024 = PTX va"
  using div_mult2_eq [of "unat va" 4096 1024]
  by (simp_all add: VPN_def PDX_numeral_eq PTX_numeral_eq unat_drop_bit)

lemma vpt_mapped:
  assumes "cur_pgdir s = Some d" and "vmap s K (d, vpn div 1024, vpn mod 1024) = Some e"
  shows "vpt_at vpn s = Some e"
  using assms by (auto simp: vpt_at_def vpd_at_def vmap_Some tab_Some)

lemma PTE_PERM_less: "PTE_PERM e < 4096"
proof -
  have "PTE_PERM e = take_bit 12 e" by (simp only: PTE_PERM_def mask12_eq take_bit_eq_mask)
  moreover have "unat (take_bit 12 e) < 4096" by (simp add: unat_take_bit)
  ultimately show ?thesis by (simp add: word_less_nat_alt)
qed

lemma less_4096_iff: "w < 4096 \<longleftrightarrow> (\<forall>n. bit w n \<longrightarrow> n < 12)" for w :: u32
proof
  assume "w < 4096"
  then show "\<forall>n. bit w n \<longrightarrow> n < 12" using word_less_exp_bit [of w 12] by auto
next
  assume *: "\<forall>n. bit w n \<longrightarrow> n < 12"
  have "w = PTE_PERM w"
    using * by (intro bit_word_eqI) (simp only: PTE_PERM_def bit_and_iff bit_4095, blast)
  then show "w < 4096" using PTE_PERM_less [of w] by simp
qed

lemma perm_ops_less:
  "a < 4096 \<Longrightarrow> PTE_CLR a b < 4096" "a < 4096 \<Longrightarrow> b < 4096 \<Longrightarrow> PTE_SET a b < 4096"
  unfolding less_4096_iff by (auto simp: PTE_CLR_def PTE_SET_def bit_and_iff bit_or_iff)

lemma PTE_flags_less: "PTE_COW < 4096" "PTE_D < 4096" "PTE_LIBRARY < 4096"
  by (simp_all add: PTE_COW_def PTE_D_def PTE_LIBRARY_def)

lemma PERM_AND_small:
  assumes "m < 4096"
  shows "PTE_PERM e AND m = e AND m"
  using assms unfolding less_4096_iff
  by (intro bit_word_eqI) (simp only: PTE_PERM_def bit_and_iff bit_4095, blast)

lemma cow_perm_less: "cow_perm (PTE_PERM e) < 4096"
  by (simp add: cow_perm_def perm_ops_less PTE_flags_less PTE_PERM_less)

lemma envid2env_self: "curenv s = Some c \<Longrightarrow> envid2env 0 p s = Some (Inr (Some c))"
  by (simp add: envid2env_def)

section \<open>Sharing one page\<close>

text \<open>C25: \<^verbatim>\<open>duppage\<close>. A writable page that is not shared becomes copy-on-write and read-only in
  the parent and in the child; any other page is mapped in the child exactly as in the
  parent. Both then lead to the same physical page, and no other mapping of any process
  changes.\<close>

theorem duppage_correct:
  assumes "pm_inv s K ext fl" and "curenv s = Some c" and "cur_pgdir s = Some dp"
    and "envid2env envid True s = Some (Inr (Some e))" and "owns s K c dp" and "owns s K e dc"
    and "dp \<noteq> dc" and "vpn < 2 ^ 20" and "\<not> is_illegal_va (push_bit 12 (word_of_nat vpn))"
    and "vmap s K (dp, vpn div 1024, vpn mod 1024) = Some en"
    and "unat (pp_ref s (PPN en)) < 65535"
    and "tab s K (dc, vpn div 1024) \<noteq> None \<or> fl \<noteq> []"
  shows "\<exists>s' fl'. duppage envid vpn s = Some s' \<and> pm_inv s' K ext fl'
    \<and> vmap s' K =
       (if en AND PTE_D \<noteq> 0 \<and> en AND PTE_LIBRARY = 0
        then (vmap s K)((dc, vpn div 1024, vpn mod 1024) \<mapsto> mk_pte (PPN en) (cow_perm (PTE_PERM en)),
                        (dp, vpn div 1024, vpn mod 1024) \<mapsto> mk_pte (PPN en) (cow_perm (PTE_PERM en)))
        else (vmap s K)((dc, vpn div 1024, vpn mod 1024) \<mapsto> mk_pte (PPN en) (PTE_PERM en)))"
proof -
  let ?va = "push_bit 12 (word_of_nat vpn) :: u32"
  have key: "vkey d ?va = (d, vpn div 1024, vpn mod 1024)" and pdx: "PDX ?va = vpn div 1024" for d
    using page_addr_index [OF assms(8)] by (simp_all add: vkey_def)
  define remap where "remap \<longleftrightarrow> PTE_PERM en AND PTE_D \<noteq> 0 \<and> PTE_PERM en AND PTE_LIBRARY = 0"
  define perm where "perm = (if remap then cow_perm (PTE_PERM en) else PTE_PERM en)"
  have remap: "remap \<longleftrightarrow> en AND PTE_D \<noteq> 0 \<and> en AND PTE_LIBRARY = 0"
    by (simp add: remap_def PERM_AND_small PTE_flags_less)
  have perm: "perm < 4096" using cow_perm_less PTE_PERM_less by (simp add: perm_def)
  have en: "vmap s K (vkey dp ?va) = Some en" using assms(10) by (simp add: key)
  obtain s1 fl1 where s1: "sys_mem_map 0 ?va envid ?va perm s = Some (Inr 0, s1)"
    "vmap s1 K = (vmap s K)(vkey dc ?va \<mapsto> mk_pte (PPN en) perm)" "pm_inv s1 K ext fl1"
    "mem_call_frame s K fl s1"
    using mem_map_ok [OF assms(1) envid2env_self [OF assms(2)] assms(4,5,6,9,9) perm _ en] assms(11,12)
    by (auto simp: pdx)
  note fr = mem_call_frame_more [OF s1(4)]
  have dup: "duppage envid vpn s = (if remap then do { (_, s2) \<leftarrow> sys_mem_map 0 ?va 0 ?va perm s1; Some s2 }
      else Some s1)"
    unfolding duppage_def vpt_mapped [OF assms(3,10)]
    using s1(1) by (cases remap) (simp_all add: Let_def remap_def [symmetric] perm_def)
  show ?thesis
  proof (cases remap)
    case False
    then show ?thesis
      using dup s1 remap by (auto simp: key perm_def)
  next
    case True
    have en1: "vmap s1 K (vkey dp ?va) = Some en"
      using en assms(7) by (simp add: s1(2) key)
    then have "tab s1 K (dp, PDX ?va) \<noteq> None \<or> fl1 \<noteq> []"
      using vmap_vkey_Some by blast
    with mem_map_ok [OF s1(3) _ _ _ _ assms(9,9) perm _ en1, of 0 c 0 c dp] assms(2,5)
    obtain s2 fl2 where s2: "sys_mem_map 0 ?va 0 ?va perm s1 = Some (Inr 0, s2)"
      "vmap s2 K = (vmap s1 K)(vkey dp ?va \<mapsto> mk_pte (PPN en) perm)" "pm_inv s2 K ext fl2"
      using envid2env_self [of s1 c] fr by auto
    then show ?thesis
      using dup True remap s1(2) by (auto simp: key perm_def)
  qed
qed

section \<open>Loads and stores of mapped words\<close>

definition page_base :: "u32 \<Rightarrow> bool" where
  "page_base b \<longleftrightarrow> unat b mod 4096 = 0 \<and> b < 0x80000000"

lemma word_in_page:
  assumes "page_base b" and "k < 1024"
  defines "va \<equiv> b + word_of_nat (4 * k)"
  shows "va < 0x80000000" and "va AND 3 = 0" and "vkey d va = vkey d b" and "VPO va div 4 = k"
proof -
  have b: "unat b mod 4096 = 0" "unat b < 0x80000000"
    using assms(1) by (simp_all add: page_base_def word_less_nat_alt)
  have k: "unat (word_of_nat (4 * k) :: u32) = 4 * k" using assms(2) by (simp only: unat_of_nat) simp
  have "unat b + 4 * k < 2 ^ 32" using b(2) assms(2) by simp
  then have va: "unat va = unat b + 4 * k" unfolding va_def unat_word_ariths(1) k by simp
  have q: "unat b = unat b div 4096 * 4096" using b(1) by (metis add_0_right div_mult_mod_eq)
  have d: "unat va div 4096 = unat b div 4096"
    unfolding va by (subst q) (use assms(2) in simp)
  have m: "unat va mod 4096 = 4 * k" using b(1) assms(2) unfolding va by (simp add: mod_add_left_eq [symmetric])
  have "unat b div 4096 < 524288" using b(2) by (intro less_mult_imp_div_less) simp
  then show "va < 0x80000000"
    using assms(2) q unfolding word_less_nat_alt va by simp
  have "unat (va AND 3) = unat va mod 4"
  proof -
    have "(3 :: u32) = mask 2" by (simp add: mask_eq_exp_minus_1)
    then have "va AND 3 = take_bit 2 va" by (simp only: take_bit_eq_mask)
    then show ?thesis by (simp add: unat_take_bit)
  qed
  moreover have "unat va mod 4 = 0"
  proof -
    have "unat va mod 4 = unat va mod 4096 mod 4" by (simp add: mod_mod_cancel)
    then show ?thesis by (simp add: m)
  qed
  ultimately show "va AND 3 = 0" by (simp add: unat_eq_zero)
  have "unat va div 4194304 = unat b div 4194304"
    using d div_mult2_eq [of "unat va" 4096 1024] div_mult2_eq [of "unat b" 4096 1024] by simp
  then show "vkey d va = vkey d b" using d by (simp add: vkey_def PDX_numeral_eq PTX_numeral_eq)
  have "VPO va = unat va mod 4096"
    by (simp only: VPO_def mask12_eq take_bit_eq_mask [symmetric] unat_take_bit) simp
  then show "VPO va div 4 = k" by (simp add: m)
qed

lemma tlb_irrelevant [simp]:
  "tab (s\<lparr>tlb := t\<rparr>) K = tab s K" "vmap (s\<lparr>tlb := t\<rparr>) K = vmap s K"
  "pm_inv (s\<lparr>tlb := t\<rparr>) K ext fl = pm_inv s K ext fl"
proof -
  show a: "tab (s\<lparr>tlb := t\<rparr>) K = tab s K" by (rule tab_cong) (simp add: pte_at_def)
  show b: "vmap (s\<lparr>tlb := t\<rparr>) K = vmap s K" by (rule vmap_cong [OF a]) (simp add: pte_at_def)
  show "pm_inv (s\<lparr>tlb := t\<rparr>) K ext fl = pm_inv s K ext fl"
    by (simp add: pm_inv_def free_inv_def tab_inv_def ref_inv_def a b)
qed

lemma data_write:
  assumes "data_page s K q"
  shows "tab (s\<lparr>pmem := (pmem s)(q := f)\<rparr>) K = tab s K" and "vmap (s\<lparr>pmem := (pmem s)(q := f)\<rparr>) K = vmap s K"
    and "pm_inv (s\<lparr>pmem := (pmem s)(q := f)\<rparr>) K ext fl = pm_inv s K ext fl"
proof -
  let ?s = "s\<lparr>pmem := (pmem s)(q := f)\<rparr>"
  show a: "tab ?s K = tab s K"
    by (rule tab_cong) (use assms in \<open>force simp: pte_at_def data_page_def\<close>)
  show b: "vmap ?s K = vmap s K"
    by (rule vmap_cong [OF a]) (use assms in \<open>force simp: pte_at_def data_page_def\<close>)
  show "pm_inv ?s K ext fl = pm_inv s K ext fl"
    by (simp add: pm_inv_def free_inv_def tab_inv_def ref_inv_def a b)
qed

lemma kaddr_mapped:
  assumes "pm_inv s K ext fl" and "cur_pgdir s = Some d" and "(d, PDX va) \<in> K"
    and "vmap s K (vkey d va) = Some e" and "va < 0x80000000"
  shows "\<exists>t. kaddr va s = Some ((PPN e, VPO va div 4, e AND PTE_D \<noteq> 0), s\<lparr>tlb := t\<rparr>)"
  using refill_mapped [OF assms(1-4)] assms(5) by (auto simp: kaddr_def tlb_refill_def Let_def)

lemma copy_user_ok:
  assumes "page_base src" and "page_base dst" and "(d, PDX src) \<in> K" and "(d, PDX dst) \<in> K"
    and "e2 AND PTE_D \<noteq> 0" and "PPN e1 \<noteq> PPN e2"
    and "pm_inv s K ext fl" and "cur_pgdir s = Some d"
    and "vmap s K (vkey d src) = Some e1" and "vmap s K (vkey d dst) = Some e2"
    and "k + n \<le> 1024"
  shows "\<exists>t. copy_user_words (dst + word_of_nat (4 * k)) (src + word_of_nat (4 * k)) n s
    = Some (s\<lparr>pmem := (pmem s)(PPN e2 := (\<lambda>w. if k \<le> w \<and> w < k + n then pmem s (PPN e1) w
                                              else pmem s (PPN e2) w)), tlb := t\<rparr>)"
  using assms(7-11)
proof (induction n arbitrary: k s)
  case 0
  have "(\<lambda>w. if k \<le> w \<and> w < k + 0 then pmem s (PPN e1) w else pmem s (PPN e2) w) = pmem s (PPN e2)"
    by (rule ext) (simp, linarith)
  then show ?case by (intro exI [of _ "tlb s"]) (simp only: fun_upd_triv copy_user_words.simps, simp)
next
  case (Suc n)
  let ?src = "src + word_of_nat (4 * k)" and ?dst = "dst + word_of_nat (4 * k)"
  have k: "k < 1024" using Suc.prems(5) by simp
  note a = word_in_page [OF assms(1) k] and b = word_in_page [OF assms(2) k]
  have pdx: "PDX ?src = PDX src" "PDX ?dst = PDX dst"
    using a(3) [of 0] b(3) [of 0] by (simp_all add: vkey_def)
  obtain t1 where t1: "load_word ?src s = Some (pmem s (PPN e1) k, s\<lparr>tlb := t1\<rparr>)"
    using kaddr_mapped [OF Suc.prems(1,2), of ?src e1] assms(3) Suc.prems(3) a pdx
    by (auto simp: load_word_def)
  let ?s1 = "s\<lparr>tlb := t1\<rparr>"
  have v2: "vmap ?s1 K (vkey d ?dst) = Some e2" using Suc.prems(4) b(3) [of d] by simp
  obtain t2 where t2: "store_word ?dst (pmem s (PPN e1) k) ?s1
      = Some (set_pte (PPN e2, k) (pmem s (PPN e1) k) (s\<lparr>tlb := t2\<rparr>))"
    using kaddr_mapped [of ?s1 K ext fl d ?dst e2] Suc.prems(1,2) v2 assms(4,5) b pdx
    by (auto simp: store_word_def)
  define s2 where "s2 = set_pte (PPN e2, k) (pmem s (PPN e1) k) (s\<lparr>tlb := t2\<rparr>)"
  have s2: "s2 = (s\<lparr>tlb := t2\<rparr>)\<lparr>pmem := (pmem (s\<lparr>tlb := t2\<rparr>))(PPN e2 := (pmem s (PPN e2))(k := pmem s (PPN e1) k))\<rparr>"
    by (simp add: s2_def set_pte_def)
  have dp: "data_page (s\<lparr>tlb := t2\<rparr>) K (PPN e2)"
    using mapped_data_page [OF Suc.prems(1,4)] by (simp add: data_page_def)
  note w = data_write [OF dp, of "(pmem s (PPN e2))(k := pmem s (PPN e1) k)", folded s2]
  have "pm_inv s2 K ext fl" "vmap s2 K = vmap s K" "cur_pgdir s2 = Some d"
    using w Suc.prems(1,2) by (simp_all add: s2)
  with Suc.IH [of s2 "Suc k"] Suc.prems obtain t where
    t: "copy_user_words (dst + word_of_nat (4 * Suc k)) (src + word_of_nat (4 * Suc k)) n s2
      = Some (s2\<lparr>pmem := (pmem s2)(PPN e2 := (\<lambda>w. if Suc k \<le> w \<and> w < Suc k + n then pmem s2 (PPN e1) w
                                              else pmem s2 (PPN e2) w)), tlb := t\<rparr>)"
    by (simp only: add_Suc_shift) blast
  have "s2\<lparr>pmem := (pmem s2)(PPN e2 := (\<lambda>w. if Suc k \<le> w \<and> w < Suc k + n then pmem s2 (PPN e1) w
                                              else pmem s2 (PPN e2) w)), tlb := t\<rparr>
      = s\<lparr>pmem := (pmem s)(PPN e2 := (\<lambda>w. if k \<le> w \<and> w < k + Suc n then pmem s (PPN e1) w
                                              else pmem s (PPN e2) w)), tlb := t\<rparr>"
    using assms(6) by (auto simp: s2 fun_eq_iff)
  moreover have "dst + word_of_nat (4 * Suc k) = ?dst + 4" "src + word_of_nat (4 * Suc k) = ?src + 4"
    by (simp_all add: algebra_simps)
  ultimately have step: "copy_user_words (?dst + 4) (?src + 4) n s2
      = Some (s\<lparr>pmem := (pmem s)(PPN e2 := (\<lambda>w. if k \<le> w \<and> w < k + Suc n then pmem s (PPN e1) w
                                              else pmem s (PPN e2) w)), tlb := t\<rparr>)"
    using t by (simp only:)
  have "copy_user_words ?dst ?src (Suc n) s = copy_user_words (?dst + 4) (?src + 4) n s2"
    by (simp only: copy_user_words.simps t1 t2 s2_def Option.bind_lunit prod.case)
  then show ?case using step by (intro exI [of _ t]) (simp only:)
qed

section \<open>The copy-on-write fault\<close>

lemma ROUNDDOWN_page: "ROUNDDOWN va BY2PG = PTE_ADDR va"
  by (simp add: ROUNDDOWN_def PTE_ADDR_def BY2PG_def)

lemma UCOW_facts: "page_base UCOW" "\<not> is_illegal_va UCOW"
  by (simp_all add: page_base_def is_illegal_va_def mmu_defs)

lemma legal_page:
  assumes "\<not> is_illegal_va va"
  shows "page_base (PTE_ADDR va)" and "\<not> is_illegal_va (PTE_ADDR va)"
proof -
  have va: "0x3FE000 \<le> unat va" "unat va < 0x7F400000"
    using assms UTEMP_nat UTOP_nat by (simp_all add: is_illegal_va_def word_less_nat_alt word_le_nat_alt)
  have "unat va div 4096 * 4096 \<le> unat va" by simp
  then have u: "unat (PTE_ADDR va) < 0x7F400000" using va(2) unat_PTE_ADDR [of va] by linarith
  then show "page_base (PTE_ADDR va)"
    by (simp add: page_base_def word_less_nat_alt unat_PTE_ADDR)
  have "0x3FE \<le> unat va div 4096" using va(1) by (simp add: less_eq_div_iff_mult_less_eq)
  then have "0x3FE000 \<le> unat (PTE_ADDR va)" unfolding unat_PTE_ADDR by simp
  then show "\<not> is_illegal_va (PTE_ADDR va)"
    using u UTEMP_nat UTOP_nat by (simp add: is_illegal_va_def word_less_nat_alt word_le_nat_alt)
qed

definition cow_done :: "u32 \<Rightarrow> u32" where
  "cow_done en = PTE_SET (PTE_CLR (PTE_PERM en) PTE_COW) PTE_D"

lemma cow_done_less: "cow_done en < 4096"
  by (simp add: cow_done_def perm_ops_less PTE_flags_less PTE_PERM_less)

lemma bit_PTE_D: "bit PTE_D n \<longleftrightarrow> n = 10"
proof -
  have D: "PTE_D = 2 ^ 10" by (simp add: PTE_D_def)
  show ?thesis unfolding D bit_push1 by auto
qed

lemma mk_pte_D:
  assumes "perm AND PTE_D \<noteq> 0"
  shows "mk_pte pp perm AND PTE_D \<noteq> 0"
  using assms and_bit_eq_0_iff [OF bit_PTE_D] by (simp add: mk_pte_def bit_or_iff)

lemma cow_done_D: "cow_done en AND PTE_D \<noteq> 0"
proof
  assume "cow_done en AND PTE_D = 0"
  then have "\<not> bit (cow_done en AND PTE_D) 10" by simp
  then show False by (simp add: cow_done_def PTE_SET_def bit_and_iff bit_or_iff bit_PTE_D)
qed

lemma UCOW_page: "PTE_ADDR UCOW = UCOW"
  by (simp add: mmu_defs PTE_ADDR_def)

lemma vkey_eqD: "vkey d a = vkey d b \<Longrightarrow> PTE_ADDR a = PTE_ADDR b"
proof -
  assume "vkey d a = vkey d b"
  then have "VPN a div 1024 = VPN b div 1024" "VPN a mod 1024 = VPN b mod 1024"
    by (simp_all add: vkey_def VPN_index)
  then have "VPN a = VPN b" by (metis div_mult_mod_eq)
  then have "unat a div 4096 = unat b div 4096" by (simp add: VPN_def unat_drop_bit)
  then show ?thesis by (simp add: word_unat_eq_iff unat_PTE_ADDR)
qed

text \<open>A page mapped once and not otherwise in use has one reference.\<close>

lemma single_ref:
  assumes "pm_inv s K ext fl" and "vmap s K k = Some e" and "ext (PPN e) = 0"
    and "\<And>k' e'. vmap s K k' = Some e' \<Longrightarrow> PPN e' = PPN e \<Longrightarrow> k' = k"
  shows "unat (pp_ref s (PPN e)) = 1"
proof -
  have p: "PPN e < npage s" "PPN e \<notin> ran (tab s K)"
    using vmap_inv_page [OF _ assms(2)] assms(1) by (auto simp: pm_inv_def)
  have "nrefs id (tab s K) (PPN e) = 0"
  proof -
    have "{k. \<exists>e'. tab s K k = Some e' \<and> id e' = PPN e} = {}" using p(2) by (auto simp: ran_def)
    then show ?thesis unfolding nrefs_def by (simp only: card.empty)
  qed
  moreover have "{k'. \<exists>e'. vmap s K k' = Some e' \<and> PPN e' = PPN e} = {k}"
    using assms(2,4) by blast
  then have "nrefs PPN (vmap s K) (PPN e) = 1" by (simp add: nrefs_def)
  ultimately show ?thesis using assms(1,3) p(1) by (simp add: pm_inv_def ref_inv_def)
qed

text \<open>C26: Copy-on-write. On a write to a copy-on-write page the handler gives the process a
  private page: the address leads to a page that was free before, writable and without
  \<^verbatim>\<open>PTE_COW\<close>, with the contents of the shared page. All other mappings, those of the page's
  other users included, and what they show are as before, except that UCOW is unmapped.\<close>

theorem cow_page_correct:
  assumes "pm_inv s K ext (p # fl)" and "curenv s = Some c" and "cur_pgdir s = Some d"
    and "owns s K c d" and "\<not> is_illegal_va va" and "PTE_ADDR va \<noteq> UCOW"
    and "vmap s K (vkey d va) = Some en" and "en AND PTE_COW \<noteq> 0"
    and "tab s K (d, PDX UCOW) \<noteq> None \<or> fl \<noteq> []"
  shows "\<exists>s' fl'. cow_page va s = Some s' \<and> pm_inv s' K ext fl'
    \<and> vmap s' K = (vmap s K)(vkey d va \<mapsto> mk_pte p (cow_done en), vkey d UCOW := None)
    \<and> (\<forall>w < 1024. pmem s' p w = pmem s (PPN en) w)
    \<and> (\<forall>k e. vmap s' K k = Some e \<and> k \<noteq> vkey d va \<longrightarrow> pmem s' (PPN e) = pmem s (PPN e))"
proof -
  let ?pg = "PTE_ADDR va" and ?U = "mk_pte p (cow_done en)"
  have va: "page_base ?pg" "\<not> is_illegal_va ?pg" by (rule legal_page [OF assms(5)])+
  have key: "vkey d ?pg = vkey d va" by (rule vkey_PTE_ADDR)
  have ne: "vkey d va \<noteq> vkey d UCOW"
    using vkey_eqD [of d va UCOW] assms(6) UCOW_page by auto
  have pn: "p < 2 ^ 20" "p < npage s" "pp_ref s p = 0"
    using assms(1) by (auto simp: pm_inv_def free_inv_def)
  have U: "PPN ?U = p" by (rule PPN_mk_pte [OF pn(1) cow_done_less])
  have fresh: "PPN e \<noteq> p" if "vmap s K k = Some e" for k e
    using used_not_free(3) [OF assms(1) _ that] by simp
  have ext: "ext p = 0" using assms(1) pn by (auto simp: pm_inv_def ref_inv_def)
  from mem_alloc_ok [OF assms(1) envid2env_self [OF assms(2)] assms(4) UCOW_facts(2) cow_done_less assms(9)]
  obtain s1 fl1 where s1: "sys_mem_alloc 0 UCOW (cow_done en) s = Some (Inr 0, s1)"
    "vmap s1 K = (vmap s K)(vkey d UCOW \<mapsto> ?U)" "pm_inv s1 K ext fl1" "mem_call_frame s K (p # fl) s1"
    by blast
  note f1 = mem_call_frame_more [OF s1(4)]
  have v1: "vmap s1 K (vkey d va) = Some en" "vmap s1 K (vkey d UCOW) = Some ?U"
    using ne assms(7) by (simp_all add: s1(2))
  have K: "(d, PDX ?pg) \<in> K" "(d, PDX UCOW) \<in> K"
    using owns_slot [OF assms(4) va(2)] owns_slot [OF assms(4) UCOW_facts(2)] by auto
  have "\<exists>t. copy_user_words UCOW ?pg 1024 s1 = Some (s1\<lparr>pmem := (pmem s1)(p := (\<lambda>w.
      if w < 1024 then pmem s1 (PPN en) w else pmem s1 p w)), tlb := t\<rparr>)"
    using copy_user_ok [OF va(1) UCOW_facts(1) K, where k = 0 and n = 1024 and s = s1
        and ?e2.0 = ?U and ?e1.0 = en and ext = ext and fl = fl1] v1 fresh [OF assms(7)] assms(3) f1 s1(3)
      mk_pte_D [OF cow_done_D]
    by (simp add: U key cong: if_cong)
  then obtain t where t: "copy_user_words UCOW ?pg 1024 s1 = Some (s1\<lparr>pmem := (pmem s1)(p := (\<lambda>w.
      if w < 1024 then pmem s1 (PPN en) w else pmem s1 p w)), tlb := t\<rparr>)" ..
  define s2 where s2': "s2 = (s1\<lparr>tlb := t\<rparr>)\<lparr>pmem := (pmem (s1\<lparr>tlb := t\<rparr>))(p := (\<lambda>w.
      if w < 1024 then pmem s1 (PPN en) w else pmem s1 p w))\<rparr>"
  have s2: "copy_user_words UCOW ?pg 1024 s1 = Some s2" unfolding t by (simp add: s2')
  have dp: "data_page (s1\<lparr>tlb := t\<rparr>) K p"
    using mapped_data_page [OF s1(3) v1(2)] by (simp add: data_page_def U)
  note w = data_write [OF dp, of "\<lambda>w. if w < 1024 then pmem s1 (PPN en) w else pmem s1 p w", folded s2']
  have i2: "tab s2 K = tab s1 K" "vmap s2 K = vmap s1 K" "pm_inv s2 K ext fl1" "cur_pgdir s2 = Some d"
      "curenv s2 = Some c" "owns s2 K c d" "PPN en \<noteq> p"
    using w s1(3) assms(2-4) f1 fresh [OF assms(7)] by (auto simp: s2' owns_def)
  have m2: "pmem s2 p w = pmem s1 (PPN en) w" if "w < 1024" for w using that by (simp add: s2')
  have m2': "pmem s2 q = pmem s1 q" if "q \<noteq> p" for q using that by (simp add: s2')
  have U2: "vmap s2 K (vkey d UCOW) = Some ?U" by (simp add: i2 v1)
  have "ext (PPN ?U) = 0" using ext by (simp add: U)
  moreover have "k = vkey d UCOW" if "vmap s2 K k = Some e" "PPN e = PPN ?U" for k e
    using that fresh [of k e] by (simp add: U i2(2) s1(2) split: if_splits)
  ultimately have ref: "unat (pp_ref s2 p) = 1"
    using single_ref [OF i2(3) U2] by (simp only: U)
  have "tab s2 K (d, PDX ?pg) \<noteq> None \<or> fl1 \<noteq> []"
    using v1(1) vmap_vkey_Some [of s2 K d ?pg en] by (auto simp: key i2)
  moreover have "unat (pp_ref s2 (PPN ?U)) < 65535 \<or> vkey d UCOW = vkey d ?pg"
    by (simp add: U ref)
  ultimately have "\<exists>s3 fl3. sys_mem_map 0 UCOW 0 ?pg (cow_done en) s2 = Some (Inr 0, s3)
      \<and> vmap s3 K = (vmap s2 K)(vkey d ?pg \<mapsto> mk_pte (PPN ?U) (cow_done en)) \<and> pm_inv s3 K ext fl3
      \<and> mem_call_frame s2 K fl1 s3"
    using mem_map_ok [OF i2(3) envid2env_self [OF i2(5)] envid2env_self [OF i2(5)] i2(6,6) UCOW_facts(2)
      va(2) cow_done_less [of en] _ U2] by blast
  then obtain s3 fl3 where s3: "sys_mem_map 0 UCOW 0 ?pg (cow_done en) s2 = Some (Inr 0, s3)"
    "vmap s3 K = (vmap s2 K)(vkey d va \<mapsto> ?U)" "pm_inv s3 K ext fl3" "mem_call_frame s2 K fl1 s3"
    unfolding U key by blast
  note f3 = mem_call_frame_more [OF s3(4)]
  have "owns s3 K c d" "curenv s3 = Some c" using i2 f3 by simp_all
  from mem_unmap_ok [OF s3(3) envid2env_self [OF this(2)] this(1) UCOW_facts(2)]
  obtain s4 fl4 where s4: "sys_mem_unmap 0 UCOW s3 = Some (Inr 0, s4)"
    "vmap s4 K = (vmap s3 K)(vkey d UCOW := None)" "pm_inv s4 K ext fl4" "mem_call_frame s3 K [] s4"
    by blast
  have "vpt_at (VPN va) s = Some en"
    by (rule vpt_mapped [OF assms(3)]) (use assms(7) in \<open>simp add: VPN_index vkey_def\<close>)
  then have run: "cow_page va s = Some s4"
    using assms(8) s1(1) s2 s3(1) s4(1)
    by (simp add: cow_page_def Let_def PERM_AND_small PTE_flags_less
        cow_done_def [symmetric] ROUNDDOWN_page)
  have vm: "vmap s4 K = (vmap s K)(vkey d va \<mapsto> ?U, vkey d UCOW := None)"
    using ne by (simp add: s4(2) s3(2) i2(2) s1(2) fun_upd_twist)
  have keep: "pmem s4 q = pmem s2 q" if "vmap s3 K k = Some e" "vmap s2 K k2 = Some e2" "PPN e = q" "PPN e2 = q" for k e k2 e2 q
    using mapped_data_page [OF s3(3) that(1)] mapped_data_page [OF i2(3) that(2)] s3(4) s4(4) that(3,4)
    by (simp add: mem_call_frame_def)
  have first: "pmem s1 (PPN e) = pmem s (PPN e)" if "vmap s K k = Some e" for k e
    using mapped_data_page [OF assms(1) that] fresh [OF that] s1(4) by (simp add: mem_call_frame_def)
  have "pmem s4 p = pmem s2 p"
    by (rule keep [of "vkey d va" ?U "vkey d UCOW" ?U]) (simp_all add: s3(2) U2 U)
  then have new: "\<forall>w < 1024. pmem s4 p w = pmem s (PPN en) w"
    using m2 first [OF assms(7)] by simp
  have "pmem s4 (PPN e) = pmem s (PPN e)" if k: "vmap s4 K k = Some e" "k \<noteq> vkey d va" for k e
  proof -
    have "k \<noteq> vkey d UCOW" "vmap s K k = Some e"
      using k by (auto simp: vm split: if_splits)
    then show ?thesis
      using keep [of k e k e] k first [of k e] m2' [of "PPN e"] fresh [of k e]
      by (simp add: s3(2) i2(2) s1(2))
  qed
  with run vm new s4(3) show ?thesis by blast
qed

section \<open>Concrete calls\<close>

text \<open>Process 0 with directory 1 and its child, process 1, with directory 3; page 0 is mapped at
  0x400000 of the parent with the given bits, through the page table in page 2.\<close>

definition kfork :: "u32 \<Rightarrow> kstate" where
  "kfork perm = kone\<lparr>
     pmem := (\<lambda>p w. if p = 1 \<and> w = 1 then mk_pte 2 PTE_D
        else if p = 2 \<and> w = 0 then mk_pte 0 perm else 0),
     npage := 8, cur_pgdir := Some 1,
     pp_ref := (\<lambda>p. if p = 0 then 2 else if p < 4 then 1 else 0),
     page_free_list := LIST_INSERT_HEAD 5 (LIST_INSERT_HEAD 6 (LIST_INIT small_free)),
     envs := (\<lambda>_. free_env)(0 := env_one,
        1 := env_one\<lparr>env_id := 0x1001, env_parent_id := 0x800, env_pgdir := Some 3\<rparr>)\<rparr>"

definition fork_ext :: "nat \<Rightarrow> nat" where
  "fork_ext p = (if p \<in> {0, 1, 3} then 1 else 0)"

definition fork_slots :: "(nat \<times> nat) set" where
  "fork_slots = uslots 1 \<union> uslots 3"

lemma kfork_pte: "pte_at k (kfork perm)
    = (if k = (1, 1) then mk_pte 2 PTE_D else if k = (2, 0) then mk_pte 0 perm else 0)"
  by (cases k) (simp add: kfork_def pte_at_def)

lemma kfork_tab: "tab (kfork perm) fork_slots = [(1, 1) \<mapsto> 2]"
  by (auto simp: tab_def kfork_pte fun_eq_iff fork_slots_def uslots_def PDX_UTOP small_PPN)

lemma kfork_vmap: "vmap (kfork perm) fork_slots = [(1, 1, 0) \<mapsto> mk_pte 0 perm]"
  unfolding vmap_def kfork_tab by (auto simp: fun_eq_iff kfork_pte split: if_splits)

lemma kfork_simps:
  "npage (kfork perm) = 8" "cur_pgdir (kfork perm) = Some 1" "curenv (kfork perm) = Some 0"
  "pp_ref (kfork perm) = (\<lambda>p. if p = 0 then 2 else if p < 4 then 1 else 0)"
  "envs (kfork perm) = (\<lambda>_. free_env)(0 := env_one,
     1 := env_one\<lparr>env_id := 0x1001, env_parent_id := 0x800, env_pgdir := Some 3\<rparr>)"
  "page_free_list (kfork perm) = LIST_INSERT_HEAD 5 (LIST_INSERT_HEAD 6 (LIST_INIT small_free))"
  by (simp_all add: kfork_def kone_simps)

lemma kfork_inv:
  assumes "perm < 4096"
  shows "pm_inv (kfork perm) fork_slots fork_ext [5, 6]"
proof -
  have ppn: "PPN (mk_pte 0 perm) = 0" by (rule PPN_mk_pte [OF _ assms]) simp
  have "lq_rep (page_free_list (kfork perm)) [5, 6]"
    unfolding kfork_simps by (intro lq_rep_insert_head lq_rep_init) simp_all
  then have "free_inv (kfork perm) [5, 6]" by (simp add: free_inv_def kfork_simps)
  moreover have "tab_inv (kfork perm) fork_slots"
    unfolding tab_inv_def kfork_tab kfork_vmap kfork_simps
    by (auto simp: fork_slots_def uslots_def ppn split: if_splits)
  moreover have "ref_inv (kfork perm) fork_slots fork_ext"
    unfolding ref_inv_def kfork_tab kfork_vmap kfork_simps
    by (auto simp: fork_slots_def uslots_def nrefs_single ppn fork_ext_def)
  ultimately show ?thesis by (simp add: pm_inv_def)
qed

lemma kfork_envs:
  "envid2env 0x1001 True (kfork perm) = Some (Inr (Some 1))"
  "owns (kfork perm) fork_slots 0 1" "owns (kfork perm) fork_slots 1 3"
  by (auto simp: envid2env_def ENVX_mod kfork_simps env_one_def free_env_def owns_def fork_slots_def)

lemma duppage_correct_witness:
  "\<exists>s'. duppage 0x1001 0x400 (kfork PTE_D) = Some s'
     \<and> vmap s' fork_slots (1, 1, 0) = Some (mk_pte 0 (cow_perm (PTE_D OR PTE_V)))
     \<and> vmap s' fork_slots (3, 1, 0) = Some (mk_pte 0 (cow_perm (PTE_D OR PTE_V)))"
proof -
  have "(push_bit 12 (word_of_nat 0x400) :: u32) = 0x400000" by simp
  then have va: "\<not> is_illegal_va (push_bit 12 (word_of_nat 0x400))" by (simp only: legal_vas not_False_eq_True)
  have en: "vmap (kfork PTE_D) fork_slots (1, 0x400 div 1024, 0x400 mod 1024) = Some (mk_pte 0 PTE_D)"
    by (simp add: kfork_vmap)
  have f: "mk_pte 0 PTE_D AND PTE_D \<noteq> 0" "mk_pte 0 PTE_D AND PTE_LIBRARY = 0"
      "PTE_PERM (mk_pte 0 PTE_D) = PTE_D OR PTE_V"
    by (simp_all add: mk_pte_def PTE_D_def PTE_V_def PTE_LIBRARY_def PTE_PERM_def page2pa_def)
  show ?thesis
    using duppage_correct [OF kfork_inv [OF PTE_D_less] kfork_simps(3,2) kfork_envs(1,2,3) _ _ va en]
    by (auto simp: f small_PPN kfork_simps)
qed

lemma cow_page_correct_witness:
  "\<exists>s'. cow_page 0x400004 (kfork PTE_COW) = Some s'
     \<and> vmap s' fork_slots (vkey 1 0x400004) = Some (mk_pte 5 (cow_done (mk_pte 0 PTE_COW)))"
proof -
  have a: "PTE_ADDR 0x400004 \<noteq> UCOW" "\<not> is_illegal_va 0x400004"
    by (simp_all add: PTE_ADDR_def is_illegal_va_def mmu_defs)
  have k: "vkey 1 0x400004 = (1, 1, 0)" by (simp add: vkey_def PDX_numeral_eq PTX_numeral_eq)
  then have en: "vmap (kfork PTE_COW) fork_slots (vkey 1 0x400004) = Some (mk_pte 0 PTE_COW)"
    by (simp add: kfork_vmap)
  have c: "mk_pte 0 PTE_COW AND PTE_COW \<noteq> 0"
    by (simp add: mk_pte_def PTE_COW_def PTE_V_def page2pa_def)
  have ne: "vkey 1 0x400004 \<noteq> vkey 1 UCOW"
    using vkey_eqD [of 1 "0x400004" UCOW] a(1) UCOW_page by auto
  show ?thesis
    using cow_page_correct [OF kfork_inv [OF PTE_flags_less(1)] kfork_simps(3,2) kfork_envs(2) a(2,1) en c] ne
    by auto
qed

end
