(* ===== verification/UserMem.thy ===== *)
theory UserMem
  imports Fork
begin

text \<open>
  The memory calls as the running process sees them: for its own environment, on addresses that
  are not mapped yet, with the exact free list afterwards, and loads and stores of words of its
  mapped pages. The user library theories rest on these.
\<close>

section \<open>The running process\<close>

text \<open>Process \<open>c\<close> with directory \<open>d\<close> runs; \<open>fl\<close> is the free list.\<close>

definition runs :: "kstate \<Rightarrow> (nat \<times> nat) set \<Rightarrow> (nat \<Rightarrow> nat) \<Rightarrow> nat list \<Rightarrow> nat \<Rightarrow> nat \<Rightarrow> bool" where
  "runs s K ext fl c d \<longleftrightarrow>
     pm_inv s K ext fl \<and> curenv s = Some c \<and> cur_pgdir s = Some d \<and> owns s K c d"

lemma runsD:
  assumes "runs s K ext fl c d"
  shows "pm_inv s K ext fl" "curenv s = Some c" "cur_pgdir s = Some d" "owns s K c d"
    "envid2env 0 p s = Some (Inr (Some c))"
  using assms envid2env_self [of s c p] by (simp_all add: runs_def)

lemma runs_slot: "runs s K ext fl c d \<Longrightarrow> \<not> is_illegal_va va \<Longrightarrow> (d, PDX va) \<in> K"
  by (auto simp: runs_def dest: owns_slot)

lemma runs_frame:
  assumes "runs s K ext fl c d" and "mem_call_frame s K fl0 s'" and "pm_inv s' K ext fl'"
  shows "runs s' K ext fl' c d"
  using assms mem_call_frame_more [OF assms(2)] by (simp add: runs_def)

text \<open>The free list after a page has been put at an unmapped address.\<close>

definition free_rest :: "kstate \<Rightarrow> (nat \<times> nat) set \<Rightarrow> nat \<Rightarrow> u32 \<Rightarrow> nat list \<Rightarrow> nat list" where
  "free_rest s K d va fl = (if tab s K (d, PDX va) = None then tl fl else fl)"

lemma set_free_rest: "set (free_rest s K d va fl) \<subseteq> set fl"
  by (cases fl) (auto simp: free_rest_def)

lemma length_free_rest: "length fl - 1 \<le> length (free_rest s K d va fl)"
  by (simp add: free_rest_def)

lemma insert_unmapped:
  assumes "pm_inv s K ext fl" and "(d, PDX va) \<in> K" and "vmap s K (vkey d va) = None"
    and "mappable s K fl pp" and "perm < 4096" and "tab s K (d, PDX va) \<noteq> None \<or> fl \<noteq> []"
  shows "\<exists>s'. page_insert d asid pp va perm s = Some (Inr (), s')
    \<and> vmap s' K = (vmap s K)(vkey d va \<mapsto> mk_pte pp perm) \<and> pm_inv s' K ext (free_rest s K d va fl)
    \<and> mem_call_frame s K fl s'"
proof -
  obtain s' where s': "page_insert d asid pp va perm s = Some (Inr (), s')"
    "vmap s' K = (vmap s K)(vkey d va \<mapsto> mk_pte pp perm)" "pm_inv s' K ext (free_rest s K d va fl)"
    using page_insert_new_ok [OF assms, of asid] page_insert_by_vmap [OF assms(1,2), of asid pp perm] assms(3)
    by (auto simp: free_rest_def)
  with mem_call_frame_insert [OF assms(1,2) s'(1)] show ?thesis by blast
qed

text \<open>Allocation and mapping for any process the caller may act for.\<close>

lemma env_alloc_page:
  assumes "pm_inv s K ext (p # fl)" and "envid2env envid True s = Some (Inr (Some e))" and "owns s K e d"
    and "\<not> is_illegal_va va" and "vmap s K (vkey d va) = None"
    and "perm < 4096" and "tab s K (d, PDX va) \<noteq> None \<or> fl \<noteq> []"
  obtains s' where "sys_mem_alloc envid va perm s = Some (Inr 0, s')"
    and "vmap s' K = (vmap s K)(vkey d va \<mapsto> mk_pte p perm)" and "pm_inv s' K ext (free_rest s K d va fl)"
    and "mem_call_frame s K (p # fl) s'" and "\<forall>w < 1024. pmem s' p w = 0"
proof -
  have k: "(d, PDX va) \<in> K" by (rule owns_slot [OF assms(3,4)])
  have fi: "free_inv s (p # fl)" using assms(1) by (simp add: pm_inv_def)
  obtain q where q: "page_alloc s = Some (Inr p, zero_page p (s\<lparr>page_free_list := q\<rparr>))" "lq_rep q fl"
    using page_alloc_cons [OF fi] by blast
  define s1 where "s1 = zero_page p (s\<lparr>page_free_list := q\<rparr>)"
  note a = pm_inv_page_alloc [OF assms(1) q(2), folded s1_def]
  have al: "page_alloc s = Some (Inr p, s1)" using q(1) by (simp add: s1_def)
  have "mappable s1 K fl p"
    using fi used_not_free [OF assms(1), of p] lists.rep_distinct [of "page_free_list s" "p # fl"] a(2)
    by (auto simp: mappable_def free_inv_def s1_def)
  from insert_unmapped [OF a(1) k _ this assms(6), of "env_asid (envs s e)"] assms(5,7)
  obtain s' where s': "page_insert d (env_asid (envs s e)) p va perm s1 = Some (Inr (), s')"
    "vmap s' K = (vmap s K)(vkey d va \<mapsto> mk_pte p perm)" "pm_inv s' K ext (free_rest s1 K d va fl)"
    "mem_call_frame s1 K fl s'"
    by (auto simp: a(2,3))
  have e1: "envs s1 = envs s" using more_eqD [OF more_page_alloc [OF al]] by simp
  have call: "sys_mem_alloc envid va perm s = Some (Inr 0, s')"
    using assms(3,4) al s'(1) e1
    by (simp add: sys_mem_alloc_def with_env_ok [OF assms(2)] owns_def)
  have "pmem s1 x = pmem s x" if "x \<noteq> p" for x using that by (simp add: s1_def)
  then have fr: "mem_call_frame s K (p # fl) s'"
    using s'(4) more_page_alloc [OF al] cur_page_alloc [OF al]
    by (auto simp: mem_call_frame_def a(2) data_page_tab [OF a(2)])
  have "data_page s K p" "p \<notin> set fl"
    using free_data_page [OF assms(1)] lists.rep_distinct [of "page_free_list s" "p # fl"] fi
    by (auto simp: free_inv_def)
  then have "pmem s' p = pmem s1 p"
    using s'(4) by (simp add: mem_call_frame_def data_page_tab [OF a(2)])
  then have z: "\<forall>w < 1024. pmem s' p w = 0" by (simp add: s1_def zero_page_def)
  have "free_rest s1 K d va fl = free_rest s K d va fl" by (simp add: free_rest_def a(2))
  then show ?thesis using that [OF call s'(2) _ fr z] s'(3) by simp
qed

lemma env_map_page:
  assumes "pm_inv s K ext fl" and "envid2env srcid True s = Some (Inr (Some e1))"
    and "envid2env dstid True s = Some (Inr (Some e2))" and "owns s K e1 d1" and "owns s K e2 d2"
    and "\<not> is_illegal_va src" and "\<not> is_illegal_va dst"
    and "vmap s K (vkey d1 src) = Some e" and "vmap s K (vkey d2 dst) = None" and "perm < 4096"
    and "unat (pp_ref s (PPN e)) < 65535" and "tab s K (d2, PDX dst) \<noteq> None \<or> fl \<noteq> []"
  obtains s' where "sys_mem_map srcid src dstid dst perm s = Some (Inr 0, s')"
    and "vmap s' K = (vmap s K)(vkey d2 dst \<mapsto> mk_pte (PPN e) perm)" and "pm_inv s' K ext (free_rest s K d2 dst fl)"
    and "mem_call_frame s K fl s'"
proof -
  have k: "(d1, PDX src) \<in> K" "(d2, PDX dst) \<in> K" using owns_slot assms(4-7) by auto
  have ti: "tab_inv s K" using assms(1) by (simp add: pm_inv_def)
  have "PPN e \<notin> set fl" using used_not_free(3) [OF assms(1), of "PPN e"] assms(8) by blast
  then have "mappable s K fl (PPN e)"
    using vmap_inv_page [OF ti assms(8)] assms(11) by (simp add: mappable_def)
  from insert_unmapped [OF assms(1) k(2) assms(9) this assms(10,12), of "env_asid (envs s e2)"]
  obtain s' where s': "page_insert d2 (env_asid (envs s e2)) (PPN e) dst perm s = Some (Inr (), s')"
    "vmap s' K = (vmap s K)(vkey d2 dst \<mapsto> mk_pte (PPN e) perm)" "pm_inv s' K ext (free_rest s K d2 dst fl)"
    "mem_call_frame s K fl s'" by blast
  have "sys_mem_map srcid src dstid dst perm s = insert_ret (page_insert d2 (env_asid (envs s e2)) (PPN e) dst perm s)"
    using assms(4-7) page_lookup_vmap [OF ti k(1)] assms(8)
    by (simp add: sys_mem_map_def with_env_ok [OF assms(2)] with_env_ok [OF assms(3)] owns_def cong: option.case_cong)
  with s' that [of s'] show ?thesis by simp
qed

lemma cur_alloc:
  assumes "runs s K ext (p # fl) c d" and "\<not> is_illegal_va va" and "vmap s K (vkey d va) = None"
    and "perm < 4096" and "tab s K (d, PDX va) \<noteq> None \<or> fl \<noteq> []"
  obtains s' where "sys_mem_alloc 0 va perm s = Some (Inr 0, s')"
    and "vmap s' K = (vmap s K)(vkey d va \<mapsto> mk_pte p perm)" and "runs s' K ext (free_rest s K d va fl) c d"
    and "mem_call_frame s K (p # fl) s'" and "\<forall>w < 1024. pmem s' p w = 0"
  by (rule env_alloc_page [OF runsD(1) [OF assms(1)] runsD(5) [OF assms(1)] runsD(4) [OF assms(1)] assms(2-5)])
    (use that runs_frame [OF assms(1)] in blast)

lemma cur_alloc_empty:
  assumes "runs s K ext [] c d" and "\<not> is_illegal_va va"
  shows "sys_mem_alloc 0 va perm s = Some (Inl E_NO_MEM, s)"
  using assms page_alloc_empty [of s] runsD [OF assms(1)]
  by (simp add: sys_mem_alloc_def with_env_ok [OF runsD(5) [OF assms(1)]] pm_inv_def)

lemma cur_map:
  assumes "runs s K ext fl c d" and "\<not> is_illegal_va src" and "\<not> is_illegal_va dst"
    and "vmap s K (vkey d src) = Some e" and "vmap s K (vkey d dst) = None" and "perm < 4096"
    and "unat (pp_ref s (PPN e)) < 65535" and "tab s K (d, PDX dst) \<noteq> None \<or> fl \<noteq> []"
  obtains s' where "sys_mem_map 0 src 0 dst perm s = Some (Inr 0, s')"
    and "vmap s' K = (vmap s K)(vkey d dst \<mapsto> mk_pte (PPN e) perm)" and "runs s' K ext (free_rest s K d dst fl) c d"
    and "mem_call_frame s K fl s'"
  by (rule env_map_page [OF runsD(1) [OF assms(1)] runsD(5) [OF assms(1)] runsD(5) [OF assms(1)]
        runsD(4) [OF assms(1)] runsD(4) [OF assms(1)] assms(2-8)]) (use that runs_frame [OF assms(1)] in blast)

lemma cur_unmap:
  assumes "runs s K ext fl c d" and "\<not> is_illegal_va va"
  obtains s' fl' where "sys_mem_unmap 0 va s = Some (Inr 0, s')"
    and "vmap s' K = (vmap s K)(vkey d va := None)" and "runs s' K ext fl' c d"
    and "mem_call_frame s K [] s'"
  using mem_unmap_ok [OF runsD(1) [OF assms(1)] runsD(5) [OF assms(1)] runsD(4) [OF assms(1)] assms(2)]
    runs_frame [OF assms(1)] by blast

lemma cur_unmap_mapped:
  assumes "runs s K ext fl c d" and "\<not> is_illegal_va va" and "vmap s K (vkey d va) = Some e"
  obtains s' where "sys_mem_unmap 0 va s = Some (Inr 0, s')"
    and "vmap s' K = (vmap s K)(vkey d va := None)"
    and "runs s' K ext (if pp_ref s (PPN e) = 1 then PPN e # fl else fl) c d"
    and "mem_call_frame s K [] s'" and "tab s' K = tab s K" and "pmem s' d = pmem s d"
proof -
  note r = runsD [OF assms(1)]
  have k: "(d, PDX va) \<in> K" by (rule runs_slot [OF assms(1,2)])
  let ?t = "PPN (pte_at (d, PDX va) s)"
  let ?s' = "tlb_invalidate (env_asid (envs s c)) va (set_pte (?t, PTX va) 0 (decref_state (PPN e) s))"
  note m = page_remove_mapped [OF r(1) k assms(3), of "env_asid (envs s c)"]
  have call: "sys_mem_unmap 0 va s = Some (Inr 0, ?s')"
    using m(1) assms(2) r(4) by (simp add: sys_mem_unmap_def with_env_ok [OF r(5)] owns_def)
  have fr: "mem_call_frame s K [] ?s'"
    using tab_page_remove [OF r(1) k m(1)] pmem_page_remove [OF r(1) k m(1)]
      more_page_remove [OF m(1)] cur_page_remove [OF m(1)]
    by (simp add: mem_call_frame_def)
  obtain t where "tab s K (d, PDX va) = Some t" using assms(3) by (auto dest: vmap_vkey_Some)
  then have "?t \<notin> fst ` K" using tab_inv_page [of s K] r(1) by (auto simp: tab_Some pm_inv_def)
  then have "d \<noteq> ?t" using k by force
  then have "pmem ?s' d = pmem s d" by simp
  with that [OF call m(3) runs_frame [OF assms(1) fr m(4)] fr m(2)] show ?thesis by blast
qed

section \<open>Words of mapped pages\<close>

lemma runs_tlb [simp]: "runs (s\<lparr>tlb := t\<rparr>) K ext fl c d = runs s K ext fl c d"
  by (simp add: runs_def owns_def)

lemma cur_load:
  assumes "runs s K ext fl c d" and "page_base b" and "k < 1024" and "\<not> is_illegal_va b"
    and "vmap s K (vkey d b) = Some e"
  obtains t where "load_word (b + word_of_nat (4 * k)) s = Some (pmem s (PPN e) k, s\<lparr>tlb := t\<rparr>)"
proof -
  let ?va = "b + word_of_nat (4 * k)"
  note w = word_in_page [OF assms(2,3)]
  have "PDX ?va = PDX b" using w(3) [of 0] by (simp add: vkey_def)
  then show ?thesis
    using kaddr_mapped [of s K ext fl d ?va e] runsD [OF assms(1)] runs_slot [OF assms(1,4)] assms(5) w that
    by (auto simp: load_word_def)
qed

lemma cur_store:
  assumes "runs s K ext fl c d" and "page_base b" and "k < 1024" and "\<not> is_illegal_va b"
    and "vmap s K (vkey d b) = Some e" and "e AND PTE_D \<noteq> 0"
  obtains s' where "store_word (b + word_of_nat (4 * k)) v s = Some s'"
    and "vmap s' K = vmap s K" and "tab s' K = tab s K" and "runs s' K ext fl c d"
    and "pmem s' = (pmem s)(PPN e := (pmem s (PPN e))(k := v))"
proof -
  let ?va = "b + word_of_nat (4 * k)" and ?f = "(pmem s (PPN e))(k := v)"
  note w = word_in_page [OF assms(2,3)]
  have "PDX ?va = PDX b" using w(3) [of 0] by (simp add: vkey_def)
  then obtain t where t: "store_word ?va v s = Some (set_pte (PPN e, k) v (s\<lparr>tlb := t\<rparr>))"
    using kaddr_mapped [of s K ext fl d ?va e] runsD [OF assms(1)] runs_slot [OF assms(1,4)] assms(5,6) w
    by (auto simp: store_word_def)
  let ?s = "s\<lparr>tlb := t\<rparr>"
  let ?s' = "?s\<lparr>pmem := (pmem ?s)(PPN e := ?f)\<rparr>"
  have eq: "set_pte (PPN e, k) v ?s = ?s'" by (simp add: set_pte_def)
  have "data_page ?s K (PPN e)"
    using mapped_data_page [OF runsD(1) [OF assms(1)] assms(5)] by (simp add: data_page_def)
  note dw = data_write [OF this, of ?f]
  have "runs ?s' K ext fl c d"
    using assms(1) dw(3) by (simp add: runs_def owns_def)
  then show ?thesis using that [of ?s'] t dw(1,2) by (simp add: eq)
qed

section \<open>Every outcome of an allocation\<close>

text \<open>The last free page is taken for the new mapping, and none is left for its page table.\<close>

lemma cur_alloc_leak:
  assumes "runs s K ext [p] c d" and "\<not> is_illegal_va va" and "tab s K (d, PDX va) = None"
  obtains s' where "sys_mem_alloc 0 va perm s = Some (Inl E_NO_MEM, s')" and "vmap s' K = vmap s K"
    and "runs s' K ext [] c d" and "pp_ref s' p = 0"
proof -
  note r = runsD [OF assms(1)]
  have k: "(d, PDX va) \<in> K" by (rule runs_slot [OF assms(1,2)])
  have fi: "free_inv s [p]" using r(1) by (simp add: pm_inv_def)
  obtain q where q: "page_alloc s = Some (Inr p, zero_page p (s\<lparr>page_free_list := q\<rparr>))" "lq_rep q []"
    using page_alloc_cons [OF fi] by blast
  define s1 where "s1 = zero_page p (s\<lparr>page_free_list := q\<rparr>)"
  note a = pm_inv_page_alloc [OF r(1) q(2), folded s1_def]
  have al: "page_alloc s = Some (Inr p, s1)" using q(1) by (simp add: s1_def)
  have t1: "tab s1 K (d, PDX va) = None" using assms(3) by (simp add: a(2))
  let ?a = "env_asid (envs s c)"
  let ?s' = "tlb_invalidate ?a va s1"
  have "page_insert d ?a p va perm s1 = Some (Inl E_NO_MEM, ?s')"
    using page_insert_new_nomem [OF a(1) k t1, of ?a p perm] page_insert_by_vmap [OF a(1) k, of ?a p perm]
      t1 by (simp add: vmap_def vkey_def)
  moreover have e1: "envs s1 = envs s" using more_eqD [OF more_page_alloc [OF al]] by simp
  ultimately have call: "sys_mem_alloc 0 va perm s = Some (Inl E_NO_MEM, ?s')"
    using assms(2) r(4) al
    by (simp add: sys_mem_alloc_def with_env_ok [OF r(5)] owns_def insert_ret_def)
  have "vmap ?s' K = vmap s K" by (simp add: a(3))
  moreover have "curenv s1 = curenv s" "cur_pgdir s1 = cur_pgdir s"
    using more_eqD [OF more_page_alloc [OF al]] cur_page_alloc [OF al] by simp_all
  then have "runs ?s' K ext [] c d"
    using a(1) r(2-4) e1 more_eqD [of ?s' s1] by (simp add: runs_def owns_def)
  moreover have "pp_ref ?s' p = 0" using fi by (simp add: s1_def free_inv_def)
  ultimately show ?thesis using that call by blast
qed

text \<open>C13: \<^verbatim>\<open>sys_mem_alloc\<close> by a process for itself, at an address that is not mapped. Without a free
  page it answers \<^verbatim>\<open>-E_NO_MEM\<close> and changes nothing. If there is a page for the table too, or the table
  exists, the first free page is zeroed and mapped there, nothing else. If the page is the last
  one and the table is missing, the call answers \<^verbatim>\<open>-E_NO_MEM\<close> and the page is lost: it is unmapped,
  unreferenced and on no free list.\<close>

theorem sys_mem_alloc_outcomes:
  assumes "runs s K ext fl c d" and "\<not> is_illegal_va va" and "vmap s K (vkey d va) = None" and "perm < 4096"
  shows "case fl of
      [] \<Rightarrow> sys_mem_alloc 0 va perm s = Some (Inl E_NO_MEM, s)
    | p # fl' \<Rightarrow>
        if tab s K (d, PDX va) \<noteq> None \<or> fl' \<noteq> [] then
          \<exists>s'. sys_mem_alloc 0 va perm s = Some (Inr 0, s')
            \<and> vmap s' K = (vmap s K)(vkey d va \<mapsto> mk_pte p perm) \<and> (\<forall>w < 1024. pmem s' p w = 0)
            \<and> runs s' K ext (if tab s K (d, PDX va) = None then tl fl' else fl') c d
        else
          \<exists>s'. sys_mem_alloc 0 va perm s = Some (Inl E_NO_MEM, s') \<and> vmap s' K = vmap s K
            \<and> runs s' K ext [] c d \<and> pp_ref s' p = 0"
proof (cases fl)
  case Nil
  then show ?thesis using cur_alloc_empty [OF _ assms(2)] assms(1) by simp
next
  case (Cons p fl')
  note r = assms(1) [unfolded Cons]
  show ?thesis
  proof (cases "tab s K (d, PDX va) \<noteq> None \<or> fl' \<noteq> []")
    case True
    have t: "tab s K (d, PDX va) \<noteq> None \<or> fl' \<noteq> []" by (fact True)
    obtain s' where s': "sys_mem_alloc 0 va perm s = Some (Inr 0, s')"
      "vmap s' K = (vmap s K)(vkey d va \<mapsto> mk_pte p perm)" "runs s' K ext (free_rest s K d va fl') c d"
      "\<forall>w < 1024. pmem s' p w = 0"
      by (rule cur_alloc [OF r assms(2-4) t])
    then have "\<exists>s'. sys_mem_alloc 0 va perm s = Some (Inr 0, s')
        \<and> vmap s' K = (vmap s K)(vkey d va \<mapsto> mk_pte p perm) \<and> (\<forall>w < 1024. pmem s' p w = 0)
        \<and> runs s' K ext (if tab s K (d, PDX va) = None then tl fl' else fl') c d"
      unfolding free_rest_def by blast
    then show ?thesis using t Cons by simp
  next
    case False
    with r have "runs s K ext [p] c d" "tab s K (d, PDX va) = None" by auto
    then obtain s' where "sys_mem_alloc 0 va perm s = Some (Inl E_NO_MEM, s')" "vmap s' K = vmap s K"
      "runs s' K ext [] c d" "pp_ref s' p = 0"
      by (rule cur_alloc_leak [OF _ assms(2)])
    then show ?thesis using False Cons by auto
  qed
qed

definition kleak :: kstate where
  "kleak = kone\<lparr>page_free_list := LIST_INSERT_HEAD 2 (LIST_INIT small_free)\<rparr>"

lemma kleak_maps: "tab kleak K = Map.empty" "vmap kleak K = Map.empty"
  using kone_tab [of K] kone_vmap [of K] by (simp_all add: kleak_def)

lemma kleak_runs: "runs kleak (uslots 1) small_ext [2] 0 1"
proof -
  have "lq_rep (page_free_list kleak) [2]"
    unfolding kleak_def by simp (intro lq_rep_insert_head lq_rep_init, simp_all)
  then have "pm_inv kleak (uslots 1) small_ext [2]"
    using kone_inv unfolding pm_inv_def free_inv_def tab_inv_def ref_inv_def kleak_maps kone_tab kone_vmap
    by (simp add: kleak_def)
  moreover have "cur_pgdir kleak = Some 1"
    by (simp add: kleak_def kone_def small_def pm_state.defs kstate.defs)
  ultimately show ?thesis
    by (simp add: runs_def owns_def kleak_def kone_simps env_one_def)
qed

lemma sys_mem_alloc_outcomes_witness:
  "\<exists>s'. sys_mem_alloc 0 0x400000 PTE_D kleak = Some (Inl E_NO_MEM, s') \<and> pp_ref s' 2 = 0
     \<and> pm_inv s' (uslots 1) small_ext []"
  using sys_mem_alloc_outcomes [OF kleak_runs legal_vas(1) _ PTE_D_less]
  by (auto simp: kleak_maps runs_def simp del: One_nat_def)

end
