(* ===== verification/UserFd.thy ===== *)
theory UserFd
  imports UserMem
begin

text \<open>
  File descriptors of the user library (\<^verbatim>\<open>user/lib/fd.c\<close>, \<^verbatim>\<open>pageref.c\<close>, \<^verbatim>\<open>console.c\<close> and the
  creation and closing of pipes in \<^verbatim>\<open>pipe.c\<close>), run by the current process on the kernel's system
  calls. A descriptor is a page of \<^verbatim>\<open>FDTABLE\<close>, its data the 4 MB from \<^verbatim>\<open>INDEX2DATA\<close> on. Closing a file
  asks the file server, which is the argument \<open>fclose\<close>. The messages of \<^verbatim>\<open>debugf\<close> are left out.
\<close>

section \<open>Addresses\<close>

definition MAXFD :: nat where "MAXFD = 32"
definition FILEBASE :: u32 where "FILEBASE = 0x60000000"
definition FDTABLE :: u32 where "FDTABLE = FILEBASE - PDMAP"

definition INDEX2FD :: "int \<Rightarrow> u32" where
  "INDEX2FD i = FDTABLE + word_of_int i * BY2PG"

definition INDEX2DATA :: "int \<Rightarrow> u32" where
  "INDEX2DATA i = FILEBASE + word_of_int i * PDMAP"

definition fd2num :: "u32 \<Rightarrow> int" where
  "fd2num fd = sint ((fd - FDTABLE) div BY2PG)"

definition fd2data :: "u32 \<Rightarrow> u32" where
  "fd2data fd = INDEX2DATA (fd2num fd)"

definition num2fd :: "int \<Rightarrow> u32" where
  "num2fd fd = word_of_int fd * BY2PG + FDTABLE"

section \<open>The descriptor table\<close>

text \<open>
  Reading \<^verbatim>\<open>vpt\<close> below an invalid directory entry goes through the self-map like any other
  access: it raises a TLB refill, which allocates an empty page table.
\<close>

definition vpt_read :: "nat \<Rightarrow> kstate \<Rightarrow> (u32 \<times> kstate) option" where
  "vpt_read vpn s = do {
     pde \<leftarrow> vpd_at (vpn div 1024) s;
     if pte_valid pde then Some (pte_at (PPN pde, vpn mod 1024) s, s)
     else load_word (UVPT + 4 * word_of_nat vpn) s
   }"

fun fd_scan :: "nat list \<Rightarrow> kstate \<Rightarrow> (kerr + u32) option" where
  "fd_scan [] s = Some (Inl E_MAX_OPEN)"
| "fd_scan (fdno # fdnos) s = do {
     let va = INDEX2FD (int fdno);
     pde \<leftarrow> vpd_at (PDX va) s;
     if \<not> pte_valid pde then Some (Inr va)
     else do {
       pte \<leftarrow> vpt_at (VPN va) s;
       if \<not> pte_valid pte then Some (Inr va) else fd_scan fdnos s
     }
   }"

definition fd_alloc :: "kstate \<Rightarrow> (kerr + u32) option" where
  "fd_alloc s = fd_scan [0..<MAXFD - 1] s"

definition fd_close :: "u32 \<Rightarrow> kstate \<Rightarrow> kstate option" where
  "fd_close fd s = map_option snd (sys_mem_unmap 0 fd s)"

definition fd_lookup :: "int \<Rightarrow> kstate \<Rightarrow> ((kerr + u32) \<times> kstate) option" where
  "fd_lookup fdnum s =
     (if int MAXFD \<le> fdnum then Some (Inl E_INVAL, s)
      else do {
        let va = INDEX2FD fdnum;
        (pte, s1) \<leftarrow> vpt_read (VPN va) s;
        Some (if pte_valid pte then Inr va else Inl E_INVAL, s1)
      })"

section \<open>Devices\<close>

datatype dev = Devfile | Devcons | Devpipe

fun dev_id :: "dev \<Rightarrow> u32" where
  "dev_id Devfile = 102"
| "dev_id Devcons = 99"
| "dev_id Devpipe = 112"

definition devtab :: "dev list" where
  "devtab = [Devfile, Devcons, Devpipe]"

definition dev_lookup :: "u32 \<Rightarrow> kerr + dev" where
  "dev_lookup i = (case find (\<lambda>d. dev_id d = i) devtab of Some d \<Rightarrow> Inr d | None \<Rightarrow> Inl E_INVAL)"

definition pipe_close :: "u32 \<Rightarrow> kstate \<Rightarrow> ((kerr + u32) \<times> kstate) option" where
  "pipe_close fd s = do {
     (_, s1) \<leftarrow> sys_mem_unmap 0 fd s;
     (_, s2) \<leftarrow> sys_mem_unmap 0 (fd2data fd) s1;
     Some (Inr 0, s2)
   }"

type_synonym fserver = "u32 \<Rightarrow> kstate \<Rightarrow> ((kerr + u32) \<times> kstate) option"

fun dev_close :: "fserver \<Rightarrow> dev \<Rightarrow> fserver" where
  "dev_close fclose Devfile fd s = fclose fd s"
| "dev_close fclose Devcons fd s = Some (Inr 0, s)"
| "dev_close fclose Devpipe fd s = pipe_close fd s"

text \<open>\<^verbatim>\<open>fd_dev_id\<close>, \<^verbatim>\<open>fd_offset\<close> and \<^verbatim>\<open>fd_omode\<close> are the words at 0, 4 and 8 of a descriptor page.\<close>

definition fd_dev :: "u32 \<Rightarrow> kstate \<Rightarrow> ((kerr + dev) \<times> kstate) option" where
  "fd_dev fd s = do { (i, s1) \<leftarrow> load_word fd s; Some (dev_lookup i, s1) }"

definition close :: "fserver \<Rightarrow> int \<Rightarrow> kstate \<Rightarrow> ((kerr + u32) \<times> kstate) option" where
  "close fclose fdnum s = do {
     (r, s1) \<leftarrow> fd_lookup fdnum s;
     case r of
       Inl e \<Rightarrow> Some (Inl e, s1)
     | Inr fd \<Rightarrow> do {
         (r2, s2) \<leftarrow> fd_dev fd s1;
         case r2 of
           Inl e \<Rightarrow> Some (Inl e, s2)
         | Inr dev \<Rightarrow> do {
             (r3, s3) \<leftarrow> dev_close fclose dev fd s2;
             s4 \<leftarrow> fd_close fd s3;
             Some (r3, s4)
           }
       }
   }"

fun close_list :: "fserver \<Rightarrow> nat list \<Rightarrow> kstate \<Rightarrow> kstate option" where
  "close_list fclose [] s = Some s"
| "close_list fclose (i # is) s = do { (_, s1) \<leftarrow> close fclose (int i) s; close_list fclose is s1 }"

definition close_all :: "fserver \<Rightarrow> kstate \<Rightarrow> kstate option" where
  "close_all fclose s = close_list fclose [0..<MAXFD] s"

section \<open>Duplication\<close>

definition DL :: u32 where "DL = PTE_D OR PTE_LIBRARY"

text \<open>The loop over the data pages; \<open>Inl\<close> is the jump to \<^verbatim>\<open>err\<close> with the result of the call.\<close>

fun dup_data :: "nat list \<Rightarrow> u32 \<Rightarrow> u32 \<Rightarrow> kstate \<Rightarrow> ((kerr + unit) \<times> kstate) option" where
  "dup_data [] ova nva s = Some (Inr (), s)"
| "dup_data (i # is) ova nva s = do {
     let off = word_of_nat i * BY2PG;
     pte \<leftarrow> vpt_at (VPN (ova + off)) s;
     if pte_valid pte then do {
       (r, s1) \<leftarrow> sys_mem_map 0 (ova + off) 0 (nva + off) (pte AND DL) s;
       case r of Inl e \<Rightarrow> Some (Inl e, s1) | Inr _ \<Rightarrow> dup_data is ova nva s1
     }
     else dup_data is ova nva s
   }"

fun unmap_data :: "nat list \<Rightarrow> u32 \<Rightarrow> kstate \<Rightarrow> kstate option" where
  "unmap_data [] nva s = Some s"
| "unmap_data (i # is) nva s = do {
     (_, s1) \<leftarrow> sys_mem_unmap 0 (nva + word_of_nat i * BY2PG) s;
     unmap_data is nva s1
   }"

definition dup_undo :: "kerr \<Rightarrow> u32 \<Rightarrow> u32 \<Rightarrow> kstate \<Rightarrow> ((kerr + int) \<times> kstate) option" where
  "dup_undo e newfd nva s = do {
     (_, s1) \<leftarrow> sys_mem_unmap 0 newfd s;
     s2 \<leftarrow> unmap_data [0..<1024] nva s1;
     Some (Inl e, s2)
   }"

definition dup :: "fserver \<Rightarrow> int \<Rightarrow> int \<Rightarrow> kstate \<Rightarrow> ((kerr + int) \<times> kstate) option" where
  "dup fclose oldfdnum newfdnum s = do {
     (r, s1) \<leftarrow> fd_lookup oldfdnum s;
     case r of
       Inl e \<Rightarrow> Some (Inl e, s1)
     | Inr oldfd \<Rightarrow> do {
         (_, s2) \<leftarrow> close fclose newfdnum s1;
         let newfd = INDEX2FD newfdnum;
         let ova = fd2data oldfd;
         let nva = fd2data newfd;
         pde \<leftarrow> vpd_at (PDX ova) s2;
         (r3, s3) \<leftarrow> (if pde \<noteq> 0 then dup_data [0..<1024] ova nva s2 else Some (Inr (), s2));
         case r3 of
           Inl e \<Rightarrow> dup_undo e newfd nva s3
         | Inr _ \<Rightarrow> do {
             (pte, s4) \<leftarrow> vpt_read (VPN oldfd) s3;
             (r5, s5) \<leftarrow> sys_mem_map 0 oldfd 0 newfd (pte AND DL) s4;
             case r5 of Inl e \<Rightarrow> dup_undo e newfd nva s5 | Inr _ \<Rightarrow> Some (Inr newfdnum, s5)
           }
       }
   }"

section \<open>Reference counts, the console and pipes\<close>

definition user_pageref :: "u32 \<Rightarrow> kstate \<Rightarrow> u16 option" where
  "user_pageref v s = do {
     pde \<leftarrow> vpd_at (PDX v) s;
     if \<not> pte_valid pde then Some 0
     else do {
       pte \<leftarrow> vpt_at (VPN v) s;
       Some (if pte_valid pte then pp_ref s (PPN pte) else 0)
     }
   }"

definition iscons :: "int \<Rightarrow> kstate \<Rightarrow> ((kerr + bool) \<times> kstate) option" where
  "iscons fdnum s = do {
     (r, s1) \<leftarrow> fd_lookup fdnum s;
     case r of
       Inl e \<Rightarrow> Some (Inl e, s1)
     | Inr fd \<Rightarrow> do { (i, s2) \<leftarrow> load_word fd s1; Some (Inr (i = dev_id Devcons), s2) }
   }"

definition opencons :: "kstate \<Rightarrow> ((kerr + int) \<times> kstate) option" where
  "opencons s = do {
     r \<leftarrow> fd_alloc s;
     case r of
       Inl e \<Rightarrow> Some (Inl e, s)
     | Inr fd \<Rightarrow> do {
         (r1, s1) \<leftarrow> sys_mem_alloc 0 fd DL s;
         case r1 of
           Inl e \<Rightarrow> Some (Inl e, s1)
         | Inr _ \<Rightarrow> do {
             s2 \<leftarrow> store_word fd (dev_id Devcons) s1;
             s3 \<leftarrow> store_word (fd + 8) O_RDWR s2;
             Some (Inr (fd2num fd), s3)
           }
       }
   }"

text \<open>\<^verbatim>\<open>fd_alloc\<close> and \<^verbatim>\<open>syscall_mem_alloc\<close> joined by \<^verbatim>\<open>||\<close>.\<close>

definition new_fd :: "kstate \<Rightarrow> ((kerr + u32) \<times> kstate) option" where
  "new_fd s = do {
     r \<leftarrow> fd_alloc s;
     case r of
       Inl e \<Rightarrow> Some (Inl e, s)
     | Inr fd \<Rightarrow> do {
         (r1, s1) \<leftarrow> sys_mem_alloc 0 fd DL s;
         Some (map_sum id (\<lambda>_. fd) r1, s1)
       }
   }"

text \<open>\<^verbatim>\<open>unmaps\<close> are the labels \<^verbatim>\<open>err3\<close>, \<^verbatim>\<open>err2\<close>, \<^verbatim>\<open>err1\<close> that are passed on the way out.\<close>

fun unmaps :: "u32 list \<Rightarrow> kstate \<Rightarrow> kstate option" where
  "unmaps [] s = Some s"
| "unmaps (va # vas) s = do { (_, s1) \<leftarrow> sys_mem_unmap 0 va s; unmaps vas s1 }"

definition pipe_err :: "kerr \<Rightarrow> u32 list \<Rightarrow> kstate \<Rightarrow> ((kerr + int \<times> int) \<times> kstate) option" where
  "pipe_err e vas s = do { s1 \<leftarrow> unmaps vas s; Some (Inl e, s1) }"

definition pipe :: "kstate \<Rightarrow> ((kerr + int \<times> int) \<times> kstate) option" where
  "pipe s = do {
     (r0, s0) \<leftarrow> new_fd s;
     case r0 of Inl e \<Rightarrow> pipe_err e [] s0 | Inr fd0 \<Rightarrow> do {
       (r1, s1) \<leftarrow> new_fd s0;
       case r1 of Inl e \<Rightarrow> pipe_err e [fd0] s1 | Inr fd1 \<Rightarrow> do {
         let va = fd2data fd0;
         (r2, s2) \<leftarrow> sys_mem_alloc 0 va DL s1;
         case r2 of Inl e \<Rightarrow> pipe_err e [fd1, fd0] s2 | Inr _ \<Rightarrow> do {
           (r3, s3) \<leftarrow> sys_mem_map 0 va 0 (fd2data fd1) DL s2;
           case r3 of Inl e \<Rightarrow> pipe_err e [va, fd1, fd0] s3 | Inr _ \<Rightarrow> do {
             s4 \<leftarrow> store_word fd0 (dev_id Devpipe) s3;
             s5 \<leftarrow> store_word (fd0 + 8) O_RDONLY s4;
             s6 \<leftarrow> store_word fd1 (dev_id Devpipe) s5;
             s7 \<leftarrow> store_word (fd1 + 8) O_WRONLY s6;
             Some (Inr (fd2num fd0, fd2num fd1), s7)
           }
         }
       }
     }
   }"

definition pipe_stat :: "u32 \<Rightarrow> u32 \<Rightarrow> kstate \<Rightarrow> (int \<times> kstate) option" where
  "pipe_stat fd stat s = Some (0, s)"

section \<open>Reading, writing and seeking\<close>

text \<open>
  The transfers of the devices are an argument: \<^verbatim>\<open>dev_read\<close> or \<^verbatim>\<open>dev_write\<close> of a device on
  descriptor, buffer, length and offset. The results are C integers.
\<close>

type_synonym devio = "dev \<Rightarrow> u32 \<Rightarrow> u32 \<Rightarrow> u32 \<Rightarrow> u32 \<Rightarrow> kstate \<Rightarrow> (int \<times> kstate) option"

text \<open>The device and the descriptor of a number, or the error of the first call that fails.\<close>

definition fd_find :: "int \<Rightarrow> kstate \<Rightarrow> ((kerr + u32 \<times> dev) \<times> kstate) option" where
  "fd_find fdnum s = do {
     (r, s1) \<leftarrow> fd_lookup fdnum s;
     case r of
       Inl e \<Rightarrow> Some (Inl e, s1)
     | Inr fd \<Rightarrow> do { (r2, s2) \<leftarrow> fd_dev fd s1; Some (map_sum id (\<lambda>dev. (fd, dev)) r2, s2) }
   }"

definition transfer :: "devio \<Rightarrow> dev \<Rightarrow> u32 \<Rightarrow> u32 \<Rightarrow> u32 \<Rightarrow> kstate \<Rightarrow> (int \<times> kstate) option" where
  "transfer io dev fd buf n s = do {
     (off, s1) \<leftarrow> load_word (fd + 4) s;
     (r, s2) \<leftarrow> io dev fd buf n off s1;
     if 0 < r then do {
       (off2, s3) \<leftarrow> load_word (fd + 4) s2;
       s4 \<leftarrow> store_word (fd + 4) (off2 + word_of_int r) s3;
       Some (r, s4)
     }
     else Some (r, s2)
   }"

definition fd_read :: "devio \<Rightarrow> int \<Rightarrow> u32 \<Rightarrow> u32 \<Rightarrow> kstate \<Rightarrow> (int \<times> kstate) option" where
  "fd_read io fdnum buf n s = do {
     (r, s1) \<leftarrow> fd_find fdnum s;
     case r of
       Inl e \<Rightarrow> Some (- errno e, s1)
     | Inr (fd, dev) \<Rightarrow> do {
         (mode, s2) \<leftarrow> load_word (fd + 8) s1;
         if mode = O_WRONLY then Some (- errno E_INVAL, s2) else transfer io dev fd buf n s2
       }
   }"

definition fd_write :: "devio \<Rightarrow> int \<Rightarrow> u32 \<Rightarrow> u32 \<Rightarrow> kstate \<Rightarrow> (int \<times> kstate) option" where
  "fd_write io fdnum buf n s = do {
     (r, s1) \<leftarrow> fd_find fdnum s;
     case r of
       Inl e \<Rightarrow> Some (- errno e, s1)
     | Inr (fd, dev) \<Rightarrow> do {
         (mode, s2) \<leftarrow> load_word (fd + 8) s1;
         if mode AND 3 = O_RDONLY then Some (- errno E_INVAL, s2) else transfer io dev fd buf n s2
       }
   }"

text \<open>\<^verbatim>\<open>tot\<close> is an \<^verbatim>\<open>int\<close> that is compared as unsigned.\<close>

partial_function (option) readn :: "devio \<Rightarrow> int \<Rightarrow> u32 \<Rightarrow> u32 \<Rightarrow> u32 \<Rightarrow> kstate \<Rightarrow> (int \<times> kstate) option" where
  "readn io fdnum buf n tot s =
     (if tot < n then do {
        (m, s1) \<leftarrow> fd_read io fdnum (buf + tot) (n - tot) s;
        if m < 0 then Some (m, s1)
        else if m = 0 then Some (sint tot, s1)
        else readn io fdnum buf n (tot + word_of_int m) s1
      }
      else Some (sint tot, s))"

definition seek :: "int \<Rightarrow> u32 \<Rightarrow> kstate \<Rightarrow> (int \<times> kstate) option" where
  "seek fdnum offset s = do {
     (r, s1) \<leftarrow> fd_lookup fdnum s;
     case r of
       Inl e \<Rightarrow> Some (- errno e, s1)
     | Inr fd \<Rightarrow> do { s2 \<leftarrow> store_word (fd + 4) offset s1; Some (0, s2) }
   }"

text \<open>\<^verbatim>\<open>syscall_cgetc\<close> waits for a character, so the retry after 0 is never taken; it is \<open>None\<close>.\<close>

definition cons_read :: "u32 \<Rightarrow> u32 \<Rightarrow> u32 \<Rightarrow> u32 \<Rightarrow> kstate \<Rightarrow> (int \<times> kstate) option" where
  "cons_read fd buf n offset s =
     (if n = 0 then Some (0, s)
      else do {
        (r, s1) \<leftarrow> sys_cgetc s;
        let c = (case r of Inl e \<Rightarrow> - errno e | Inr v \<Rightarrow> sint v);
        if c = 0 then None
        else if c < 0 then Some (c, s1)
        else if c = 4 then Some (0, s1)
        else do { s2 \<leftarrow> store_byte buf (word_of_int c) s1; Some (1, s2) }
      })"

definition cons_write :: "u32 \<Rightarrow> u32 \<Rightarrow> u32 \<Rightarrow> u32 \<Rightarrow> kstate \<Rightarrow> (int \<times> kstate) option" where
  "cons_write fd buf n offset s = do {
     (r, s1) \<leftarrow> sys_print_cons buf n s;
     Some (case r of Inl e \<Rightarrow> - errno e | Inr _ \<Rightarrow> sint n, s1)
   }"

section \<open>Where descriptors and their data lie\<close>

lemma unat_INDEX2FD: "i < 1024 \<Longrightarrow> unat (INDEX2FD (int i)) = 0x5FC00000 + i * 4096"
  by (simp add: INDEX2FD_def FDTABLE_def FILEBASE_def PDMAP_def BY2PG_def unat_word_ariths unat_of_nat)

lemma unat_INDEX2DATA: "i < 64 \<Longrightarrow> unat (INDEX2DATA (int i)) = 0x60000000 + i * 0x400000"
  by (simp add: INDEX2DATA_def FILEBASE_def PDMAP_def unat_word_ariths unat_of_nat)

lemma fd_key: "i < 1024 \<Longrightarrow> vkey d (INDEX2FD (int i)) = (d, 383, i)"
proof -
  assume i: "i < 1024"
  have "(0x5FC00000 + i * 4096) div 4194304 = 383" by (rule div_nat_eqI) (use i in simp_all)
  moreover have "(392192 + i) mod 1024 = i" using mod_mult_self1 [of i 383 1024] i by (simp add: add.commute)
  ultimately show ?thesis using i by (simp add: vkey_def PDX_numeral_eq PTX_numeral_eq unat_INDEX2FD)
qed

lemma data_key: "i < 64 \<Longrightarrow> vkey d (INDEX2DATA (int i)) = (d, 384 + i, 0)"
  by (simp add: vkey_def PDX_numeral_eq PTX_numeral_eq unat_INDEX2DATA)

lemma fd_page:
  assumes "i < 1024"
  shows "page_base (INDEX2FD (int i))" "\<not> is_illegal_va (INDEX2FD (int i))"
  using assms UTEMP_nat UTOP_nat
  by (simp_all add: page_base_def is_illegal_va_def word_less_nat_alt word_le_nat_alt unat_INDEX2FD)

lemma data_page_base:
  assumes "i < 64"
  shows "page_base (INDEX2DATA (int i))" "\<not> is_illegal_va (INDEX2DATA (int i))"
  using assms UTEMP_nat UTOP_nat
  by (simp_all add: page_base_def is_illegal_va_def word_less_nat_alt word_le_nat_alt unat_INDEX2DATA)

lemma fd2num_INDEX2FD: "i < 1024 \<Longrightarrow> fd2num (INDEX2FD (int i)) = int i"
proof -
  assume i: "i < 1024"
  have "INDEX2FD (int i) - FDTABLE = word_of_nat (i * 4096)"
    by (simp add: INDEX2FD_def BY2PG_def)
  then have "unat ((INDEX2FD (int i) - FDTABLE) div BY2PG) = i"
    by (simp only: unat_div unat_of_nat BY2PG_def) (use i in simp)
  then have "(INDEX2FD (int i) - FDTABLE) div BY2PG = word_of_nat i"
    using i by (simp add: word_unat_eq_iff unat_of_nat)
  then show ?thesis using i by (simp add: fd2num_def signed_of_nat signed_take_bit_int_eq_self)
qed

lemma fd2data_INDEX2FD: "i < 1024 \<Longrightarrow> fd2data (INDEX2FD (int i)) = INDEX2DATA (int i)"
  by (simp add: fd2data_def fd2num_INDEX2FD)

lemma VPN_key: "vkey d va = (d, i, j) \<Longrightarrow> VPN va = i * 1024 + j"
  using VPN_index [of va] div_mult_mod_eq [of "VPN va" 1024] by (simp add: vkey_def)

section \<open>The free descriptors\<close>

text \<open>What \<^verbatim>\<open>vpd\<close> and \<^verbatim>\<open>vpt\<close> show of an address of the process.\<close>

lemma vpd_tab:
  assumes "runs s K ext fl c d" and "(d, i) \<in> K"
  shows "\<exists>pde. vpd_at i s = Some pde \<and> (pte_valid pde \<longleftrightarrow> tab s K (d, i) \<noteq> None)"
  using assms runsD(3) [OF assms(1)] by (auto simp: vpd_at_def tab_def)

lemma vpt_vmap:
  assumes "runs s K ext fl c d" and "(d, i) \<in> K" and "tab s K (d, i) \<noteq> None" and "j < 1024"
  shows "\<exists>e. vpt_at (i * 1024 + j) s = Some e \<and> (if pte_valid e then vmap s K (d, i, j) = Some e else vmap s K (d, i, j) = None)"
  using assms runsD(3) [OF assms(1)] by (auto simp: vpt_at_def vpd_at_def tab_def vmap_def split: if_splits)

lemma vmap_tab_None: "tab s K (d, i) = None \<Longrightarrow> vmap s K (d, i, j) = None"
  by (simp add: vmap_def)

lemma fd_scan_find:
  assumes "runs s K ext fl c d" and "\<forall>i \<in> set is. i < 1024"
  shows "fd_scan is s = Some (case find (\<lambda>i. vmap s K (d, 383, i) = None) is of
      Some i \<Rightarrow> Inr (INDEX2FD (int i)) | None \<Rightarrow> Inl E_MAX_OPEN)"
  using assms(2)
proof (induction "is")
  case (Cons i "is")
  let ?va = "INDEX2FD (int i)"
  have i: "i < 1024" using Cons.prems by simp
  have pdx: "PDX ?va = 383" and vpn: "VPN ?va = 383 * 1024 + i"
    using fd_key [OF i, of d] VPN_key [of d ?va 383 i] by (simp_all add: vkey_def)
  have k: "(d, 383) \<in> K" using runs_slot [OF assms(1) fd_page(2) [OF i]] by (simp add: pdx)
  obtain pde where pde: "vpd_at 383 s = Some pde" "pte_valid pde \<longleftrightarrow> tab s K (d, 383) \<noteq> None"
    using vpd_tab [OF assms(1) k] by blast
  show ?case
  proof (cases "tab s K (d, 383)")
    case None
    then show ?thesis using pde pdx vmap_tab_None [OF None] by simp
  next
    case (Some t)
    obtain e where "vpt_at (383 * 1024 + i) s = Some e"
      "if pte_valid e then vmap s K (d, 383, i) = Some e else vmap s K (d, 383, i) = None"
      using vpt_vmap [OF assms(1) k _ i] Some by auto
    then show ?thesis
      using pde Some pdx vpn Cons by (auto split: if_splits)
  qed
qed simp

text \<open>The least descriptor that is not in use, of those \<^verbatim>\<open>fd_alloc\<close> looks at.\<close>

definition least_fd :: "kstate \<Rightarrow> (nat \<times> nat) set \<Rightarrow> nat \<Rightarrow> nat option" where
  "least_fd s K d = find (\<lambda>i. vmap s K (d, 383, i) = None) [0..<MAXFD - 1]"

lemma fd_alloc_least:
  assumes "runs s K ext fl c d"
  shows "fd_alloc s = Some (case least_fd s K d of Some i \<Rightarrow> Inr (INDEX2FD (int i)) | None \<Rightarrow> Inl E_MAX_OPEN)"
  using fd_scan_find [OF assms, of "[0..<MAXFD - 1]"] by (simp add: fd_alloc_def least_fd_def MAXFD_def)

lemma least_fd_Some: "least_fd s K d = Some i \<longleftrightarrow>
    i < 31 \<and> vmap s K (d, 383, i) = None \<and> (\<forall>j < i. vmap s K (d, 383, j) \<noteq> None)"
  unfolding least_fd_def MAXFD_def by (auto simp: find_Some_iff)

lemma least_fd_None: "least_fd s K d = None \<longleftrightarrow> (\<forall>i < 31. vmap s K (d, 383, i) \<noteq> None)"
  unfolding least_fd_def find_upt_None MAXFD_def by auto

section \<open>Creating a pipe\<close>

lemma DL_facts: "DL < 4096" "DL AND PTE_D \<noteq> 0"
  by (simp_all add: DL_def PTE_D_def PTE_LIBRARY_def)

lemma frame_mapped:
  assumes "runs s K ext fl c d" and "mem_call_frame s K fl s'" and "vmap s K k = Some e"
  shows "pmem s' (PPN e) = pmem s (PPN e)"
  using mapped_data_page [OF runsD(1) [OF assms(1)] assms(3)] assms(2) by (simp add: mem_call_frame_def)

lemma free_page:
  assumes "runs s K ext fl c d" and "p \<in> set fl"
  shows "p < 2 ^ 20" "ext p = 0" "perm < 4096 \<Longrightarrow> PPN (mk_pte p perm) = p" "vmap s K k = Some e \<Longrightarrow> PPN e \<noteq> p"
proof -
  note r = runsD(1) [OF assms(1)]
  have p: "p < npage s" "npage s \<le> 2 ^ 20" "pp_ref s p = 0"
    using r assms(2) by (auto simp: pm_inv_def free_inv_def)
  then show "p < 2 ^ 20" by simp
  then show "perm < 4096 \<Longrightarrow> PPN (mk_pte p perm) = p" by (rule PPN_mk_pte)
  show "ext p = 0" using r p by (auto simp: pm_inv_def ref_inv_def)
  show "vmap s K k = Some e \<Longrightarrow> PPN e \<noteq> p" by (rule used_not_free(3) [OF r assms(2)])
qed

lemma new_fd_ok:
  assumes "runs s K ext (p # fl) c d" and "least_fd s K d = Some i" and "tab s K (d, 383) \<noteq> None \<or> fl \<noteq> []"
  obtains s' where "new_fd s = Some (Inr (INDEX2FD (int i)), s')"
    and "vmap s' K = (vmap s K)((d, 383, i) \<mapsto> mk_pte p DL)"
    and "runs s' K ext (if tab s K (d, 383) = None then tl fl else fl) c d"
    and "mem_call_frame s K (p # fl) s'" and "\<forall>w < 1024. pmem s' p w = 0"
proof -
  have i: "i < 1024" "vmap s K (d, 383, i) = None" using assms(2) by (auto simp: least_fd_Some)
  note a = fd_page [OF i(1)] fd_key [OF i(1)]
  have pdx: "PDX (INDEX2FD (int i)) = 383" using a(3) [of d] by (simp add: vkey_def)
  obtain s' where s': "sys_mem_alloc 0 (INDEX2FD (int i)) DL s = Some (Inr 0, s')"
    "vmap s' K = (vmap s K)(vkey d (INDEX2FD (int i)) \<mapsto> mk_pte p DL)"
    "runs s' K ext (free_rest s K d (INDEX2FD (int i)) fl) c d"
    "mem_call_frame s K (p # fl) s'" "\<forall>w < 1024. pmem s' p w = 0"
    by (rule cur_alloc [OF assms(1) a(2) _ DL_facts(1)]) (use i(2) assms(3) a(3) pdx in simp_all)
  have "new_fd s = Some (Inr (INDEX2FD (int i)), s')"
    using fd_alloc_least [OF assms(1)] assms(2) s'(1) by (simp add: new_fd_def)
  then show ?thesis using that [of s'] s'(2-5) a(3) pdx by (simp add: free_rest_def)
qed

lemma new_fd_empty:
  assumes "runs s K ext [] c d" and "least_fd s K d = Some i"
  shows "new_fd s = Some (Inl E_NO_MEM, s)"
  using fd_alloc_least [OF assms(1)] assms(2) cur_alloc_empty [OF assms(1) fd_page(2) [of i]]
  by (auto simp: new_fd_def least_fd_Some)

lemma new_fd_none:
  assumes "runs s K ext fl c d" and "least_fd s K d = None"
  shows "new_fd s = Some (Inl E_MAX_OPEN, s)"
  using fd_alloc_least [OF assms(1)] assms(2) by (simp add: new_fd_def)

text \<open>Two words of a fresh descriptor page.\<close>

lemma set_up_fd:
  assumes "runs s K ext fl c d" and "i < 1024" and "vmap s K (d, 383, i) = Some (mk_pte p DL)"
    and "PPN (mk_pte p DL) = p"
  obtains s1 s2 where "store_word (INDEX2FD (int i)) v s = Some s1"
    and "store_word (INDEX2FD (int i) + 8) w s1 = Some s2"
    and "vmap s2 K = vmap s K" and "runs s2 K ext fl c d"
    and "pmem s2 = (pmem s)(p := (pmem s p)(0 := v, 2 := w))"
proof -
  note a = fd_page [OF assms(2)] fd_key [OF assms(2)] mk_pte_D [OF DL_facts(2)]
  obtain s1 where s1: "store_word (INDEX2FD (int i) + word_of_nat (4 * 0)) v s = Some s1"
    "vmap s1 K = vmap s K" "tab s1 K = tab s K" "runs s1 K ext fl c d"
    "pmem s1 = (pmem s)(PPN (mk_pte p DL) := (pmem s (PPN (mk_pte p DL)))(0 := v))"
    by (rule cur_store [OF assms(1) a(1) _ a(2) _ a(4), where k = 0]) (use assms(3) a(3) in simp_all)
  obtain s2 where s2: "store_word (INDEX2FD (int i) + word_of_nat (4 * 2)) w s1 = Some s2"
    "vmap s2 K = vmap s1 K" "tab s2 K = tab s1 K" "runs s2 K ext fl c d"
    "pmem s2 = (pmem s1)(PPN (mk_pte p DL) := (pmem s1 (PPN (mk_pte p DL)))(2 := w))"
    by (rule cur_store [OF s1(4) a(1) _ a(2) _ a(4), where k = 2]) (use assms(3) a(3) s1(2) in simp_all)
  show ?thesis
    by (rule that [of s1 s2]) (use s1 s2 assms(4) in simp_all)
qed

text \<open>The two descriptors a pipe gets, and the mappings it adds.\<close>

definition two_fds :: "kstate \<Rightarrow> (nat \<times> nat) set \<Rightarrow> nat \<Rightarrow> nat \<Rightarrow> nat \<Rightarrow> bool" where
  "two_fds s K d i j \<longleftrightarrow> i < j \<and> j < 31 \<and>
     (\<forall>k \<le> j. vmap s K (d, 383, k) = None \<longleftrightarrow> k = i \<or> k = j)"

definition pipe_maps :: "nat \<Rightarrow> nat \<Rightarrow> nat \<Rightarrow> nat \<Rightarrow> nat \<Rightarrow> nat \<Rightarrow> nat \<times> nat \<times> nat \<Rightarrow> u32 option" where
  "pipe_maps d i j p0 p1 p2 =
     [(d, 383, i) \<mapsto> mk_pte p0 DL, (d, 383, j) \<mapsto> mk_pte p1 DL,
      (d, 384 + i, 0) \<mapsto> mk_pte p2 DL, (d, 384 + j, 0) \<mapsto> mk_pte p2 DL]"

lemma two_fds_least:
  assumes "two_fds s K d i j"
  shows "least_fd s K d = Some i"
    and "vmap s' K = (vmap s K)((d, 383, i) \<mapsto> e) \<Longrightarrow> least_fd s' K d = Some j"
proof -
  have u: "vmap s K (d, 383, k) \<noteq> None" if "k < j" "k \<noteq> i" for k
    using assms that less_imp_le_nat [of k j] by (auto simp: two_fds_def)
  have ij: "i < j" "j < 31" "vmap s K (d, 383, i) = None" "vmap s K (d, 383, j) = None"
    using assms by (auto simp: two_fds_def)
  show "least_fd s K d = Some i" using u ij by (simp add: least_fd_Some)
  assume "vmap s' K = (vmap s K)((d, 383, i) \<mapsto> e)"
  then show "least_fd s' K d = Some j" using u ij by (simp add: least_fd_Some)
qed

lemma pipe_ok:
  assumes "runs s K ext fl c d" and "two_fds s K d i j" and "6 \<le> length fl"
    and "vmap s K (d, 384 + i, 0) = None" and "vmap s K (d, 384 + j, 0) = None"
  obtains s' fl' p0 p1 p2 where "pipe s = Some (Inr (int i, int j), s')"
    and "vmap s' K = vmap s K ++ pipe_maps d i j p0 p1 p2" and "runs s' K ext fl' c d"
    and "distinct [p0, p1, p2]" and "{p0, p1, p2} \<subseteq> set fl" and "\<And>p. p \<in> {p0, p1, p2} \<Longrightarrow> PPN (mk_pte p DL) = p"
    and "\<forall>w < 1024. pmem s' p0 w = (if w = 0 then 112 else if w = 2 then O_RDONLY else 0)"
    and "\<forall>w < 1024. pmem s' p1 w = (if w = 0 then 112 else if w = 2 then O_WRONLY else 0)"
    and "\<forall>w < 1024. pmem s' p2 w = 0"
proof -
  have ij: "i < 1024" "j < 1024" "i < 64" "j < 64" "i \<noteq> j" using assms(2) by (auto simp: two_fds_def)
  obtain p0 f0 where fl: "fl = p0 # f0" "5 \<le> length f0" using assms(3) by (cases fl) auto
  note r = assms(1) [unfolded fl(1)]
  obtain s0 where s0: "new_fd s = Some (Inr (INDEX2FD (int i)), s0)"
    "vmap s0 K = (vmap s K)((d, 383, i) \<mapsto> mk_pte p0 DL)"
    "runs s0 K ext (if tab s K (d, 383) = None then tl f0 else f0) c d"
    "mem_call_frame s K (p0 # f0) s0" "\<forall>w < 1024. pmem s0 p0 w = 0"
    by (rule new_fd_ok [OF r two_fds_least(1) [OF assms(2)]]) (use fl(2) in auto)
  define f0' where "f0' = (if tab s K (d, 383) = None then tl f0 else f0)"
  have "4 \<le> length f0'" "set f0' \<subseteq> set f0" using fl(2) by (cases f0; auto simp: f0'_def)+
  then obtain p1 f1 where f1: "f0' = p1 # f1" "3 \<le> length f1" "set f1 \<subseteq> set f0" "p1 \<in> set f0" by (cases f0') auto
  note r0 = s0(3) [folded f0'_def, unfolded f1(1)]
  have P0: "PPN (mk_pte p0 DL) = p0" using free_page(3) [OF r, of p0 DL] DL_facts by simp
  have v00: "vmap s0 K (d, 383, i) = Some (mk_pte p0 DL)" by (simp add: s0(2))
  have t0: "tab s0 K (d, 383) \<noteq> None" using v00 vmap_tab_None by force
  obtain s1 where s1: "new_fd s0 = Some (Inr (INDEX2FD (int j)), s1)"
    "vmap s1 K = (vmap s0 K)((d, 383, j) \<mapsto> mk_pte p1 DL)" "runs s1 K ext f1 c d"
    "mem_call_frame s0 K (p1 # f1) s1" "\<forall>w < 1024. pmem s1 p1 w = 0"
    by (rule new_fd_ok [OF r0 two_fds_least(2) [OF assms(2) s0(2)]]) (use t0 in auto)
  obtain p2 f2 where f2: "f1 = p2 # f2" "2 \<le> length f2" using f1(2) by (cases f1) auto
  note r1 = s1(3) [unfolded f2(1)]
  have P1: "PPN (mk_pte p1 DL) = p1" using free_page(3) [OF r0, of p1 DL] DL_facts by simp
  have P2: "PPN (mk_pte p2 DL) = p2" using free_page(3) [OF r1, of p2 DL] DL_facts by simp
  have v1: "vmap s1 K (d, 383, i) = Some (mk_pte p0 DL)" "vmap s1 K (d, 383, j) = Some (mk_pte p1 DL)"
    using ij by (simp_all add: s1(2) s0(2))
  have dist: "p0 \<noteq> p1" "p0 \<noteq> p2" "p1 \<noteq> p2"
    using free_page(4) [OF r0 _ v00, of p1] free_page(4) [OF r1 _ v1(1), of p2] free_page(4) [OF r1 _ v1(2), of p2] P0 P1
    by auto
  let ?va = "INDEX2DATA (int i)" and ?vb = "INDEX2DATA (int j)"
  note da = data_page_base [OF ij(3)] data_key [OF ij(3)]
  note db = data_page_base [OF ij(4)] data_key [OF ij(4)]
  obtain s2 where s2: "sys_mem_alloc 0 ?va DL s1 = Some (Inr 0, s2)"
    "vmap s2 K = (vmap s1 K)(vkey d ?va \<mapsto> mk_pte p2 DL)" "runs s2 K ext (free_rest s1 K d ?va f2) c d"
    "mem_call_frame s1 K (p2 # f2) s2" "\<forall>w < 1024. pmem s2 p2 w = 0"
    by (rule cur_alloc [OF r1 da(2) _ DL_facts(1)]) (use assms(4) f2(2) da(3) s1(2) s0(2) in auto)
  define f2' where "f2' = free_rest s1 K d ?va f2"
  have f2': "f2' \<noteq> []" using f2(2) length_free_rest [of f2 s1 K d ?va] by (auto simp: f2'_def)
  note r2 = s2(3) [folded f2'_def]
  have v2: "vmap s2 K (vkey d ?va) = Some (mk_pte p2 DL)" "vmap s2 K (vkey d ?vb) = None"
    "vmap s2 K (d, 383, i) = Some (mk_pte p0 DL)" "vmap s2 K (d, 383, j) = Some (mk_pte p1 DL)"
    using assms(5) ij v1 by (simp_all add: s2(2) s1(2) s0(2) da(3) db(3))
  have "ext (PPN (mk_pte p2 DL)) = 0" using free_page(2) [OF r1, of p2] by (simp add: P2)
  moreover have "k = vkey d ?va" if "vmap s2 K k = Some e" "PPN e = PPN (mk_pte p2 DL)" for k e
    using that free_page(4) [OF r1, of p2 k e] by (auto simp: s2(2) P2 split: if_splits)
  ultimately have "unat (pp_ref s2 p2) = 1"
    using single_ref [OF runsD(1) [OF r2] v2(1)] by (simp only: P2)
  then obtain s3 where s3: "sys_mem_map 0 ?va 0 ?vb DL s2 = Some (Inr 0, s3)"
    "vmap s3 K = (vmap s2 K)(vkey d ?vb \<mapsto> mk_pte (PPN (mk_pte p2 DL)) DL)"
    "runs s3 K ext (free_rest s2 K d ?vb f2') c d" "mem_call_frame s2 K f2' s3"
    by - (rule cur_map [OF r2 da(2) db(2) v2(1,2) DL_facts(1)], use f2' in \<open>simp_all add: P2\<close>)
  have v3: "vmap s3 K (d, 383, i) = Some (mk_pte p0 DL)" "vmap s3 K (d, 383, j) = Some (mk_pte p1 DL)"
    using v2 by (simp_all add: s3(2) db(3))
  obtain s4 s5 where s5: "store_word (INDEX2FD (int i)) 112 s3 = Some s4"
    "store_word (INDEX2FD (int i) + 8) O_RDONLY s4 = Some s5" "vmap s5 K = vmap s3 K"
    "runs s5 K ext (free_rest s2 K d ?vb f2') c d"
    "pmem s5 = (pmem s3)(p0 := (pmem s3 p0)(0 := 112, 2 := O_RDONLY))"
    by (rule set_up_fd [OF s3(3) ij(1) v3(1) P0])
  obtain s6 s7 where s7: "store_word (INDEX2FD (int j)) 112 s5 = Some s6"
    "store_word (INDEX2FD (int j) + 8) O_WRONLY s6 = Some s7" "vmap s7 K = vmap s5 K"
    "runs s7 K ext (free_rest s2 K d ?vb f2') c d"
    "pmem s7 = (pmem s5)(p1 := (pmem s5 p1)(0 := 112, 2 := O_WRONLY))"
    by (rule set_up_fd [OF s5(4) ij(2) _ P1]) (use v3(2) s5(3) in simp)
  have run: "pipe s = Some (Inr (int i, int j), s7)"
    using s0(1) s1(1) s2(1) s3(1) s5(1,2) s7(1,2) ij
    by (simp add: pipe_def fd2data_INDEX2FD fd2num_INDEX2FD)
  have vm: "vmap s7 K = vmap s K ++ pipe_maps d i j p0 p1 p2"
    using ij by (auto simp: s7(3) s5(3) s3(2) s2(2) s1(2) s0(2) da(3) db(3) P2 pipe_maps_def map_add_def fun_eq_iff)
  have m: "pmem s3 p0 = pmem s0 p0" "pmem s3 p1 = pmem s1 p1" "pmem s3 p2 = pmem s2 p2"
    using frame_mapped [OF r0 s1(4) v00] frame_mapped [OF r1 s2(4) v1(1)] frame_mapped [OF r1 s2(4) v1(2)]
      frame_mapped [OF r2 s3(4) v2(1)] frame_mapped [OF r2 s3(4) v2(3)] frame_mapped [OF r2 s3(4) v2(4)]
    by (simp_all add: P0 P1 P2)
  show ?thesis
  proof (rule that [OF run vm s7(4)])
    show "distinct [p0, p1, p2]" using dist by simp
    show "{p0, p1, p2} \<subseteq> set fl" using fl(1) f1 f2(1) by auto
    show "PPN (mk_pte p DL) = p" if "p \<in> {p0, p1, p2}" for p using that P0 P1 P2 by blast
  qed (use m dist s0(5) s1(5) s2(5) in \<open>simp_all add: s7(5) s5(5)\<close>)
qed

section \<open>A pipe that cannot be made\<close>

text \<open>An address that was unmapped is unmapped again; the rest of the mappings are as they were.\<close>

lemma unmaps_ok:
  assumes "runs s K ext fl c d" and "\<forall>va \<in> set vas. \<not> is_illegal_va va"
  shows "\<exists>s' fl'. unmaps vas s = Some s' \<and> runs s' K ext fl' c d
    \<and> vmap s' K = (\<lambda>k. if k \<in> vkey d ` set vas then None else vmap s K k)"
  using assms
proof (induction vas arbitrary: s fl)
  case Nil
  then show ?case by auto
next
  case (Cons va vas)
  have "\<not> is_illegal_va va" using Cons.prems(2) by simp
  then obtain s1 fl1 where s1: "sys_mem_unmap 0 va s = Some (Inr 0, s1)"
    "vmap s1 K = (vmap s K)(vkey d va := None)" "runs s1 K ext fl1 c d"
    using cur_unmap [OF Cons.prems(1)] by blast
  have "\<exists>s' fl'. unmaps vas s1 = Some s' \<and> runs s' K ext fl' c d
      \<and> vmap s' K = (\<lambda>k. if k \<in> vkey d ` set vas then None else vmap s1 K k)"
    by (rule Cons.IH [OF s1(3)]) (use Cons.prems(2) in simp)
  moreover have "(\<lambda>k. if k \<in> vkey d ` set vas then None else vmap s1 K k)
      = (\<lambda>k. if k \<in> vkey d ` set (va # vas) then None else vmap s K k)"
    by (rule ext) (simp add: s1(2))
  ultimately show ?case using s1(1) by simp
qed

lemma pipe_err_ok: "unmaps vas s = Some s' \<Longrightarrow> pipe_err e vas s = Some (Inl e, s')"
  by (simp add: pipe_err_def)

lemma pipe_no_memory:
  assumes "runs s K ext fl c d" and "two_fds s K d i j" and "length fl \<le> 2"
    and "tab s K (d, 383) \<noteq> None"
  shows "\<exists>s' fl'. pipe s = Some (Inl E_NO_MEM, s') \<and> vmap s' K = vmap s K \<and> runs s' K ext fl' c d"
proof (cases fl)
  case Nil
  then show ?thesis
    using new_fd_empty [OF assms(1) [unfolded Nil] two_fds_least(1) [OF assms(2)]] assms(1)
    by (auto simp: pipe_def pipe_err_def)
next
  case (Cons p0 f0)
  have ij: "i < 1024" "j < 1024" "i < 64" "i \<noteq> j" "vmap s K (d, 383, i) = None" "vmap s K (d, 383, j) = None"
    using assms(2) by (auto simp: two_fds_def)
  note fi = fd_page(2) [OF ij(1)] fd_page(2) [OF ij(2)] and fk = fd_key [OF ij(1)] fd_key [OF ij(2)]
  obtain s0 where s0: "new_fd s = Some (Inr (INDEX2FD (int i)), s0)"
    "vmap s0 K = (vmap s K)((d, 383, i) \<mapsto> mk_pte p0 DL)" "runs s0 K ext f0 c d"
    by (rule new_fd_ok [OF assms(1) [unfolded Cons] two_fds_least(1) [OF assms(2)]]) (use assms(4) in auto)
  have t0: "tab s0 K (d, 383) \<noteq> None" using s0(2) vmap_tab_None [of s0 K d 383 i] by auto
  note l1 = two_fds_least(2) [OF assms(2) s0(2)]
  show ?thesis
  proof (cases f0)
    case Nil
    obtain s' fl' where u: "unmaps [INDEX2FD (int i)] s0 = Some s'" "runs s' K ext fl' c d"
      "vmap s' K = (\<lambda>k. if k \<in> vkey d ` set [INDEX2FD (int i)] then None else vmap s0 K k)"
      using unmaps_ok [OF s0(3), of "[INDEX2FD (int i)]"] fi by auto
    have "vmap s' K = vmap s K" using u(3) ij(5) s0(2) fk by (auto simp: fun_eq_iff)
    then show ?thesis
      using s0(1) new_fd_empty [OF s0(3) [unfolded Nil] l1] u(1,2) by (auto simp: pipe_def pipe_err_ok [OF u(1)])
  next
    case f0: (Cons p1 f1)
    then have f1: "f1 = []" using assms(3) Cons by simp
    obtain s1 where s1: "new_fd s0 = Some (Inr (INDEX2FD (int j)), s1)"
      "vmap s1 K = (vmap s0 K)((d, 383, j) \<mapsto> mk_pte p1 DL)" "runs s1 K ext [] c d"
      by (rule new_fd_ok [OF s0(3) [unfolded f0 f1] l1]) (use t0 in auto)
    note al = cur_alloc_empty [OF s1(3) data_page_base(2) [OF ij(3)], of DL]
    obtain s' fl' where u: "unmaps [INDEX2FD (int j), INDEX2FD (int i)] s1 = Some s'" "runs s' K ext fl' c d"
      "vmap s' K = (\<lambda>k. if k \<in> vkey d ` set [INDEX2FD (int j), INDEX2FD (int i)] then None else vmap s1 K k)"
      using unmaps_ok [OF s1(3), of "[INDEX2FD (int j), INDEX2FD (int i)]"] fi by auto
    have "vmap s' K = vmap s K" using u(3) ij(5,6) s1(2) s0(2) fk by (auto simp: fun_eq_iff)
    then show ?thesis
      using s0(1) s1(1) al u(1,2) ij(1) by (auto simp: pipe_def pipe_err_ok [OF u(1)] fd2data_INDEX2FD)
  qed
qed

lemma pipe_no_descriptor:
  assumes "runs s K ext fl c d" and "least_fd s K d = None"
  shows "pipe s = Some (Inl E_MAX_OPEN, s)"
  using new_fd_none [OF assms] by (simp add: pipe_def pipe_err_def)

section \<open>Looking up and closing\<close>

lemma vpt_read_fd:
  assumes "runs s K ext fl c d" and "i < 1024" and "vmap s K (d, 383, i) = Some e"
  shows "vpt_read (VPN (INDEX2FD (int i))) s = Some (e, s)" and "pte_valid e"
proof -
  have vpn: "VPN (INDEX2FD (int i)) div 1024 = 383" "VPN (INDEX2FD (int i)) mod 1024 = i"
    using fd_key [OF assms(2), of d] by (simp_all add: VPN_index vkey_def)
  obtain t where t: "tab s K (d, 383) = Some t" "pte_valid e" "e = pte_at (t, i) s"
    using assms(3) by (auto simp: vmap_Some)
  then show "vpt_read (VPN (INDEX2FD (int i))) s = Some (e, s)"
    using assms(2) runsD(3) [OF assms(1)] by (auto simp: vpt_read_def vpd_at_def vpn tab_Some)
  show "pte_valid e" by (fact t(2))
qed

lemma vpt_read_unused:
  assumes "runs s K ext fl c d" and "i < 1024" and "vmap s K (d, 383, i) = None" and "tab s K (d, 383) \<noteq> None"
  shows "\<exists>e. vpt_read (VPN (INDEX2FD (int i))) s = Some (e, s) \<and> \<not> pte_valid e"
proof -
  have vpn: "VPN (INDEX2FD (int i)) div 1024 = 383" "VPN (INDEX2FD (int i)) mod 1024 = i"
    using fd_key [OF assms(2), of d] by (simp_all add: VPN_index vkey_def)
  obtain t where t: "tab s K (d, 383) = Some t" using assms(4) by blast
  then have "\<not> pte_valid (pte_at (t, i) s)" using assms(2,3) by (simp add: vmap_def split: if_splits)
  then show ?thesis
    using t runsD(3) [OF assms(1)] by (auto simp: vpt_read_def vpd_at_def vpn tab_Some)
qed

lemma fd_lookup_used:
  assumes "runs s K ext fl c d" and "i < MAXFD" and "vmap s K (d, 383, i) = Some e"
  shows "fd_lookup (int i) s = Some (Inr (INDEX2FD (int i)), s)"
  using vpt_read_fd [OF assms(1) _ assms(3)] assms(2) by (simp add: fd_lookup_def MAXFD_def)

lemma fd_lookup_unused:
  assumes "runs s K ext fl c d" and "i < MAXFD" and "vmap s K (d, 383, i) = None" and "tab s K (d, 383) \<noteq> None"
  shows "fd_lookup (int i) s = Some (Inl E_INVAL, s)"
  using vpt_read_unused [OF assms(1) _ assms(3,4)] assms(2) by (auto simp: fd_lookup_def MAXFD_def)

lemma fd_dev_word:
  assumes "runs s K ext fl c d" and "i < 1024" and "vmap s K (d, 383, i) = Some e"
  obtains t where "fd_dev (INDEX2FD (int i)) s = Some (dev_lookup (pmem s (PPN e) 0), s\<lparr>tlb := t\<rparr>)"
proof -
  note a = fd_page [OF assms(2)] fd_key [OF assms(2)]
  obtain t where "load_word (INDEX2FD (int i) + word_of_nat (4 * 0)) s = Some (pmem s (PPN e) 0, s\<lparr>tlb := t\<rparr>)"
    by (rule cur_load [OF assms(1) a(1) _ a(2), where k = 0 and e = e]) (use assms(3) a(3) in simp_all)
  then show ?thesis using that by (simp add: fd_dev_def)
qed

lemma dev_lookup_ids [simp]:
  "dev_lookup 112 = Inr Devpipe" "dev_lookup 99 = Inr Devcons" "dev_lookup 102 = Inr Devfile"
  by (simp_all add: dev_lookup_def devtab_def)

lemma mem_frame_trans:
  assumes "runs s K ext fl c d" and "mem_call_frame s K [] s1" and "mem_call_frame s1 K [] s2"
    and "vmap s K k = Some e" and "vmap s1 K k = Some e" and "runs s1 K ext fl1 c d"
  shows "pmem s2 (PPN e) = pmem s (PPN e)"
  using assms mapped_data_page [OF runsD(1) [OF assms(1)] assms(4)] mapped_data_page [OF runsD(1) [OF assms(6)] assms(5)]
  by (simp add: mem_call_frame_def)

text \<open>Closing one end of a pipe removes its descriptor and its view of the pipe, nothing else.\<close>

lemma close_pipe_end:
  assumes "runs s K ext fl c d" and "i < MAXFD" and "vmap s K (d, 383, i) = Some e" and "pmem s (PPN e) 0 = 112"
  obtains s' fl' where "close fclose (int i) s = Some (Inr 0, s')" and "runs s' K ext fl' c d"
    and "vmap s' K = (vmap s K)((d, 383, i) := None, (d, 384 + i, 0) := None)"
    and "\<forall>k e'. vmap s' K k = Some e' \<longrightarrow> pmem s' (PPN e') = pmem s (PPN e')"
proof -
  have i: "i < 1024" "i < 64" using assms(2) by (simp_all add: MAXFD_def)
  note f = fd_page(2) [OF i(1)] fd_key [OF i(1)] and g = data_page_base(2) [OF i(2)] data_key [OF i(2)]
  obtain t where t: "fd_dev (INDEX2FD (int i)) s = Some (Inr Devpipe, s\<lparr>tlb := t\<rparr>)"
    using fd_dev_word [OF assms(1) i(1) assms(3)] assms(4) dev_lookup_ids(1) by metis
  let ?s = "s\<lparr>tlb := t\<rparr>"
  have r: "runs ?s K ext fl c d" using assms(1) by simp
  obtain s1 fl1 where s1: "sys_mem_unmap 0 (INDEX2FD (int i)) ?s = Some (Inr 0, s1)"
    "vmap s1 K = (vmap ?s K)(vkey d (INDEX2FD (int i)) := None)" "runs s1 K ext fl1 c d" "mem_call_frame ?s K [] s1"
    using cur_unmap [OF r f(1)] by blast
  obtain s2 fl2 where s2: "sys_mem_unmap 0 (INDEX2DATA (int i)) s1 = Some (Inr 0, s2)"
    "vmap s2 K = (vmap s1 K)(vkey d (INDEX2DATA (int i)) := None)" "runs s2 K ext fl2 c d" "mem_call_frame s1 K [] s2"
    using cur_unmap [OF s1(3) g(1)] by blast
  obtain s3 fl3 where s3: "sys_mem_unmap 0 (INDEX2FD (int i)) s2 = Some (Inr 0, s3)"
    "vmap s3 K = (vmap s2 K)(vkey d (INDEX2FD (int i)) := None)" "runs s3 K ext fl3 c d" "mem_call_frame s2 K [] s3"
    using cur_unmap [OF s2(3) f(1)] by blast
  have vm: "vmap s3 K = (vmap s K)((d, 383, i) := None, (d, 384 + i, 0) := None)"
    by (simp add: s3(2) s2(2) s1(2) f(2) g(2) fun_upd_twist)
  have "close fclose (int i) s = Some (Inr 0, s3)"
    using fd_lookup_used [OF assms(1-3)] t s1(1) s2(1) s3(1) i(1)
    by (simp add: close_def fd_close_def pipe_close_def fd2data_INDEX2FD)
  moreover have "pmem s3 (PPN e') = pmem s (PPN e')" if "vmap s3 K k = Some e'" for k e'
  proof -
    have v: "vmap ?s K k = Some e'" "vmap s1 K k = Some e'" "vmap s2 K k = Some e'"
      using that by (auto simp: s3(2) s2(2) s1(2) f(2) g(2) split: if_splits)
    show ?thesis
      using mem_frame_trans [OF r s1(4) s2(4) v(1,2) s1(3)]
        mapped_data_page [OF runsD(1) [OF s2(3)] v(3)] s3(4) by (simp add: mem_call_frame_def)
  qed
  ultimately show ?thesis using that vm s3(3) by blast
qed

section \<open>Sharing a descriptor\<close>

lemma data_off_key:
  assumes "i < 64" and "j < 1024"
  shows "vkey d (INDEX2DATA (int i) + word_of_nat j * BY2PG) = (d, 384 + i, j)"
    and "\<not> is_illegal_va (INDEX2DATA (int i) + word_of_nat j * BY2PG)"
proof -
  have o': "unat (word_of_nat j * BY2PG) = j * 4096"
    by (simp add: BY2PG_def unat_word_ariths unat_of_nat) (use assms(2) in simp)
  have u: "unat (INDEX2DATA (int i) + word_of_nat j * BY2PG) = (384 + i) * 0x400000 + j * 4096"
    unfolding unat_word_ariths(1) o' unat_INDEX2DATA [OF assms(1)] using assms by simp
  have "((384 + i) * 4194304 + j * 4096) div 2 ^ 22 = 384 + i"
    by (rule div_nat_eqI) (use assms(2) in simp_all)
  moreover have "((384 + i) * 4194304 + j * 4096) div 4096 = (384 + i) * 1024 + j"
    by (rule div_nat_eqI) simp_all
  moreover have "((384 + i) * 1024 + j) mod 1024 = j"
    using mod_mult_self3 [of "384 + i" 1024 j] assms(2) by (simp only: mod_less)
  ultimately show "vkey d (INDEX2DATA (int i) + word_of_nat j * BY2PG) = (d, 384 + i, j)"
    by (simp only: vkey_def PDX_numeral_eq PTX_numeral_eq u)
  show "\<not> is_illegal_va (INDEX2DATA (int i) + word_of_nat j * BY2PG)"
    using assms UTEMP_nat UTOP_nat u
    by (simp add: is_illegal_va_def word_less_nat_alt word_le_nat_alt)
qed

text \<open>References of mapped pages, which must not overflow while a descriptor is shared.\<close>

definition few_refs :: "kstate \<Rightarrow> (nat \<times> nat) set \<Rightarrow> nat \<Rightarrow> bool" where
  "few_refs s K b \<longleftrightarrow> (\<forall>k e. vmap s K k = Some e \<longrightarrow> unat (pp_ref s (PPN e)) \<le> b)"

lemma mapped_refs:
  assumes "pm_inv s K ext fl" and "vmap s K k = Some e"
  shows "unat (pp_ref s (PPN e)) = ext (PPN e) + nrefs PPN (vmap s K) (PPN e)"
proof -
  have p: "PPN e < npage s" "PPN e \<notin> ran (tab s K)"
    using vmap_inv_page [OF _ assms(2)] assms(1) by (auto simp: pm_inv_def)
  have "{k. \<exists>e'. tab s K k = Some e' \<and> id e' = PPN e} = {}" using p(2) by (auto simp: ran_def)
  then have "nrefs id (tab s K) (PPN e) = 0" unfolding nrefs_def by (simp only: card.empty)
  then show ?thesis using assms(1) p(1) by (simp add: pm_inv_def ref_inv_def)
qed

lemma few_refs_insert:
  assumes "pm_inv s K ext fl" and "pm_inv s' K ext fl'" and "few_refs s K b"
    and "vmap s' K = (vmap s K)(k0 \<mapsto> e0)" and "vmap s K k0 = None"
    and "vmap s K k1 = Some e1" and "PPN e0 = PPN e1"
  shows "few_refs s' K (b + 1)"
  unfolding few_refs_def
proof (intro allI impI)
  fix k e assume e: "vmap s' K k = Some e"
  then obtain k2 e2 where e2: "vmap s K k2 = Some e2" "PPN e2 = PPN e"
    using assms(4,6,7) by (auto split: if_splits)
  have fin: "finite (dom (vmap s K))"
    using finite_dom_vmap [of K s] assms(1) by (simp add: pm_inv_def tab_inv_def)
  have "nrefs PPN (vmap s' K) (PPN e) \<le> nrefs PPN (vmap s K) (PPN e) + 1"
    using nrefs_insert [OF fin assms(5), of PPN e0 "PPN e"] assms(4) by simp
  moreover have "unat (pp_ref s (PPN e)) \<le> b" using assms(3) e2 by (metis few_refs_def)
  ultimately show "unat (pp_ref s' (PPN e)) \<le> b + 1"
    using mapped_refs [OF assms(2) e] mapped_refs [OF assms(1) e2(1)] e2(2) by simp
qed

lemma map_le_not_None: "f \<subseteq>\<^sub>m g \<Longrightarrow> f k \<noteq> None \<Longrightarrow> g k \<noteq> None"
  by (force simp: map_le_def dom_def)

definition shared :: "u32 \<Rightarrow> u32" where
  "shared e = mk_pte (PPN e) (e AND DL)"

lemma and_DL_less: "e AND DL < 4096"
  using DL_facts(1) unfolding less_4096_iff by (auto simp: bit_and_iff)

lemma PPN_shared: "PPN e < 2 ^ 20 \<Longrightarrow> PPN (shared e) = PPN e"
  by (simp add: shared_def PPN_mk_pte and_DL_less)

lemma PPN_bound: "PPN e < 2 ^ 20"
  by (rule PPN_less)

lemma dup_data_ok:
  assumes "runs s K ext fl c d" and "o' < 64" and "n < 64" and "o' \<noteq> n" and "\<forall>j \<in> set js. j < 1024" and "distinct js"
    and "tab s K (d, 384 + o') \<noteq> None" and "\<forall>j \<in> set js. vmap s K (d, 384 + n, j) = None"
    and "few_refs s K b" and "b + length js < 65535" and "tab s K (d, 384 + n) \<noteq> None \<or> fl \<noteq> []"
  shows "\<exists>s' fl'. dup_data js (INDEX2DATA (int o')) (INDEX2DATA (int n)) s = Some (Inr (), s')
    \<and> runs s' K ext fl' c d \<and> few_refs s' K (b + length js)
    \<and> vmap s' K = (\<lambda>k. if \<exists>j \<in> set js. k = (d, 384 + n, j) then map_option shared (vmap s K (d, 384 + o', snd (snd k)))
        else vmap s K k)
    \<and> tab s K \<subseteq>\<^sub>m tab s' K"
  using assms
proof (induction js arbitrary: s fl b)
  case Nil
  then show ?case by auto
next
  case (Cons j js)
  let ?src = "INDEX2DATA (int o') + word_of_nat j * BY2PG" and ?dst = "INDEX2DATA (int n) + word_of_nat j * BY2PG"
  note pr = Cons.prems
  have j: "j < 1024" using pr(5) by simp
  note sk = data_off_key [OF pr(2) j] and dk = data_off_key [OF pr(3) j]
  have k: "(d, 384 + o') \<in> K" using pr(7) by (simp add: tab_def split: if_splits)
  have vpn: "VPN ?src = (384 + o') * 1024 + j" by (rule VPN_key [OF sk(1)])
  obtain e where e: "vpt_at (VPN ?src) s = Some e"
    "if pte_valid e then vmap s K (d, 384 + o', j) = Some e else vmap s K (d, 384 + o', j) = None"
    using vpt_vmap [OF pr(1) k pr(7) j] unfolding vpn by blast
  show ?case
  proof (cases "pte_valid e")
    case False
    then have no: "vmap s K (d, 384 + o', j) = None" using e(2) by simp
    obtain s' fl' where s': "dup_data js (INDEX2DATA (int o')) (INDEX2DATA (int n)) s = Some (Inr (), s')"
      "runs s' K ext fl' c d" "few_refs s' K (b + length js)" "tab s K \<subseteq>\<^sub>m tab s' K"
      "vmap s' K = (\<lambda>k. if \<exists>j \<in> set js. k = (d, 384 + n, j) then map_option shared (vmap s K (d, 384 + o', snd (snd k)))
        else vmap s K k)"
      using Cons.IH [OF pr(1-4) _ _ pr(7) _ pr(9) _ pr(11)] pr(5,6,8,10) by auto
    have "vmap s' K = (\<lambda>k. if \<exists>j' \<in> set (j # js). k = (d, 384 + n, j') then map_option shared (vmap s K (d, 384 + o', snd (snd k)))
        else vmap s K k)"
      unfolding s'(5) by (rule ext) (use no pr(8) in auto)
    moreover have "few_refs s' K (b + length (j # js))" using s'(3) by (force simp: few_refs_def)
    ultimately show ?thesis using s'(1,2,4) e(1) False by (auto simp: Let_def)
  next
    case True
    then have v: "vmap s K (d, 384 + o', j) = Some e" using e(2) by simp
    have "unat (pp_ref s (PPN e)) \<le> b" using pr(9) v by (auto simp: few_refs_def)
    then have rf: "unat (pp_ref s (PPN e)) < 65535" using pr(10) by simp
    have pdx: "PDX ?dst = 384 + n" using dk(1) [of d] by (simp add: vkey_def)
    obtain s1 where s1: "sys_mem_map 0 ?src 0 ?dst (e AND DL) s = Some (Inr 0, s1)"
      "vmap s1 K = (vmap s K)(vkey d ?dst \<mapsto> mk_pte (PPN e) (e AND DL))" "runs s1 K ext (free_rest s K d ?dst fl) c d"
      "mem_call_frame s K fl s1"
      by (rule cur_map [OF pr(1) sk(2) dk(2) _ _ and_DL_less rf]) (use v pr(8,11) sk(1) dk(1) pdx in auto)
    have vm1: "vmap s1 K = (vmap s K)((d, 384 + n, j) \<mapsto> shared e)" by (simp add: s1(2) dk(1) shared_def)
    have t1: "tab s K \<subseteq>\<^sub>m tab s1 K" using s1(4) by (simp add: mem_call_frame_def)
    have t2: "tab s1 K (d, 384 + o') \<noteq> None" by (rule map_le_not_None [OF t1 pr(7)])
    have t3: "tab s1 K (d, 384 + n) \<noteq> None"
      using vmap_tab_None [of s1 K d "384 + n" j] vm1 by auto
    have fr: "few_refs s1 K (b + 1)"
      by (rule few_refs_insert [OF runsD(1) [OF pr(1)] runsD(1) [OF s1(3)] pr(9) vm1 _ v])
        (use pr(8) PPN_shared [OF PPN_bound] in auto)
    have d1: "\<forall>j' \<in> set js. vmap s1 K (d, 384 + n, j') = None" using pr(6,8) by (auto simp: vm1)
    have same: "vmap s1 K (d, 384 + o', j') = vmap s K (d, 384 + o', j')" for j' using pr(4) by (simp add: vm1)
    obtain s' fl' where s': "dup_data js (INDEX2DATA (int o')) (INDEX2DATA (int n)) s1 = Some (Inr (), s')"
      "runs s' K ext fl' c d" "few_refs s' K (b + 1 + length js)" "tab s1 K \<subseteq>\<^sub>m tab s' K"
      "vmap s' K = (\<lambda>k. if \<exists>j \<in> set js. k = (d, 384 + n, j) then map_option shared (vmap s1 K (d, 384 + o', snd (snd k)))
        else vmap s1 K k)"
      using Cons.IH [OF s1(3) pr(2-4) _ _ t2 d1 fr] pr(5,6,10) t3 by auto
    have "vmap s' K = (\<lambda>k. if \<exists>j' \<in> set (j # js). k = (d, 384 + n, j') then map_option shared (vmap s K (d, 384 + o', snd (snd k)))
        else vmap s K k)"
      unfolding s'(5) same by (rule ext) (use v pr(6) in \<open>auto simp: vm1\<close>)
    moreover have "tab s K \<subseteq>\<^sub>m tab s' K" using t1 s'(4) by (rule map_le_trans)
    ultimately show ?thesis using s'(1-3) s1(1) e(1) True by (auto simp: Let_def)
  qed
qed

lemma few_refs_delete:
  assumes "pm_inv s K ext fl" and "pm_inv s' K ext fl'" and "few_refs s K b"
    and "vmap s' K = (vmap s K)(k0 := None)"
  shows "few_refs s' K b"
  unfolding few_refs_def
proof (intro allI impI)
  fix k e assume e: "vmap s' K k = Some e"
  then have e': "vmap s K k = Some e" using assms(4) by (auto split: if_splits)
  have fin: "finite (dom (vmap s K))"
    using finite_dom_vmap [of K s] assms(1) by (simp add: pm_inv_def tab_inv_def)
  have "{k. \<exists>e'. vmap s' K k = Some e' \<and> PPN e' = PPN e} \<subseteq> {k. \<exists>e'. vmap s K k = Some e' \<and> PPN e' = PPN e}"
    using assms(4) by (auto split: if_splits)
  then have "nrefs PPN (vmap s' K) (PPN e) \<le> nrefs PPN (vmap s K) (PPN e)"
    unfolding nrefs_def by (rule card_mono [OF finite_nrefs [OF fin]])
  moreover have "unat (pp_ref s (PPN e)) \<le> b" using assms(3) e' unfolding few_refs_def by blast
  ultimately show "unat (pp_ref s' (PPN e)) \<le> b"
    using mapped_refs [OF assms(2) e] mapped_refs [OF assms(1) e'] by simp
qed

text \<open>Closing a descriptor that is unused or a console takes away its page only.\<close>

lemma close_plain:
  assumes "runs s K ext fl c d" and "n < MAXFD" and "tab s K (d, 383) \<noteq> None"
    and "vmap s K (d, 383, n) = None \<or> (\<exists>e. vmap s K (d, 383, n) = Some e \<and> pmem s (PPN e) 0 = 99)"
    and "few_refs s K b"
  shows "\<exists>r s' fl'. close fclose (int n) s = Some (r, s') \<and> runs s' K ext fl' c d
    \<and> vmap s' K = (vmap s K)((d, 383, n) := None) \<and> tab s' K = tab s K \<and> pmem s' d = pmem s d
    \<and> (fl \<noteq> [] \<longrightarrow> fl' \<noteq> []) \<and> few_refs s' K b"
proof (cases "vmap s K (d, 383, n)")
  case None
  then have "close fclose (int n) s = Some (Inl E_INVAL, s)"
    using fd_lookup_unused [OF assms(1,2) _ assms(3)] by (simp add: close_def)
  moreover have "(vmap s K)((d, 383, n) := None) = vmap s K" using None by (simp add: fun_upd_idem)
  ultimately show ?thesis using assms(1,5) by auto
next
  case (Some e)
  have n: "n < 1024" using assms(2) by (simp add: MAXFD_def)
  note f = fd_page(2) [OF n] fd_key [OF n]
  obtain t where t: "fd_dev (INDEX2FD (int n)) s = Some (Inr Devcons, s\<lparr>tlb := t\<rparr>)"
    using fd_dev_word [OF assms(1) n Some] assms(4) Some dev_lookup_ids(2) by (metis option.inject option.distinct(1))
  let ?s = "s\<lparr>tlb := t\<rparr>"
  have r: "runs ?s K ext fl c d" using assms(1) by simp
  have v: "vmap ?s K (vkey d (INDEX2FD (int n))) = Some e" using Some by (simp add: f(2))
  obtain s' where s': "sys_mem_unmap 0 (INDEX2FD (int n)) ?s = Some (Inr 0, s')"
    "vmap s' K = (vmap ?s K)(vkey d (INDEX2FD (int n)) := None)"
    "runs s' K ext (if pp_ref ?s (PPN e) = 1 then PPN e # fl else fl) c d"
    "mem_call_frame ?s K [] s'" "tab s' K = tab ?s K" "pmem s' d = pmem ?s d"
    by (rule cur_unmap_mapped [OF r f(1) v])
  have vm: "vmap s' K = (vmap s K)((d, 383, n) := None)" by (simp add: s'(2) f(2))
  have "close fclose (int n) s = Some (Inr 0, s')"
    using fd_lookup_used [OF assms(1,2) Some] t s'(1) by (simp add: close_def fd_close_def)
  moreover have "few_refs s' K b"
    by (rule few_refs_delete [OF runsD(1) [OF assms(1)] runsD(1) [OF s'(3)] assms(5) vm])
  ultimately show ?thesis using vm s'(3,5,6)
    by (intro exI [of _ "Inr 0"] exI [of _ s'] exI [of _ "if pp_ref s (PPN e) = 1 then PPN e # fl else fl"] conjI)
      simp_all
qed

text \<open>What \<^verbatim>\<open>dup\<close> does to the mappings.\<close>

definition dup_maps :: "nat \<Rightarrow> nat \<Rightarrow> nat \<Rightarrow> (nat \<times> nat \<times> nat \<Rightarrow> u32 option) \<Rightarrow> nat \<times> nat \<times> nat \<Rightarrow> u32 option" where
  "dup_maps d o' n v k =
     (if k = (d, 383, n) then map_option shared (v (d, 383, o'))
      else if \<exists>j < 1024. k = (d, 384 + n, j) then map_option shared (v (d, 384 + o', snd (snd k)))
      else v k)"

lemma dup_ok:
  assumes "runs s K ext fl c d" and "o' < MAXFD" and "n < MAXFD" and "o' \<noteq> n"
    and "vmap s K (d, 383, o') = Some e0"
    and "vmap s K (d, 383, n) = None \<or> (\<exists>e. vmap s K (d, 383, n) = Some e \<and> pmem s (PPN e) 0 = 99)"
    and "\<forall>j < 1024. vmap s K (d, 384 + n, j) = None"
    and "tab s K (d, 384 + o') = None \<longrightarrow> pte_at (d, 384 + o') s = 0"
    and "few_refs s K b" and "b + 1025 < 65535" and "tab s K (d, 384 + n) \<noteq> None \<or> fl \<noteq> []"
  shows "\<exists>s' fl'. dup fclose (int o') (int n) s = Some (Inr (int n), s') \<and> runs s' K ext fl' c d
    \<and> vmap s' K = dup_maps d o' n (vmap s K)"
proof -
  have on: "o' < 1024" "n < 1024" "o' < 64" "n < 64" using assms(2,3) by (simp_all add: MAXFD_def)
  have t: "tab s K (d, 383) \<noteq> None" using assms(5) vmap_tab_None [of s K d 383 o'] by auto
  obtain r s2 fl2 where s2: "close fclose (int n) s = Some (r, s2)" "runs s2 K ext fl2 c d"
    "vmap s2 K = (vmap s K)((d, 383, n) := None)" "tab s2 K = tab s K" "pmem s2 d = pmem s d"
    "fl \<noteq> [] \<longrightarrow> fl2 \<noteq> []" "few_refs s2 K b"
    using close_plain [OF assms(1,3) t assms(6,9)] by blast
  have pde: "vpd_at (384 + o') s2 = Some (pte_at (d, 384 + o') s)"
    using runsD(3) [OF s2(2)] s2(5) by (simp add: vpd_at_def pte_at_def)
  note od = data_page_base [OF on(3)] data_key [OF on(3)]
  have pdx: "PDX (INDEX2DATA (int o')) = 384 + o'" using od(3) [of d] by (simp add: vkey_def)
  have v2: "vmap s2 K (d, 383, o') = Some e0" "vmap s2 K (d, 383, n) = None"
    "\<And>j. vmap s2 K (d, 384 + o', j) = vmap s K (d, 384 + o', j)"
    using assms(4,5) by (simp_all add: s2(3))
  have "\<exists>s3 fl3. (if pte_at (d, 384 + o') s \<noteq> 0
        then dup_data [0..<1024] (INDEX2DATA (int o')) (INDEX2DATA (int n)) s2 else Some (Inr (), s2)) = Some (Inr (), s3)
      \<and> runs s3 K ext fl3 c d \<and> few_refs s3 K (b + 1024) \<and> tab s2 K \<subseteq>\<^sub>m tab s3 K
      \<and> vmap s3 K = (\<lambda>k. if \<exists>j < 1024. k = (d, 384 + n, j) then map_option shared (vmap s2 K (d, 384 + o', snd (snd k)))
          else vmap s2 K k)"
  proof (cases "tab s K (d, 384 + o')")
    case None
    have "(\<lambda>k. if \<exists>j < 1024. k = (d, 384 + n, j) then map_option shared (vmap s2 K (d, 384 + o', snd (snd k)))
          else vmap s2 K k) = vmap s2 K"
      by (rule ext) (use assms(7) vmap_tab_None [of s2 K d "384 + o'"] None s2(4) in \<open>auto simp: s2(3)\<close>)
    moreover have "few_refs s2 K (b + 1024)" using s2(7) by (force simp: few_refs_def)
    ultimately show ?thesis using None assms(8) s2(2) by auto
  next
    case (Some u)
    then have nz: "pte_at (d, 384 + o') s \<noteq> 0" by (auto simp: tab_Some pte_valid_def)
    have "\<forall>j \<in> set [0..<1024]. vmap s2 K (d, 384 + n, j) = None" using assms(7) by (simp add: s2(3))
    moreover have "tab s2 K (d, 384 + o') \<noteq> None" "tab s2 K (d, 384 + n) \<noteq> None \<or> fl2 \<noteq> []"
      using Some assms(11) s2(4,6) by auto
    ultimately have "\<exists>s3 fl3. dup_data [0..<1024] (INDEX2DATA (int o')) (INDEX2DATA (int n)) s2 = Some (Inr (), s3)
        \<and> runs s3 K ext fl3 c d \<and> few_refs s3 K (b + length [0..<1024 :: nat])
        \<and> vmap s3 K = (\<lambda>k. if \<exists>j \<in> set [0..<1024]. k = (d, 384 + n, j) then map_option shared (vmap s2 K (d, 384 + o', snd (snd k)))
          else vmap s2 K k) \<and> tab s2 K \<subseteq>\<^sub>m tab s3 K"
      by (intro dup_data_ok [OF s2(2) on(3,4) assms(4) _ _ _ _ s2(7)]) (use assms(10) in auto)
    moreover have "(\<exists>j \<in> set [0..<1024]. k = (d, 384 + n, j)) \<longleftrightarrow> (\<exists>j < 1024. k = (d, 384 + n, j))" for k by auto
    ultimately show ?thesis using nz by (simp del: dup_data.simps) blast
  qed
  then obtain s3 fl3 where s3: "(if pte_at (d, 384 + o') s \<noteq> 0
        then dup_data [0..<1024] (INDEX2DATA (int o')) (INDEX2DATA (int n)) s2 else Some (Inr (), s2)) = Some (Inr (), s3)"
    "runs s3 K ext fl3 c d" "few_refs s3 K (b + 1024)" "tab s2 K \<subseteq>\<^sub>m tab s3 K"
    "vmap s3 K = (\<lambda>k. if \<exists>j < 1024. k = (d, 384 + n, j) then map_option shared (vmap s2 K (d, 384 + o', snd (snd k)))
          else vmap s2 K k)"
    by blast
  have v3: "vmap s3 K (d, 383, o') = Some e0" "vmap s3 K (d, 383, n) = None" using v2 by (simp_all add: s3(5))
  have rf: "unat (pp_ref s3 (PPN e0)) < 65535"
    using s3(3) v3(1) assms(10) by (force simp: few_refs_def)
  have t3: "tab s3 K (d, 383) \<noteq> None" using v3(1) vmap_tab_None [of s3 K d 383 o'] by auto
  note fo = fd_page(2) [OF on(1)] fd_key [OF on(1)] and fn = fd_page(2) [OF on(2)] fd_key [OF on(2)]
  have pdn: "PDX (INDEX2FD (int n)) = 383" using fn(2) [of d] by (simp add: vkey_def)
  obtain s5 where s5: "sys_mem_map 0 (INDEX2FD (int o')) 0 (INDEX2FD (int n)) (e0 AND DL) s3 = Some (Inr 0, s5)"
    "vmap s5 K = (vmap s3 K)(vkey d (INDEX2FD (int n)) \<mapsto> mk_pte (PPN e0) (e0 AND DL))"
    "runs s5 K ext (free_rest s3 K d (INDEX2FD (int n)) fl3) c d" "mem_call_frame s3 K fl3 s5"
    by (rule cur_map [OF s3(2) fo(1) fn(1) _ _ and_DL_less rf]) (use v3 t3 fo(2) fn(2) pdn in auto)
  have run: "dup fclose (int o') (int n) s = Some (Inr (int n), s5)"
    using fd_lookup_used [OF assms(1,2,5)] s2(1) pde s3(1) vpt_read_fd(1) [OF s3(2) on(1) v3(1)] s5(1) on pdx
    by (cases "pte_at (d, 384 + o') s = 0") (simp_all add: dup_def fd2data_INDEX2FD Let_def del: dup_data.simps)
  have "vmap s5 K = dup_maps d o' n (vmap s K)"
    by (rule ext) (auto simp: dup_maps_def s5(2) s3(5) s2(3) fn(2) assms(5) shared_def)
  then show ?thesis using run s5(3) by blast
qed

section \<open>Properties\<close>

text \<open>C28: \<^verbatim>\<open>pipe\<close>. With enough memory a process gets its two least free descriptors, a read end and a
  write end of the pipe device, whose data areas show the same fresh page, an empty pipe; the
  three pages come from the free list and no other mapping changes.\<close>

theorem pipe_creates:
  assumes "runs s K ext fl c d" and "two_fds s K d i j" and "6 \<le> length fl"
    and "vmap s K (d, 384 + i, 0) = None" and "vmap s K (d, 384 + j, 0) = None"
  shows "\<exists>s' fl' p0 p1 p2. pipe s = Some (Inr (int i, int j), s') \<and> runs s' K ext fl' c d
    \<and> vmap s' K = vmap s K ++ pipe_maps d i j p0 p1 p2 \<and> distinct [p0, p1, p2] \<and> {p0, p1, p2} \<subseteq> set fl
    \<and> (\<forall>w < 1024. pmem s' p0 w = (if w = 0 then 112 else if w = 2 then O_RDONLY else 0))
    \<and> (\<forall>w < 1024. pmem s' p1 w = (if w = 0 then 112 else if w = 2 then O_WRONLY else 0))
    \<and> (\<forall>w < 1024. pmem s' p2 w = 0)"
  by (rule pipe_ok [OF assms]) blast

text \<open>\<^verbatim>\<open>pipe\<close> that runs out of memory, at whichever of its steps, answers \<^verbatim>\<open>-E_NO_MEM\<close> and leaves
  every mapping as it was; without a free descriptor it answers \<^verbatim>\<open>-E_MAX_OPEN\<close>; likewise with one
  descriptor left, whose page is given back.\<close>

theorem pipe_rolls_back:
  assumes "runs s K ext fl c d" and "tab s K (d, 383) \<noteq> None"
    and "(two_fds s K d i j \<and> length fl \<le> 2 \<and> e = E_NO_MEM) \<or> (least_fd s K d = None \<and> e = E_MAX_OPEN)"
  shows "\<exists>s' fl'. pipe s = Some (Inl e, s') \<and> vmap s' K = vmap s K \<and> runs s' K ext fl' c d"
  using pipe_no_memory [OF assms(1) _ _ assms(2)] pipe_no_descriptor [OF assms(1)] assms(1,3) by auto

text \<open>A pipe whose two ends are closed again leaves no trace in the address space.\<close>

theorem pipe_close_both:
  assumes "runs s K ext fl c d" and "two_fds s K d i j" and "6 \<le> length fl"
    and "vmap s K (d, 384 + i, 0) = None" and "vmap s K (d, 384 + j, 0) = None"
  shows "\<exists>s1 s2 s3 fl'. pipe s = Some (Inr (int i, int j), s1) \<and> close fclose (int i) s1 = Some (Inr 0, s2)
    \<and> close fclose (int j) s2 = Some (Inr 0, s3) \<and> vmap s3 K = vmap s K \<and> runs s3 K ext fl' c d"
proof -
  have ij: "i < MAXFD" "j < MAXFD" "i \<noteq> j" "vmap s K (d, 383, i) = None" "vmap s K (d, 383, j) = None"
    using assms(2) by (auto simp: two_fds_def MAXFD_def)
  obtain s1 f1 p0 p1 p2 where s1: "pipe s = Some (Inr (int i, int j), s1)"
    "vmap s1 K = vmap s K ++ pipe_maps d i j p0 p1 p2" "runs s1 K ext f1 c d"
    "\<And>p. p \<in> {p0, p1, p2} \<Longrightarrow> PPN (mk_pte p DL) = p" "pmem s1 p0 0 = 112" "pmem s1 p1 0 = 112"
    by (rule pipe_ok [OF assms]) simp
  have v1: "vmap s1 K (d, 383, i) = Some (mk_pte p0 DL)" "vmap s1 K (d, 383, j) = Some (mk_pte p1 DL)"
    using ij by (simp_all add: s1(2) pipe_maps_def)
  have P: "PPN (mk_pte p0 DL) = p0" "PPN (mk_pte p1 DL) = p1" using s1(4) by blast+
  obtain s2 f2 where s2: "close fclose (int i) s1 = Some (Inr 0, s2)" "runs s2 K ext f2 c d"
    "vmap s2 K = (vmap s1 K)((d, 383, i) := None, (d, 384 + i, 0) := None)"
    "\<forall>k e'. vmap s2 K k = Some e' \<longrightarrow> pmem s2 (PPN e') = pmem s1 (PPN e')"
    by (rule close_pipe_end [OF s1(3) ij(1) v1(1), where fclose = fclose]) (use s1(5) P in simp_all)
  have v2: "vmap s2 K (d, 383, j) = Some (mk_pte p1 DL)" using v1(2) ij(3) by (simp add: s2(3))
  obtain s3 f3 where s3: "close fclose (int j) s2 = Some (Inr 0, s3)" "runs s3 K ext f3 c d"
    "vmap s3 K = (vmap s2 K)((d, 383, j) := None, (d, 384 + j, 0) := None)"
    by (rule close_pipe_end [OF s2(2) ij(2) v2, where fclose = fclose])
      (use s2(4) [rule_format, OF v2] s1(6) P in simp_all)
  have "vmap s3 K = vmap s K"
    by (rule ext) (use ij assms(4,5) in \<open>simp add: s3(3) s2(3) s1(2) pipe_maps_def map_add_def\<close>)
  with s1(1) s2(1) s3(1,2) show ?thesis by blast
qed

text \<open>C27: \<^verbatim>\<open>dup\<close>. The new descriptor, unused or a console before, and every page of its data area lead
  to the physical pages of the old one, writable and shared exactly if those are; no other mapping
  changes.\<close>

theorem dup_shares:
  assumes "runs s K ext fl c d" and "o' < MAXFD" and "n < MAXFD" and "o' \<noteq> n"
    and "vmap s K (d, 383, o') = Some e0"
    and "vmap s K (d, 383, n) = None \<or> (\<exists>e. vmap s K (d, 383, n) = Some e \<and> pmem s (PPN e) 0 = 99)"
    and "\<forall>j < 1024. vmap s K (d, 384 + n, j) = None"
    and "tab s K (d, 384 + o') = None \<longrightarrow> pte_at (d, 384 + o') s = 0"
    and "few_refs s K b" and "b + 1025 < 65535" and "tab s K (d, 384 + n) \<noteq> None \<or> fl \<noteq> []"
  shows "\<exists>s' fl'. dup fclose (int o') (int n) s = Some (Inr (int n), s') \<and> runs s' K ext fl' c d
    \<and> vmap s' K = dup_maps d o' n (vmap s K)"
  by (rule dup_ok [OF assms])

subsection \<open>Concrete calls\<close>

text \<open>A process with nothing mapped and eight free pages.\<close>

definition kfree :: kstate where
  "kfree = kone\<lparr>npage := 10, page_free_list := LIST_INSERT_HEAD 4 (LIST_INSERT_HEAD 5 (LIST_INSERT_HEAD 6
     (LIST_INSERT_HEAD 7 (LIST_INSERT_HEAD 8 (LIST_INSERT_HEAD 9 small_free)))))\<rparr>"

lemma kfree_simps:
  "pmem kfree = (\<lambda>_ _. 0)" "npage kfree = 10" "pp_ref kfree = (\<lambda>p. if p < 2 then 1 else 0)"
  "curenv kfree = Some 0" "cur_pgdir kfree = Some 1" "envs kfree = (\<lambda>_. free_env)(0 := env_one)"
  by (simp_all add: kfree_def kone_simps) (simp add: kone_def small_def pm_state.defs kstate.defs)

lemma kfree_maps: "tab kfree K = Map.empty" "vmap kfree K = Map.empty"
proof -
  show t: "tab kfree K = Map.empty" by (simp add: tab_def kfree_simps pte_at_def fun_eq_iff)
  show "vmap kfree K = Map.empty" by (auto simp: vmap_def t fun_eq_iff)
qed

lemma kfree_runs: "runs kfree (uslots 1) small_ext [4, 5, 6, 7, 8, 9, 2, 3] 0 1"
proof -
  have "lq_rep (page_free_list kfree) [4, 5, 6, 7, 8, 9, 2, 3]"
    using lq_rep_small_free by (simp add: kfree_def) (intro lq_rep_insert_head, simp_all)
  then have "free_inv kfree [4, 5, 6, 7, 8, 9, 2, 3]" by (simp add: free_inv_def kfree_simps)
  moreover have "tab_inv kfree (uslots 1)"
    by (auto simp: tab_inv_def kfree_maps uslots_def kfree_simps)
  moreover have "ref_inv kfree (uslots 1) small_ext"
    unfolding ref_inv_def kfree_maps by (auto simp: uslots_def small_ext_def kfree_simps)
  ultimately show ?thesis
    by (simp add: runs_def pm_inv_def kfree_simps owns_def env_one_def)
qed

lemma kfree_fds: "two_fds kfree (uslots 1) 1 0 1"
  by (auto simp: two_fds_def kfree_maps)

lemma pipe_creates_witness:
  "\<exists>s' p0 p2. pipe kfree = Some (Inr (0, 1), s') \<and> vmap s' (uslots 1) (1, 383, 0) = Some (mk_pte p0 DL)
     \<and> pmem s' p0 0 = 112 \<and> vmap s' (uslots 1) (1, 384, 0) = Some (mk_pte p2 DL)
     \<and> vmap s' (uslots 1) (1, 385, 0) = Some (mk_pte p2 DL)"
proof -
  have "6 \<le> length [4, 5, 6, 7, 8, 9, 2, 3 :: nat]" by simp
  moreover have "vmap kfree (uslots 1) (1, 384 + 0, 0) = None" "vmap kfree (uslots 1) (1, 384 + 1, 0) = None"
    by (simp_all add: kfree_maps)
  ultimately obtain s' fl' p0 p1 p2 where
    p: "pipe kfree = Some (Inr (int 0, int 1), s')" "runs s' (uslots 1) small_ext fl' 0 1"
      "vmap s' (uslots 1) = vmap kfree (uslots 1) ++ pipe_maps 1 0 1 p0 p1 p2"
      "\<forall>w < 1024. pmem s' p0 w = (if w = 0 then 112 else if w = 2 then O_RDONLY else 0)"
    using pipe_creates [OF kfree_runs kfree_fds] by blast
  then have "pmem s' p0 0 = 112" by simp
  then show ?thesis
    using p(1,3) by (intro exI [of _ s'] exI [of _ p0] exI [of _ p2]) (simp add: pipe_maps_def kfree_maps del: One_nat_def)
qed

lemma pipe_close_both_witness:
  "\<exists>s1 s2 s3. pipe kfree = Some (Inr (0, 1), s1) \<and> close (\<lambda>_ s. None) 0 s1 = Some (Inr 0, s2)
     \<and> close (\<lambda>_ s. None) 1 s2 = Some (Inr 0, s3) \<and> vmap s3 (uslots 1) = Map.empty"
  using pipe_close_both [OF kfree_runs kfree_fds, of "\<lambda>_ s. None"] by (fastforce simp: kfree_maps)

text \<open>A process whose descriptor 0 is a console; one page is free.\<close>

definition kfd :: kstate where
  "kfd = kone\<lparr>
     pmem := (\<lambda>p w. if p = 1 \<and> w = 383 then mk_pte 2 PTE_D else if p = 2 \<and> w = 0 then mk_pte 3 DL
        else if p = 3 \<and> w = 0 then 99 else 0),
     npage := 5, pp_ref := (\<lambda>p. if p < 4 then 1 else 0),
     page_free_list := LIST_INSERT_HEAD 4 (LIST_INIT small_free)\<rparr>"

lemma kfd_simps:
  "pmem kfd = (\<lambda>p w. if p = 1 \<and> w = 383 then mk_pte 2 PTE_D else if p = 2 \<and> w = 0 then mk_pte 3 DL
        else if p = 3 \<and> w = 0 then 99 else 0)"
  "npage kfd = 5" "pp_ref kfd = (\<lambda>p. if p < 4 then 1 else 0)"
  "curenv kfd = Some 0" "cur_pgdir kfd = Some 1" "envs kfd = (\<lambda>_. free_env)(0 := env_one)"
  by (simp_all add: kfd_def kone_simps) (simp add: kone_def small_def pm_state.defs kstate.defs)

lemma kfd_pte: "pte_at k kfd = (if k = (1, 383) then mk_pte 2 PTE_D else if k = (2, 0) then mk_pte 3 DL
    else if k = (3, 0) then 99 else 0)"
  by (cases k) (simp add: kfd_simps pte_at_def)

lemma kfd_PPN: "PPN (mk_pte 2 PTE_D) = 2" "PPN (mk_pte 3 DL) = 3"
  using PPN_mk_pte [of 2 PTE_D] PPN_mk_pte [of 3 DL] DL_facts PTE_D_less by simp_all

lemma kfd_tab: "tab kfd (uslots 1) = [(1, 383) \<mapsto> 2]"
  by (auto simp: tab_def kfd_pte fun_eq_iff uslots_def PDX_UTOP kfd_PPN)

lemma kfd_vmap: "vmap kfd (uslots 1) = [(1, 383, 0) \<mapsto> mk_pte 3 DL]"
  unfolding vmap_def kfd_tab by (auto simp: fun_eq_iff kfd_pte split: if_splits)

lemma kfd_runs: "runs kfd (uslots 1) small_ext [4] 0 1"
proof -
  have "lq_rep (page_free_list kfd) [4]"
    unfolding kfd_def by simp (intro lq_rep_insert_head lq_rep_init, simp_all)
  then have "free_inv kfd [4]" by (simp add: free_inv_def kfd_simps)
  moreover have "tab_inv kfd (uslots 1)"
    unfolding tab_inv_def kfd_tab kfd_vmap by (auto simp: uslots_def kfd_simps kfd_PPN split: if_splits)
  moreover have "ref_inv kfd (uslots 1) small_ext"
    unfolding ref_inv_def kfd_tab kfd_vmap
    by (auto simp: uslots_def small_ext_def kfd_simps nrefs_single kfd_PPN)
  ultimately show ?thesis
    by (simp add: runs_def pm_inv_def kfd_simps owns_def env_one_def)
qed

lemma pipe_rolls_back_witness:
  "\<exists>s'. pipe kfd = Some (Inl E_NO_MEM, s') \<and> vmap s' (uslots 1) = [(1, 383, 0) \<mapsto> mk_pte 3 DL]"
proof -
  have "two_fds kfd (uslots 1) 1 1 2"
    unfolding two_fds_def kfd_vmap by (auto simp del: One_nat_def simp: less_Suc_eq_le le_Suc_eq numeral_2_eq_2)
  then show ?thesis
    using pipe_rolls_back [OF kfd_runs, of 1 2 E_NO_MEM] by (auto simp: kfd_tab kfd_vmap simp del: One_nat_def)
qed

lemma dup_shares_witness:
  "\<exists>s'. dup (\<lambda>_ s. None) 0 1 kfd = Some (Inr 1, s') \<and> vmap s' (uslots 1) (1, 383, 1) = Some (shared (mk_pte 3 DL))"
proof -
  have "few_refs kfd (uslots 1) 1" by (auto simp: few_refs_def kfd_vmap kfd_simps kfd_PPN split: if_splits)
  then show ?thesis
    using dup_shares [OF kfd_runs, of 0 1 "mk_pte 3 DL" 1 "\<lambda>_ s. None"]
    by (auto simp: kfd_vmap kfd_tab kfd_pte MAXFD_def dup_maps_def simp del: One_nat_def)
qed

end
