(* ===== verification/UserFile.thy ===== *)
theory UserFile
  imports FsImage UserFd
begin

text \<open>
  The client side of the file system (\<^verbatim>\<open>user/lib/file.c\<close>, \<^verbatim>\<open>user/lib/fsipc.c\<close>): one client process and
  the server of FsServ. A page of the client is its own, or one of the server's that it got with a
  reply; the server replaces none of its pages while it serves, so its page number stands for the
  page. A request is answered before the client goes on, since \<^verbatim>\<open>fsipc\<close> waits for the reply; the kernel
  calls below it are those of Syscall, of which the client sees that a page is mapped and counted.
  Whether the kernel has a page left is input, as for the server. The descriptor table is the one of
  UserFd, here in terms of the pages that are mapped. \<open>None\<close> is a panic of the client, the
  server or the kernel, or waiting for ever.
\<close>

section \<open>Memory of the client\<close>

datatype frame = Own | Server nat

record world =
  vsrv :: srv
  cmap :: "nat \<Rightarrow> (frame \<times> u32) option"
  cown :: mem
  cseen :: nat
  cid :: u32

text \<open>An access to a page that is not mapped allocates it, except where the kernel forbids that.\<close>

definition touch :: "u32 \<Rightarrow> world \<Rightarrow> world option" where
  "touch va w =
     (if cmap w (VPN va) \<noteq> None then Some w
      else if \<not> passive_ok va then None
      else case fgrants (sfs (vsrv w)) of
          True # g \<Rightarrow> Some (w\<lparr>cmap := (cmap w)(VPN va \<mapsto> (Own, PTE_D)), cown := clear_page (unat va) (cown w),
            vsrv := (vsrv w)\<lparr>sfs := (sfs (vsrv w))\<lparr>fgrants := g\<rparr>\<rparr>\<rparr>)
        | _ \<Rightarrow> None)"

text \<open>Where the byte at an address is: in the memory of the server or in the client's own.\<close>

definition place :: "u32 \<Rightarrow> world \<Rightarrow> nat option" where
  "place va w = (case cmap w (VPN va) of Some (Server p, _) \<Rightarrow> Some (p * 4096 + unat va mod 4096) | _ \<Rightarrow> None)"

definition writable :: "u32 \<Rightarrow> world \<Rightarrow> bool" where
  "writable va w = (case cmap w (VPN va) of Some (_, perm) \<Rightarrow> perm AND PTE_D \<noteq> 0 | None \<Rightarrow> False)"

definition upd_srv_mem :: "(mem \<Rightarrow> mem) \<Rightarrow> world \<Rightarrow> world" where
  "upd_srv_mem f w = w\<lparr>vsrv := (vsrv w)\<lparr>sfs := (sfs (vsrv w))\<lparr>fmem := f (fmem (sfs (vsrv w)))\<rparr>\<rparr>\<rparr>"

definition get8 :: "u32 \<Rightarrow> world \<Rightarrow> (u8 \<times> world) option" where
  "get8 va w = do {
     w1 \<leftarrow> touch va w;
     Some (case place va w1 of Some a \<Rightarrow> fmem (sfs (vsrv w1)) a | None \<Rightarrow> cown w1 (unat va), w1)
   }"

definition put8 :: "u32 \<Rightarrow> u8 \<Rightarrow> world \<Rightarrow> world option" where
  "put8 va b w = do {
     w1 \<leftarrow> touch va w;
     if \<not> writable va w1 then None
     else Some (case place va w1 of
         Some a \<Rightarrow> upd_srv_mem (\<lambda>m. m(a := b)) w1
       | None \<Rightarrow> w1\<lparr>cown := (cown w1)(unat va := b)\<rparr>)
   }"

text \<open>Words are read and written at aligned addresses only.\<close>

definition get32 :: "u32 \<Rightarrow> world \<Rightarrow> (u32 \<times> world) option" where
  "get32 va w =
     (if unat va mod 4 \<noteq> 0 then None
      else do {
        w1 \<leftarrow> touch va w;
        Some (case place va w1 of Some a \<Rightarrow> rd32 (fmem (sfs (vsrv w1))) a | None \<Rightarrow> rd32 (cown w1) (unat va), w1)
      })"

definition put32 :: "u32 \<Rightarrow> u32 \<Rightarrow> world \<Rightarrow> world option" where
  "put32 va x w =
     (if unat va mod 4 \<noteq> 0 then None
      else do {
        w1 \<leftarrow> touch va w;
        if \<not> writable va w1 then None
        else Some (case place va w1 of
            Some a \<Rightarrow> upd_srv_mem (put_word a x) w1
          | None \<Rightarrow> w1\<lparr>cown := put_word (unat va) x (cown w1)\<rparr>)
      })"

text \<open>\<^verbatim>\<open>memcpy\<close>, by bytes in ascending order; CString shows that the order does not matter for regions
  that do not overlap.\<close>

fun copy_user :: "u32 \<Rightarrow> u32 \<Rightarrow> nat \<Rightarrow> world \<Rightarrow> world option" where
  "copy_user dst src 0 w = Some w"
| "copy_user dst src (Suc n) w = do {
     (b, w1) \<leftarrow> get8 src w;
     w2 \<leftarrow> put8 dst b w1;
     copy_user (dst + 1) (src + 1) n w2
   }"

partial_function (option) copy_string :: "u32 \<Rightarrow> u32 \<Rightarrow> world \<Rightarrow> world option" where
  "copy_string dst src w = do {
     (b, w1) \<leftarrow> get8 src w;
     w2 \<leftarrow> put8 dst b w1;
     if b = 0 then Some w2 else copy_string (dst + 1) (src + 1) w2
   }"

section \<open>Mapping pages of the server\<close>

text \<open>A page of the server is counted in \<open>ffref\<close>; a mapping that goes is no longer counted.\<close>

definition drop_ref :: "nat \<Rightarrow> world \<Rightarrow> world" where
  "drop_ref k w = (case cmap w k of
       Some (Server p, _) \<Rightarrow> w\<lparr>vsrv := (vsrv w)\<lparr>ffref := (ffref (vsrv w))(p := ffref (vsrv w) p - 1)\<rparr>\<rparr>
     | _ \<Rightarrow> w)"

definition mem_unmap :: "u32 \<Rightarrow> world \<Rightarrow> (kerr + unit) \<times> world" where
  "mem_unmap va w =
     (if is_illegal_va va then (Inl E_INVAL, w)
      else (Inr (), (drop_ref (VPN va) w)\<lparr>cmap := (cmap w)(VPN va := None)\<rparr>))"

section \<open>Requests\<close>

text \<open>
  The request page goes to the server with \<^verbatim>\<open>PTE_D\<close>. The server answers with the next reply; a reply
  that nobody waited for keeps it busy sending, so that a further request waits for ever. A
  reply with a page is mapped at \<open>dstva\<close>, in place of what was there. The result is the value, the
  permission and the new state. An answer is an error or 0, except that the server also answers
  with an id of at least \<open>2^31\<close>; a client that receives such a number is not followed.
\<close>

definition answer_value :: "kerr + u32 \<Rightarrow> (kerr + unit) option" where
  "answer_value r = (case r of Inl e \<Rightarrow> Some (Inl e) | Inr x \<Rightarrow> if sint x < 0 then None else Some (Inr ()))"

definition receive :: "reply \<Rightarrow> u32 \<Rightarrow> world \<Rightarrow> world" where
  "receive r dstva w =
     (if r_srcva r = 0 then w
      else (drop_ref (VPN dstva) w)\<lparr>cmap := (cmap w)(VPN dstva \<mapsto> (Server (r_srcva r div 4096), r_perm r OR PTE_V))\<rparr>)"

definition fsipc :: "fsreq \<Rightarrow> u32 \<Rightarrow> world \<Rightarrow> ((kerr + unit) \<times> u32 \<times> world) option" where
  "fsipc rq dstva w =
     (if dstva \<noteq> 0 \<and> is_illegal_va dstva then None
      else if cseen w < length (replies (vsrv w)) then None
      else do {
        v1 \<leftarrow> serve_one (cid w) (PTE_V OR PTE_D) rq (vsrv w);
        if length (replies v1) \<le> cseen w then None
        else do {
          let r = replies v1 ! cseen w;
          val \<leftarrow> answer_value (r_val r);
          Some (val, PTE_V OR r_perm r, receive r dstva (w\<lparr>vsrv := v1, cseen := cseen w + 1\<rparr>))
        }
      })"

definition MAXPATHLEN :: nat where "MAXPATHLEN = 1024"

text \<open>The calls without a page and without permission.\<close>

definition fsipc_plain :: "fsreq \<Rightarrow> world \<Rightarrow> ((kerr + unit) \<times> world) option" where
  "fsipc_plain rq w = map_option (\<lambda>(r, _, w1). (r, w1)) (fsipc rq 0 w)"

definition fsipc_open :: "u8 list \<Rightarrow> u32 \<Rightarrow> u32 \<Rightarrow> world \<Rightarrow> ((kerr + unit) \<times> world) option" where
  "fsipc_open path omode fd w =
     (if MAXPATHLEN \<le> length path then Some (Inl E_BAD_PATH, w)
      else map_option (\<lambda>(r, _, w1). (r, w1)) (fsipc (Fsreq_open path omode) fd w))"

definition fsipc_map :: "u32 \<Rightarrow> u32 \<Rightarrow> u32 \<Rightarrow> world \<Rightarrow> ((kerr + unit) \<times> world) option" where
  "fsipc_map fileid offset dstva w = do {
     (r, perm, w1) \<leftarrow> fsipc (Fsreq_map fileid offset) dstva w;
     case r of
       Inl e \<Rightarrow> Some (Inl e, w1)
     | Inr _ \<Rightarrow> if perm AND NOT (PTE_D OR PTE_LIBRARY) \<noteq> PTE_V then None else Some (Inr (), w1)
   }"

definition fsipc_set_size :: "u32 \<Rightarrow> u32 \<Rightarrow> world \<Rightarrow> ((kerr + unit) \<times> world) option" where
  "fsipc_set_size fileid sz = fsipc_plain (Fsreq_set_size fileid sz)"

definition fsipc_close :: "u32 \<Rightarrow> world \<Rightarrow> ((kerr + unit) \<times> world) option" where
  "fsipc_close fileid = fsipc_plain (Fsreq_close fileid)"

definition fsipc_dirty :: "u32 \<Rightarrow> u32 \<Rightarrow> world \<Rightarrow> ((kerr + unit) \<times> world) option" where
  "fsipc_dirty fileid offset = fsipc_plain (Fsreq_dirty fileid offset)"

definition fsipc_remove :: "u8 list \<Rightarrow> world \<Rightarrow> ((kerr + unit) \<times> world) option" where
  "fsipc_remove path w =
     (if MAXPATHLEN \<le> length path then Some (Inl E_BAD_PATH, w) else fsipc_plain (Fsreq_remove path) w)"

definition fsipc_sync :: "world \<Rightarrow> ((kerr + unit) \<times> world) option" where
  "fsipc_sync = fsipc_plain Fsreq_sync"

section \<open>Descriptors\<close>

definition fd_alloc_w :: "world \<Rightarrow> kerr + u32" where
  "fd_alloc_w w = (case find (\<lambda>i. cmap w (VPN (INDEX2FD (int i))) = None) [0..<MAXFD - 1] of
       Some i \<Rightarrow> Inr (INDEX2FD (int i)) | None \<Rightarrow> Inl E_MAX_OPEN)"

definition fd_lookup_w :: "int \<Rightarrow> world \<Rightarrow> kerr + u32" where
  "fd_lookup_w fdnum w =
     (if int MAXFD \<le> fdnum \<or> cmap w (VPN (INDEX2FD fdnum)) = None then Inl E_INVAL else Inr (INDEX2FD fdnum))"

text \<open>\<^verbatim>\<open>f_fileid\<close>, \<^verbatim>\<open>f_size\<close> and \<^verbatim>\<open>f_type\<close> of a \<^verbatim>\<open>struct Filefd\<close>; \<^verbatim>\<open>f_file\<close> is at 16.\<close>

definition f_fileid_va :: "u32 \<Rightarrow> u32" where "f_fileid_va fd = fd + 12"
definition f_size_va :: "u32 \<Rightarrow> u32" where "f_size_va fd = fd + 144"
definition f_type_va :: "u32 \<Rightarrow> u32" where "f_type_va fd = fd + 148"

section \<open>Opening and closing\<close>

partial_function (option) open_map :: "u32 \<Rightarrow> u32 \<Rightarrow> u32 \<Rightarrow> u32 \<Rightarrow> world \<Rightarrow> ((kerr + unit) \<times> world) option" where
  "open_map fileid va size_f i w =
     (if i < size_f then do {
        (r, w1) \<leftarrow> fsipc_map fileid i (va + i) w;
        case r of Inl e \<Rightarrow> Some (Inl e, w1) | Inr _ \<Rightarrow> open_map fileid va size_f (i + BY2PG) w1
      }
      else Some (Inr (), w))"

definition open_user :: "u8 list \<Rightarrow> u32 \<Rightarrow> world \<Rightarrow> ((kerr + int) \<times> world) option" where
  "open_user path mode w =
     (case fd_alloc_w w of
        Inl e \<Rightarrow> Some (Inl e, w)
      | Inr fd \<Rightarrow> do {
          (r, w1) \<leftarrow> fsipc_open path mode fd w;
          case r of
            Inl e \<Rightarrow> Some (Inl e, w1)
          | Inr _ \<Rightarrow> do {
              let va = fd2data fd;
              (fileid, w2) \<leftarrow> get32 (f_fileid_va fd) w1;
              (size_f, w3) \<leftarrow> get32 (f_size_va fd) w2;
              (r2, w4) \<leftarrow> open_map fileid va size_f 0 w3;
              case r2 of Inl e \<Rightarrow> Some (Inl e, w4) | Inr _ \<Rightarrow> Some (Inr (fd2num fd), w4)
            }
        })"

partial_function (option) dirty_loop :: "u32 \<Rightarrow> u32 \<Rightarrow> u32 \<Rightarrow> world \<Rightarrow> world option" where
  "dirty_loop fileid size_f i w =
     (if i < size_f then do {
        (_, w1) \<leftarrow> fsipc_dirty fileid i w;
        dirty_loop fileid size_f (i + BY2PG) w1
      }
      else Some w)"

partial_function (option) unmap_loop :: "u32 \<Rightarrow> u32 \<Rightarrow> u32 \<Rightarrow> world \<Rightarrow> ((kerr + unit) \<times> world) option" where
  "unmap_loop va size_f i w =
     (if i < size_f then
        (case mem_unmap (va + i) w of
           (Inl e, w1) \<Rightarrow> Some (Inl e, w1)
         | (Inr _, w1) \<Rightarrow> unmap_loop va size_f (i + BY2PG) w1)
      else Some (Inr (), w))"

definition file_close_user :: "u32 \<Rightarrow> world \<Rightarrow> ((kerr + unit) \<times> world) option" where
  "file_close_user fd w = do {
     (fileid, w1) \<leftarrow> get32 (f_fileid_va fd) w;
     (size_f, w2) \<leftarrow> get32 (f_size_va fd) w1;
     let va = fd2data fd;
     w3 \<leftarrow> dirty_loop fileid size_f 0 w2;
     (r, w4) \<leftarrow> fsipc_close fileid w3;
     case r of Inl e \<Rightarrow> Some (Inl e, w4) | Inr _ \<Rightarrow> unmap_loop va size_f 0 w4
   }"

section \<open>Reading, writing and the size\<close>

definition file_read :: "u32 \<Rightarrow> u32 \<Rightarrow> u32 \<Rightarrow> u32 \<Rightarrow> world \<Rightarrow> (int \<times> world) option" where
  "file_read fd buf n offset w = do {
     (size_f, w1) \<leftarrow> get32 (f_size_va fd) w;
     if size_f < offset then Some (0, w1)
     else do {
       let n1 = (if size_f < offset + n then size_f - offset else n);
       w2 \<leftarrow> copy_user buf (fd2data fd + offset) (unat n1) w1;
       Some (sint n1, w2)
     }
   }"

definition MAXFILESIZE :: u32 where "MAXFILESIZE = 0x400000"

definition is_file :: "u32 \<Rightarrow> world \<Rightarrow> (bool \<times> world) option" where
  "is_file fd w = do { (i, w1) \<leftarrow> get32 fd w; Some (i = dev_id Devfile, w1) }"

definition read_map :: "int \<Rightarrow> u32 \<Rightarrow> world \<Rightarrow> ((kerr + u32) \<times> world) option" where
  "read_map fdnum offset w =
     (case fd_lookup_w fdnum w of
        Inl e \<Rightarrow> Some (Inl e, w)
      | Inr fd \<Rightarrow> do {
          (isf, w1) \<leftarrow> is_file fd w;
          if \<not> isf then Some (Inl E_INVAL, w1)
          else
            let va = fd2data fd + offset in
            if MAXFILESIZE \<le> offset then Some (Inl E_NO_DISK, w1)
            else if cmap w1 (VPN va) = None then Some (Inl E_NO_DISK, w1)
            else Some (Inr va, w1)
        })"

text \<open>The two loops of \<^verbatim>\<open>ftruncate\<close> over the pages from \<open>i\<close> up to \<open>to\<close>; the second panics on an error.\<close>

partial_function (option) grow_loop :: "u32 \<Rightarrow> u32 \<Rightarrow> u32 \<Rightarrow> u32 \<Rightarrow> u32 \<Rightarrow> world \<Rightarrow> ((kerr + unit) \<times> world) option" where
  "grow_loop fileid va oldsize to i w =
     (if i < to then do {
        (r, w1) \<leftarrow> fsipc_map fileid i (va + i) w;
        case r of
          Inl e \<Rightarrow> do { (_, w2) \<leftarrow> fsipc_set_size fileid oldsize w1; Some (Inl e, w2) }
        | Inr _ \<Rightarrow> grow_loop fileid va oldsize to (i + BY2PG) w1
      }
      else Some (Inr (), w))"

partial_function (option) shrink_loop :: "u32 \<Rightarrow> u32 \<Rightarrow> u32 \<Rightarrow> world \<Rightarrow> world option" where
  "shrink_loop va to i w =
     (if i < to then
        (case mem_unmap (va + i) w of (Inl _, _) \<Rightarrow> None | (Inr _, w1) \<Rightarrow> shrink_loop va to (i + BY2PG) w1)
      else Some w)"

definition ftruncate :: "int \<Rightarrow> u32 \<Rightarrow> world \<Rightarrow> ((kerr + unit) \<times> world) option" where
  "ftruncate fdnum size_f w =
     (if MAXFILESIZE < size_f then Some (Inl E_NO_DISK, w)
      else case fd_lookup_w fdnum w of
        Inl e \<Rightarrow> Some (Inl e, w)
      | Inr fd \<Rightarrow> do {
          (isf, w1) \<leftarrow> is_file fd w;
          if \<not> isf then Some (Inl E_INVAL, w1)
          else do {
            (fileid, w2) \<leftarrow> get32 (f_fileid_va fd) w1;
            (oldsize, w3) \<leftarrow> get32 (f_size_va fd) w2;
            w4 \<leftarrow> put32 (f_size_va fd) size_f w3;
            (r, w5) \<leftarrow> fsipc_set_size fileid size_f w4;
            case r of
              Inl e \<Rightarrow> Some (Inl e, w5)
            | Inr _ \<Rightarrow> do {
                let va = fd2data fd;
                (r2, w6) \<leftarrow> grow_loop fileid va oldsize (ROUND size_f BY2PG) (ROUND oldsize BY2PG) w5;
                case r2 of
                  Inl e \<Rightarrow> Some (Inl e, w6)
                | Inr _ \<Rightarrow> do {
                    w7 \<leftarrow> shrink_loop va (ROUND oldsize BY2PG) (ROUND size_f BY2PG) w6;
                    Some (Inr (), w7)
                  }
              }
          }
        })"

definition file_write :: "u32 \<Rightarrow> u32 \<Rightarrow> u32 \<Rightarrow> u32 \<Rightarrow> world \<Rightarrow> (int \<times> world) option" where
  "file_write fd buf n offset w =
     (let tot = offset + n in
      if MAXFILESIZE < tot then Some (- errno E_NO_DISK, w)
      else do {
        (size_f, w1) \<leftarrow> get32 (f_size_va fd) w;
        (r, w2) \<leftarrow> (if size_f < tot then ftruncate (fd2num fd) tot w1 else Some (Inr (), w1));
        case r of
          Inl e \<Rightarrow> Some (- errno e, w2)
        | Inr _ \<Rightarrow> do {
            w3 \<leftarrow> copy_user (fd2data fd + offset) buf (unat n) w2;
            Some (sint n, w3)
          }
      })"

text \<open>A \<^verbatim>\<open>struct Stat\<close> has the name at 0, the size at 128, the kind at 132 and the device at 136.\<close>

definition file_stat :: "u32 \<Rightarrow> u32 \<Rightarrow> world \<Rightarrow> (int \<times> world) option" where
  "file_stat fd stp w = do {
     w1 \<leftarrow> copy_string stp (fd + 16) w;
     (size_f, w2) \<leftarrow> get32 (f_size_va fd) w1;
     w3 \<leftarrow> put32 (stp + 128) size_f w2;
     (ty, w4) \<leftarrow> get32 (f_type_va fd) w3;
     w5 \<leftarrow> put32 (stp + 132) (if ty = FTYPE_DIR then 1 else 0) w4;
     Some (0, w5)
   }"

definition remove :: "u8 list \<Rightarrow> world \<Rightarrow> ((kerr + unit) \<times> world) option" where
  "remove path = fsipc_remove path"

definition sync :: "world \<Rightarrow> ((kerr + unit) \<times> world) option" where
  "sync = fsipc_sync"

section \<open>Closing and \<^verbatim>\<open>stat\<close> by number\<close>

fun dev_close_user :: "dev \<Rightarrow> u32 \<Rightarrow> world \<Rightarrow> ((kerr + unit) \<times> world) option" where
  "dev_close_user Devfile fd w = file_close_user fd w"
| "dev_close_user Devcons fd w = Some (Inr (), w)"
| "dev_close_user Devpipe fd w = Some (Inr (), snd (mem_unmap (fd2data fd) (snd (mem_unmap fd w))))"

definition close_user :: "int \<Rightarrow> world \<Rightarrow> ((kerr + unit) \<times> world) option" where
  "close_user fdnum w =
     (case fd_lookup_w fdnum w of
        Inl e \<Rightarrow> Some (Inl e, w)
      | Inr fd \<Rightarrow> do {
          (i, w1) \<leftarrow> get32 fd w;
          case dev_lookup i of
            Inl e \<Rightarrow> Some (Inl e, w1)
          | Inr dev \<Rightarrow> do {
              (r, w2) \<leftarrow> dev_close_user dev fd w1;
              Some (r, snd (mem_unmap fd w2))
            }
        })"

fun put_string :: "u32 \<Rightarrow> u8 list \<Rightarrow> world \<Rightarrow> world option" where
  "put_string va [] w = put8 va 0 w"
| "put_string va (c # cs) w = do { w1 \<leftarrow> put8 va c w; put_string (va + 1) cs w1 }"

definition cons_stat :: "u32 \<Rightarrow> u32 \<Rightarrow> world \<Rightarrow> (int \<times> world) option" where
  "cons_stat fd stp w = do { w1 \<leftarrow> put_string stp [60, 99, 111, 110, 115, 62] w; Some (0, w1) }"

fun dev_stat :: "dev \<Rightarrow> u32 \<Rightarrow> u32 \<Rightarrow> world \<Rightarrow> (int \<times> world) option" where
  "dev_stat Devfile fd stp w = file_stat fd stp w"
| "dev_stat Devcons fd stp w = cons_stat fd stp w"
| "dev_stat Devpipe fd stp w = Some (0, w)"

text \<open>The address of a device's \<^verbatim>\<open>struct Dev\<close>, fixed by the linker, is the argument \<open>devp\<close>.\<close>

definition fstat :: "(dev \<Rightarrow> u32) \<Rightarrow> int \<Rightarrow> u32 \<Rightarrow> world \<Rightarrow> (int \<times> world) option" where
  "fstat devp fdnum stp w =
     (case fd_lookup_w fdnum w of
        Inl e \<Rightarrow> Some (- errno e, w)
      | Inr fd \<Rightarrow> do {
          (i, w1) \<leftarrow> get32 fd w;
          case dev_lookup i of
            Inl e \<Rightarrow> Some (- errno e, w1)
          | Inr dev \<Rightarrow> do {
              w2 \<leftarrow> put8 stp 0 w1;
              w3 \<leftarrow> put32 (stp + 128) 0 w2;
              w4 \<leftarrow> put32 (stp + 132) 0 w3;
              w5 \<leftarrow> put32 (stp + 136) (devp dev) w4;
              dev_stat dev fd stp w5
            }
        })"

definition stat :: "(dev \<Rightarrow> u32) \<Rightarrow> u8 list \<Rightarrow> u32 \<Rightarrow> world \<Rightarrow> (int \<times> world) option" where
  "stat devp path stp w = do {
     (r, w1) \<leftarrow> open_user path O_RDONLY w;
     case r of
       Inl e \<Rightarrow> Some (- errno e, w1)
     | Inr fdnum \<Rightarrow> do {
         (r2, w2) \<leftarrow> fstat devp fdnum stp w1;
         (_, w3) \<leftarrow> close_user fdnum w2;
         Some (r2, w3)
       }
   }"

end
