(* ===== verification/FsAnswer.thy ===== *)
theory FsAnswer
  imports FsImage
begin

text \<open>
  What the server of FsServ answers from a mounted image: the reply to an open is a page with the
  size and the id of the file, the reply to a map request a page with the bytes of the block.
\<close>

section \<open>Changes outside of the cache\<close>

definition same_cache :: "fs \<Rightarrow> fs \<Rightarrow> bool" where
  "same_cache s s' \<longleftrightarrow> super s' = super s \<and> bitmap s' = bitmap s \<and> fdisk s' = fdisk s
     \<and> (\<forall>p. cache_page p \<longrightarrow> fperm s' p = fperm s p) \<and> (\<forall>a. cache_page (a div 4096) \<longrightarrow> fmem s' a = fmem s a)"

lemma same_cache_refl [simp]: "same_cache s s"
  by (simp add: same_cache_def)

lemma same_cache_trans: "same_cache s s1 \<Longrightarrow> same_cache s1 s2 \<Longrightarrow> same_cache s s2"
  by (simp add: same_cache_def)

lemma cache_block: "b < DISKMAX div BY2BLK \<Longrightarrow> cache_page (DISKMAP div 4096 + b)"
  by (simp add: cache_page_def fs_defs)

lemma same_cache_ld:
  assumes "same_cache s s'" and "b < DISKMAX div BY2BLK" and "x + 4 \<le> BY2BLK"
  shows "ld (DISKMAP + b * BY2BLK + x) s' = ld (DISKMAP + b * BY2BLK + x) s"
  unfolding ld_def
proof (rule rd32_mem)
  fix y assume "y < (4 :: nat)"
  then have "cache_page ((DISKMAP + b * BY2BLK + (x + y)) div 4096)"
    using page_of_byte [of "x + y" b] assms(3) cache_block [OF assms(2)] by simp
  then show "fmem s' (DISKMAP + b * BY2BLK + x + y) = fmem s (DISKMAP + b * BY2BLK + x + y)"
    using assms(1) by (simp add: same_cache_def add.assoc)
qed

lemma same_cache_layout:
  assumes "same_cache s s'" and "layout s"
  shows "s_nblocks s' = s_nblocks s" and "layout s'"
proof -
  have 1: "1 < DISKMAX div BY2BLK" by (simp add: fs_defs)
  show nb: "s_nblocks s' = s_nblocks s"
    using same_cache_ld [OF assms(1) 1, of 4] assms by (simp add: s_nblocks_def same_cache_def layout_def fs_defs)
  have "fperm s' (DISKMAP div 4096 + i) \<noteq> None" if "i < nbitmap s + 2" "0 < i" for i
  proof -
    have "i < DISKMAX div BY2BLK" using that(1) assms(2) by (simp add: layout_def)
    then show ?thesis using cache_block [of i] assms that by (simp add: same_cache_def layout_def)
  qed
  then show "layout s'" using assms by (simp add: layout_def nb nbitmap_def same_cache_def)
qed

lemma serves_same_cache:
  assumes "serves ds L U d s" and "same_cache s s'"
  shows "serves ds L U d s'"
proof -
  have lay: "layout s" using assms(1) by (simp add: serves_def)
  note l = same_cache_layout [OF assms(2) lay]
  have max: "b < s_nblocks s \<Longrightarrow> b < DISKMAX div BY2BLK" for b using lay by (simp add: layout_def)
  have "free b s' = free b s" if b: "b < s_nblocks s" for b
  proof -
    have "2 + b div BIT2BLK < nbitmap s + 2" using bitmap_block_less [OF b] by simp
    then have "2 + b div BIT2BLK < DISKMAX div BY2BLK" using lay by (simp add: layout_def)
    from same_cache_ld [OF assms(2) this bitmap_word_addr(2) [OF lay]]
    show ?thesis using bitmap_word_addr(1) [OF lay, of b] assms(2) by (simp add: free_def bit_word_def same_cache_def)
  qed
  moreover have "contents s' a = contents s a" if a: "a < disk_nblocks d * BY2BLK" for a
  proof -
    have "a div BY2BLK < s_nblocks s" using less_mult_imp_div_less [OF a] assms(1) by (simp add: serves_def)
    note c = cache_block [OF max [OF this]]
    have "(DISKMAP + a) div 4096 = DISKMAP div 4096 + a div BY2BLK" by (simp add: fs_defs)
    then show ?thesis using c assms(2) by (simp add: contents_def same_cache_def)
  qed
  ultimately show ?thesis using assms(1) l by (simp add: serves_def)
qed

lemma same_cache_file_cached:
  assumes "same_cache s s'" and "file_cached x s" and "x div BY2BLK < DISKMAX div BY2BLK"
  shows "file_cached x s'"
  using assms cache_block [OF assms(3)] by (simp add: same_cache_def file_cached_def)

section \<open>The table of open files\<close>

definition ff_page :: "nat \<Rightarrow> nat" where "ff_page i = FILEVA div 4096 + i"

lemma ff_page_not_cache: "\<not> cache_page (ff_page i)"
  by (simp add: ff_page_def cache_page_def FILEVA_def fs_defs)

lemma ff_page_of: "x < 4096 \<Longrightarrow> (FILEVA + i * 4096 + x) div 4096 = ff_page i"
  by (simp add: ff_page_def FILEVA_def)

text \<open>The entry that an open will take, the first one whose page no client holds, when its next id is
  not negative as an \<^verbatim>\<open>int\<close>.\<close>

definition next_entry :: "nat \<Rightarrow> srv \<Rightarrow> bool" where
  "next_entry i v \<longleftrightarrow> i < MAXOPEN \<and> pageref (o_ff (opentab v ! i)) v \<le> 1
     \<and> (\<forall>k < i. 1 < pageref (o_ff (opentab v ! k)) v)
     \<and> 0 \<le> sint (o_fileid (opentab v ! i) + word_of_nat MAXOPEN)"

definition entry_page :: "nat \<Rightarrow> srv \<Rightarrow> bool" where
  "entry_page i v \<longleftrightarrow> fperm (sfs v) (ff_page i) \<noteq> None"

lemma open_scan_skip:
  "(\<forall>k \<in> set ks. 1 < pageref (o_ff (opentab v ! k)) v) \<Longrightarrow> open_scan (ks @ is) v = open_scan is v"
  by (induction ks) (auto simp: Let_def)

lemma open_alloc_takes:
  assumes "srv_wf v" and "next_entry i v" and "grants (Suc n) (sfs v)"
  obtains v1 where "open_alloc v = (Inr (i, o_fileid (opentab v ! i) + word_of_nat MAXOPEN), v1)" and "same_cache (sfs v) (sfs v1)" and "entry_page i v1"
    and "opentab v1 = (opentab v)[i := (opentab v ! i)\<lparr>o_fileid := o_fileid (opentab v ! i) + word_of_nat MAXOPEN\<rparr>]"
    and "replies v1 = replies v" and "ffref v1 = (ffref v)(ff_page i := 1)" and "grants n (sfs v1)"
    and "\<forall>x < 4096. fmem (sfs v1) (FILEVA + i * 4096 + x) = 0"
    and "\<forall>p. p \<noteq> ff_page i \<longrightarrow> fperm (sfs v1) p = fperm (sfs v) p"
proof -
  let ?va = "FILEVA + i * 4096"
  have i: "i < MAXOPEN" using assms(2) by (simp add: next_entry_def)
  have ff: "o_ff (opentab v ! i) = ?va" using assms(1) i by (simp add: srv_wf_def)
  have pg: "?va div 4096 = ff_page i" using ff_page_of [of 0 i] by simp
  have split: "[0..<MAXOPEN] = [0..<i] @ i # [Suc i..<MAXOPEN]" by (rule upt_split [OF i])
  have skip: "\<forall>k \<in> set [0..<i]. 1 < pageref (o_ff (opentab v ! k)) v" using assms(2) by (simp add: next_entry_def)
  have sc: "open_scan [0..<MAXOPEN] v = open_scan (i # [Suc i..<MAXOPEN]) v"
    unfolding split by (rule open_scan_skip [OF skip])
  have len: "i < length (opentab v)" using assms(1) i by (simp add: srv_wf_def)
  have mem: "memset ?va 0 4096 m a = (if a div 4096 = ff_page i then 0 else m a)" for m a
    using page_iff [of "ff_page i" a] by (auto simp: memset_filled filled_def ff_page_def FILEVA_def)
  obtain g where g: "fgrants (sfs v) = replicate n True @ True # g"
    using assms(3) by (auto simp: grants_def replicate_app_Cons_same)
  have g1: "fgrants (sfs v) = True # replicate n True @ g"
    using assms(3) g by (simp add: replicate_app_Cons_same)
  have take: "open_take i v0 = v0\<lparr>opentab := (opentab v)[i := (opentab v ! i)\<lparr>o_fileid := o_fileid (opentab v ! i) + word_of_nat MAXOPEN\<rparr>],
      sfs := (sfs v0)\<lparr>fmem := memset ?va 0 4096 (fmem (sfs v0))\<rparr>\<rparr>" if "opentab v0 = opentab v" for v0
    using that ff by (simp add: open_take_def Let_def)
  consider "pageref ?va v = 0" | "pageref ?va v = 1" using assms(2) ff by (auto simp: next_entry_def le_Suc_eq)
  then show ?thesis
  proof cases
    case 1
    let ?s = "(sfs v)\<lparr>fmem := clear_page ?va (fmem (sfs v)), fperm := (fperm (sfs v))(ff_page i \<mapsto> PTE_D OR PTE_LIBRARY),
      fgrants := replicate n True @ g\<rparr>"
    have "syscall_mem_alloc ?va (PTE_D OR PTE_LIBRARY) (sfs v) = (Inr (), ?s)"
      using g1 by (simp add: syscall_mem_alloc_def pg)
    then have "open_alloc v = (Inr (i, o_fileid (opentab v ! i) + word_of_nat MAXOPEN),
        open_take i (v\<lparr>sfs := ?s, ffref := (ffref v)(ff_page i := 1)\<rparr>))"
      using 1 ff len by (simp add: open_alloc_def sc Let_def pg take)
    then show ?thesis
      by (rule that) (use g1 in \<open>auto simp: take same_cache_def entry_page_def grants_def mem clear_page_def pg ff_page_not_cache ff_page_of\<close>)
  next
    case 2
    have p: "fperm (sfs v) (ff_page i) \<noteq> None" "ffref v (ff_page i) = 1"
      using 2 by (auto simp: pageref_def pg split: if_splits)
    have "open_alloc v = (Inr (i, o_fileid (opentab v ! i) + word_of_nat MAXOPEN), open_take i v)"
      using 2 ff len by (simp add: open_alloc_def sc Let_def take)
    then show ?thesis
      by (rule that) (use p g1 grants_Suc [OF assms(3)] in \<open>auto simp: take same_cache_def entry_page_def grants_def mem ff_page_not_cache ff_page_of\<close>)
  qed
qed

section \<open>The blocks of a file of the image\<close>

definition data_link :: "nat \<Rightarrow> nat \<Rightarrow> mem \<Rightarrow> nat" where
  "data_link j k d = link_of (disk_slot j d) k d"

lemma serves_data:
  assumes "serves ds L U d s" and "j < length ds" and "k * BY2BLK < length (snd (ds ! j))"
  shows "data_link j k d \<in> U - disk_links L d" and "link_of (disk_slot j d) k (contents s) = data_link j k d"
    and "x < BY2BLK \<Longrightarrow> k * BY2BLK + x < length (snd (ds ! j)) \<Longrightarrow>
      contents s (data_link j k d * BY2BLK + x) = snd (ds ! j) ! (k * BY2BLK + x)"
    and "k < NINDIRECT" and "NDIRECT \<le> k \<Longrightarrow> unat (rd32 (contents s) (f_indirect_at (disk_slot j d))) \<in> U"
proof -
  note f = serves_file [OF assms(1,2)]
  have fd: "file_ok (fst (ds ! j)) (snd (ds ! j)) (disk_slot j d) (U - disk_links L d) d"
    using assms(1,2) by (simp add: serves_def disk_image_def)
  show lk: "link_of (disk_slot j d) k (contents s) = data_link j k d"
    unfolding data_link_def by (rule file_link_same [OF fd serves_same_file [OF assms(1,2)] f(3) assms(3)])
  have h: "holds_bytes (disk_slot j d) 0 (snd (ds ! j)) (U - disk_links L d) (contents s)"
    using f(1) by (simp add: file_ok_def)
  show "data_link j k d \<in> U - disk_links L d"
    using h assms(3) lk unfolding holds_bytes_def by (metis add_0)
  show "contents s (data_link j k d * BY2BLK + x) = snd (ds ! j) ! (k * BY2BLK + x)"
    if "x < BY2BLK" "k * BY2BLK + x < length (snd (ds ! j))"
    using h assms(3) lk that unfolding holds_bytes_def by (metis add_0)
  have k: "k < nblocks_of (snd (ds ! j))" by (rule nblocks_of_index [OF assms(3)])
  then show "k < NINDIRECT" using f(3) by simp
  show "unat (rd32 (contents s) (f_indirect_at (disk_slot j d))) \<in> U" if "NDIRECT \<le> k"
    using f(1) k that by (auto simp: file_ok_def)
qed

lemma serves_get_block:
  assumes "serves ds L U d s" and "file_cached (disk_slot j d) s" and "j < length ds"
    and "k * BY2BLK < length (snd (ds ! j))" and "grants (n + 2) s"
  obtains s' where "file_get_block (DISKMAP + disk_slot j d) k s = Some (Inr (DISKMAP + data_link j k d * BY2BLK), s')"
    and "more_cached s s'" and "cached (data_link j k d) s'" and "grants n s'"
proof -
  note b = serves_data [OF assms(1,3,4)]
  have lay: "layout s" using assms(1) by (simp add: serves_def)
  have g: "grants (Suc (Suc n)) s" using assms(5) by simp
  have r: "readable (link_of (disk_slot j d) k (contents s)) s"
    "NDIRECT \<le> k \<Longrightarrow> readable (unat (rd32 (contents s) (f_indirect_at (disk_slot j d)))) s"
    using b(1,2,5) serves_readable [OF assms(1)] by auto
  show ?thesis
    using file_get_block_reads [OF lay assms(2) b(4) g r(2,1)] that unfolding b(2) by blast
qed

text \<open>Once cached, the page of a block holds the bytes of the file.\<close>

lemma serves_page_bytes:
  assumes "serves ds L U d s" and "j < length ds" and "cached (data_link j k d) s" and "x < BY2BLK"
    and "k * BY2BLK + x < length (snd (ds ! j))"
  shows "fmem s (DISKMAP + data_link j k d * BY2BLK + x) = snd (ds ! j) ! (k * BY2BLK + x)"
  using serves_data(3) [OF assms(1,2) _ assms(4,5)] contents_cached [OF assms(3,4)] assms(5) by simp

section \<open>Answers\<close>

text \<open>File \<open>j\<close> is open as entry \<open>i\<close> with the id \<open>fid\<close>, and a client holds its descriptor.\<close>

definition open_entry :: "(u8 list \<times> u8 list) list \<Rightarrow> nat \<Rightarrow> nat set \<Rightarrow> mem \<Rightarrow> nat \<Rightarrow> nat \<Rightarrow> u32 \<Rightarrow> srv \<Rightarrow> bool" where
  "open_entry ds L U d j i fid v \<longleftrightarrow> serves ds L U d (sfs v) \<and> file_cached (disk_slot j d) (sfs v) \<and> j < length ds
     \<and> srv_wf v \<and> i < MAXOPEN \<and> o_fileid (opentab v ! i) = fid \<and> o_file (opentab v ! i) = DISKMAP + disk_slot j d
     \<and> entry_page i v \<and> ffref v (ff_page i) \<noteq> 1"

lemma open_entry_lookup:
  assumes "open_entry ds L U d j i fid v"
  shows "open_lookup fid v = Inr i"
proof -
  have i: "unat fid mod MAXOPEN = i" "o_ff (opentab v ! i) = FILEVA + i * 4096"
    using assms by (auto simp: open_entry_def srv_wf_def)
  have "(FILEVA + i * 4096) div 4096 = ff_page i" using ff_page_of [of 0 i] by simp
  then have "pageref (o_ff (opentab v ! i)) v = ffref v (ff_page i)"
    using assms i(2) by (auto simp: pageref_def open_entry_def entry_page_def)
  then show ?thesis using assms i(1) by (simp add: open_lookup_def Let_def open_entry_def)
qed

lemma ipc_send_sel [simp]:
  "sfs (ipc_send whom r srcva perm v) = sfs v" "opentab (ipc_send whom r srcva perm v) = opentab v"
  by (simp_all add: ipc_send_def)

lemma REQVA_page: "\<not> cache_page (REQVA div 4096)" "REQVA div 4096 \<noteq> ff_page i"
  by (simp_all add: cache_page_def REQVA_def ff_page_def FILEVA_def fs_defs)

lemma same_cache_unmap_req: "same_cache s (syscall_mem_unmap REQVA s)"
  using REQVA_page(1) by (auto simp: same_cache_def syscall_mem_unmap_def)

lemma slot_block_bound:
  assumes "serves ds L U d s" and "j < length ds"
  shows "disk_slot j d div BY2BLK < DISKMAX div BY2BLK"
proof -
  have im: "disk_image ds L U d" using assms(1) by (simp add: serves_def)
  have j: "j < L * FILE2BLK" using im assms(2) by (simp add: disk_image_def)
  have l: "link_of disk_root (j div FILE2BLK) d \<in> U"
    using disk_slot_dir_slot(2) [OF assms(1) j] im by (auto simp: disk_image_def)
  have "j mod FILE2BLK * BY2FILE < BY2BLK" by (simp add: fs_defs)
  then have "disk_slot j d div BY2BLK = link_of disk_root (j div FILE2BLK) d"
    using block_addr by (simp add: disk_slot_def)
  then show ?thesis using image_root(4) [OF im l] im by (simp add: disk_image_def mountable_def)
qed

definition DLw :: u32 where "DLw = PTE_D OR PTE_LIBRARY"

lemma disk_file_nonnull: "DISKMAP + x \<noteq> 0"
  by (simp add: fs_defs)

lemma serve_map_ok:
  assumes "open_entry ds L U d j i fid v" and "unat offset div BY2BLK = k"
    and "k * BY2BLK < length (snd (ds ! j))" and "grants (n + 2) (sfs v)"
  obtains v' where "serve_one whom (PTE_V OR PTE_D) (Fsreq_map fid offset) v = Some v'"
    and "open_entry ds L U d j i fid v'"
    and "replies v' = replies v @ [\<lparr>r_whom = whom, r_val = Inr 0, r_srcva = (DISKMAP div 4096 + data_link j k d) * 4096, r_perm = DLw\<rparr>]"
    and "grants n (sfs v')" and "keeps (sfs v) (sfs v'\<lparr>fperm := (fperm (sfs v'))(REQVA div 4096 := fperm (sfs v) (REQVA div 4096))\<rparr>)"
    and "cached (data_link j k d) (sfs v')" and "opentab v' = opentab v"
    and "\<forall>p. \<not> cache_page p \<longrightarrow> ffref v' p = ffref v p"
proof -
  have e: "serves ds L U d (sfs v)" "file_cached (disk_slot j d) (sfs v)" "j < length ds"
    "o_file (opentab v ! i) = DISKMAP + disk_slot j d"
    using assms(1) by (simp_all add: open_entry_def)
  obtain s1 where s1: "file_get_block (DISKMAP + disk_slot j d) k (sfs v)
      = Some (Inr (DISKMAP + data_link j k d * BY2BLK), s1)"
    "more_cached (sfs v) s1" "cached (data_link j k d) s1" "grants n s1"
    by (rule serves_get_block [OF e(1-3) assms(3,4)])
  let ?p = "DISKMAP div 4096 + data_link j k d"
  have pg: "DISKMAP + data_link j k d * BY2BLK = ?p * 4096" by (simp add: fs_defs)
  let ?v = "ipc_send whom (Inr 0) (?p * 4096) DLw (v\<lparr>sfs := s1\<rparr>)"
  let ?v' = "?v\<lparr>sfs := syscall_mem_unmap REQVA (sfs ?v)\<rparr>"
  have "(PTE_V OR PTE_D) AND PTE_V \<noteq> 0" by (simp add: PTE_V_def PTE_D_def)
  then have "serve_one whom (PTE_V OR PTE_D) (Fsreq_map fid offset) v = Some ?v'"
    using s1(1) open_entry_lookup [OF assms(1)] e(4) assms(2)
    by (simp add: serve_one_def serve_map_def at_file_def pg DLw_def disk_file_nonnull del: add_is_0 add_eq_0_iff_both_eq_0)
  moreover have bl: "data_link j k d < DISKMAX div BY2BLK"
  proof -
    have "data_link j k d \<in> U" using serves_data(1) [OF e(1,3) assms(3)] by simp
    then show ?thesis using image_root(4) e(1) by (fastforce simp: serves_def disk_image_def mountable_def)
  qed
  have cp: "cache_page ?p" by (rule cache_block [OF bl])
  have sfs: "sfs ?v' = syscall_mem_unmap REQVA s1" by (simp add: ipc_send_def)
  have srv: "serves ds L U d (sfs ?v')"
    unfolding sfs by (rule serves_same_cache [OF serves_more [OF e(1) s1(2)] same_cache_unmap_req])
  have fc: "file_cached (disk_slot j d) (sfs ?v')"
    unfolding sfs
    by (rule same_cache_file_cached [OF same_cache_unmap_req file_cached_more [OF s1(2) e(2)] slot_block_bound [OF e(1,3)]])
  have fr: "ffref ?v' q = ffref v q" if "\<not> cache_page q" for q
    using that cp by (auto simp: ipc_send_def)
  have "entry_page i ?v'"
    using assms(1) s1(2) REQVA_page(2) [of i] ff_page_not_cache [of i]
    by (simp add: open_entry_def entry_page_def sfs syscall_mem_unmap_def more_cached_def)
  then have "open_entry ds L U d j i fid ?v'"
    using assms(1) srv fc fr [OF ff_page_not_cache] by (simp add: open_entry_def srv_wf_def)
  moreover have "replies ?v' = replies v @ [\<lparr>r_whom = whom, r_val = Inr 0, r_srcva = ?p * 4096, r_perm = DLw\<rparr>]"
    by (simp add: ipc_send_def)
  moreover have "grants n (sfs ?v')" using s1(4) by (simp add: sfs grants_def syscall_mem_unmap_def)
  moreover have "cached (data_link j k d) (sfs ?v')"
    using s1(3) cp REQVA_page(1) by (auto simp: sfs syscall_mem_unmap_def)
  moreover have "opentab ?v' = opentab v" by (simp add: ipc_send_def)
  moreover have "keeps (sfs v) (sfs ?v'\<lparr>fperm := (fperm (sfs ?v'))(REQVA div 4096 := fperm (sfs v) (REQVA div 4096))\<rparr>)"
    using s1(2) by (auto simp: sfs keeps_def more_cached_def syscall_mem_unmap_def)
  ultimately show ?thesis using that fr by blast
qed

text \<open>Filling in the descriptor page.\<close>

lemma fill_filefd_words:
  assumes "\<forall>x < 4. m (ff + 4 + x) = 0"
  shows "rd32 (fill_filefd ff f fileid omode m) ff = devfile_id" "rd32 (fill_filefd ff f fileid omode m) (ff + 4) = 0"
    "rd32 (fill_filefd ff f fileid omode m) (ff + 8) = omode" "rd32 (fill_filefd ff f fileid omode m) (ff + 12) = fileid"
    "x + 4 \<le> BY2FILE \<Longrightarrow> rd32 (fill_filefd ff f fileid omode m) (ff + 16 + x) = rd32 m (f + x)"
proof -
  let ?m1 = "\<lambda>a. if ff + 16 \<le> a \<and> a < ff + 16 + BY2FILE then m (f + (a - (ff + 16))) else m a"
  show "rd32 (fill_filefd ff f fileid omode m) ff = devfile_id" "rd32 (fill_filefd ff f fileid omode m) (ff + 8) = omode"
    "rd32 (fill_filefd ff f fileid omode m) (ff + 12) = fileid"
    by (simp_all add: fill_filefd_def Let_def rd32_put_word_other)
  have "rd32 ?m1 (ff + 4) = rd32 (\<lambda>_. 0) (ff + 4)" by (rule rd32_mem) (use assms in simp)
  then show "rd32 (fill_filefd ff f fileid omode m) (ff + 4) = 0"
    by (simp add: fill_filefd_def Let_def rd32_put_word_other) (simp add: rd32_def word_of_bytes_def)
  assume x: "x + 4 \<le> BY2FILE"
  have "rd32 ?m1 (ff + 16 + x) = rd32 m (f + x)" by (rule rd32_mem) (use x in \<open>simp add: add.assoc\<close>)
  then show "rd32 (fill_filefd ff f fileid omode m) (ff + 16 + x) = rd32 m (f + x)"
    by (simp add: fill_filefd_def Let_def rd32_put_word_other)
qed

lemma fill_filefd_outside:
  "a < ff \<or> ff + 16 + BY2FILE \<le> a \<Longrightarrow> fill_filefd ff f fileid omode m a = m a"
  by (auto simp: fill_filefd_def Let_def put_word_same BY2FILE_def)

text \<open>The words of the descriptor page that the client uses.\<close>

definition filefd_words :: "nat \<Rightarrow> u32 \<Rightarrow> u32 \<Rightarrow> nat \<Rightarrow> mem \<Rightarrow> bool" where
  "filefd_words i fid omode n m \<longleftrightarrow>
     rd32 m (ff_page i * 4096) = devfile_id \<and> rd32 m (ff_page i * 4096 + 4) = 0 \<and> rd32 m (ff_page i * 4096 + 8) = omode
     \<and> rd32 m (ff_page i * 4096 + 12) = fid \<and> rd32 m (ff_page i * 4096 + 144) = word_of_nat n"

lemma serve_open_ok:
  assumes "serves ds L U d (sfs v)" and "srv_wf v" and "next_entry i v" and "names_file path ds j"
    and "grants (n + 2 * L + 1) (sfs v)"
  defines "fid \<equiv> o_fileid (opentab v ! i) + word_of_nat MAXOPEN"
  obtains v' where "serve_one whom (PTE_V OR PTE_D) (Fsreq_open path omode) v = Some v'"
    and "open_entry ds L U d j i fid v'" and "grants n (sfs v')"
    and "replies v' = replies v @ [\<lparr>r_whom = whom, r_val = Inr 0, r_srcva = ff_page i * 4096, r_perm = DLw\<rparr>]"
    and "ffref v' = (ffref v)(ff_page i := 2)"
    and "filefd_words i fid omode (length (snd (ds ! j))) (fmem (sfs v'))"
proof -
  have i: "i < MAXOPEN" and j: "j < length ds" and id: "0 \<le> sint fid"
    using assms(3,4) by (simp_all add: next_entry_def names_file_def fid_def)
  have ff: "FILEVA + i * 4096 = ff_page i * 4096" by (simp add: ff_page_def FILEVA_def)
  have ff0: "o_ff (opentab v ! i) = ff_page i * 4096" "length (opentab v) = MAXOPEN"
    using assms(2) i ff by (simp_all add: srv_wf_def)
  have gr: "grants (Suc (n + 2 * L)) (sfs v)" using assms(5) by simp
  obtain v1 where v1: "open_alloc v = (Inr (i, fid), v1)" "same_cache (sfs v) (sfs v1)" "entry_page i v1"
    "opentab v1 = (opentab v)[i := (opentab v ! i)\<lparr>o_fileid := fid\<rparr>]"
    "replies v1 = replies v" "ffref v1 = (ffref v)(ff_page i := 1)" "grants (n + 2 * L) (sfs v1)"
    "\<forall>x < 4096. fmem (sfs v1) (ff_page i * 4096 + x) = 0"
    "\<forall>p. p \<noteq> ff_page i \<longrightarrow> fperm (sfs v1) p = fperm (sfs v) p"
    by (rule open_alloc_takes [OF assms(2,3) gr, folded fid_def, unfolded ff])
  obtain s3 where s3: "file_open path (sfs v1) = Some (Inr (DISKMAP + disk_slot j d), s3)" "serves ds L U d s3"
    "keeps (sfs v1) s3" "file_cached (disk_slot j d) s3" "grants n s3"
    by (rule file_open_finds_lemma [OF serves_same_cache [OF assms(1) v1(2)] assms(4) v1(7)])
  let ?e = "(opentab v ! i)\<lparr>o_fileid := fid, o_file := DISKMAP + disk_slot j d, o_mode := omode\<rparr>"
  let ?m = "fill_filefd (ff_page i * 4096) (DISKMAP + disk_slot j d) fid omode (fmem s3)"
  let ?v4 = "v1\<lparr>opentab := (opentab v)[i := ?e], sfs := s3\<lparr>fmem := ?m\<rparr>\<rparr>"
  let ?v5 = "ipc_send whom (Inr 0) (ff_page i * 4096) DLw ?v4"
  let ?v' = "?v5\<lparr>sfs := syscall_mem_unmap REQVA (s3\<lparr>fmem := ?m\<rparr>)\<rparr>"
  have so: "serve_open whom path omode v = Some ?v5"
    using i ff0 id by (simp add: serve_open_def v1(1,4) s3(1) Let_def DLw_def)
  have "(PTE_V OR PTE_D) AND PTE_V \<noteq> 0" by (simp add: PTE_V_def PTE_D_def)
  then have run: "serve_one whom (PTE_V OR PTE_D) (Fsreq_open path omode) v = Some ?v'"
    by (simp add: serve_one_def so)
  have inside: "a div 4096 = ff_page i" if "\<not> (a < ff_page i * 4096 \<or> ff_page i * 4096 + 16 + BY2FILE \<le> a)" for a
    using page_iff [of "ff_page i" a] that by (simp add: BY2FILE_def)
  have "?m a = fmem s3 a" if "cache_page (a div 4096)" for a
  proof (rule fill_filefd_outside, rule ccontr)
    assume "\<not> (a < ff_page i * 4096 \<or> ff_page i * 4096 + 16 + BY2FILE \<le> a)"
    from inside [OF this] show False using that ff_page_not_cache [of i] by simp
  qed
  then have "same_cache s3 (s3\<lparr>fmem := ?m\<rparr>)" by (simp add: same_cache_def)
  then have sc: "same_cache s3 (sfs ?v')" using same_cache_trans [OF _ same_cache_unmap_req] by simp
  have srv: "serves ds L U d (sfs ?v')" by (rule serves_same_cache [OF s3(2) sc])
  have fc: "file_cached (disk_slot j d) (sfs ?v')"
    by (rule same_cache_file_cached [OF sc s3(4) slot_block_bound [OF s3(2) j]])
  have "entry_page i ?v'"
    using v1(3) s3(3) REQVA_page(2) [of i] by (simp add: entry_page_def syscall_mem_unmap_def keeps_def)
  moreover have wf: "srv_wf ?v'"
    using assms(2) i by (auto simp: srv_wf_def nth_list_update fid_def unat_plus_MAXOPEN)
  moreover have fr: "ffref ?v' = (ffref v)(ff_page i := 2)"
    by (auto simp: ipc_send_def v1(6) ff_page_def FILEVA_def)
  moreover have tab: "opentab ?v' ! i = ?e" using i ff0(2) by simp
  ultimately have "open_entry ds L U d j i fid ?v'"
    using srv fc i j by (simp add: open_entry_def)
  moreover have "grants n (sfs ?v')" using s3(5) by (simp add: grants_def syscall_mem_unmap_def)
  moreover have "replies ?v' = replies v @ [\<lparr>r_whom = whom, r_val = Inr 0, r_srcva = ff_page i * 4096, r_perm = DLw\<rparr>]"
    by (simp add: v1(5))
  moreover have "filefd_words i fid omode (length (snd (ds ! j))) (fmem (sfs ?v'))"
  proof -
    have "\<forall>x < 4. fmem s3 (ff_page i * 4096 + 4 + x) = 0"
    proof (intro allI impI)
      fix x assume "x < (4 :: nat)"
      then have x: "4 + x < 4096" by simp
      have "(ff_page i * 4096 + (4 + x)) div 4096 = ff_page i" using x by simp
      then have "fmem s3 (ff_page i * 4096 + (4 + x)) = fmem (sfs v1) (ff_page i * 4096 + (4 + x))"
        using s3(3) ff_page_not_cache [of i] unfolding keeps_def by presburger
      then show "fmem s3 (ff_page i * 4096 + 4 + x) = 0" using v1(8) x by (simp add: add.assoc)
    qed
    note w = fill_filefd_words [OF this]
    have "rd32 (fmem s3) (DISKMAP + disk_slot j d + 128) = word_of_nat (length (snd (ds ! j)))"
      using file_cached_word [OF s3(4), of 128] serves_file(1) [OF s3(2) j]
      by (simp add: ld_def file_ok_def f_size_at_def BY2FILE_def)
    then have "rd32 ?m (ff_page i * 4096 + 144) = word_of_nat (length (snd (ds ! j)))"
      using w(5) [of 128 "DISKMAP + disk_slot j d" fid omode] by (simp add: BY2FILE_def add.commute)
    then show ?thesis using w(1-4) by (simp add: filefd_words_def syscall_mem_unmap_def)
  qed
  ultimately show ?thesis using that run fr by blast
qed

end
