(* ===== verification/UserFileSpec.thy ===== *)
theory UserFileSpec
  imports UserFile FsAnswer
begin

text \<open>
  What a client of the file system gets: \<^verbatim>\<open>open\<close> maps the file, page by page, out of the block cache of
  the server, and \<^verbatim>\<open>file_read\<close> then copies exactly the bytes of the file.
\<close>

section \<open>Addresses and accesses\<close>

lemma VPN_div: "VPN va = unat va div 4096"
  by (simp add: VPN_def unat_drop_bit)

lemma fd_VPN: "f < 1024 \<Longrightarrow> x < 4096 \<Longrightarrow> unat (INDEX2FD (int f) + word_of_nat x) = (0x5FC00 + f) * 4096 + x"
  by (simp add: unat_word_ariths unat_of_nat unat_INDEX2FD)

text \<open>Byte \<open>o\<close> of the window of descriptor \<open>f\<close>.\<close>

definition win :: "nat \<Rightarrow> nat \<Rightarrow> u32" where
  "win f a = INDEX2DATA (int f) + word_of_nat a"

lemma win_addr:
  assumes "f < 32" and "a < 0x400000"
  shows "unat (win f a) = 0x60000000 + f * 0x400000 + a"
  using assms by (simp add: win_def unat_word_ariths unat_of_nat unat_INDEX2DATA)

lemma win_page:
  assumes "f < 32" and "k < 1024" and "x < 4096"
  shows "VPN (win f (k * 4096 + x)) = 0x60000 + f * 1024 + k"
proof -
  have "k * 4096 + x < 0x400000" using assms(2,3) by simp
  from win_addr [OF assms(1) this]
  have "unat (win f (k * 4096 + x)) = (0x60000 + f * 1024 + k) * 4096 + x" by simp
  then show ?thesis using assms(3) by (simp only: VPN_div) simp
qed

lemma win_legal:
  assumes "f < 32" and "a < 0x400000"
  shows "\<not> is_illegal_va (win f a)"
  using win_addr [OF assms] assms UTEMP_nat UTOP_nat
  by (simp add: is_illegal_va_def word_less_nat_alt word_le_nat_alt)

lemma touch_mapped: "cmap w (VPN va) \<noteq> None \<Longrightarrow> touch va w = Some w"
  by (simp add: touch_def)

lemma get32_server:
  assumes "cmap w (VPN va) = Some (Server p, perm)" and "unat va mod 4 = 0"
  shows "get32 va w = Some (rd32 (fmem (sfs (vsrv w))) (p * 4096 + unat va mod 4096), w)"
  using assms by (simp add: get32_def touch_def place_def)

section \<open>One request\<close>

lemma fsipc_answer:
  assumes "dstva = 0 \<or> \<not> is_illegal_va dstva" and "cseen w = length (replies (vsrv w))"
    and "serve_one (cid w) (PTE_V OR PTE_D) rq (vsrv w) = Some v1" and "replies v1 = replies (vsrv w) @ [r]"
    and "r_val r = Inr 0"
  shows "fsipc rq dstva w = Some (Inr (), PTE_V OR r_perm r, receive r dstva (w\<lparr>vsrv := v1, cseen := cseen w + 1\<rparr>))"
  using assms by (auto simp: fsipc_def answer_value_def Let_def)

text \<open>Receiving a page where nothing is mapped.\<close>

lemma receive_page:
  assumes "cmap w (VPN va) = None" and "p \<noteq> 0"
  shows "receive \<lparr>r_whom = e, r_val = x, r_srcva = p * 4096, r_perm = DLw\<rparr> va w
    = w\<lparr>cmap := (cmap w)(VPN va \<mapsto> (Server p, DLw OR PTE_V))\<rparr>"
  using assms by (simp add: receive_def drop_ref_def)

lemma DLw_facts: "(PTE_V OR DLw) AND NOT (PTE_D OR PTE_LIBRARY) = PTE_V" "(DLw OR PTE_V) AND PTE_D \<noteq> 0"
  by (simp_all add: DLw_def PTE_V_def PTE_D_def PTE_LIBRARY_def)

section \<open>A descriptor of an open file\<close>

definition fd_open :: "(u8 list \<times> u8 list) list \<Rightarrow> nat \<Rightarrow> nat set \<Rightarrow> mem \<Rightarrow> nat \<Rightarrow> nat \<Rightarrow> u32 \<Rightarrow> nat \<Rightarrow> u32 \<Rightarrow> world \<Rightarrow> bool" where
  "fd_open ds L U d j i fid f mode w \<longleftrightarrow> open_entry ds L U d j i fid (vsrv w) \<and> cseen w = length (replies (vsrv w))
     \<and> cmap w (VPN (INDEX2FD (int f))) = Some (Server (ff_page i), DLw OR PTE_V)
     \<and> filefd_words i fid mode (length (snd (ds ! j))) (fmem (sfs (vsrv w)))"

lemma fd_open_word:
  assumes "fd_open ds L U d j i fid f mode w" and "f < 32" and "x < 4096" and "x mod 4 = 0"
  shows "get32 (INDEX2FD (int f) + word_of_nat x) w = Some (rd32 (fmem (sfs (vsrv w))) (ff_page i * 4096 + x), w)"
proof -
  have a: "unat (INDEX2FD (int f) + word_of_nat x) = (0x5FC00 + f) * 4096 + x" by (rule fd_VPN) (use assms in simp_all)
  have "((0x5FC00 + f) * 4096 + x) mod 4 = x mod 4"
  proof -
    have "(0x5FC00 + f) * 4096 + x = 4 * ((0x5FC00 + f) * 1024) + x" by simp
    then show ?thesis by (metis mod_mult_self4)
  qed
  moreover have "VPN (INDEX2FD (int f) + word_of_nat x) = VPN (INDEX2FD (int f))"
    using assms(2,3) unat_INDEX2FD [of f] by (simp add: VPN_div a)
  moreover have "unat (INDEX2FD (int f) + word_of_nat x) mod 4096 = x"
    by (simp only: a mod_mult_self3) (use assms(3) in simp)
  ultimately show ?thesis
    using get32_server [of w "INDEX2FD (int f) + word_of_nat x" "ff_page i"] assms by (simp add: fd_open_def a)
qed

lemma fd_open_fields:
  assumes "fd_open ds L U d j i fid f mode w" and "f < 32"
  shows "get32 (f_fileid_va (INDEX2FD (int f))) w = Some (fid, w)"
    and "get32 (f_size_va (INDEX2FD (int f))) w = Some (word_of_nat (length (snd (ds ! j))), w)"
  using fd_open_word [OF assms, of 12] fd_open_word [OF assms, of 144] assms(1)
  by (simp_all add: f_fileid_va_def f_size_va_def fd_open_def filefd_words_def)

text \<open>Page \<open>k\<close> of the window shows block \<open>k\<close> of the file.\<close>

definition win_maps :: "nat \<Rightarrow> mem \<Rightarrow> nat \<Rightarrow> nat \<Rightarrow> world \<Rightarrow> bool" where
  "win_maps j d f k w \<longleftrightarrow>
     cmap w (0x60000 + f * 1024 + k) = Some (Server (DISKMAP div 4096 + data_link j k d), DLw OR PTE_V)
     \<and> cached (data_link j k d) (sfs (vsrv w))"

lemma file_len:
  assumes "fd_open ds L U d j i fid f mode w"
  shows "length (snd (ds ! j)) \<le> 0x400000" and "nblocks_of (snd (ds ! j)) \<le> 1024"
    and "k < nblocks_of (snd (ds ! j)) \<Longrightarrow> k * 4096 < length (snd (ds ! j))"
proof -
  have "serves ds L U d (sfs (vsrv w))" "j < length ds" using assms by (simp_all add: fd_open_def open_entry_def)
  then show n: "nblocks_of (snd (ds ! j)) \<le> 1024" using serves_file(3) by (auto simp: NINDIRECT_def BY2BLK_def)
  show "length (snd (ds ! j)) \<le> 0x400000"
  proof (rule ccontr)
    assume "\<not> length (snd (ds ! j)) \<le> 0x400000"
    then have "1024 * BY2BLK < length (snd (ds ! j))" by (simp add: BY2BLK_def)
    from nblocks_of_index [OF this] n show False by simp
  qed
  assume k: "k < nblocks_of (snd (ds ! j))"
  show "k * 4096 < length (snd (ds ! j))"
  proof (rule ccontr)
    assume "\<not> k * 4096 < length (snd (ds ! j))"
    then have "length (snd (ds ! j)) + 4095 < Suc k * 4096" by simp
    then have "nblocks_of (snd (ds ! j)) < Suc k"
      unfolding nblocks_of_def BY2BLK_def by (intro less_mult_imp_div_less) simp
    then show False using k by simp
  qed
qed

lemma fsipc_map_block:
  assumes "fd_open ds L U d j i fid f mode w" and "f < 32" and "k < nblocks_of (snd (ds ! j))"
    and "cmap w (0x60000 + f * 1024 + k) = None" and "grants (n + 2) (sfs (vsrv w))"
  obtains w' where "fsipc_map fid (word_of_nat (k * 4096)) (win f (k * 4096)) w = Some (Inr (), w')"
    and "fd_open ds L U d j i fid f mode w'" and "win_maps j d f k w'" and "grants n (sfs (vsrv w'))"
    and "cmap w' = (cmap w)(0x60000 + f * 1024 + k \<mapsto> (Server (DISKMAP div 4096 + data_link j k d), DLw OR PTE_V))"
    and "cown w' = cown w"
    and "\<forall>b. cached b (sfs (vsrv w)) \<longrightarrow> cached b (sfs (vsrv w'))"
proof -
  note len = file_len [OF assms(1)]
  have k: "k < 1024" "k * BY2BLK < length (snd (ds ! j))" using assms(3) len by (simp_all add: BY2BLK_def)
  have e: "open_entry ds L U d j i fid (vsrv w)" "cseen w = length (replies (vsrv w))"
    using assms(1) by (simp_all add: fd_open_def)
  have "unat (word_of_nat (k * 4096) :: u32) = k * 4096" using k(1) by (simp only: unat_of_nat) simp
  then have off: "unat (word_of_nat (k * 4096) :: u32) div BY2BLK = k" by (simp add: BY2BLK_def)
  define p where "p = DISKMAP div 4096 + data_link j k d"
  let ?va = "win f (k * 4096)"
  let ?r = "\<lparr>r_whom = cid w, r_val = Inr 0, r_srcva = p * 4096, r_perm = DLw\<rparr>"
  obtain v' where v': "serve_one (cid w) (PTE_V OR PTE_D) (Fsreq_map fid (word_of_nat (k * 4096))) (vsrv w) = Some v'"
    "open_entry ds L U d j i fid v'" "replies v' = replies (vsrv w) @ [?r]" "grants n (sfs v')"
    "keeps (sfs (vsrv w)) (sfs v'\<lparr>fperm := (fperm (sfs v'))(REQVA div 4096 := fperm (sfs (vsrv w)) (REQVA div 4096))\<rparr>)"
    "fperm (sfs v') p \<noteq> None" "opentab v' = opentab (vsrv w)" "\<forall>p. \<not> cache_page p \<longrightarrow> ffref v' p = ffref (vsrv w) p"
    by (rule serve_map_ok [OF e(1) off k(2) assms(5), folded p_def])
  have pg: "VPN ?va = 0x60000 + f * 1024 + k" using win_page [OF assms(2) k(1), of 0] by simp
  have legal: "\<not> is_illegal_va ?va" by (rule win_legal [OF assms(2)]) (use k(1) in simp)
  let ?w' = "w\<lparr>vsrv := v', cseen := cseen w + 1, cmap := (cmap w)(0x60000 + f * 1024 + k \<mapsto> (Server p, DLw OR PTE_V))\<rparr>"
  have "p \<noteq> 0" by (simp add: p_def DISKMAP_def)
  then have rec: "receive ?r ?va (w\<lparr>vsrv := v', cseen := cseen w + 1\<rparr>) = ?w'"
    using receive_page [of "w\<lparr>vsrv := v', cseen := cseen w + 1\<rparr>" ?va p "cid w" "Inr 0"] assms(4)
    unfolding pg by simp
  have "fsipc_map fid (word_of_nat (k * 4096)) ?va w = Some (Inr (), ?w')"
    using fsipc_answer [OF _ e(2) v'(1,3), of ?va] legal DLw_facts(1) by (simp add: fsipc_map_def rec [simplified])
  moreover have "fd_open ds L U d j i fid f mode ?w'"
  proof -
    have fdp: "VPN (INDEX2FD (int f)) = 0x5FC00 + f" using fd_VPN [of f 0] assms(2) by (simp add: VPN_div)
    have "fmem (sfs v') (ff_page i * 4096 + x) = fmem (sfs (vsrv w)) (ff_page i * 4096 + x)" if "x < 4096" for x
      using v'(5) ff_page_not_cache [of i] that by (simp add: keeps_def)
    then have "rd32 (fmem (sfs v')) (ff_page i * 4096 + x) = rd32 (fmem (sfs (vsrv w))) (ff_page i * 4096 + x)" if "x + 4 \<le> 4096" for x
      using that by (intro rd32_mem) (simp add: add.assoc)
    from this [of 0] this [of 4] this [of 8] this [of 12] this [of 144]
    have "filefd_words i fid mode (length (snd (ds ! j))) (fmem (sfs v'))"
      using assms(1) by (simp add: fd_open_def filefd_words_def)
    then show ?thesis using assms(1,2) v'(2,3) k(1) by (auto simp: fd_open_def fdp)
  qed
  moreover have "win_maps j d f k ?w'" using v'(6) by (simp add: win_maps_def p_def)
  moreover have "\<forall>b. cached b (sfs (vsrv w)) \<longrightarrow> cached b (sfs v')"
  proof (intro allI impI)
    fix b assume "cached b (sfs (vsrv w))"
    moreover have "DISKMAP div 4096 + b \<noteq> REQVA div 4096" by (simp add: REQVA_def DISKMAP_def)
    ultimately show "cached b (sfs v')" using v'(5) by (auto simp: keeps_def)
  qed
  ultimately show ?thesis using that [of ?w'] v'(4) by (simp add: p_def)
qed

section \<open>Opening\<close>

lemma length_nblocks: "length bs \<le> nblocks_of bs * 4096"
proof -
  have "length bs + 4095 < (length bs + 4095) div 4096 * 4096 + 4096"
    using div_mult_mod_eq [of "length bs + 4095" 4096] mod_less_divisor [of 4096 "length bs + 4095"] by linarith
  then show ?thesis by (simp add: nblocks_of_def BY2BLK_def)
qed

lemma word_of_nat_less:
  assumes "a \<le> 0x400000" and "b \<le> 0x400000"
  shows "(word_of_nat a :: u32) < word_of_nat b \<longleftrightarrow> a < b"
  using assms by (simp add: word_less_nat_alt unat_of_nat)

lemma open_map_ok:
  assumes "fd_open ds L U d j i fid f mode w" and "f < 32" and "k + c = nblocks_of (snd (ds ! j))"
    and "\<forall>m. k \<le> m \<and> m < nblocks_of (snd (ds ! j)) \<longrightarrow> cmap w (0x60000 + f * 1024 + m) = None"
    and "\<forall>m < k. win_maps j d f m w" and "grants (n + 2 * c) (sfs (vsrv w))"
  shows "\<exists>w'. open_map fid (INDEX2DATA (int f)) (word_of_nat (length (snd (ds ! j)))) (word_of_nat (k * 4096)) w = Some (Inr (), w')
    \<and> fd_open ds L U d j i fid f mode w' \<and> (\<forall>m < nblocks_of (snd (ds ! j)). win_maps j d f m w')
    \<and> grants n (sfs (vsrv w')) \<and> cown w' = cown w
    \<and> (\<forall>q. q < 0x60000 + f * 1024 \<or> 0x60000 + f * 1024 + nblocks_of (snd (ds ! j)) \<le> q \<longrightarrow> cmap w' q = cmap w q)"
  using assms
proof (induction c arbitrary: k w)
  case 0
  let ?len = "length (snd (ds ! j))"
  have "?len \<le> k * 4096" using length_nblocks [of "snd (ds ! j)"] 0(3) by simp
  moreover have "k * 4096 \<le> 0x400000" "?len \<le> 0x400000" using file_len [OF 0(1)] 0(3) by simp_all
  ultimately have "\<not> (word_of_nat (k * 4096) :: u32) < word_of_nat ?len" by (simp only: word_of_nat_less not_less)
  then show ?case using 0 by (subst open_map.simps) simp
next
  case (Suc c)
  let ?nb = "nblocks_of (snd (ds ! j))" and ?len = "length (snd (ds ! j))"
  have k: "k < ?nb" using Suc.prems(3) by simp
  note len = file_len [OF Suc.prems(1)]
  have free: "cmap w (0x60000 + f * 1024 + k) = None" using Suc.prems(4) k by simp
  have gr: "grants (n + 2 * c + 2) (sfs (vsrv w))" using Suc.prems(6) by (simp add: algebra_simps)
  obtain w1 where w1: "fsipc_map fid (word_of_nat (k * 4096)) (win f (k * 4096)) w = Some (Inr (), w1)"
    "fd_open ds L U d j i fid f mode w1" "win_maps j d f k w1" "grants (n + 2 * c) (sfs (vsrv w1))"
    "cmap w1 = (cmap w)(0x60000 + f * 1024 + k \<mapsto> (Server (DISKMAP div 4096 + data_link j k d), DLw OR PTE_V))"
    "cown w1 = cown w" "\<forall>b. cached b (sfs (vsrv w)) \<longrightarrow> cached b (sfs (vsrv w1))"
    by (rule fsipc_map_block [OF Suc.prems(1,2) k free gr])
  have m: "\<forall>m < Suc k. win_maps j d f m w1"
    using Suc.prems(5) w1(3,5,7) by (auto simp: win_maps_def less_Suc_eq)
  have f1: "\<forall>m. Suc k \<le> m \<and> m < ?nb \<longrightarrow> cmap w1 (0x60000 + f * 1024 + m) = None"
    using Suc.prems(4) by (simp add: w1(5))
  have kc: "Suc k + c = ?nb" using Suc.prems(3) by simp
  obtain w2 where w2: "open_map fid (INDEX2DATA (int f)) (word_of_nat ?len) (word_of_nat (Suc k * 4096)) w1 = Some (Inr (), w2)"
    "fd_open ds L U d j i fid f mode w2" "\<forall>m < ?nb. win_maps j d f m w2" "grants n (sfs (vsrv w2))" "cown w2 = cown w1"
    "\<forall>q. q < 0x60000 + f * 1024 \<or> 0x60000 + f * 1024 + ?nb \<le> q \<longrightarrow> cmap w2 q = cmap w1 q"
    using Suc.IH [OF w1(2) Suc.prems(2) kc f1 m w1(4)] by blast
  have "(word_of_nat (k * 4096) :: u32) < word_of_nat ?len"
    using len(1,2) len(3) [OF k] k by (simp only: word_of_nat_less)
  moreover have "INDEX2DATA (int f) + word_of_nat (k * 4096) = win f (k * 4096)" by (simp add: win_def)
  moreover have "(word_of_nat (k * 4096) :: u32) + BY2PG = word_of_nat (Suc k * 4096)" by (simp add: BY2PG_def)
  ultimately have "open_map fid (INDEX2DATA (int f)) (word_of_nat ?len) (word_of_nat (k * 4096)) w = Some (Inr (), w2)"
    using w1(1) w2(1) by (subst open_map.simps) (simp only: if_True bind.bind_lunit split_conv sum.case Option.bind.bind_lunit)
  moreover have "cmap w2 q = cmap w q" if "q < 0x60000 + f * 1024 \<or> 0x60000 + f * 1024 + ?nb \<le> q" for q
    using that w2(6) w1(5) k by auto
  ultimately show ?case using w2 w1(6) by auto
qed

text \<open>A client that can open one more file, as descriptor \<open>f\<close>: the descriptors before it are in use, its
  page and its window are free, and no reply is outstanding.\<close>

definition can_open :: "nat \<Rightarrow> nat \<Rightarrow> world \<Rightarrow> bool" where
  "can_open f nb w \<longleftrightarrow> f < MAXFD - 1 \<and> (\<forall>g < f. cmap w (0x5FC00 + g) \<noteq> None) \<and> cmap w (0x5FC00 + f) = None
     \<and> (\<forall>m < nb. cmap w (0x60000 + f * 1024 + m) = None) \<and> cseen w = length (replies (vsrv w))"

lemma fd_page_VPN: "f < 32 \<Longrightarrow> VPN (INDEX2FD (int f)) = 0x5FC00 + f"
  using fd_VPN [of f 0] by (simp add: VPN_div)

lemma fd_alloc_least_w: "can_open f nb w \<Longrightarrow> fd_alloc_w w = Inr (INDEX2FD (int f))"
proof -
  assume c: "can_open f nb w"
  then have f: "f < MAXFD - 1" "f < 32" by (simp_all add: can_open_def MAXFD_def)
  have "find (\<lambda>i. cmap w (VPN (INDEX2FD (int i))) = None) [0..<MAXFD - 1] = Some f"
    by (rule find_first [OF f(1)]) (use c f fd_page_VPN in \<open>auto simp: can_open_def\<close>)
  then show ?thesis by (simp add: fd_alloc_w_def)
qed

lemma open_user_ok:
  assumes "serves ds L U d (sfs (vsrv w))" and "srv_wf (vsrv w)" and "next_entry i (vsrv w)" and "names_file path ds j"
    and "length path < MAXPATHLEN" and "can_open f (nblocks_of (snd (ds ! j))) w"
    and "grants (n + 2 * nblocks_of (snd (ds ! j)) + 2 * L + 1) (sfs (vsrv w))"
  defines "fid \<equiv> o_fileid (opentab (vsrv w) ! i) + word_of_nat MAXOPEN"
  obtains w' where "open_user path mode w = Some (Inr (int f), w')" and "fd_open ds L U d j i fid f mode w'"
    and "\<forall>m < nblocks_of (snd (ds ! j)). win_maps j d f m w'" and "cown w' = cown w"
    and "\<forall>q. q \<noteq> 0x5FC00 + f \<and> (q < 0x60000 + f * 1024 \<or> 0x60000 + f * 1024 + nblocks_of (snd (ds ! j)) \<le> q) \<longrightarrow> cmap w' q = cmap w q"
    and "grants n (sfs (vsrv w'))"
proof -
  let ?nb = "nblocks_of (snd (ds ! j))"
  have f: "f < 32" "f < 1024" and free: "cmap w (0x5FC00 + f) = None" and seen: "cseen w = length (replies (vsrv w))"
    using assms(6) by (simp_all add: can_open_def MAXFD_def)
  obtain v' where v': "serve_one (cid w) (PTE_V OR PTE_D) (Fsreq_open path mode) (vsrv w) = Some v'"
    "open_entry ds L U d j i fid v'" "grants (n + 2 * ?nb) (sfs v')"
    "replies v' = replies (vsrv w) @ [\<lparr>r_whom = cid w, r_val = Inr 0, r_srcva = ff_page i * 4096, r_perm = DLw\<rparr>]"
    "ffref v' = (ffref (vsrv w))(ff_page i := 2)" "filefd_words i fid mode (length (snd (ds ! j))) (fmem (sfs v'))"
    by (rule serve_open_ok [OF assms(1-4,7), folded fid_def])
  let ?fd = "INDEX2FD (int f)"
  let ?w1 = "w\<lparr>vsrv := v', cseen := cseen w + 1, cmap := (cmap w)(0x5FC00 + f \<mapsto> (Server (ff_page i), DLw OR PTE_V))\<rparr>"
  have pg: "VPN ?fd = 0x5FC00 + f" by (rule fd_page_VPN [OF f(1)])
  have "ff_page i \<noteq> 0" by (simp add: ff_page_def FILEVA_def)
  then have rec: "receive \<lparr>r_whom = cid w, r_val = Inr 0, r_srcva = ff_page i * 4096, r_perm = DLw\<rparr> ?fd
      (w\<lparr>vsrv := v', cseen := cseen w + 1\<rparr>) = ?w1"
    using receive_page [of "w\<lparr>vsrv := v', cseen := cseen w + 1\<rparr>" ?fd "ff_page i" "cid w" "Inr 0"] free
    unfolding pg by simp
  have legal: "\<not> is_illegal_va ?fd" by (rule fd_page(2) [OF f(2)])
  have so: "fsipc_open path mode ?fd w = Some (Inr (), ?w1)"
    using fsipc_answer [OF _ seen v'(1,4), of ?fd] legal assms(5) by (simp add: fsipc_open_def rec [simplified])
  have fdo: "fd_open ds L U d j i fid f mode ?w1"
    using v'(2,4,6) seen by (simp add: fd_open_def pg)
  have free1: "\<forall>m. 0 \<le> m \<and> m < ?nb \<longrightarrow> cmap ?w1 (0x60000 + f * 1024 + m) = None"
    using assms(6) f(1) by (simp add: can_open_def)
  have gr: "grants (n + 2 * ?nb) (sfs (vsrv ?w1))" using v'(3) by simp
  obtain w2 where w2: "open_map fid (INDEX2DATA (int f)) (word_of_nat (length (snd (ds ! j)))) (word_of_nat (0 * 4096)) ?w1 = Some (Inr (), w2)"
    "fd_open ds L U d j i fid f mode w2" "\<forall>m < ?nb. win_maps j d f m w2" "grants n (sfs (vsrv w2))" "cown w2 = cown ?w1"
    "\<forall>q. q < 0x60000 + f * 1024 \<or> 0x60000 + f * 1024 + ?nb \<le> q \<longrightarrow> cmap w2 q = cmap ?w1 q"
    using open_map_ok [OF fdo f(1) _ free1 _ gr] by auto
  have "open_user path mode w = Some (Inr (int f), w2)"
    using so fd_open_fields [OF fdo f(1)] w2(1) fd2data_INDEX2FD [OF f(2)] fd2num_INDEX2FD [OF f(2)]
    by (simp add: open_user_def fd_alloc_least_w [OF assms(6)] Let_def)
  then show ?thesis using that w2 by auto
qed

end
