(* ===== verification/UserFileBytes.thy ===== *)
theory UserFileBytes
  imports UserFileSpec
begin

text \<open>
  The bytes of an open file as the client sees them: \<open>shows_file f bs w\<close> says that the window of descriptor
  \<open>f\<close> shows exactly \<open>bs\<close>. \<^verbatim>\<open>open\<close> establishes it with the bytes of the file, \<^verbatim>\<open>file_read\<close> copies them out,
  \<^verbatim>\<open>file_write\<close> replaces them.
\<close>

section \<open>Single bytes\<close>

text \<open>Where a mapped byte is: at an address of the server's memory or of the client's own.\<close>

definition loc :: "world \<Rightarrow> u32 \<Rightarrow> nat + nat" where
  "loc w va = (case place va w of Some a \<Rightarrow> Inl a | None \<Rightarrow> Inr (unat va))"

definition peek :: "u32 \<Rightarrow> world \<Rightarrow> u8" where
  "peek va w = (case loc w va of Inl a \<Rightarrow> fmem (sfs (vsrv w)) a | Inr a \<Rightarrow> cown w a)"

definition poke :: "u32 \<Rightarrow> u8 \<Rightarrow> world \<Rightarrow> world" where
  "poke va b w = (case loc w va of
       Inl a \<Rightarrow> upd_srv_mem (\<lambda>m. m(a := b)) w
     | Inr a \<Rightarrow> w\<lparr>cown := (cown w)(a := b)\<rparr>)"

fun pokes :: "u32 \<Rightarrow> u8 list \<Rightarrow> world \<Rightarrow> world" where
  "pokes va [] w = w"
| "pokes va (b # bs) w = pokes (va + 1) bs (poke va b w)"

lemma get8_peek: "cmap w (VPN va) \<noteq> None \<Longrightarrow> get8 va w = Some (peek va w, w)"
  by (auto simp: get8_def peek_def loc_def touch_mapped split: option.splits)

lemma writable_mapped: "writable va w \<Longrightarrow> cmap w (VPN va) \<noteq> None"
  by (auto simp: writable_def split: option.splits)

lemma put8_poke: "writable va w \<Longrightarrow> put8 va b w = Some (poke va b w)"
  by (auto simp: put8_def poke_def loc_def touch_mapped writable_mapped split: option.splits)

lemma poke_sel [simp]: "cmap (poke va b w) = cmap w" "cseen (poke va b w) = cseen w" "cid (poke va b w) = cid w"
  by (simp_all add: poke_def upd_srv_mem_def split: sum.split)

lemma loc_cmap: "cmap w' = cmap w \<Longrightarrow> loc w' = loc w"
  by (simp add: loc_def place_def fun_eq_iff)

lemma writable_cmap: "cmap w' = cmap w \<Longrightarrow> writable va w' = writable va w"
  by (simp add: writable_def)

lemma loc_poke [simp]: "loc (poke va b w) = loc w"
  by (rule loc_cmap) simp

lemma writable_poke [simp]: "writable va' (poke va b w) = writable va' w"
  by (rule writable_cmap) simp

lemma peek_poke: "peek va' (poke va b w) = (if loc w va' = loc w va then b else peek va' w)"
  by (simp add: peek_def) (auto simp: poke_def upd_srv_mem_def split: sum.splits)

lemma poke_mem: "Inl a \<noteq> loc w va \<Longrightarrow> fmem (sfs (vsrv (poke va b w))) a = fmem (sfs (vsrv w)) a"
  by (auto simp: poke_def upd_srv_mem_def split: sum.split)

lemma poke_own: "Inr a \<noteq> loc w va \<Longrightarrow> cown (poke va b w) a = cown w a"
  by (auto simp: poke_def upd_srv_mem_def split: sum.split)

section \<open>Sequences of bytes\<close>

lemma Suc_addr: "va + 1 + word_of_nat x = va + word_of_nat (Suc x)" for va :: u32
  by simp

lemma pokes_sel [simp]: "cmap (pokes va bs w) = cmap w" "cseen (pokes va bs w) = cseen w" "cid (pokes va bs w) = cid w"
  by (induction va bs w rule: pokes.induct) simp_all

lemma pokes_mem:
  "(\<And>x. x < length bs \<Longrightarrow> Inl a \<noteq> loc w (va + word_of_nat x)) \<Longrightarrow> fmem (sfs (vsrv (pokes va bs w))) a = fmem (sfs (vsrv w)) a"
proof (induction va bs w rule: pokes.induct)
  case (2 va b bs w)
  have "fmem (sfs (vsrv (pokes (va + 1) bs (poke va b w)))) a = fmem (sfs (vsrv (poke va b w))) a"
    by (rule 2(1)) (use 2(2) [of "Suc x" for x] in \<open>simp add: Suc_addr del: of_nat_Suc\<close>)
  then show ?case using 2(2) [of 0] by (simp add: poke_mem)
qed simp

lemma pokes_own:
  "(\<And>x. x < length bs \<Longrightarrow> Inr a \<noteq> loc w (va + word_of_nat x)) \<Longrightarrow> cown (pokes va bs w) a = cown w a"
proof (induction va bs w rule: pokes.induct)
  case (2 va b bs w)
  have "cown (pokes (va + 1) bs (poke va b w)) a = cown (poke va b w) a"
    by (rule 2(1)) (use 2(2) [of "Suc x" for x] in \<open>simp add: Suc_addr del: of_nat_Suc\<close>)
  then show ?case using 2(2) [of 0] by (simp add: poke_own)
qed simp

lemma peek_pokes_other:
  "(\<And>x. x < length bs \<Longrightarrow> loc w va' \<noteq> loc w (va + word_of_nat x)) \<Longrightarrow> peek va' (pokes va bs w) = peek va' w"
proof (induction va bs w rule: pokes.induct)
  case (2 va b bs w)
  have "peek va' (pokes (va + 1) bs (poke va b w)) = peek va' (poke va b w)"
    by (rule 2(1)) (use 2(2) [of "Suc x" for x] in \<open>simp add: Suc_addr del: of_nat_Suc\<close>)
  then show ?case using 2(2) [of 0] by (simp add: peek_poke)
qed simp

lemma peek_pokes_at:
  assumes "x < length bs" and "loc w va' = loc w (va + word_of_nat x)"
    and "\<And>y. x < y \<Longrightarrow> y < length bs \<Longrightarrow> loc w (va + word_of_nat y) \<noteq> loc w (va + word_of_nat x)"
  shows "peek va' (pokes va bs w) = bs ! x"
  using assms
proof (induction va bs w arbitrary: x rule: pokes.induct)
  case (2 va b bs w)
  show ?case
  proof (cases x)
    case 0
    have "peek va' (pokes (va + 1) bs (poke va b w)) = peek va' (poke va b w)"
      by (rule peek_pokes_other) (use 2(3) 2(4) [THEN not_sym, of "Suc y" for y] 0 in \<open>simp add: Suc_addr del: of_nat_Suc\<close>)
    then show ?thesis using 2(3) 0 by (simp add: peek_poke)
  next
    case (Suc x')
    have "peek va' (pokes (va + 1) bs (poke va b w)) = bs ! x'"
      by (rule 2(1)) (use 2(2,3) 2(4) [of "Suc y" for y] Suc in \<open>simp_all add: Suc_addr del: of_nat_Suc\<close>)
    then show ?thesis using Suc by simp
  qed
qed simp

text \<open>\<^verbatim>\<open>memcpy\<close> where no byte is written before it is read.\<close>

lemma copy_user_pokes:
  assumes "\<And>x. x < length bs \<Longrightarrow> cmap w (VPN (src + word_of_nat x)) \<noteq> None \<and> peek (src + word_of_nat x) w = bs ! x"
    and "\<And>x. x < length bs \<Longrightarrow> writable (dst + word_of_nat x) w"
    and "\<And>x y. y < x \<Longrightarrow> x < length bs \<Longrightarrow> loc w (src + word_of_nat x) \<noteq> loc w (dst + word_of_nat y)"
  shows "copy_user dst src (length bs) w = Some (pokes dst bs w)"
  using assms
proof (induction bs arbitrary: dst src w)
  case (Cons b bs)
  let ?w = "poke dst b w"
  have g: "get8 src w = Some (b, w)" using Cons.prems(1) [of 0] by (simp add: get8_peek)
  have p: "put8 dst b w = Some ?w" using Cons.prems(2) [of 0] by (simp add: put8_poke)
  have "copy_user (dst + 1) (src + 1) (length bs) ?w = Some (pokes (dst + 1) bs ?w)"
  proof (rule Cons.IH)
    fix x assume x: "x < length bs"
    then show "cmap ?w (VPN (src + 1 + word_of_nat x)) \<noteq> None \<and> peek (src + 1 + word_of_nat x) ?w = bs ! x"
      using Cons.prems(1) [of "Suc x"] Cons.prems(3) [of 0 "Suc x"] by (simp add: Suc_addr peek_poke del: of_nat_Suc)
    show "writable (dst + 1 + word_of_nat x) ?w" using Cons.prems(2) [of "Suc x"] x by (simp add: Suc_addr del: of_nat_Suc)
  next
    fix x y assume "y < x" "x < length bs"
    then show "loc ?w (src + 1 + word_of_nat x) \<noteq> loc ?w (dst + 1 + word_of_nat y)"
      using Cons.prems(3) [of "Suc y" "Suc x"] by (simp add: Suc_addr del: of_nat_Suc)
  qed
  then show ?case by (simp add: g p)
qed simp

section \<open>The window of an open file\<close>

text \<open>The descriptor page holds the size, and the window shows the bytes on pages other than that one.\<close>

definition shows_file :: "nat \<Rightarrow> u8 list \<Rightarrow> world \<Rightarrow> bool" where
  "shows_file f bs w \<longleftrightarrow> f < 32 \<and> length bs \<le> 0x400000
     \<and> (\<exists>q perm. cmap w (0x5FC00 + f) = Some (Server q, perm)
         \<and> rd32 (fmem (sfs (vsrv w))) (q * 4096 + 144) = word_of_nat (length bs)
         \<and> (\<forall>a < length bs. \<exists>p perm. cmap w (VPN (win f a)) = Some (Server p, perm) \<and> p \<noteq> q))
     \<and> (\<forall>a < length bs. writable (win f a) w \<and> peek (win f a) w = bs ! a)"

lemma fd_size_loc:
  assumes "cmap w (0x5FC00 + f) = Some (Server q, perm)" and "f < 32"
  shows "VPN (f_size_va (INDEX2FD (int f))) = 0x5FC00 + f" and "unat (f_size_va (INDEX2FD (int f))) mod 4096 = 144"
proof -
  have "unat (f_size_va (INDEX2FD (int f))) = (0x5FC00 + f) * 4096 + 144"
    using fd_VPN [of f 144] assms(2) by (simp add: f_size_va_def)
  then show "VPN (f_size_va (INDEX2FD (int f))) = 0x5FC00 + f" "unat (f_size_va (INDEX2FD (int f))) mod 4096 = 144"
    by (simp_all only: VPN_div mod_mult_self3) simp_all
qed

lemma shows_file_size:
  assumes "shows_file f bs w"
  shows "get32 (f_size_va (INDEX2FD (int f))) w = Some (word_of_nat (length bs), w)"
proof -
  obtain q perm where q: "cmap w (0x5FC00 + f) = Some (Server q, perm)" "f < 32"
    "rd32 (fmem (sfs (vsrv w))) (q * 4096 + 144) = word_of_nat (length bs)"
    using assms by (auto simp: shows_file_def)
  note l = fd_size_loc [OF q(1,2)]
  have "unat (f_size_va (INDEX2FD (int f))) mod 4 = 0"
  proof -
    have "unat (f_size_va (INDEX2FD (int f))) mod 4 = unat (f_size_va (INDEX2FD (int f))) mod 4096 mod 4"
      by (rule mod_mod_cancel [symmetric]) simp
    then show ?thesis by (simp add: l(2))
  qed
  then show ?thesis
    using get32_server [of w "f_size_va (INDEX2FD (int f))" q perm] q(1,3) by (simp only: l)
qed

lemma win_byte:
  assumes "fd_open ds L U d j i fid f mode w" and "\<forall>m < nblocks_of (snd (ds ! j)). win_maps j d f m w" and "f < 32"
    and "a < length (snd (ds ! j))"
  shows "\<exists>p. cmap w (VPN (win f a)) = Some (Server p, DLw OR PTE_V) \<and> cache_page p
      \<and> fmem (sfs (vsrv w)) (p * 4096 + unat (win f a) mod 4096) = snd (ds ! j) ! a"
proof -
  let ?k = "a div 4096" and ?x = "a mod 4096"
  note len = file_len [OF assms(1)]
  have a: "a = ?k * 4096 + ?x" "?x < 4096" by simp_all
  have "?k * BY2BLK < length (snd (ds ! j))" using assms(4) a(1) unfolding BY2BLK_def by linarith
  then have k: "?k < nblocks_of (snd (ds ! j))" by (rule nblocks_of_index)
  then have k2: "?k < 1024" using len(2) by simp
  have m: "win_maps j d f ?k w" using assms(2) k by blast
  have e: "serves ds L U d (sfs (vsrv w))" "j < length ds" using assms(1) by (simp_all add: fd_open_def open_entry_def)
  have "VPN (win f a) = 0x60000 + f * 1024 + ?k" using win_page [OF assms(3) k2 a(2)] by simp
  moreover have "cache_page (DISKMAP div 4096 + data_link j ?k d)"
  proof -
    have im: "disk_image ds L U d" using e(1) by (simp add: serves_def)
    have "data_link j ?k d \<in> U"
      using serves_data(1) [OF e] a assms(4) by (simp add: BY2BLK_def)
    from image_root(4) [OF im this] im show ?thesis
      by (intro cache_block) (auto simp: disk_image_def mountable_def)
  qed
  moreover have "unat (win f a) mod 4096 = ?x"
  proof -
    have "a < 0x400000" using assms(4) len(1) by simp
    from win_addr [OF assms(3) this] have "unat (win f a) = (0x60000 + f * 1024) * 4096 + a" by simp
    then show ?thesis by (simp only: mod_mult_self3)
  qed
  moreover have "fmem (sfs (vsrv w)) (DISKMAP + data_link j ?k d * BY2BLK + ?x) = snd (ds ! j) ! (?k * BY2BLK + ?x)"
    by (rule serves_page_bytes [OF e]) (use m assms(4) in \<open>simp_all add: win_maps_def BY2BLK_def\<close>)
  then have "fmem (sfs (vsrv w)) ((DISKMAP div 4096 + data_link j ?k d) * 4096 + ?x) = snd (ds ! j) ! a"
    by (simp add: DISKMAP_def BY2BLK_def)
  ultimately show ?thesis using m by (simp add: win_maps_def)
qed


lemma open_shows_file:
  assumes "fd_open ds L U d j i fid f mode w" and "\<forall>m < nblocks_of (snd (ds ! j)). win_maps j d f m w" and "f < 32"
  shows "shows_file f (snd (ds ! j)) w"
proof -
  have "\<exists>p perm. cmap w (VPN (win f a)) = Some (Server p, perm) \<and> p \<noteq> ff_page i"
    and "writable (win f a) w" and "peek (win f a) w = snd (ds ! j) ! a" if a: "a < length (snd (ds ! j))" for a
  proof -
    obtain p where p: "cmap w (VPN (win f a)) = Some (Server p, DLw OR PTE_V)" "cache_page p"
      "fmem (sfs (vsrv w)) (p * 4096 + unat (win f a) mod 4096) = snd (ds ! j) ! a"
      using win_byte [OF assms a] by blast
    then show "\<exists>p perm. cmap w (VPN (win f a)) = Some (Server p, perm) \<and> p \<noteq> ff_page i"
      using ff_page_not_cache by auto
    show "writable (win f a) w" "peek (win f a) w = snd (ds ! j) ! a"
      using p DLw_facts(2) by (simp_all add: writable_def peek_def loc_def place_def)
  qed
  then show ?thesis
    using assms fd_page_VPN [OF assms(3)] file_len(1) [OF assms(1)]
    by (simp add: shows_file_def fd_open_def filefd_words_def)
qed

lemma unat_add_small: "unat x + unat y < 2 ^ 32 \<Longrightarrow> unat (x + y) = unat x + unat y" for x y :: u32
  by (metis not_less unat_add_nowrap unat_add_wrap)

lemma sint_small: "unat x < 2 ^ 31 \<Longrightarrow> sint x = int (unat x)" for x :: u32
proof -
  assume "unat x < 2 ^ 31"
  then have "int (unat x) < int (2 ^ 31)" by (simp only: of_nat_less_iff)
  then have "uint x < 2 ^ 31" unfolding uint_nat of_nat_power by (simp only: of_nat_numeral)
  moreover have "- (2 ^ 31) \<le> uint x" by (rule order_trans [of _ 0]) simp_all
  ultimately have "sint x = uint x" by (simp add: sint_uint signed_take_bit_int_eq_self)
  then show ?thesis by (simp only: uint_nat)
qed

section \<open>Reading and writing\<close>

text \<open>A buffer of the client's own pages.\<close>

definition own_bytes :: "u32 \<Rightarrow> nat \<Rightarrow> world \<Rightarrow> bool" where
  "own_bytes buf n w \<longleftrightarrow> (\<forall>x < n. \<exists>perm. cmap w (VPN (buf + word_of_nat x)) = Some (Own, perm))"

definition own_buffer :: "u32 \<Rightarrow> nat \<Rightarrow> world \<Rightarrow> bool" where
  "own_buffer buf n w \<longleftrightarrow> own_bytes buf n w \<and> unat buf + n \<le> 2 ^ 32 \<and> (\<forall>x < n. writable (buf + word_of_nat x) w)"

lemma own_loc: "own_bytes buf n w \<Longrightarrow> x < n \<Longrightarrow> loc w (buf + word_of_nat x) = Inr (unat (buf + word_of_nat x))"
  by (fastforce simp: own_bytes_def loc_def place_def)

lemma own_loc_inj:
  assumes "own_buffer buf n w" and "x < n" and "y < n" and "x \<noteq> y"
  shows "loc w (buf + word_of_nat x) \<noteq> loc w (buf + word_of_nat y)"
proof -
  have u: "unat (buf + word_of_nat z) = unat buf + z" if "z < n" for z
    using assms(1) that by (simp add: own_buffer_def unat_word_ariths unat_of_nat)
  have "own_bytes buf n w" using assms(1) by (simp add: own_buffer_def)
  from own_loc [OF this assms(2)] own_loc [OF this assms(3)] show ?thesis
    using u [OF assms(2)] u [OF assms(3)] assms(4) by simp
qed

lemma shows_file_loc:
  assumes "shows_file f bs w" and "a < length bs"
  obtains b where "loc w (win f a) = Inl b"
  using assms by (fastforce simp: shows_file_def loc_def place_def)

lemma pokes_vsrv:
  "(\<And>x. x < length bs \<Longrightarrow> \<exists>a. loc w (va + word_of_nat x) = Inr a) \<Longrightarrow> vsrv (pokes va bs w) = vsrv w"
proof (induction va bs w rule: pokes.induct)
  case (2 va b bs w)
  have "vsrv (pokes (va + 1) bs (poke va b w)) = vsrv (poke va b w)"
    by (rule 2(1)) (use 2(2) [of "Suc x" for x] in \<open>simp add: Suc_addr del: of_nat_Suc\<close>)
  moreover obtain a where "loc w va = Inr a" using 2(2) [of 0] by auto
  ultimately show ?case by (simp add: poke_def)
qed simp

lemma own_buffer_pokes:
  assumes "own_buffer buf (length bs) w"
  shows "vsrv (pokes buf bs w) = vsrv w" and "x < length bs \<Longrightarrow> peek (buf + word_of_nat x) (pokes buf bs w) = bs ! x"
    and "a < unat buf \<or> unat buf + length bs \<le> a \<Longrightarrow> cown (pokes buf bs w) a = cown w a"
proof -
  have o: "own_bytes buf (length bs) w" using assms by (simp add: own_buffer_def)
  show "vsrv (pokes buf bs w) = vsrv w" by (rule pokes_vsrv) (use own_loc [OF o] in blast)
  show "peek (buf + word_of_nat x) (pokes buf bs w) = bs ! x" if "x < length bs"
    by (rule peek_pokes_at [OF that refl]) (use own_loc_inj [OF assms] that in blast)
  show "cown (pokes buf bs w) a = cown w a" if a: "a < unat buf \<or> unat buf + length bs \<le> a"
  proof (rule pokes_own)
    fix x assume x: "x < length bs"
    then have "unat (buf + word_of_nat x) = unat buf + x"
      using assms by (simp add: own_buffer_def unat_word_ariths unat_of_nat)
    then show "Inr a \<noteq> loc w (buf + word_of_nat x)" using a x own_loc [OF o x] by auto
  qed
qed

lemma own_buffer_le: "own_buffer buf n w \<Longrightarrow> m \<le> n \<Longrightarrow> own_buffer buf m w"
  by (auto simp: own_buffer_def own_bytes_def)

lemma win_add: "f < 32 \<Longrightarrow> fd2data (INDEX2FD (int f)) + word_of_nat a = win f a"
  by (simp add: fd2data_INDEX2FD win_def)

lemma shows_file_mapped: "shows_file f bs w \<Longrightarrow> a < length bs \<Longrightarrow> cmap w (VPN (win f a)) \<noteq> None \<and> peek (win f a) w = bs ! a"
  by (auto simp: shows_file_def dest: writable_mapped)

lemma offset_addr:
  assumes "f < 32" and "offset = word_of_nat a"
  shows "fd2data (INDEX2FD (int f)) + offset + word_of_nat x = win f (a + x)"
  using win_add [OF assms(1), of "a + x"] assms(2) by (simp add: add.assoc)

lemma file_read_shows:
  assumes "shows_file f bs w" and "unat offset + unat n < 2 ^ 32" and "own_buffer buf (unat n) w"
  defines "out \<equiv> take (unat n) (drop (unat offset) bs)"
  shows "file_read (INDEX2FD (int f)) buf n offset w = Some (int (length out), pokes buf out w)"
proof -
  let ?len = "length bs"
  have f: "f < 32" and len: "?len \<le> 0x400000" using assms(1) by (simp_all add: shows_file_def)
  have ul: "unat (word_of_nat ?len :: u32) = ?len" using len by (simp only: unat_of_nat) simp
  have un: "unat (offset + n) = unat offset + unat n" by (rule unat_add_small [OF assms(2)])
  note g = shows_file_size [OF assms(1)]
  show ?thesis
  proof (cases "?len < unat offset")
    case True
    then have "out = []" by (simp add: out_def)
    moreover have "(word_of_nat ?len :: u32) < offset" using True ul by (simp add: word_less_nat_alt)
    ultimately show ?thesis using g by (simp add: file_read_def)
  next
    case False
    then have l: "\<not> (word_of_nat ?len :: u32) < offset" using ul by (simp add: word_less_nat_alt)
    define n1 where "n1 = (if (word_of_nat ?len :: u32) < offset + n then word_of_nat ?len - offset else n)"
    have n1: "unat n1 = length out"
      using False ul un l by (auto simp: n1_def out_def word_less_nat_alt unat_sub word_le_nat_alt)
    have lb: "length out \<le> unat n" "length out \<le> 0x400000" using len by (simp_all add: out_def)
    then have s: "sint n1 = int (length out)" using n1 sint_small [of n1] by simp
    note buf = own_buffer_le [OF assms(3) lb(1)]
    have at: "unat offset + x < ?len \<and> out ! x = bs ! (unat offset + x)" if "x < length out" for x
      using that False by (auto simp: out_def)
    note va = offset_addr [OF f, of offset "unat offset", simplified]
    have "copy_user buf (fd2data (INDEX2FD (int f)) + offset) (length out) w = Some (pokes buf out w)"
    proof (rule copy_user_pokes)
      fix x assume x: "x < length out"
      then show "cmap w (VPN (fd2data (INDEX2FD (int f)) + offset + word_of_nat x)) \<noteq> None
          \<and> peek (fd2data (INDEX2FD (int f)) + offset + word_of_nat x) w = out ! x"
        using at shows_file_mapped [OF assms(1)] unfolding va by presburger
      show "writable (buf + word_of_nat x) w" using x buf by (simp add: own_buffer_def)
    next
      fix x y assume xy: "y < x" "x < length out"
      have "loc w (buf + word_of_nat y) = Inr (unat (buf + word_of_nat y))"
        by (rule own_loc [where n = "length out"]) (use xy buf in \<open>simp_all add: own_buffer_def\<close>)
      then show "loc w (fd2data (INDEX2FD (int f)) + offset + word_of_nat x) \<noteq> loc w (buf + word_of_nat y)"
        using at [OF xy(2)] shows_file_loc [OF assms(1)] unfolding va by (metis Inl_Inr_False)
    qed
    then show ?thesis using g l n1 s by (simp add: file_read_def n1_def [symmetric] Let_def)
  qed
qed

section \<open>Writing into the window\<close>

definition patch :: "nat \<Rightarrow> u8 list \<Rightarrow> u8 list \<Rightarrow> u8 list" where
  "patch a new bs = take a bs @ new @ drop (a + length new) bs"

lemma length_patch [simp]: "a + length new \<le> length bs \<Longrightarrow> length (patch a new bs) = length bs"
  by (simp add: patch_def)

lemma nth_patch:
  "a + length new \<le> length bs \<Longrightarrow> b < length bs \<Longrightarrow>
     patch a new bs ! b = (if a \<le> b \<and> b < a + length new then new ! (b - a) else bs ! b)"
  by (auto simp: patch_def nth_append min_def)

text \<open>No two bytes of the window are the same byte of the server.\<close>

definition no_alias :: "nat \<Rightarrow> nat \<Rightarrow> world \<Rightarrow> bool" where
  "no_alias f n w \<longleftrightarrow> (\<forall>a < n. \<forall>b < n. loc w (win f a) = loc w (win f b) \<longrightarrow> a = b)"

text \<open>Bytes written from \<open>dst\<close> on, of which the first \<open>k\<close> go to the client's own pages and the others to
  the window, from byte \<open>a\<close> on.\<close>

definition lands :: "nat \<Rightarrow> nat \<Rightarrow> nat \<Rightarrow> u32 \<Rightarrow> nat \<Rightarrow> world \<Rightarrow> bool" where
  "lands f k a dst n w \<longleftrightarrow> (\<forall>x < n. if x < k then \<exists>r. loc w (dst + word_of_nat x) = Inr r
                              else dst + word_of_nat x = win f (a + (x - k)))"

lemma pokes_shows:
  assumes "shows_file f bs w" and "no_alias f (length bs) w" and "lands f k a dst (length data) w"
    and "a + (length data - k) \<le> length bs"
  shows "shows_file f (patch a (drop k data) bs) (pokes dst data w)"
proof -
  let ?w = "pokes dst data w" and ?new = "patch a (drop k data) bs"
  have len: "length ?new = length bs" using assms(4) by simp
  have hit: "\<exists>c < length bs. c = a + (x - k) \<and> loc w (dst + word_of_nat x) = loc w (win f c)"
    if "x < length data" "\<not> x < k" for x
    using that assms(3,4) by (auto simp: lands_def)
  have miss: "\<exists>r. loc w (dst + word_of_nat x) = Inr r" if "x < length data" "x < k" for x
    using that assms(3) by (auto simp: lands_def)
  obtain q perm where q: "cmap w (0x5FC00 + f) = Some (Server q, perm)"
    "rd32 (fmem (sfs (vsrv w))) (q * 4096 + 144) = word_of_nat (length bs)"
    "\<And>b. b < length bs \<Longrightarrow> \<exists>p perm. cmap w (VPN (win f b)) = Some (Server p, perm) \<and> p \<noteq> q"
    using assms(1) unfolding shows_file_def by blast
  have "rd32 (fmem (sfs (vsrv ?w))) (q * 4096 + 144) = rd32 (fmem (sfs (vsrv w))) (q * 4096 + 144)"
  proof (rule rd32_mem, rule pokes_mem)
    fix y x assume y: "y < (4 :: nat)" and x: "x < length data"
    show "Inl (q * 4096 + 144 + y) \<noteq> loc w (dst + word_of_nat x)"
    proof (cases "x < k")
      case True
      then show ?thesis using miss [OF x] by auto
    next
      case False
      then obtain c where c: "c < length bs" "loc w (dst + word_of_nat x) = loc w (win f c)" using hit [OF x] by blast
      then obtain p pm where p: "cmap w (VPN (win f c)) = Some (Server p, pm)" "p \<noteq> q" using q(3) by blast
      have "(p * 4096 + unat (win f c) mod 4096) div 4096 = p" "(q * 4096 + (144 + y)) div 4096 = q" using y by simp_all
      then have "q * 4096 + 144 + y \<noteq> p * 4096 + unat (win f c) mod 4096" using p(2) by (metis add.assoc)
      then show ?thesis using c(2) p(1) by (simp add: loc_def place_def)
    qed
  qed
  moreover have "peek (win f b) ?w = ?new ! b" if b: "b < length bs" for b
  proof (cases "a \<le> b \<and> b < a + length (drop k data)")
    case True
    define x where "x = b - a + k"
    have x: "x < length data" "\<not> x < k" "a + (x - k) = b" using True by (auto simp: x_def)
    have dx: "loc w (dst + word_of_nat x) = loc w (win f b)" using hit [OF x(1,2)] x(3) by auto
    have "peek (win f b) ?w = data ! x"
    proof (rule peek_pokes_at [OF x(1) dx [symmetric]])
      fix y assume y: "x < y" "y < length data"
      then obtain c where "c < length bs" "c = a + (y - k)" "loc w (dst + word_of_nat y) = loc w (win f c)"
        using hit [OF y(2)] x(2) by auto
      then show "loc w (dst + word_of_nat y) \<noteq> loc w (dst + word_of_nat x)"
        using assms(2) b x y(1) unfolding no_alias_def dx by fastforce
    qed
    moreover have "k \<le> length data" using x(1,2) by simp
    then have "drop k data ! (b - a) = data ! x" by (simp only: nth_drop x_def add.commute)
    ultimately show ?thesis using True b assms(4) by (simp add: nth_patch)
  next
    case False
    have "peek (win f b) ?w = peek (win f b) w"
    proof (rule peek_pokes_other)
      fix x assume x: "x < length data"
      show "loc w (win f b) \<noteq> loc w (dst + word_of_nat x)"
      proof (cases "x < k")
        case True
        obtain r where "loc w (win f b) = Inl r" by (rule shows_file_loc [OF assms(1) b])
        then show ?thesis using miss [OF x True] by auto
      next
        case out: False
        then obtain c where c: "c < length bs" "c = a + (x - k)" "loc w (dst + word_of_nat x) = loc w (win f c)"
          using hit [OF x] by blast
        have "c \<noteq> b" using False out x c(2) by auto
        then show ?thesis using assms(2) b c unfolding no_alias_def by metis
      qed
    qed
    then show ?thesis using False b assms(4) shows_file_mapped [OF assms(1) b] by (auto simp: nth_patch)
  qed
  ultimately show ?thesis
    using assms(1) q len unfolding shows_file_def by (simp add: writable_cmap [of ?w w])
qed

text \<open>\<^verbatim>\<open>file_write\<close> when the end of the write, as the code computes it, lies within the file.\<close>

lemma file_write_lands:
  assumes "shows_file f bs w" and "unat (offset + n) \<le> length bs" and "unat n = length data" and "length data < 2 ^ 31"
    and "own_bytes buf (length data) w" and "\<forall>x < length data. peek (buf + word_of_nat x) w = data ! x"
    and "lands f k a (fd2data (INDEX2FD (int f)) + offset) (length data) w" and "a + (length data - k) \<le> length bs"
    and "\<forall>x < length data. x < k \<longrightarrow> writable (fd2data (INDEX2FD (int f)) + offset + word_of_nat x) w
      \<and> (\<forall>y < length data. loc w (buf + word_of_nat y) \<noteq> loc w (fd2data (INDEX2FD (int f)) + offset + word_of_nat x))"
  shows "file_write (INDEX2FD (int f)) buf n offset w
    = Some (int (length data), pokes (fd2data (INDEX2FD (int f)) + offset) data w)"
proof -
  let ?dst = "fd2data (INDEX2FD (int f)) + offset"
  have f: "f < 32" and len: "length bs \<le> 0x400000" using assms(1) by (simp_all add: shows_file_def)
  have ul: "unat (word_of_nat (length bs) :: u32) = length bs" using len by (simp only: unat_of_nat) simp
  have "\<not> MAXFILESIZE < offset + n" "\<not> (word_of_nat (length bs) :: u32) < offset + n"
    using assms(2) len ul by (simp_all add: MAXFILESIZE_def word_less_nat_alt)
  moreover have "sint n = int (length data)" using assms(3,4) sint_small [of n] by simp
  moreover have "copy_user ?dst buf (length data) w = Some (pokes ?dst data w)"
  proof (rule copy_user_pokes)
    fix x assume x: "x < length data"
    then show "cmap w (VPN (buf + word_of_nat x)) \<noteq> None \<and> peek (buf + word_of_nat x) w = data ! x"
      using assms(5,6) by (fastforce simp: own_bytes_def)
    show "writable (?dst + word_of_nat x) w"
    proof (cases "x < k")
      case False
      then have "?dst + word_of_nat x = win f (a + (x - k))" "a + (x - k) < length bs"
        using x assms(7,8) by (auto simp: lands_def)
      then show ?thesis using assms(1) by (simp add: shows_file_def)
    qed (use x assms(9) in blast)
  next
    fix x y assume xy: "y < x" "x < length data"
    show "loc w (buf + word_of_nat x) \<noteq> loc w (?dst + word_of_nat y)"
    proof (cases "y < k")
      case True
      then show ?thesis using assms(9) xy by force
    next
      case False
      then have "?dst + word_of_nat y = win f (a + (y - k))" "a + (y - k) < length bs"
        using xy assms(7,8) by (auto simp: lands_def)
      then show ?thesis using own_loc [OF assms(5) xy(2)] shows_file_loc [OF assms(1)] by (metis Inl_Inr_False)
    qed
  qed
  ultimately show ?thesis using shows_file_size [OF assms(1)] by (simp add: file_write_def assms(3))
qed

lemma pokes_window_own:
  assumes "shows_file f bs w" and "lands f 0 a dst (length data) w" and "a + length data \<le> length bs"
  shows "cown (pokes dst data w) = cown w"
proof (rule ext, rule pokes_own)
  fix z x assume "x < length data"
  then have "dst + word_of_nat x = win f (a + x)" "a + x < length bs" using assms(2,3) by (auto simp: lands_def)
  then show "Inr z \<noteq> loc w (dst + word_of_nat x)" using shows_file_loc [OF assms(1)] by (metis Inl_Inr_False)
qed

text \<open>C30: What is written is read back. A write within the file returns the number of its bytes
  and replaces exactly them in the window, which is the cache of the server; the pages of the client keep
  their contents. Whatever part of the file is read afterwards then is that part of the new contents.\<close>

theorem file_write_read:
  assumes "shows_file f bs w" and "no_alias f (length bs) w" and "unat offset + unat n \<le> length bs"
    and "unat n = length data" and "own_bytes buf (length data) w"
    and "\<forall>x < length data. peek (buf + word_of_nat x) w = data ! x"
  shows "\<exists>w'. file_write (INDEX2FD (int f)) buf n offset w = Some (int (length data), w')
    \<and> shows_file f (patch (unat offset) data bs) w' \<and> cmap w' = cmap w \<and> cown w' = cown w
    \<and> (\<forall>out m pos. own_buffer out (unat m) w \<and> unat pos + unat m < 2 ^ 32 \<longrightarrow>
         (let got = take (unat m) (drop (unat pos) (patch (unat offset) data bs)) in
          \<exists>w''. file_read (INDEX2FD (int f)) out m pos w' = Some (int (length got), w'') \<and> vsrv w'' = vsrv w'
            \<and> (\<forall>x < length got. peek (out + word_of_nat x) w'' = got ! x)))"
proof -
  let ?dst = "fd2data (INDEX2FD (int f)) + offset" and ?bs = "patch (unat offset) data bs"
  let ?w = "pokes ?dst data w"
  have f: "f < 32" and len: "length bs \<le> 0x400000" using assms(1) by (simp_all add: shows_file_def)
  have l: "lands f 0 (unat offset) ?dst (length data) w"
    using offset_addr [OF f, of offset "unat offset"] by (simp add: lands_def)
  have fit: "unat offset + (length data - 0) \<le> length bs" using assms(3,4) by simp
  have "unat (offset + n) = unat offset + unat n"
    by (rule unat_add_small) (use assms(3) len in simp)
  then have wr: "file_write (INDEX2FD (int f)) buf n offset w = Some (int (length data), ?w)"
    by (intro file_write_lands [OF assms(1) _ assms(4) _ assms(5,6) l fit]) (use fit len assms(4) in simp_all)
  have sh: "shows_file f ?bs ?w" using pokes_shows [OF assms(1,2) l fit] by simp
  have own: "own_buffer out m ?w" if "own_buffer out m w" for out m
    using that by (simp add: own_buffer_def own_bytes_def writable_cmap [of ?w w])
  have "\<exists>w''. file_read (INDEX2FD (int f)) out m pos ?w = Some (int (length got), w'') \<and> vsrv w'' = vsrv ?w
      \<and> (\<forall>x < length got. peek (out + word_of_nat x) w'' = got ! x)"
    if "own_buffer out (unat m) w" "unat pos + unat m < 2 ^ 32" "got = take (unat m) (drop (unat pos) ?bs)" for out m pos got
  proof -
    have ob: "own_buffer out (length got) ?w" by (rule own_buffer_le [OF own [OF that(1)]]) (simp add: that(3))
    show ?thesis
      using file_read_shows [OF sh that(2) own [OF that(1)]] own_buffer_pokes [OF ob] that(3) by simp
  qed
  then show ?thesis
    using wr sh pokes_window_own [OF assms(1) l] fit by (intro exI [of _ ?w]) (simp add: Let_def)
qed

text \<open>C31: A position before the file. \<^verbatim>\<open>file_write\<close> compares \<open>offset + n\<close> with the size, which wraps round. A
  write of \<open>n\<close> bytes at position \<open>-k\<close> (which \<^verbatim>\<open>seek\<close> accepts) with \<open>k \<le> n\<close> is not refused: it reports \<open>n\<close> bytes, but the first \<open>k\<close> of
  them overwrite what the client has below the window, and only the others reach the file, at its
  start.\<close>

theorem file_write_wraps:
  assumes "shows_file f bs w" and "no_alias f (length bs) w" and "k \<le> length data" and "length data - k \<le> length bs"
    and "length data < 2 ^ 31" and "own_bytes buf (length data) w" and "\<forall>x < length data. peek (buf + word_of_nat x) w = data ! x"
    and "own_buffer (win f 0 - word_of_nat k) k w"
    and "\<forall>x < k. \<forall>y < length data. buf + word_of_nat y \<noteq> win f 0 - word_of_nat k + word_of_nat x"
  shows "\<exists>w'. file_write (INDEX2FD (int f)) buf (word_of_nat (length data)) (- word_of_nat k) w = Some (int (length data), w')
    \<and> shows_file f (patch 0 (drop k data) bs) w'
    \<and> (\<forall>x < k. peek (win f 0 - word_of_nat k + word_of_nat x) w' = data ! x)"
proof -
  let ?dst = "fd2data (INDEX2FD (int f)) + - word_of_nat k"
  let ?w = "pokes ?dst data w"
  have f: "f < 32" using assms(1) by (simp add: shows_file_def)
  have dst: "?dst = win f 0 - word_of_nat k" using win_add [OF f, of 0] by simp
  have un: "unat (word_of_nat (length data) :: u32) = length data" using assms(5) by (simp only: unat_of_nat) simp
  have ob: "own_bytes ?dst k w" using assms(8) unfolding own_buffer_def dst by blast
  have l: "lands f k 0 ?dst (length data) w"
    unfolding lands_def
  proof (intro allI impI)
    fix x assume "x < length data"
    show "if x < k then \<exists>r. loc w (?dst + word_of_nat x) = Inr r else ?dst + word_of_nat x = win f (0 + (x - k))"
    proof (cases "x < k")
      case True
      then show ?thesis using own_loc [OF ob] by auto
    next
      case False
      then show ?thesis unfolding dst by (simp add: win_def of_nat_diff)
    qed
  qed
  have "unat (- word_of_nat k + word_of_nat (length data) :: u32) = length data - k"
  proof -
    have "- word_of_nat k + word_of_nat (length data) = (word_of_nat (length data - k) :: u32)"
      using assms(3) by (simp add: of_nat_diff)
    then show ?thesis using assms(5) by (simp only: unat_of_nat) simp
  qed
  then have wr: "file_write (INDEX2FD (int f)) buf (word_of_nat (length data)) (- word_of_nat k) w = Some (int (length data), ?w)"
  proof (intro file_write_lands [OF assms(1) _ un assms(5-7) l])
    show "\<forall>x < length data. x < k \<longrightarrow> writable (?dst + word_of_nat x) w
        \<and> (\<forall>y < length data. loc w (buf + word_of_nat y) \<noteq> loc w (?dst + word_of_nat x))"
    proof (intro allI impI conjI)
      fix x y assume x: "x < k" and y: "y < length data"
      then show "loc w (buf + word_of_nat y) \<noteq> loc w (?dst + word_of_nat x)"
        using assms(9) own_loc [OF assms(6) y] own_loc [OF ob x] unfolding dst by (metis sum.inject(2) word_unat_eq_iff)
    qed (use assms(8) in \<open>unfold own_buffer_def dst, blast\<close>)
  qed (use assms(4) in simp_all)
  moreover have "shows_file f (patch 0 (drop k data) bs) ?w"
    by (rule pokes_shows [OF assms(1,2) l]) (use assms(4) in simp)
  moreover have "peek (?dst + word_of_nat x) ?w = data ! x" if x: "x < k" for x
  proof (rule peek_pokes_at [OF _ refl])
    show "x < length data" using x assms(3) by simp
    fix y assume y: "x < y" "y < length data"
    show "loc w (?dst + word_of_nat y) \<noteq> loc w (?dst + word_of_nat x)"
    proof (cases "y < k")
      case True
      then show ?thesis using own_loc_inj [OF assms(8)] x y(1) unfolding dst by simp
    next
      case False
      then have "?dst + word_of_nat y = win f (y - k)" "y - k < length bs"
        using y(2) l assms(4) by (auto simp: lands_def)
      then show ?thesis using own_loc [OF ob x] shows_file_loc [OF assms(1)] by (metis Inl_Inr_False)
    qed
  qed
  ultimately show ?thesis unfolding dst by blast
qed

section \<open>Witnesses\<close>

text \<open>Descriptor 0 shows a file of two bytes; the client has a page of its own at \<^verbatim>\<open>0x400000\<close> and one below
  the window.\<close>

definition demo_window :: world where
  "demo_window = \<lparr>vsrv = boot_srv\<lparr>sfs := (sfs boot_srv)\<lparr>fmem :=
       put_bytes (200 * 4096) [104, 105] (put_word (100 * 4096 + 144) 2 (\<lambda>_. 0))\<rparr>\<rparr>,
     cmap = [0x5FC00 \<mapsto> (Server 100, PTE_D), 0x60000 \<mapsto> (Server 200, PTE_D), 0x400 \<mapsto> (Own, PTE_D), 0x5FFFF \<mapsto> (Own, PTE_D)],
     cown = put_bytes 0x400000 [72, 73] (\<lambda>_. 0), cseen = 0, cid = 0x800\<rparr>"

lemma demo_window_pages:
  "cmap demo_window 0x5FC00 = Some (Server 100, PTE_D)" "cmap demo_window 0x60000 = Some (Server 200, PTE_D)"
  "cmap demo_window 0x400 = Some (Own, PTE_D)" "cmap demo_window 0x5FFFF = Some (Own, PTE_D)"
  by (simp_all add: demo_window_def)

lemma demo_window_VPN: "a < 2 \<Longrightarrow> VPN (win 0 a) = 0x60000" "a < 2 \<Longrightarrow> unat (win 0 a) mod 4096 = a"
proof -
  show "VPN (win 0 a) = 0x60000" if "a < 2" using win_page [of 0 0 a] that by simp
  show "unat (win 0 a) mod 4096 = a" if "a < 2"
  proof -
    have "unat (win 0 a) = 0x60000 * 4096 + a" using win_addr [of 0 a] that by simp
    then show ?thesis using that by (simp only: mod_mult_self3) simp
  qed
qed

lemma demo_window_file: "shows_file 0 [104, 105] demo_window" "no_alias 0 2 demo_window"
proof -
  have "rd32 (fmem (sfs (vsrv demo_window))) (100 * 4096 + 144) = rd32 (put_word (100 * 4096 + 144) 2 (\<lambda>_. 0)) (100 * 4096 + 144)"
    by (rule rd32_mem) (simp add: demo_window_def put_bytes_def)
  then have w: "rd32 (fmem (sfs (vsrv demo_window))) (100 * 4096 + 144) = 2" by simp
  have pk: "writable (win 0 a) demo_window \<and> peek (win 0 a) demo_window = [104, 105] ! a \<and> loc demo_window (win 0 a) = Inl (200 * 4096 + a)"
    if "a < 2" for a
    using that demo_window_VPN [OF that] demo_window_pages(2)
    by (simp add: writable_def peek_def loc_def place_def) (simp add: demo_window_def put_bytes_def PTE_D_def)
  then show "no_alias 0 2 demo_window" by (auto simp: no_alias_def)
  show "shows_file 0 [104, 105] demo_window"
    using pk w demo_window_VPN demo_window_pages by (auto simp: shows_file_def numeral_2_eq_2 [symmetric])
qed

lemma demo_window_buffer: "own_bytes 0x400000 2 demo_window" "x < 2 \<Longrightarrow> peek (0x400000 + word_of_nat x) demo_window = [72, 73] ! x"
  "own_buffer (win 0 0 - 1) 1 demo_window" "own_buffer 0x400000 2 demo_window"
proof -
  have u: "unat (0x400000 + word_of_nat x :: u32) = 0x400000 + x" if "x < 2" for x
    using that by (simp add: unat_word_ariths unat_of_nat)
  have v: "VPN (0x400000 + word_of_nat x) = 0x400" if "x < 2" for x
    using u [OF that] that by (simp add: VPN_div)
  show b: "own_bytes 0x400000 2 demo_window" using v demo_window_pages(3) by (simp add: own_bytes_def)
  show "peek (0x400000 + word_of_nat x) demo_window = [72, 73] ! x" if "x < 2"
    using u [OF that] v [OF that] that demo_window_pages(3)
    by (simp add: peek_def loc_def place_def) (simp add: demo_window_def put_bytes_def)
  show "own_buffer 0x400000 2 demo_window"
    using b v demo_window_pages(3) by (simp add: own_buffer_def writable_def PTE_D_def)
  have "win 0 0 = 0x60000000" using win_addr [of 0 0] by (simp add: word_unat_eq_iff)
  then show "own_buffer (win 0 0 - 1) 1 demo_window"
    using demo_window_pages(4) by (simp add: own_buffer_def own_bytes_def writable_def VPN_div PTE_D_def)
qed

theorem file_write_read_witness:
  "\<exists>w' w''. file_write (INDEX2FD 0) 0x400000 1 1 demo_window = Some (1, w') \<and> shows_file 0 [104, 72] w'
     \<and> file_read (INDEX2FD 0) 0x400000 2 0 w' = Some (2, w'') \<and> peek 0x400001 w'' = 72"
proof -
  have b: "own_bytes 0x400000 (length [72 :: u8]) demo_window"
    using demo_window_buffer(1) [unfolded own_bytes_def, rule_format, of 0] by (simp add: own_bytes_def)
  have p: "\<forall>x < length [72 :: u8]. peek (0x400000 + word_of_nat x) demo_window = [72] ! x"
    using demo_window_buffer(2) [of 0] by simp
  have na: "no_alias 0 (length [104, 105 :: u8]) demo_window" using demo_window_file(2) by (simp add: numeral_2_eq_2)
  have pa: "patch (unat (1 :: u32)) [72] [104, 105 :: u8] = [104, 72]" by (simp add: patch_def)
  obtain w' where w': "file_write (INDEX2FD (int 0)) 0x400000 1 1 demo_window = Some (int (length [72 :: u8]), w')"
    "shows_file 0 [104, 72] w'"
    "\<forall>out m pos. own_buffer out (unat m) demo_window \<and> unat pos + unat m < 2 ^ 32 \<longrightarrow>
         (let got = take (unat m) (drop (unat pos) [104, 72]) in
          \<exists>w''. file_read (INDEX2FD (int 0)) out m pos w' = Some (int (length got), w'') \<and> vsrv w'' = vsrv w'
            \<and> (\<forall>x < length got. peek (out + word_of_nat x) w'' = got ! x))"
    using file_write_read [OF demo_window_file(1) na _ _ b p, of 1 1, unfolded pa] by auto
  have "own_buffer 0x400000 (unat (2 :: u32)) demo_window \<and> unat (0 :: u32) + unat (2 :: u32) < 2 ^ 32"
    using demo_window_buffer(4) by simp
  from w'(3) [rule_format, OF this]
  obtain w'' where "file_read (INDEX2FD 0) 0x400000 2 0 w' = Some (2, w'')" "\<forall>x < 2. peek (0x400000 + word_of_nat x) w'' = [104, 72] ! x"
    by (auto simp: Let_def)
  from this(1) this(2) [rule_format, of 1] w'(1,2) show ?thesis by auto
qed

theorem file_write_wraps_witness:
  "\<exists>w'. file_write (INDEX2FD 0) 0x400000 2 (- 1) demo_window = Some (2, w') \<and> shows_file 0 [73, 105] w' \<and> peek 0x5FFFFFFF w' = 72"
proof -
  have z: "win 0 0 = 0x60000000" using win_addr [of 0 0] by (simp add: word_unat_eq_iff)
  have far: "\<forall>x < 1. \<forall>y < length [72, 73 :: u8]. 0x400000 + word_of_nat y \<noteq> win 0 0 - word_of_nat 1 + (word_of_nat x :: u32)"
    by (simp add: z All_less_Suc2)
  have na: "no_alias 0 (length [104, 105 :: u8]) demo_window" using demo_window_file(2) by (simp add: numeral_2_eq_2)
  have b: "own_bytes 0x400000 (length [72, 73 :: u8]) demo_window" using demo_window_buffer(1) by (simp add: numeral_2_eq_2)
  have p: "\<forall>x < length [72, 73 :: u8]. peek (0x400000 + word_of_nat x) demo_window = [72, 73] ! x"
    using demo_window_buffer(2) by simp
  have ow: "own_buffer (win 0 0 - word_of_nat 1) 1 demo_window" using demo_window_buffer(3) by simp
  have pa: "patch 0 (drop 1 [72, 73]) [104, 105 :: u8] = [73, 105]" by (simp add: patch_def)
  obtain w' where w': "file_write (INDEX2FD (int 0)) 0x400000 (word_of_nat (length [72, 73 :: u8])) (- word_of_nat 1) demo_window
      = Some (int (length [72, 73 :: u8]), w')" "shows_file 0 [73, 105] w'"
    "\<forall>x < 1. peek (win 0 0 - word_of_nat 1 + word_of_nat x) w' = [72, 73] ! x"
    using file_write_wraps [OF demo_window_file(1) na _ _ _ b p ow far, unfolded pa] by auto
  from w'(3) [rule_format, of 0] w'(1,2) show ?thesis by (auto simp: z)
qed

end
