(* ===== verification/FsSystem.thy ===== *)
theory FsSystem
  imports UserFileBytes
begin

text \<open>
  The parts of the file system together: the image that \<^verbatim>\<open>fsformat\<close> builds on the host, the server that
  mounts it, and a client that opens a file of it and reads.
\<close>

section \<open>From the image to the server\<close>

lemma fresh_server_le: "fresh_server (m + n) s \<Longrightarrow> fresh_server m s"
  by (auto simp: fresh_server_def replicate_add)

lemma mounted_serves:
  assumes "disk_image ds L U (fdisk s)" and "fresh_server (disk_nbitmap (fdisk s) + 3 + n) s"
  obtains s' where "fs_init s = Some s'" and "serves ds L U (fdisk s) s'" and "grants n s'"
    and "\<forall>p. \<not> cache_page p \<longrightarrow> fperm s' p = fperm s p"
proof -
  let ?d = "fdisk s"
  let ?n = "disk_nbitmap ?d + 2"
  have m: "mountable ?d" using assms(1) by (simp add: disk_image_def)
  obtain s' where s': "fs_init s = Some s'" "mounted s'" "s_nblocks s' = disk_nblocks ?d"
    "\<forall>b < s_nblocks s'. free b s' \<longleftrightarrow> disk_free b ?d" "\<forall>b < ?n. 0 < b \<longrightarrow> holds_block ?d b s'" "fdisk s' = ?d"
    "\<forall>p. fperm s' p = (if \<exists>b < ?n. p = DISKMAP div 4096 + b then Some PTE_D else fperm s p)"
    "fgrants s' = drop (disk_nbitmap ?d + 3) (fgrants s)"
    using fs_init_ok [OF m fresh_server_le [OF assms(2)]] by blast
  have "contents s' a = ?d a" if a: "BY2BLK \<le> a" for a
  proof (cases "a div BY2BLK < ?n")
    case True
    have "0 < a div BY2BLK" using a by (simp add: div_greater_zero_iff BY2BLK_def)
    then have "fmem s' (DISKMAP + a div BY2BLK * BY2BLK + a mod BY2BLK) = ?d (a div BY2BLK * BY2BLK + a mod BY2BLK)"
      by (rule s'(5) [rule_format, OF True, unfolded holds_block_def, rule_format]) (simp add: BY2BLK_def)
    moreover have "cached (a div BY2BLK) s'" using s'(7) True by auto
    ultimately show ?thesis by (simp add: contents_def add.assoc)
  next
    case False
    then have "\<not> cached (a div BY2BLK) s'" using s'(7) assms(2) by (simp add: fresh_server_def)
    then show ?thesis by (simp add: contents_def s'(6))
  qed
  moreover have "grants n s'"
    using assms(2) by (auto simp: grants_def fresh_server_def s'(8) replicate_add)
  moreover have "fperm s' p = fperm s p" if "\<not> cache_page p" for p
  proof -
    have "?n \<le> DISKMAX div BY2BLK" using m by (simp add: mountable_def)
    then have "p \<noteq> DISKMAP div 4096 + b" if "b < ?n" for b
      using cache_block [of b] that \<open>\<not> cache_page p\<close> by auto
    then show ?thesis using s'(7) by auto
  qed
  ultimately show ?thesis
    using that s'(1-4) assms(1) mounted_layout [OF s'(2)] by (simp add: serves_def)
qed

lemma fs_main_serves:
  assumes "disk_image ds L U (fdisk (sfs v))" and "fresh_server (disk_nbitmap (fdisk (sfs v)) + 3 + n) (sfs v)"
    and "fperm (sfs v) (ff_page 0) = None"
  obtains v' where "fs_main v = Some v'" and "serves ds L U (fdisk (sfs v)) (sfs v')" and "grants n (sfs v')"
    and "srv_wf v'" and "next_entry 0 v'" and "replies v' = replies v"
proof -
  obtain s' where s': "fs_init (sfs v) = Some s'" "serves ds L U (fdisk (sfs v)) s'" "grants n s'"
    "\<forall>p. \<not> cache_page p \<longrightarrow> fperm s' p = fperm (sfs v) p"
    by (rule mounted_serves [OF assms(1,2)])
  let ?v = "(serve_init v)\<lparr>sfs := s'\<rparr>"
  have "fs_main v = Some ?v" by (simp add: fs_main_def s'(1) serve_init_def)
  moreover have wf: "srv_wf ?v" using serve_init_wf [of v] by (simp add: srv_wf_def)
  moreover have "next_entry 0 ?v"
  proof -
    have "o_ff (opentab ?v ! 0) = FILEVA + 0 * 4096" using wf by (simp add: srv_wf_def MAXOPEN_def)
    then have "fperm (sfs ?v) (o_ff (opentab ?v ! 0) div 4096) = None"
      using s'(4) ff_page_not_cache [of 0] assms(3) ff_page_of [of 0 0] by simp
    moreover have "o_fileid (opentab ?v ! 0) = 0" by (simp add: serve_init_def init_open_def MAXOPEN_def)
    ultimately show ?thesis by (simp add: next_entry_def pageref_def MAXOPEN_def)
  qed
  ultimately show ?thesis using that s' by (simp add: serve_init_def)
qed

section \<open>Opening and reading\<close>

lemma own_buffer_kept:
  assumes "own_buffer buf n w" and "\<forall>q. cmap w q \<noteq> None \<longrightarrow> cmap w' q = cmap w q"
  shows "own_buffer buf n w'"
proof -
  have "cmap w' (VPN (buf + word_of_nat x)) = cmap w (VPN (buf + word_of_nat x))" if "x < n" for x
    using assms that writable_mapped by (simp add: own_buffer_def)
  then show ?thesis using assms(1) by (simp add: own_buffer_def own_bytes_def writable_def)
qed

text \<open>Opening a file. On a server that serves the files \<open>ds\<close>, a client whose least free
  descriptor is \<open>f\<close> and that opens the path of file \<open>j\<close> gets \<open>f\<close>; the window of the
  descriptor then shows exactly the bytes of the file, whatever its size up to the largest one, and all
  other pages of the client are as before.\<close>

lemma open_user_shows:
  assumes "serves ds L U d (sfs (vsrv w))" and "srv_wf (vsrv w)" and "next_entry i (vsrv w)" and "names_file path ds j"
    and "length path < MAXPATHLEN" and "can_open f (nblocks_of (snd (ds ! j))) w"
    and "grants (n + 2 * nblocks_of (snd (ds ! j)) + 2 * L + 1) (sfs (vsrv w))"
  shows "\<exists>w'. open_user path mode w = Some (Inr (int f), w') \<and> shows_file f (snd (ds ! j)) w'
    \<and> (\<forall>q. cmap w q \<noteq> None \<longrightarrow> cmap w' q = cmap w q) \<and> cown w' = cown w \<and> grants n (sfs (vsrv w'))"
proof -
  have f: "f < 32" using assms(6) by (simp add: can_open_def MAXFD_def)
  obtain w' where w': "open_user path mode w = Some (Inr (int f), w')"
    "fd_open ds L U d j i (o_fileid (opentab (vsrv w) ! i) + word_of_nat MAXOPEN) f mode w'"
    "\<forall>m < nblocks_of (snd (ds ! j)). win_maps j d f m w'" "cown w' = cown w"
    "\<forall>q. q \<noteq> 0x5FC00 + f \<and> (q < 0x60000 + f * 1024 \<or> 0x60000 + f * 1024 + nblocks_of (snd (ds ! j)) \<le> q) \<longrightarrow> cmap w' q = cmap w q"
    "grants n (sfs (vsrv w'))"
    by (rule open_user_ok [OF assms])
  have "cmap w' q = cmap w q" if q: "cmap w q \<noteq> None" for q
  proof -
    have "q \<noteq> 0x60000 + f * 1024 + m" if "m < nblocks_of (snd (ds ! j))" for m
      using assms(6) that q by (auto simp: can_open_def)
    from this [of "q - (0x60000 + f * 1024)"]
    have "q < 0x60000 + f * 1024 \<or> 0x60000 + f * 1024 + nblocks_of (snd (ds ! j)) \<le> q" by linarith
    moreover have "q \<noteq> 0x5FC00 + f" using assms(6) q by (auto simp: can_open_def)
    ultimately show ?thesis using w'(5) by blast
  qed
  then show ?thesis using w'(1,4,6) open_shows_file [OF w'(2,3) f] by blast
qed

text \<open>C29: The file system from end to end. \<^verbatim>\<open>fsformat\<close> builds an image from the host files \<open>fs\<close>; a
  server with that disk starts and mounts it; a client opens the path of file \<open>j\<close> and reads \<open>n\<close>
  bytes from \<open>offset\<close> on into a buffer of its own. Then every step succeeds, \<^verbatim>\<open>open\<close> returns the least
  free descriptor, and what the client gets is exactly the part of the host file that it asked for, as far as there is
  one.\<close>

theorem image_file_read:
  assumes "fs \<noteq> []" and "\<forall>f \<in> set fs. name_ok (after_slash (fst f))" and "length fs \<le> NDIRECT * FILE2BLK"
    and "3 + dir_blocks (length fs) + room_for fs \<le> NBLOCK"
    and "fsformat (map (\<lambda>f. (fst f, HFile (snd f))) fs) = Some (fdisk (sfs (vsrv w)))"
    and "fresh_server (5 + 2 * dir_blocks (length fs) + 2 * nblocks_of (snd (fs ! j))) (sfs (vsrv w))"
    and "fperm (sfs (vsrv w)) (ff_page 0) = None"
    and "names_file path (map named fs) j" and "length path < MAXPATHLEN"
    and "can_open f (nblocks_of (snd (fs ! j))) w" and "own_buffer buf (unat n) w" and "unat offset + unat n < 2 ^ 32"
  defines "got \<equiv> take (unat n) (drop (unat offset) (snd (fs ! j)))"
  shows "\<exists>v1 w1 w2. fs_main (vsrv w) = Some v1 \<and> open_user path mode (w\<lparr>vsrv := v1\<rparr>) = Some (Inr (int f), w1)
    \<and> file_read (INDEX2FD (int f)) buf n offset w1 = Some (int (length got), w2)
    \<and> (\<forall>x < length got. peek (buf + word_of_nat x) w2 = got ! x)"
proof -
  let ?d = "fdisk (sfs (vsrv w))" and ?L = "dir_blocks (length fs)" and ?nb = "nblocks_of (snd (fs ! j))"
  let ?U = "{3..<3 + ?L + room_for fs}"
  have j: "j < length fs" using assms(8) by (simp add: names_file_def)
  have im: "disk_image (map named fs) ?L ?U ?d" "disk_nblocks ?d = NBLOCK"
    using fsformat_disk_image [OF assms(1-4)] assms(5) by auto
  then have "disk_nbitmap ?d = 1" by (simp add: disk_nbitmap_def img_defs)
  then have fr: "fresh_server (disk_nbitmap ?d + 3 + (0 + 2 * ?nb + 2 * ?L + 1)) (sfs (vsrv w))"
    using assms(6) by (simp add: algebra_simps)
  obtain v1 where v1: "fs_main (vsrv w) = Some v1" "serves (map named fs) ?L ?U ?d (sfs v1)"
    "grants (0 + 2 * ?nb + 2 * ?L + 1) (sfs v1)" "srv_wf v1" "next_entry 0 v1" "replies v1 = replies (vsrv w)"
    by (rule fs_main_serves [OF im(1) fr assms(7)])
  let ?w = "w\<lparr>vsrv := v1\<rparr>"
  have nj: "snd (map named fs ! j) = snd (fs ! j)" using j by (simp add: named_def)
  have co: "can_open f ?nb ?w" using assms(10) v1(6) by (simp add: can_open_def)
  obtain w1 where w1: "open_user path mode ?w = Some (Inr (int f), w1)" "shows_file f (snd (fs ! j)) w1"
    "\<forall>q. cmap w q \<noteq> None \<longrightarrow> cmap w1 q = cmap w q"
    using open_user_shows [of "map named fs" ?L ?U ?d ?w 0 path j f 0 mode] v1 assms(8,9) co unfolding nj by auto
  have ob: "own_buffer buf (unat n) w1" by (rule own_buffer_kept [OF assms(11) w1(3)])
  have "length got \<le> unat n" by (simp add: got_def)
  then show ?thesis
    using v1(1) w1(1) file_read_shows [OF w1(2) assms(12) ob, folded got_def] own_buffer_pokes(2) [OF own_buffer_le [OF ob]]
    by blast
qed

section \<open>Witness\<close>

definition demo_client :: "mem \<Rightarrow> world" where
  "demo_client d = \<lparr>vsrv = boot_srv\<lparr>sfs := \<lparr>fmem = (\<lambda>_. 0), fperm = (\<lambda>_. None), fdisk = d, fgrants = replicate 9 True,
       super = 0, bitmap = 0\<rparr>\<rparr>,
     cmap = [0x400 \<mapsto> (Own, PTE_D)], cown = (\<lambda>_. 0), cseen = 0, cid = 0x800\<rparr>"

text \<open>One file of two bytes: the client asks for eight bytes from position 1 on and gets the last one.\<close>

theorem image_file_read_witness:
  "\<exists>d v1 w1 w2. fsformat [([47, 97], HFile [104, 105])] = Some d \<and> fs_main (vsrv (demo_client d)) = Some v1
     \<and> open_user [47, 97] 0 ((demo_client d)\<lparr>vsrv := v1\<rparr>) = Some (Inr 0, w1)
     \<and> file_read (INDEX2FD 0) 0x400000 8 1 w1 = Some (1, w2) \<and> peek 0x400000 w2 = 105"
proof -
  let ?fs = "[([47, 97], [104, 105])] :: (u8 list \<times> u8 list) list"
  have nb: "nblocks_of (snd (?fs ! 0)) = 1" by (simp add: nblocks_of_def fs_defs)
  have r: "room_for ?fs = 1" "dir_blocks (length ?fs) = 1"
    using nb by (simp_all add: room_for_def taken_blocks_def dir_blocks_def fs_defs)
  have a: "after_slash [47, 97] = [97]" by (simp add: after_slash_def)
  have fit: "?fs \<noteq> []" "\<forall>f \<in> set ?fs. name_ok (after_slash (fst f))" "length ?fs \<le> NDIRECT * FILE2BLK"
    "3 + dir_blocks (length ?fs) + room_for ?fs \<le> NBLOCK"
    unfolding r by (simp_all add: a name_ok_def img_defs)
  obtain d where d: "fsformat (map (\<lambda>f. (fst f, HFile (snd f))) ?fs) = Some d"
    using fsformat_disk_image [OF fit] by blast
  let ?w = "demo_client d"
  have dd: "fsformat (map (\<lambda>f. (fst f, HFile (snd f))) ?fs) = Some (fdisk (sfs (vsrv ?w)))"
    using d by (simp add: demo_client_def)
  have fr: "fresh_server (5 + 2 * dir_blocks (length ?fs) + 2 * nblocks_of (snd (?fs ! 0))) (sfs (vsrv ?w))"
    unfolding r nb by (simp add: fresh_server_def demo_client_def)
  have ff: "fperm (sfs (vsrv ?w)) (ff_page 0) = None" by (simp add: demo_client_def)
  have nm: "names_file [47, 97] (map named ?fs) 0" by (simp add: names_file_def named_def a path_elems_def)
  have co: "can_open 0 (nblocks_of (snd (?fs ! 0))) ?w"
    unfolding nb by (simp add: can_open_def demo_client_def MAXFD_def boot_srv_def serve_init_def)
  have ob: "own_buffer 0x400000 (unat (8 :: u32)) ?w"
  proof -
    have "VPN (0x400000 + word_of_nat x) = 0x400" if "x < 8" for x
    proof -
      have "unat (0x400000 + word_of_nat x :: u32) = 0x400000 + x" using that by (simp add: unat_word_ariths unat_of_nat)
      then show ?thesis using that by (simp add: VPN_div)
    qed
    then show ?thesis by (simp add: own_buffer_def own_bytes_def writable_def demo_client_def PTE_D_def)
  qed
  have "length [47, 97 :: u8] < MAXPATHLEN" "unat (1 :: u32) + unat (8 :: u32) < 2 ^ 32" by (simp_all add: MAXPATHLEN_def)
  from image_file_read [OF fit dd fr ff nm this(1) co ob this(2), where mode = 0] d
  show ?thesis by fastforce
qed

end
