(* ===== verification/Ide.thy ===== *)
theory Ide
  imports FsBlock
begin

text \<open>
  The disk driver of the file system server (\<^verbatim>\<open>fs/ide.c\<close>). The device behind
  \<^verbatim>\<open>syscall_write_dev\<close> and \<^verbatim>\<open>syscall_read_dev\<close> is not part of the program: it is a pair of
  parameters on a device state \<open>'d\<close>. What the driver relies on is \<open>disk_device\<close>, the register
  protocol that \<^verbatim>\<open>include/drivers/dev_disk.h\<close> names; the driver is then shown to transfer
  exactly the blocks that the block cache of \<open>FsBlock\<close> asks for. A device error is a panic,
  \<open>None\<close>. The sector loop counts in 32-bit words.
\<close>

section \<open>The driver\<close>

type_synonym 'd write_dev = "u32 \<Rightarrow> u8 list \<Rightarrow> 'd \<Rightarrow> (kerr + unit) \<times> 'd"
type_synonym 'd read_dev = "u32 \<Rightarrow> nat \<Rightarrow> 'd \<Rightarrow> (kerr + u8 list) \<times> 'd"

definition BY2SECT :: u32 where "BY2SECT = 512"
definition SECT2BLK :: u32 where "SECT2BLK = 8"
definition DEV_DISK_ADDRESS :: u32 where "DEV_DISK_ADDRESS = 0x13000000"
definition DEV_DISK_OFFSET :: u32 where "DEV_DISK_OFFSET = 0x0000"
definition DEV_DISK_ID :: u32 where "DEV_DISK_ID = 0x0010"
definition DEV_DISK_START_OPERATION :: u32 where "DEV_DISK_START_OPERATION = 0x0020"
definition DEV_DISK_STATUS :: u32 where "DEV_DISK_STATUS = 0x0030"
definition DEV_DISK_BUFFER :: u32 where "DEV_DISK_BUFFER = 0x4000"
definition DEV_DISK_OPERATION_READ :: u32 where "DEV_DISK_OPERATION_READ = 0"
definition DEV_DISK_OPERATION_WRITE :: u32 where "DEV_DISK_OPERATION_WRITE = 1"

definition word_list :: "u32 \<Rightarrow> u8 list" where
  "word_list w = [get_byte w 0, get_byte w 1, get_byte w 2, get_byte w 3]"

definition list_word :: "u8 list \<Rightarrow> u32" where
  "list_word bs = word_of_bytes (bs ! 0) (bs ! 1) (bs ! 2) (bs ! 3)"

definition load_bytes :: "nat \<Rightarrow> nat \<Rightarrow> mem \<Rightarrow> u8 list" where
  "load_bytes a n m = map (\<lambda>i. m (a + i)) [0..<n]"

definition store_bytes :: "nat \<Rightarrow> u8 list \<Rightarrow> mem \<Rightarrow> mem" where
  "store_bytes a bs m = (\<lambda>x. if a \<le> x \<and> x < a + length bs then bs ! (x - a) else m x)"

text \<open>\<^verbatim>\<open>panic_on\<close> of a device call.\<close>

definition must :: "(kerr + 'a) \<times> 'd \<Rightarrow> ('a \<times> 'd) option" where
  "must r = (case r of (Inl e, d) \<Rightarrow> None | (Inr x, d) \<Rightarrow> Some (x, d))"

text \<open>One sector: the body of each loop.\<close>

definition read_sector ::
  "'d write_dev \<Rightarrow> 'd read_dev \<Rightarrow> u32 \<Rightarrow> u32 \<Rightarrow> nat \<Rightarrow> mem \<Rightarrow> 'd \<Rightarrow> (mem \<times> 'd) option" where
  "read_sector wr rd diskno dev_offset dst m d = do {
     (_, d1) \<leftarrow> must (wr (DEV_DISK_ADDRESS + DEV_DISK_ID) (word_list diskno) d);
     (_, d2) \<leftarrow> must (wr (DEV_DISK_ADDRESS + DEV_DISK_OFFSET) (word_list dev_offset) d1);
     (_, d3) \<leftarrow> must (wr (DEV_DISK_ADDRESS + DEV_DISK_START_OPERATION) (word_list DEV_DISK_OPERATION_READ) d2);
     (ret, d4) \<leftarrow> must (rd (DEV_DISK_ADDRESS + DEV_DISK_STATUS) 4 d3);
     if list_word ret = 0 then None
     else do {
       (bs, d5) \<leftarrow> must (rd (DEV_DISK_ADDRESS + DEV_DISK_BUFFER) 512 d4);
       Some (store_bytes dst bs m, d5)
     }
   }"

definition write_sector ::
  "'d write_dev \<Rightarrow> 'd read_dev \<Rightarrow> u32 \<Rightarrow> u32 \<Rightarrow> nat \<Rightarrow> mem \<Rightarrow> 'd \<Rightarrow> 'd option" where
  "write_sector wr rd diskno dev_offset src m d = do {
     (_, d1) \<leftarrow> must (wr (DEV_DISK_ADDRESS + DEV_DISK_ID) (word_list diskno) d);
     (_, d2) \<leftarrow> must (wr (DEV_DISK_ADDRESS + DEV_DISK_OFFSET) (word_list dev_offset) d1);
     (_, d3) \<leftarrow> must (wr (DEV_DISK_ADDRESS + DEV_DISK_BUFFER) (load_bytes src 512 m) d2);
     (_, d4) \<leftarrow> must (wr (DEV_DISK_ADDRESS + DEV_DISK_START_OPERATION) (word_list DEV_DISK_OPERATION_WRITE) d3);
     (ret, d5) \<leftarrow> must (rd (DEV_DISK_ADDRESS + DEV_DISK_STATUS) 4 d4);
     if list_word ret = 0 then None else Some d5
   }"

partial_function (option) ide_read_loop ::
  "'d write_dev \<Rightarrow> 'd read_dev \<Rightarrow> u32 \<Rightarrow> u32 \<Rightarrow> u32 \<Rightarrow> nat \<Rightarrow> u32 \<Rightarrow> mem \<Rightarrow> 'd \<Rightarrow> (mem \<times> 'd) option"
where
  "ide_read_loop wr rd diskno start stop dst offset m d =
     (if start + offset < stop then
        Option.bind (read_sector wr rd diskno (start + offset) (dst + unat offset) m d)
          (\<lambda>(m1, d1). ide_read_loop wr rd diskno start stop dst (offset + BY2SECT) m1 d1)
      else Some (m, d))"

partial_function (option) ide_write_loop ::
  "'d write_dev \<Rightarrow> 'd read_dev \<Rightarrow> u32 \<Rightarrow> u32 \<Rightarrow> u32 \<Rightarrow> nat \<Rightarrow> u32 \<Rightarrow> mem \<Rightarrow> 'd \<Rightarrow> 'd option"
where
  "ide_write_loop wr rd diskno start stop src offset m d =
     (if start + offset < stop then
        Option.bind (write_sector wr rd diskno (start + offset) (src + unat offset) m d)
          (\<lambda>d1. ide_write_loop wr rd diskno start stop src (offset + BY2SECT) m d1)
      else Some d)"

definition ide_read ::
  "'d write_dev \<Rightarrow> 'd read_dev \<Rightarrow> u32 \<Rightarrow> u32 \<Rightarrow> nat \<Rightarrow> u32 \<Rightarrow> mem \<Rightarrow> 'd \<Rightarrow> (mem \<times> 'd) option"
where
  "ide_read wr rd diskno secno dst nsecs m d =
     (let start = secno * BY2SECT; stop = start + nsecs * BY2SECT
      in ide_read_loop wr rd diskno start stop dst 0 m d)"

definition ide_write ::
  "'d write_dev \<Rightarrow> 'd read_dev \<Rightarrow> u32 \<Rightarrow> u32 \<Rightarrow> nat \<Rightarrow> u32 \<Rightarrow> mem \<Rightarrow> 'd \<Rightarrow> 'd option"
where
  "ide_write wr rd diskno secno src nsecs m d =
     (let start = secno * BY2SECT; stop = start + nsecs * BY2SECT
      in ide_write_loop wr rd diskno start stop src 0 m d)"

section \<open>The device\<close>

record dregs =
  d_id :: u32
  d_off :: u32
  d_status :: u32
  d_buf :: "u8 list"
  d_data :: "u32 \<Rightarrow> nat \<Rightarrow> u8"

definition sector_at :: "(nat \<Rightarrow> u8) \<Rightarrow> nat \<Rightarrow> u8 list" where
  "sector_at m off = map (\<lambda>i. m (off + i)) [0..<512]"

definition put_sector :: "nat \<Rightarrow> u8 list \<Rightarrow> (nat \<Rightarrow> u8) \<Rightarrow> nat \<Rightarrow> u8" where
  "put_sector off bs m = (\<lambda>x. if off \<le> x \<and> x < off + 512 then bs ! (x - off) else m x)"

text \<open>The protocol: the registers keep what is written; an operation on a disk of \<open>cap\<close> bytes
  succeeds with a nonzero status; reading fills the buffer, writing stores it.\<close>

definition disk_device ::
  "'d write_dev \<Rightarrow> 'd read_dev \<Rightarrow> ('d \<Rightarrow> dregs) \<Rightarrow> (u32 \<Rightarrow> nat) \<Rightarrow> bool" where
  "disk_device wr rd regs cap \<longleftrightarrow>
     (\<forall>w d. \<exists>d'. wr (DEV_DISK_ADDRESS + DEV_DISK_ID) (word_list w) d = (Inr (), d')
        \<and> regs d' = (regs d)\<lparr>d_id := w\<rparr>)
   \<and> (\<forall>w d. \<exists>d'. wr (DEV_DISK_ADDRESS + DEV_DISK_OFFSET) (word_list w) d = (Inr (), d')
        \<and> regs d' = (regs d)\<lparr>d_off := w\<rparr>)
   \<and> (\<forall>bs d. length bs = 512 \<longrightarrow>
        (\<exists>d'. wr (DEV_DISK_ADDRESS + DEV_DISK_BUFFER) bs d = (Inr (), d') \<and> regs d' = (regs d)\<lparr>d_buf := bs\<rparr>))
   \<and> (\<forall>d. unat (d_off (regs d)) + 512 \<le> cap (d_id (regs d)) \<longrightarrow>
        (\<exists>d' c. wr (DEV_DISK_ADDRESS + DEV_DISK_START_OPERATION) (word_list DEV_DISK_OPERATION_READ) d = (Inr (), d')
           \<and> c \<noteq> 0 \<and> regs d' = (regs d)\<lparr>d_status := c,
               d_buf := sector_at (d_data (regs d) (d_id (regs d))) (unat (d_off (regs d)))\<rparr>))
   \<and> (\<forall>d. unat (d_off (regs d)) + 512 \<le> cap (d_id (regs d)) \<longrightarrow>
        (\<exists>d' c. wr (DEV_DISK_ADDRESS + DEV_DISK_START_OPERATION) (word_list DEV_DISK_OPERATION_WRITE) d = (Inr (), d')
           \<and> c \<noteq> 0 \<and> regs d' = (regs d)\<lparr>d_status := c,
               d_data := (d_data (regs d))(d_id (regs d) :=
                  put_sector (unat (d_off (regs d))) (d_buf (regs d)) (d_data (regs d) (d_id (regs d))))\<rparr>))
   \<and> (\<forall>d. \<exists>d'. rd (DEV_DISK_ADDRESS + DEV_DISK_STATUS) 4 d = (Inr (word_list (d_status (regs d))), d')
        \<and> regs d' = regs d)
   \<and> (\<forall>d. \<exists>d'. rd (DEV_DISK_ADDRESS + DEV_DISK_BUFFER) 512 d = (Inr (d_buf (regs d)), d')
        \<and> regs d' = regs d)"

section \<open>One sector\<close>

lemma list_word_list [simp]: "list_word (word_list w) = w"
  using word_of_bytes_get_byte [of w] by (simp add: list_word_def word_list_def)

lemma must_Inr [simp]: "must (Inr x, d) = Some (x, d)"
  by (simp add: must_def)

lemma disk_deviceD:
  assumes "disk_device wr rd regs cap"
  shows "\<exists>d'. wr (DEV_DISK_ADDRESS + DEV_DISK_ID) (word_list w) d = (Inr (), d')
        \<and> regs d' = (regs d)\<lparr>d_id := w\<rparr>"
    and "\<exists>d'. wr (DEV_DISK_ADDRESS + DEV_DISK_OFFSET) (word_list w) d = (Inr (), d')
        \<and> regs d' = (regs d)\<lparr>d_off := w\<rparr>"
    and "length bs = 512 \<Longrightarrow>
        \<exists>d'. wr (DEV_DISK_ADDRESS + DEV_DISK_BUFFER) bs d = (Inr (), d') \<and> regs d' = (regs d)\<lparr>d_buf := bs\<rparr>"
    and "unat (d_off (regs d)) + 512 \<le> cap (d_id (regs d)) \<Longrightarrow>
        \<exists>d' c. wr (DEV_DISK_ADDRESS + DEV_DISK_START_OPERATION) (word_list DEV_DISK_OPERATION_READ) d = (Inr (), d')
           \<and> c \<noteq> 0 \<and> regs d' = (regs d)\<lparr>d_status := c,
               d_buf := sector_at (d_data (regs d) (d_id (regs d))) (unat (d_off (regs d)))\<rparr>"
    and "unat (d_off (regs d)) + 512 \<le> cap (d_id (regs d)) \<Longrightarrow>
        \<exists>d' c. wr (DEV_DISK_ADDRESS + DEV_DISK_START_OPERATION) (word_list DEV_DISK_OPERATION_WRITE) d = (Inr (), d')
           \<and> c \<noteq> 0 \<and> regs d' = (regs d)\<lparr>d_status := c,
               d_data := (d_data (regs d))(d_id (regs d) :=
                  put_sector (unat (d_off (regs d))) (d_buf (regs d)) (d_data (regs d) (d_id (regs d))))\<rparr>"
    and "\<exists>d'. rd (DEV_DISK_ADDRESS + DEV_DISK_STATUS) 4 d = (Inr (word_list (d_status (regs d))), d')
        \<and> regs d' = regs d"
    and "\<exists>d'. rd (DEV_DISK_ADDRESS + DEV_DISK_BUFFER) 512 d = (Inr (d_buf (regs d)), d')
        \<and> regs d' = regs d"
  using assms unfolding disk_device_def by blast+

lemma read_sector_ok:
  assumes "disk_device wr rd regs cap" and "unat off + 512 \<le> cap diskno"
  shows "\<exists>d'. read_sector wr rd diskno off dst m d
      = Some (store_bytes dst (sector_at (d_data (regs d) diskno) (unat off)) m, d')
    \<and> d_data (regs d') = d_data (regs d)"
proof -
  note D = disk_deviceD [OF assms(1)]
  obtain d1 where d1: "wr (DEV_DISK_ADDRESS + DEV_DISK_ID) (word_list diskno) d = (Inr (), d1)"
    "regs d1 = (regs d)\<lparr>d_id := diskno\<rparr>" using D(1) by blast
  obtain d2 where d2: "wr (DEV_DISK_ADDRESS + DEV_DISK_OFFSET) (word_list off) d1 = (Inr (), d2)"
    "regs d2 = (regs d1)\<lparr>d_off := off\<rparr>" using D(2) by blast
  obtain d3 c where d3: "wr (DEV_DISK_ADDRESS + DEV_DISK_START_OPERATION) (word_list DEV_DISK_OPERATION_READ) d2 = (Inr (), d3)"
    "c \<noteq> 0" "regs d3 = (regs d2)\<lparr>d_status := c,
       d_buf := sector_at (d_data (regs d2) (d_id (regs d2))) (unat (d_off (regs d2)))\<rparr>"
    using D(4) [of d2] assms(2) d1(2) d2(2) by auto
  obtain d4 where d4: "rd (DEV_DISK_ADDRESS + DEV_DISK_STATUS) 4 d3 = (Inr (word_list (d_status (regs d3))), d4)"
    "regs d4 = regs d3" using D(6) by blast
  obtain d5 where d5: "rd (DEV_DISK_ADDRESS + DEV_DISK_BUFFER) 512 d4 = (Inr (d_buf (regs d4)), d5)"
    "regs d5 = regs d4" using D(7) by blast
  show ?thesis
    using d1 d2 d3 d4 d5 by (intro exI [of _ d5]) (simp add: read_sector_def)
qed

lemma write_sector_ok:
  assumes "disk_device wr rd regs cap" and "unat off + 512 \<le> cap diskno"
  shows "\<exists>d'. write_sector wr rd diskno off src m d = Some d'
    \<and> d_data (regs d') = (d_data (regs d))(diskno :=
        put_sector (unat off) (load_bytes src 512 m) (d_data (regs d) diskno))"
proof -
  note D = disk_deviceD [OF assms(1)]
  have len: "length (load_bytes src 512 m) = 512" by (simp add: load_bytes_def)
  obtain d1 where d1: "wr (DEV_DISK_ADDRESS + DEV_DISK_ID) (word_list diskno) d = (Inr (), d1)"
    "regs d1 = (regs d)\<lparr>d_id := diskno\<rparr>" using D(1) by blast
  obtain d2 where d2: "wr (DEV_DISK_ADDRESS + DEV_DISK_OFFSET) (word_list off) d1 = (Inr (), d2)"
    "regs d2 = (regs d1)\<lparr>d_off := off\<rparr>" using D(2) by blast
  obtain d3 where d3: "wr (DEV_DISK_ADDRESS + DEV_DISK_BUFFER) (load_bytes src 512 m) d2 = (Inr (), d3)"
    "regs d3 = (regs d2)\<lparr>d_buf := load_bytes src 512 m\<rparr>" using D(3) [OF len] by blast
  obtain d4 c where d4: "wr (DEV_DISK_ADDRESS + DEV_DISK_START_OPERATION) (word_list DEV_DISK_OPERATION_WRITE) d3 = (Inr (), d4)"
    "c \<noteq> 0" "regs d4 = (regs d3)\<lparr>d_status := c,
               d_data := (d_data (regs d3))(d_id (regs d3) :=
                  put_sector (unat (d_off (regs d3))) (d_buf (regs d3)) (d_data (regs d3) (d_id (regs d3))))\<rparr>"
    using D(5) [of d3] assms(2) d1(2) d2(2) d3(2) by auto
  obtain d5 where d5: "rd (DEV_DISK_ADDRESS + DEV_DISK_STATUS) 4 d4 = (Inr (word_list (d_status (regs d4))), d5)"
    "regs d5 = regs d4" using D(6) by blast
  show ?thesis
    using d1 d2 d3 d4 d5 by (intro exI [of _ d5]) (simp add: write_sector_def)
qed

section \<open>The sector loops\<close>

lemma off_facts:
  assumes "k \<le> n" and "(s + n) * 512 < 2 ^ 32"
  shows "word_of_nat (512 * s) + word_of_nat (512 * k) = (word_of_nat (512 * (s + k)) :: u32)"
    and "(word_of_nat (512 * s) + word_of_nat (512 * k) :: u32) < word_of_nat (512 * (s + n)) \<longleftrightarrow> k < n"
    and "word_of_nat (512 * k) + BY2SECT = (word_of_nat (512 * Suc k) :: u32)"
    and "unat (word_of_nat (512 * (s + k)) :: u32) = 512 * (s + k)"
    and "unat (word_of_nat (512 * k) :: u32) = 512 * k"
proof -
  show a: "word_of_nat (512 * s) + word_of_nat (512 * k) = (word_of_nat (512 * (s + k)) :: u32)"
    by (simp add: algebra_simps)
  have u: "unat (word_of_nat (512 * j) :: u32) = 512 * j" if "j \<le> s + n" for j
    using that assms(2) by (simp only: unat_of_nat) simp
  show "unat (word_of_nat (512 * (s + k)) :: u32) = 512 * (s + k)" by (rule u) (use assms(1) in simp)
  show "unat (word_of_nat (512 * k) :: u32) = 512 * k" by (rule u) (use assms(1) in simp)
  show "(word_of_nat (512 * s) + word_of_nat (512 * k) :: u32) < word_of_nat (512 * (s + n)) \<longleftrightarrow> k < n"
    using u [of "s + k"] u [of "s + n"] assms(1) by (simp only: a word_less_nat_alt) simp
  show "word_of_nat (512 * k) + BY2SECT = (word_of_nat (512 * Suc k) :: u32)"
    by (simp add: BY2SECT_def)
qed

lemma ide_read_loop_ok:
  assumes "disk_device wr rd regs cap" and "(s + n) * 512 < 2 ^ 32" and "(s + n) * 512 \<le> cap diskno"
    and "k \<le> n"
  shows "\<exists>d'. ide_read_loop wr rd diskno (word_of_nat (512 * s)) (word_of_nat (512 * (s + n))) dst
        (word_of_nat (512 * k)) m d
      = Some (\<lambda>a. if dst + 512 * k \<le> a \<and> a < dst + 512 * n
                  then d_data (regs d) diskno (512 * s + (a - dst)) else m a, d')
    \<and> d_data (regs d') = d_data (regs d)"
  using assms(4)
proof (induction "n - k" arbitrary: k m d)
  case 0
  then have "k = n" by simp
  then show ?case
    using off_facts(2) [OF 0(2) assms(2)] by (subst ide_read_loop.simps) (auto simp: fun_eq_iff)
next
  case (Suc j)
  then have k: "k < n" and j: "j = n - Suc k" "Suc k \<le> n" by simp_all
  note o = off_facts [OF Suc(3) assms(2)]
  define m1 where "m1 = store_bytes (dst + 512 * k) (sector_at (d_data (regs d) diskno) (512 * (s + k))) m"
  have "unat (word_of_nat (512 * (s + k)) :: u32) + 512 \<le> cap diskno"
    using k assms(3) by (simp only: o(4)) simp
  from read_sector_ok [OF assms(1) this] obtain d1 where
    d1: "read_sector wr rd diskno (word_of_nat (512 * (s + k))) (dst + 512 * k) m d = Some (m1, d1)"
    "d_data (regs d1) = d_data (regs d)"
    unfolding o(4) m1_def by blast
  obtain d' where d': "ide_read_loop wr rd diskno (word_of_nat (512 * s)) (word_of_nat (512 * (s + n))) dst
        (word_of_nat (512 * Suc k)) m1 d1
      = Some (\<lambda>a. if dst + 512 * Suc k \<le> a \<and> a < dst + 512 * n
                  then d_data (regs d1) diskno (512 * s + (a - dst)) else m1 a, d')"
    "d_data (regs d') = d_data (regs d1)"
    using Suc(1) [OF j, of m1 d1] by blast
  have "(\<lambda>a. if dst + 512 * Suc k \<le> a \<and> a < dst + 512 * n
             then d_data (regs d1) diskno (512 * s + (a - dst)) else m1 a)
      = (\<lambda>a. if dst + 512 * k \<le> a \<and> a < dst + 512 * n
             then d_data (regs d) diskno (512 * s + (a - dst)) else m a)"
  proof
    fix a
    have "512 * (s + k) + (a - (dst + 512 * k)) = 512 * s + (a - dst)" if "dst + 512 * k \<le> a"
      using that by simp
    then show "(if dst + 512 * Suc k \<le> a \<and> a < dst + 512 * n
             then d_data (regs d1) diskno (512 * s + (a - dst)) else m1 a)
      = (if dst + 512 * k \<le> a \<and> a < dst + 512 * n
             then d_data (regs d) diskno (512 * s + (a - dst)) else m a)"
      using k by (auto simp: m1_def store_bytes_def sector_at_def d1(2))
  qed
  then show ?case
    using d' d1 k
    by (subst ide_read_loop.simps)
      (simp only: o(2) [unfolded o(1)] o(1) o(3) o(5) if_True bind.bind_lunit prod.case, blast)
qed

lemma ide_write_loop_ok:
  assumes "disk_device wr rd regs cap" and "(s + n) * 512 < 2 ^ 32" and "(s + n) * 512 \<le> cap diskno"
    and "k \<le> n"
  shows "\<exists>d'. ide_write_loop wr rd diskno (word_of_nat (512 * s)) (word_of_nat (512 * (s + n))) src
        (word_of_nat (512 * k)) m d = Some d'
    \<and> d_data (regs d') = (d_data (regs d))(diskno :=
        (\<lambda>x. if 512 * (s + k) \<le> x \<and> x < 512 * (s + n) then m (src + (x - 512 * s))
             else d_data (regs d) diskno x))"
  using assms(4)
proof (induction "n - k" arbitrary: k d)
  case 0
  then have "k = n" by simp
  then show ?case
    using off_facts(2) [OF 0(2) assms(2)] by (subst ide_write_loop.simps) (auto simp: fun_eq_iff)
next
  case (Suc j)
  then have k: "k < n" and j: "j = n - Suc k" "Suc k \<le> n" by simp_all
  note o = off_facts [OF Suc(3) assms(2)]
  have "unat (word_of_nat (512 * (s + k)) :: u32) + 512 \<le> cap diskno"
    using k assms(3) by (simp only: o(4)) simp
  from write_sector_ok [OF assms(1) this] obtain d1 where
    d1: "write_sector wr rd diskno (word_of_nat (512 * (s + k))) (src + 512 * k) m d = Some d1"
    "d_data (regs d1) = (d_data (regs d))(diskno :=
        put_sector (512 * (s + k)) (load_bytes (src + 512 * k) 512 m) (d_data (regs d) diskno))"
    unfolding o(4) by blast
  obtain d' where d': "ide_write_loop wr rd diskno (word_of_nat (512 * s)) (word_of_nat (512 * (s + n))) src
        (word_of_nat (512 * Suc k)) m d1 = Some d'"
    "d_data (regs d') = (d_data (regs d1))(diskno :=
        (\<lambda>x. if 512 * (s + Suc k) \<le> x \<and> x < 512 * (s + n) then m (src + (x - 512 * s))
             else d_data (regs d1) diskno x))"
    using Suc(1) [OF j, of d1] by blast
  have "d_data (regs d') = (d_data (regs d))(diskno :=
        (\<lambda>x. if 512 * (s + k) \<le> x \<and> x < 512 * (s + n) then m (src + (x - 512 * s))
             else d_data (regs d) diskno x))"
    unfolding d' d1
  proof (intro ext)
    fix e x
    have "src + 512 * k + (x - 512 * (s + k)) = src + (x - 512 * s)" if "512 * (s + k) \<le> x"
      using that by simp
    then show "((d_data (regs d))(diskno :=
        put_sector (512 * (s + k)) (load_bytes (src + 512 * k) 512 m) (d_data (regs d) diskno),
        diskno := (\<lambda>x. if 512 * (s + Suc k) \<le> x \<and> x < 512 * (s + n) then m (src + (x - 512 * s))
             else ((d_data (regs d))(diskno := put_sector (512 * (s + k))
               (load_bytes (src + 512 * k) 512 m) (d_data (regs d) diskno))) diskno x))) e x
      = ((d_data (regs d))(diskno :=
        (\<lambda>x. if 512 * (s + k) \<le> x \<and> x < 512 * (s + n) then m (src + (x - 512 * s))
             else d_data (regs d) diskno x))) e x"
      using k by (auto simp: put_sector_def load_bytes_def)
  qed
  then show ?case
    using d' d1(1) k
    by (subst ide_write_loop.simps)
      (simp only: o(2) [unfolded o(1)] o(1) o(3) o(5) if_True bind.bind_lunit, blast)
qed

text \<open>C22: The driver implements the block transfers of the cache. On a device that follows the
  register protocol and holds all blocks of the largest disk, \<^verbatim>\<open>ide_read\<close> and \<^verbatim>\<open>ide_write\<close>
  with the arguments of \<^verbatim>\<open>read_block\<close> and \<^verbatim>\<open>write_block\<close> end, and have exactly the effect of
  \<open>disk_read\<close> and \<open>disk_write\<close>: 4096 bytes at the block's place, and nothing else.\<close>

theorem ide_refines_block_io:
  assumes "disk_device wr rd regs cap" and "cap 0 = DISKMAX" and "b < DISKMAX div BY2BLK"
    and "d_data (regs d) 0 = fdisk s"
  shows "(\<exists>d'. ide_read wr rd 0 (word_of_nat b * SECT2BLK) va SECT2BLK (fmem s) d
            = Some (fmem (disk_read b va s), d') \<and> d_data (regs d') 0 = fdisk (disk_read b va s))
       \<and> (\<exists>d'. ide_write wr rd 0 (word_of_nat b * SECT2BLK) va SECT2BLK (fmem s) d = Some d'
            \<and> d_data (regs d') 0 = fdisk (disk_write b va s))"
proof -
  have b: "(8 * b + 8) * 512 < 2 ^ 32" "(8 * b + 8) * 512 \<le> cap 0"
    using assms(2,3) by (simp_all add: fs_defs)
  have start: "word_of_nat b * SECT2BLK * BY2SECT = (word_of_nat (512 * (8 * b)) :: u32)"
    by (simp add: SECT2BLK_def BY2SECT_def)
  have stop: "word_of_nat (512 * (8 * b)) + SECT2BLK * BY2SECT = (word_of_nat (512 * (8 * b + 8)) :: u32)"
    by (simp add: SECT2BLK_def BY2SECT_def algebra_simps)
  obtain d1 where d1: "ide_read_loop wr rd 0 (word_of_nat (512 * (8 * b))) (word_of_nat (512 * (8 * b + 8))) va
        (word_of_nat (512 * 0)) (fmem s) d
      = Some (\<lambda>a. if va + 512 * 0 \<le> a \<and> a < va + 512 * 8
                  then d_data (regs d) 0 (512 * (8 * b) + (a - va)) else fmem s a, d1)"
    "d_data (regs d1) = d_data (regs d)"
    using ide_read_loop_ok [OF assms(1) b, of 0 va "fmem s" d] by blast
  obtain d2 where d2: "ide_write_loop wr rd 0 (word_of_nat (512 * (8 * b))) (word_of_nat (512 * (8 * b + 8))) va
        (word_of_nat (512 * 0)) (fmem s) d = Some d2"
    "d_data (regs d2) = (d_data (regs d))(0 :=
        (\<lambda>x. if 512 * (8 * b + 0) \<le> x \<and> x < 512 * (8 * b + 8) then fmem s (va + (x - 512 * (8 * b)))
             else d_data (regs d) 0 x))"
    using ide_write_loop_ok [OF assms(1) b, of 0 va "fmem s" d] by blast
  have "ide_read wr rd 0 (word_of_nat b * SECT2BLK) va SECT2BLK (fmem s) d
      = Some (fmem (disk_read b va s), d1)"
    using d1(1) by (simp only: ide_read_def Let_def start stop mult_0_right semiring_1_class.of_nat_0)
      (auto simp: disk_read_def assms(4) fs_defs mult.commute)
  moreover have "ide_write wr rd 0 (word_of_nat b * SECT2BLK) va SECT2BLK (fmem s) d = Some d2"
    using d2(1) by (simp only: ide_write_def Let_def start stop mult_0_right semiring_1_class.of_nat_0)
  moreover have "d_data (regs d1) 0 = fdisk (disk_read b va s)"
    using d1(2) assms(4) by (simp add: disk_read_def)
  moreover have "d_data (regs d2) 0 = fdisk (disk_write b va s)"
    using d2(2) assms(4) by (auto simp: disk_write_def fs_defs algebra_simps fun_eq_iff)
  ultimately show ?thesis by blast
qed

text \<open>A device that follows the protocol: its state is the registers.\<close>

definition toy_write :: "(u32 \<Rightarrow> nat) \<Rightarrow> dregs write_dev" where
  "toy_write cap a bs d =
     (if a = DEV_DISK_ADDRESS + DEV_DISK_ID then (Inr (), d\<lparr>d_id := list_word bs\<rparr>)
      else if a = DEV_DISK_ADDRESS + DEV_DISK_OFFSET then (Inr (), d\<lparr>d_off := list_word bs\<rparr>)
      else if a = DEV_DISK_ADDRESS + DEV_DISK_BUFFER then (Inr (), d\<lparr>d_buf := bs\<rparr>)
      else if a = DEV_DISK_ADDRESS + DEV_DISK_START_OPERATION then
        (if cap (d_id d) < unat (d_off d) + 512 then (Inr (), d\<lparr>d_status := 0\<rparr>)
         else if list_word bs = DEV_DISK_OPERATION_READ then
           (Inr (), d\<lparr>d_status := 1, d_buf := sector_at (d_data d (d_id d)) (unat (d_off d))\<rparr>)
         else (Inr (), d\<lparr>d_status := 1, d_data := (d_data d)(d_id d :=
                 put_sector (unat (d_off d)) (d_buf d) (d_data d (d_id d)))\<rparr>))
      else (Inl E_INVAL, d))"

definition toy_read :: "dregs read_dev" where
  "toy_read a n d =
     (if a = DEV_DISK_ADDRESS + DEV_DISK_STATUS then (Inr (word_list (d_status d)), d)
      else if a = DEV_DISK_ADDRESS + DEV_DISK_BUFFER then (Inr (d_buf d), d)
      else (Inl E_INVAL, d))"

lemma toy_device: "disk_device (toy_write cap) toy_read id cap"
  unfolding disk_device_def
  by (simp add: toy_write_def toy_read_def DEV_DISK_ADDRESS_def DEV_DISK_ID_def DEV_DISK_OFFSET_def
      DEV_DISK_BUFFER_def DEV_DISK_START_OPERATION_def DEV_DISK_STATUS_def
      DEV_DISK_OPERATION_READ_def DEV_DISK_OPERATION_WRITE_def) (metis zero_neq_one)

theorem ide_refines_block_io_witness:
  "\<exists>d'. ide_read (toy_write (\<lambda>_. DISKMAX)) toy_read 0 (word_of_nat 4 * SECT2BLK) 0x10004000 SECT2BLK
      (fmem demo_fs) \<lparr>d_id = 0, d_off = 0, d_status = 0, d_buf = [], d_data = (\<lambda>_ _. 0)\<rparr>
    = Some (fmem (disk_read 4 0x10004000 demo_fs), d')"
  using ide_refines_block_io [OF toy_device, where cap = "\<lambda>_. DISKMAX" and b = 4
      and d = "\<lparr>d_id = 0, d_off = 0, d_status = 0, d_buf = [], d_data = (\<lambda>_ _. 0)\<rparr>"
      and s = demo_fs and va = "0x10004000"]
  by (auto simp: demo_fs_def fs_defs)

end
