(* ===== verification/Pipe.thy ===== *)
theory Pipe
  imports Prelude
begin

text \<open>
  Pipes (\<^verbatim>\<open>user/lib/pipe.c\<close>): one reading and one writing process that share the page of
  \<^verbatim>\<open>struct Pipe\<close> and may be preempted between any two statements, so that \<^verbatim>\<open>pipe_read\<close>,
  \<^verbatim>\<open>pipe_write\<close> and \<^verbatim>\<open>pipe_close\<close> are the steps of one transition system. A transfer of a
  byte is two steps, the access to the buffer and the update of the position. The code's
  \<^verbatim>\<open>p_buf[p_rpos++ % BY2PIPE]\<close> leaves their order to the compiler, so the order is a parameter of the
  steps of each side. Reading the two reference counts is one step, since \<^verbatim>\<open>_pipe_is_closed\<close> starts
  again when the process was rescheduled in between. What was put into the pipe and taken from
  it is recorded in \<open>sent\<close> and \<open>recvd\<close>.
\<close>

section \<open>State\<close>

definition BY2PIPE :: nat where "BY2PIPE = 32"

datatype access_order = Access_first | Increment_first

datatype rpc = RIdle | RLoop | RFetched u8 | RTaken u32 | RCheck | RYield | RReturned "u8 list" | RClosing | RClosed
datatype wpc = WIdle | WLoop | WStored | WTaken u32 | WCheck | WYield | WReturned nat | WClosing | WClosed

record psys =
  p_rpos :: u32
  p_wpos :: u32
  p_buf :: "nat \<Rightarrow> u8"
  rfd_ref :: nat
  wfd_ref :: nat
  pipe_ref :: nat
  rpc :: rpc
  rn :: nat
  rgot :: "u8 list"
  wpc :: wpc
  wdata :: "u8 list"
  wdone :: nat
  sent :: "u8 list"
  recvd :: "u8 list"

definition pipe_is_empty :: "psys \<Rightarrow> bool" where
  "pipe_is_empty s \<longleftrightarrow> p_wpos s \<le> p_rpos s"

definition pipe_is_full :: "psys \<Rightarrow> bool" where
  "pipe_is_full s \<longleftrightarrow> word_of_nat BY2PIPE \<le> p_wpos s - p_rpos s"

definition pipe_is_closed :: "nat \<Rightarrow> psys \<Rightarrow> bool" where
  "pipe_is_closed fd_ref s \<longleftrightarrow> fd_ref = pipe_ref s"

text \<open>After \<^verbatim>\<open>pipe\<close> and \<^verbatim>\<open>fork\<close>, with each process keeping one end: the page of the pipe is
  zero, each descriptor page is mapped once and the pipe page twice.\<close>

definition pipe_init :: psys where
  "pipe_init = \<lparr>p_rpos = 0, p_wpos = 0, p_buf = (\<lambda>_. 0), rfd_ref = 1, wfd_ref = 1, pipe_ref = 2,
     rpc = RIdle, rn = 0, rgot = [], wpc = WIdle, wdata = [], wdone = 0, sent = [], recvd = []\<rparr>"

section \<open>Steps\<close>

inductive read_step :: "access_order \<Rightarrow> psys \<Rightarrow> psys \<Rightarrow> bool" for ro where
  read_call: "rpc s = RIdle \<Longrightarrow> read_step ro s (s\<lparr>rpc := RLoop, rn := n, rgot := []\<rparr>)"
| read_fetch: "ro = Access_first \<Longrightarrow> rpc s = RLoop \<Longrightarrow> \<not> pipe_is_empty s \<Longrightarrow> length (rgot s) < rn s \<Longrightarrow>
    read_step ro s (s\<lparr>rpc := RFetched (p_buf s (unat (p_rpos s) mod BY2PIPE))\<rparr>)"
| read_advance: "rpc s = RFetched b \<Longrightarrow>
    read_step ro s (s\<lparr>rpc := RLoop, rgot := rgot s @ [b], p_rpos := p_rpos s + 1, recvd := recvd s @ [b]\<rparr>)"
| read_take: "ro = Increment_first \<Longrightarrow> rpc s = RLoop \<Longrightarrow> \<not> pipe_is_empty s \<Longrightarrow> length (rgot s) < rn s \<Longrightarrow>
    read_step ro s (s\<lparr>rpc := RTaken (p_rpos s), p_rpos := p_rpos s + 1\<rparr>)"
| read_late: "rpc s = RTaken pos \<Longrightarrow> b = p_buf s (unat pos mod BY2PIPE) \<Longrightarrow>
    read_step ro s (s\<lparr>rpc := RLoop, rgot := rgot s @ [b], recvd := recvd s @ [b]\<rparr>)"
| read_exit: "rpc s = RLoop \<Longrightarrow> pipe_is_empty s \<or> rn s \<le> length (rgot s) \<Longrightarrow>
    read_step ro s (s\<lparr>rpc := RCheck\<rparr>)"
| read_return: "rpc s = RCheck \<Longrightarrow> rgot s \<noteq> [] \<or> pipe_is_closed (rfd_ref s) s \<Longrightarrow>
    read_step ro s (s\<lparr>rpc := RReturned (rgot s)\<rparr>)"
| read_wait: "rpc s = RCheck \<Longrightarrow> rgot s = [] \<Longrightarrow> \<not> pipe_is_closed (rfd_ref s) s \<Longrightarrow>
    read_step ro s (s\<lparr>rpc := RYield\<rparr>)"
| read_resume: "rpc s = RYield \<Longrightarrow> read_step ro s (s\<lparr>rpc := RLoop\<rparr>)"
| read_again: "rpc s = RReturned bs \<Longrightarrow> read_step ro s (s\<lparr>rpc := RIdle\<rparr>)"
| read_close_fd: "rpc s = RIdle \<Longrightarrow> read_step ro s (s\<lparr>rpc := RClosing, rfd_ref := rfd_ref s - 1\<rparr>)"
| read_close_page: "rpc s = RClosing \<Longrightarrow> read_step ro s (s\<lparr>rpc := RClosed, pipe_ref := pipe_ref s - 1\<rparr>)"

inductive write_step :: "access_order \<Rightarrow> psys \<Rightarrow> psys \<Rightarrow> bool" for wo where
  write_call: "wpc s = WIdle \<Longrightarrow> write_step wo s (s\<lparr>wpc := WLoop, wdata := bs, wdone := 0\<rparr>)"
| write_store: "wo = Access_first \<Longrightarrow> wpc s = WLoop \<Longrightarrow> \<not> pipe_is_full s \<Longrightarrow> wdone s < length (wdata s) \<Longrightarrow>
    write_step wo s (s\<lparr>wpc := WStored,
      p_buf := (p_buf s)(unat (p_wpos s) mod BY2PIPE := wdata s ! wdone s)\<rparr>)"
| write_advance: "wpc s = WStored \<Longrightarrow>
    write_step wo s (s\<lparr>wpc := WLoop, wdone := wdone s + 1, p_wpos := p_wpos s + 1,
      sent := sent s @ [wdata s ! wdone s]\<rparr>)"
| write_take: "wo = Increment_first \<Longrightarrow> wpc s = WLoop \<Longrightarrow> \<not> pipe_is_full s \<Longrightarrow> wdone s < length (wdata s) \<Longrightarrow>
    write_step wo s (s\<lparr>wpc := WTaken (p_wpos s), p_wpos := p_wpos s + 1, sent := sent s @ [wdata s ! wdone s]\<rparr>)"
| write_late: "wpc s = WTaken pos \<Longrightarrow>
    write_step wo s (s\<lparr>wpc := WLoop, wdone := wdone s + 1,
      p_buf := (p_buf s)(unat pos mod BY2PIPE := wdata s ! wdone s)\<rparr>)"
| write_exit: "wpc s = WLoop \<Longrightarrow> pipe_is_full s \<or> length (wdata s) \<le> wdone s \<Longrightarrow>
    write_step wo s (s\<lparr>wpc := WCheck\<rparr>)"
| write_return: "wpc s = WCheck \<Longrightarrow> wdone s = length (wdata s) \<or> pipe_is_closed (wfd_ref s) s \<Longrightarrow>
    write_step wo s (s\<lparr>wpc := WReturned (wdone s)\<rparr>)"
| write_wait: "wpc s = WCheck \<Longrightarrow> wdone s \<noteq> length (wdata s) \<Longrightarrow> \<not> pipe_is_closed (wfd_ref s) s \<Longrightarrow>
    write_step wo s (s\<lparr>wpc := WYield\<rparr>)"
| write_resume: "wpc s = WYield \<Longrightarrow> write_step wo s (s\<lparr>wpc := WLoop\<rparr>)"
| write_again: "wpc s = WReturned k \<Longrightarrow> write_step wo s (s\<lparr>wpc := WIdle\<rparr>)"
| write_close_fd: "wpc s = WIdle \<Longrightarrow> write_step wo s (s\<lparr>wpc := WClosing, wfd_ref := wfd_ref s - 1\<rparr>)"
| write_close_page: "wpc s = WClosing \<Longrightarrow> write_step wo s (s\<lparr>wpc := WClosed, pipe_ref := pipe_ref s - 1\<rparr>)"

inductive pipe_reachable :: "access_order \<Rightarrow> access_order \<Rightarrow> psys \<Rightarrow> bool" for ro wo where
  start: "pipe_reachable ro wo pipe_init"
| reader: "pipe_reachable ro wo s \<Longrightarrow> read_step ro s t \<Longrightarrow> pipe_reachable ro wo t"
| writer: "pipe_reachable ro wo s \<Longrightarrow> write_step wo s t \<Longrightarrow> pipe_reachable ro wo t"

section \<open>The invariant\<close>

text \<open>For the order that accesses the buffer first. While fewer than \<open>2^32\<close> bytes have been sent the positions count the bytes exactly. The
  bytes in flight are in the buffer at their positions, and a byte that the reader has
  fetched or the writer has stored without moving its position is the right one.\<close>

definition pipe_inv :: "psys \<Rightarrow> bool" where
  "pipe_inv s \<longleftrightarrow>
     length (recvd s) \<le> length (sent s) \<and> length (sent s) \<le> length (recvd s) + BY2PIPE
   \<and> p_rpos s = word_of_nat (length (recvd s)) \<and> p_wpos s = word_of_nat (length (sent s))
   \<and> recvd s = take (length (recvd s)) (sent s)
   \<and> (\<forall>i. length (recvd s) \<le> i \<and> i < length (sent s) \<longrightarrow> p_buf s (i mod BY2PIPE) = sent s ! i)
   \<and> (\<forall>b. rpc s = RFetched b \<longrightarrow> length (recvd s) < length (sent s) \<and> b = sent s ! length (recvd s))
   \<and> (wpc s = WStored \<longrightarrow> length (sent s) < length (recvd s) + BY2PIPE
        \<and> wdone s < length (wdata s) \<and> p_buf s (length (sent s) mod BY2PIPE) = wdata s ! wdone s)
   \<and> (\<forall>pos. rpc s \<noteq> RTaken pos) \<and> (\<forall>pos. wpc s \<noteq> WTaken pos)"

lemma pos_facts:
  assumes "pipe_inv s" and "length (sent s) < 2 ^ 32"
  shows "unat (p_rpos s) = length (recvd s)" and "unat (p_wpos s) = length (sent s)"
    and "pipe_is_empty s \<longleftrightarrow> length (sent s) = length (recvd s)"
    and "pipe_is_full s \<longleftrightarrow> length (sent s) = length (recvd s) + BY2PIPE"
proof -
  have le: "length (recvd s) \<le> length (sent s)" "length (sent s) \<le> length (recvd s) + BY2PIPE"
    using assms(1) by (simp_all add: pipe_inv_def)
  show r: "unat (p_rpos s) = length (recvd s)"
    using assms le by (simp add: pipe_inv_def unat_of_nat)
  show w: "unat (p_wpos s) = length (sent s)"
    using assms by (simp add: pipe_inv_def unat_of_nat)
  show "pipe_is_empty s \<longleftrightarrow> length (sent s) = length (recvd s)"
    using le by (simp add: pipe_is_empty_def word_le_nat_alt r w)
  have "unat (p_wpos s - p_rpos s) = length (sent s) - length (recvd s)"
    using le by (simp add: unat_sub word_le_nat_alt r w)
  then show "pipe_is_full s \<longleftrightarrow> length (sent s) = length (recvd s) + BY2PIPE"
    using le by (simp add: pipe_is_full_def word_le_nat_alt BY2PIPE_def) linarith
qed

lemma pipe_inv_init: "pipe_inv pipe_init"
  by (simp add: pipe_inv_def pipe_init_def)

lemma read_step_sent: "read_step ro s t \<Longrightarrow> sent t = sent s"
  by (induction rule: read_step.induct) simp_all

lemma write_step_sent: "write_step wo s t \<Longrightarrow> length (sent s) \<le> length (sent t)"
  by (induction rule: write_step.induct) simp_all

lemma read_step_inv:
  "read_step Access_first s t \<Longrightarrow> pipe_inv s \<Longrightarrow> length (sent s) < 2 ^ 32 \<Longrightarrow> pipe_inv t"
proof (induction rule: read_step.induct)
  case (read_fetch s)
  from pos_facts [OF read_fetch(5,6)] read_fetch(3,5)
  show ?case by (simp add: pipe_inv_def)
next
  case (read_advance s b)
  then have "length (recvd s) < length (sent s)" "b = sent s ! length (recvd s)"
    by (auto simp: pipe_inv_def)
  then have "recvd s @ [b] = take (Suc (length (recvd s))) (sent s)"
    using read_advance(2) by (simp add: pipe_inv_def take_Suc_conv_app_nth)
  then show ?case
    using read_advance \<open>length (recvd s) < length (sent s)\<close> by (simp add: pipe_inv_def)
next
  case (read_late s pos b)
  then show ?case by (auto simp: pipe_inv_def)
qed (simp_all add: pipe_inv_def)

lemma in_flight_slot:
  "r \<le> i \<Longrightarrow> i < n \<Longrightarrow> n < r + BY2PIPE \<Longrightarrow> i mod BY2PIPE \<noteq> n mod BY2PIPE"
proof
  assume *: "r \<le> i" "i < n" "n < r + BY2PIPE" "i mod BY2PIPE = n mod BY2PIPE"
  then have "BY2PIPE dvd n - i" using mod_eq_dvd_iff_nat [of i n BY2PIPE] by simp
  then show False using * by (auto dest!: dvd_imp_le)
qed

lemma write_step_inv:
  "write_step Access_first s t \<Longrightarrow> pipe_inv s \<Longrightarrow> length (sent s) < 2 ^ 32 \<Longrightarrow> pipe_inv t"
proof (induction rule: write_step.induct)
  case (write_store s)
  have "length (sent s) < length (recvd s) + BY2PIPE"
    using pos_facts(4) [OF write_store(5,6)] write_store(3,5) by (simp add: pipe_inv_def)
  then show ?case
    using write_store pos_facts(2) [OF write_store(5,6)]
    by (auto simp: pipe_inv_def in_flight_slot)
next
  case (write_advance s)
  then show ?case by (auto simp: pipe_inv_def nth_append less_Suc_eq)
next
  case (write_late s pos)
  then show ?case by (auto simp: pipe_inv_def)
qed (simp_all add: pipe_inv_def)

lemma reachable_inv: "pipe_reachable Access_first Access_first s \<Longrightarrow> length (sent s) < 2 ^ 32 \<Longrightarrow> pipe_inv s"
proof (induction rule: pipe_reachable.induct)
  case start
  show ?case by (rule pipe_inv_init)
next
  case (reader s t)
  then show ?case using read_step_sent [of Access_first s t] read_step_inv [of s t] by simp
next
  case (writer s t)
  then show ?case using write_step_sent [of Access_first s t] write_step_inv [of s t] by simp
qed

lemmas race_simps = pipe_init_def pipe_is_empty_def pipe_is_full_def pipe_is_closed_def BY2PIPE_def

section \<open>The other orders\<close>

text \<open>The writer stores the position first: the reader takes the byte that was in the buffer.\<close>

lemma early_position:
  assumes "wo = Increment_first"
  shows "\<exists>s. pipe_reachable ro wo s \<and> sent s = [9] \<and> recvd s = [0]"
proof -
  let ?w = "pipe_init\<lparr>wpc := WTaken 0, wdata := [9], p_wpos := 1, sent := [9]\<rparr>"
  have "pipe_reachable ro wo (pipe_init\<lparr>wpc := WLoop, wdata := [9]\<rparr>)"
    using writer [OF start write_call [of pipe_init wo "[9]"]] by (simp add: race_simps)
  from writer [OF this write_take [OF assms]] have "pipe_reachable ro wo ?w" by (simp add: race_simps)
  from reader [OF this read_call [where n = 1]]
  have call: "pipe_reachable ro wo (?w\<lparr>rpc := RLoop, rn := 1\<rparr>)" by (simp add: race_simps)
  show ?thesis
  proof (cases ro)
    case Access_first
    from reader [OF call read_fetch [OF this]]
    have "pipe_reachable ro wo (?w\<lparr>rpc := RFetched 0, rn := 1\<rparr>)" by (simp add: race_simps)
    from reader [OF this read_advance [where b = 0]] show ?thesis by (fastforce simp: race_simps)
  next
    case Increment_first
    from reader [OF call read_take [OF this]]
    have "pipe_reachable ro wo (?w\<lparr>rpc := RTaken 0, rn := 1, p_rpos := 1\<rparr>)" by (simp add: race_simps)
    from reader [OF this read_late [where pos = 0]] show ?thesis by (fastforce simp: race_simps)
  qed
qed

text \<open>The reader stores the position first: in a full pipe the writer reuses the slot that the reader
  has not read yet.\<close>

lemma fill_pipe:
  assumes "wo = Access_first"
  shows "k \<le> 32 \<Longrightarrow> pipe_reachable ro wo (pipe_init\<lparr>wpc := WLoop, wdata := replicate 32 0 @ [9],
    wdone := k, p_wpos := word_of_nat k, sent := replicate k 0\<rparr>)"
proof (induction k)
  case 0
  show ?case using writer [OF start write_call [of pipe_init wo "replicate 32 0 @ [9]"]] by (simp add: pipe_init_def)
next
  case (Suc k)
  let ?s = "pipe_init\<lparr>wpc := WLoop, wdata := replicate 32 0 @ [9], wdone := k, p_wpos := word_of_nat k, sent := replicate k 0\<rparr>"
  have at: "(replicate 32 0 @ [9] :: u8 list) ! k = 0" using Suc.prems by (simp add: nth_append)
  have k: "unat (word_of_nat k :: u32) = k" using Suc.prems by (simp add: unat_of_nat)
  have "\<not> pipe_is_full ?s"
    using Suc.prems k by (simp add: pipe_is_full_def BY2PIPE_def pipe_init_def word_le_nat_alt)
  moreover have "pipe_reachable ro wo ?s" using Suc by simp
  ultimately have "pipe_reachable ro wo (?s\<lparr>wpc := WStored, p_buf := (p_buf ?s)(unat (p_wpos ?s) mod BY2PIPE := wdata ?s ! wdone ?s)\<rparr>)"
    using Suc.prems by (intro writer [OF _ write_store [OF assms]]) auto
  then have "pipe_reachable ro wo (?s\<lparr>wpc := WStored\<rparr>)"
    by (simp add: pipe_init_def at fun_upd_idem)
  from writer [OF this write_advance] show ?case
    by (simp add: pipe_init_def at replicate_append_same add.commute)
qed

lemma early_slot:
  assumes "wo = Access_first" and "ro = Increment_first"
  shows "\<exists>s. pipe_reachable ro wo s \<and> sent s = replicate 32 0 \<and> recvd s = [9]"
proof -
  let ?s = "pipe_init\<lparr>wpc := WLoop, wdata := replicate 32 0 @ [9], wdone := 32, p_wpos := 32, sent := replicate 32 0\<rparr>"
  have "pipe_reachable ro wo ?s" using fill_pipe [OF assms(1), of 32 ro] by simp
  from reader [OF this read_call [where n = 1]]
  have "pipe_reachable ro wo (?s\<lparr>rpc := RLoop, rn := 1\<rparr>)" by (simp add: pipe_init_def)
  from reader [OF this read_take [OF assms(2)]]
  have "pipe_reachable ro wo (?s\<lparr>rpc := RTaken 0, rn := 1, p_rpos := 1\<rparr>)" by (simp add: race_simps)
  from writer [OF this write_store [OF assms(1)]]
  have "pipe_reachable ro wo (?s\<lparr>rpc := RTaken 0, rn := 1, p_rpos := 1, wpc := WStored, p_buf := (\<lambda>_. 0)(0 := 9)\<rparr>)"
    by (simp add: race_simps nth_append)
  from reader [OF this read_late [where pos = 0]] show ?thesis by (fastforce simp: race_simps)
qed

text \<open>C23: When a pipe is a bounded FIFO. The reader has, in every interleaving and as long as fewer
  than \<^verbatim>\<open>2^32\<close> bytes have been sent, received a prefix of what was sent, with at most
  \<^verbatim>\<open>BY2PIPE\<close> bytes on the way, exactly when both \<^verbatim>\<open>p_buf[p_rpos++ % BY2PIPE]\<close> in the reader and
  \<^verbatim>\<open>p_buf[p_wpos++ % BY2PIPE] = ...\<close> in the writer access the buffer before they store the
  position. C leaves this order open; with any other one a process that is preempted in
  between lets the reader receive a byte that was not sent at that place.\<close>

theorem pipe_fifo:
  "(\<forall>s. pipe_reachable ro wo s \<and> length (sent s) < 2 ^ 32 \<longrightarrow>
      recvd s = take (length (recvd s)) (sent s) \<and> length (recvd s) \<le> length (sent s)
      \<and> length (sent s) \<le> length (recvd s) + BY2PIPE)
   \<longleftrightarrow> ro = Access_first \<and> wo = Access_first"
  (is "?fifo \<longleftrightarrow> _")
proof
  assume "ro = Access_first \<and> wo = Access_first"
  then show ?fifo using reachable_inv by (auto simp: pipe_inv_def)
next
  assume fifo: ?fifo
  have "wo \<noteq> Increment_first"
    using fifo early_position by (cases "wo = Increment_first") fastforce+
  moreover have "ro \<noteq> Increment_first" if "wo = Access_first"
    using fifo early_slot that by (cases "ro = Increment_first") fastforce+
  ultimately show "ro = Access_first \<and> wo = Access_first"
    by (cases ro; cases wo) auto
qed

text \<open>A run: the writer sends 9, returns and closes, while the reader, which found the pipe empty,
  has not looked at the reference counts yet.\<close>

definition eof_race :: psys where
  "eof_race = pipe_init\<lparr>rpc := RReturned [], rn := 1, wpc := WClosed, wdata := [9], wdone := 1,
     p_buf := (\<lambda>_. 0)(0 := 9), p_wpos := 1, wfd_ref := 0, pipe_ref := 1, sent := [9]\<rparr>"

lemma race_1: "pipe_reachable ro wo (pipe_init\<lparr>rpc := RCheck, rn := 1\<rparr>)"
proof -
  have "pipe_reachable ro wo (pipe_init\<lparr>rpc := RLoop, rn := 1\<rparr>)"
    using reader [OF start read_call [of pipe_init ro 1]] by (simp add: race_simps)
  from reader [OF this read_exit] show ?thesis by (simp add: race_simps)
qed

lemma race_2: "pipe_reachable ro wo (pipe_init\<lparr>rpc := RCheck, rn := 1, wpc := WLoop, wdata := [9], wdone := 1,
    p_buf := (\<lambda>_. 0)(0 := 9), p_wpos := 1, sent := [9]\<rparr>)"
proof -
  have "pipe_reachable ro wo (pipe_init\<lparr>rpc := RCheck, rn := 1, wpc := WLoop, wdata := [9]\<rparr>)"
    using writer [OF race_1 write_call [where bs = "[9]"]] by (simp add: race_simps)
  note call = this
  show ?thesis
  proof (cases wo)
    case Access_first
    from writer [OF call write_store [OF this]]
    have "pipe_reachable ro wo (pipe_init\<lparr>rpc := RCheck, rn := 1, wpc := WStored, wdata := [9],
        p_buf := (\<lambda>_. 0)(0 := 9)\<rparr>)"
      by (simp add: race_simps)
    from writer [OF this write_advance] show ?thesis by (simp add: race_simps)
  next
    case Increment_first
    from writer [OF call write_take [OF this]]
    have "pipe_reachable ro wo (pipe_init\<lparr>rpc := RCheck, rn := 1, wpc := WTaken 0, wdata := [9],
        p_wpos := 1, sent := [9]\<rparr>)"
      by (simp add: race_simps)
    from writer [OF this write_late [where pos = 0]] show ?thesis by (simp add: race_simps)
  qed
qed

lemma race_3: "pipe_reachable ro wo (pipe_init\<lparr>rpc := RCheck, rn := 1, wpc := WIdle, wdata := [9], wdone := 1,
    p_buf := (\<lambda>_. 0)(0 := 9), p_wpos := 1, sent := [9]\<rparr>)"
proof -
  from writer [OF race_2 write_exit]
  have "pipe_reachable ro wo (pipe_init\<lparr>rpc := RCheck, rn := 1, wpc := WCheck, wdata := [9], wdone := 1,
      p_buf := (\<lambda>_. 0)(0 := 9), p_wpos := 1, sent := [9]\<rparr>)"
    by (simp add: race_simps)
  from writer [OF this write_return]
  have "pipe_reachable ro wo (pipe_init\<lparr>rpc := RCheck, rn := 1, wpc := WReturned 1, wdata := [9], wdone := 1,
      p_buf := (\<lambda>_. 0)(0 := 9), p_wpos := 1, sent := [9]\<rparr>)"
    by (simp add: race_simps)
  from writer [OF this write_again [where k = 1]] show ?thesis by (simp add: race_simps)
qed

lemma race_4: "pipe_reachable ro wo eof_race"
proof -
  from writer [OF race_3 write_close_fd]
  have "pipe_reachable ro wo (pipe_init\<lparr>rpc := RCheck, rn := 1, wpc := WClosing, wdata := [9], wdone := 1,
      p_buf := (\<lambda>_. 0)(0 := 9), p_wpos := 1, sent := [9], wfd_ref := 0\<rparr>)"
    by (simp add: race_simps)
  from writer [OF this write_close_page]
  have "pipe_reachable ro wo (pipe_init\<lparr>rpc := RCheck, rn := 1, wpc := WClosed, wdata := [9], wdone := 1,
      p_buf := (\<lambda>_. 0)(0 := 9), p_wpos := 1, sent := [9], wfd_ref := 0, pipe_ref := 1\<rparr>)"
    by (simp add: race_simps)
  from reader [OF this read_return] show ?thesis by (simp add: race_simps eof_race_def)
qed

theorem pipe_fifo_witness:
  "recvd eof_race = take (length (recvd eof_race)) (sent eof_race)
    \<and> length (sent eof_race) \<le> length (recvd eof_race) + BY2PIPE \<and> sent eof_race = [9]"
  using pipe_fifo [of Access_first Access_first] race_4 [of Access_first Access_first]
  by (simp add: eof_race_def pipe_init_def BY2PIPE_def)

text \<open>C24: End of file can come too early. \<^verbatim>\<open>pipe_read\<close> tests for an empty pipe before it tests for
  a closed one, so a writer that writes and closes in between makes a read of at least one
  byte return 0 although a byte was written and not read, in whichever order the buffer and
  the positions are accessed.\<close>

theorem pipe_early_eof:
  "\<exists>s. pipe_reachable ro wo s \<and> 0 < rn s \<and> rpc s = RReturned [] \<and> length (recvd s) < length (sent s)"
  using race_4 by (intro exI [of _ eof_race]) (simp add: eof_race_def pipe_init_def)

text \<open>When the write position has wrapped and the read position has not, an unread byte is not seen.\<close>

lemma pipe_empty_at_wrap:
  "p_rpos s = 0xFFFFFFFF \<Longrightarrow> p_wpos s = 0 \<Longrightarrow> pipe_is_empty s \<and> p_wpos s - p_rpos s = 1"
  by (simp add: pipe_is_empty_def)

end
