(* ===== verification/Shell.thy ===== *)
theory Shell
  imports CString
begin

text \<open>
  The shell's command line (\<^verbatim>\<open>user/sh.c\<close>): the tokenizer that cuts a line in place, the parser
  that collects arguments and carries out redirections and pipes, the execution of a command
  and the line editor. Pointers are addresses, 0 is null; \<open>None\<close> is a loop that does not end.
  The calls to the rest of the user library are recorded as events, in order; their results
  come from a list of answers that is input.
\<close>

section \<open>The tokenizer\<close>

definition is_space :: "u8 \<Rightarrow> bool" where
  "is_space c \<longleftrightarrow> c \<in> {32, 9, 13, 10}"

definition is_symbol :: "u8 \<Rightarrow> bool" where
  "is_symbol c \<longleftrightarrow> c \<in> {60, 124, 62, 38, 59, 40, 41}"

partial_function (option) skip_space :: "nat \<Rightarrow> mem \<Rightarrow> (nat \<times> mem) option" where
  "skip_space s m = (if is_space (m s) then skip_space (s + 1) (m(s := 0)) else Some (s, m))"

partial_function (option) skip_word :: "nat \<Rightarrow> mem \<Rightarrow> nat option" where
  "skip_word s m =
     (if m s \<noteq> 0 \<and> \<not> is_space (m s) \<and> \<not> is_symbol (m s) then skip_word (s + 1) m else Some s)"

text \<open>The result, \<^verbatim>\<open>*p1\<close>, \<^verbatim>\<open>*p2\<close> and the changed memory.\<close>

definition gettok :: "nat \<Rightarrow> mem \<Rightarrow> (u8 \<times> nat \<times> nat \<times> mem) option" where
  "gettok s m =
     (if s = 0 then Some (0, 0, 0, m)
      else do {
        (s1, m1) \<leftarrow> skip_space s m;
        if m1 s1 = 0 then Some (0, 0, 0, m1)
        else if is_symbol (m1 s1) then Some (m1 s1, s1, s1 + 1, m1(s1 := 0))
        else do {
          e \<leftarrow> skip_word s1 m1;
          Some (119, s1, e, m1)
        }
      })"

text \<open>The static variables of \<^verbatim>\<open>gettoken\<close>, with the memory.\<close>

record lexer =
  lmem :: mem
  nc :: u8
  np1 :: nat
  np2 :: nat

definition gettoken_init :: "nat \<Rightarrow> mem \<Rightarrow> lexer option" where
  "gettoken_init s m = do {
     (c, p1, p2, m1) \<leftarrow> gettok s m;
     Some \<lparr>lmem = m1, nc = c, np1 = p1, np2 = p2\<rparr>
   }"

definition gettoken :: "lexer \<Rightarrow> (u8 \<times> nat \<times> lexer) option" where
  "gettoken l = do {
     (c, p1, p2, m1) \<leftarrow> gettok (np2 l) (lmem l);
     Some (nc l, np1 l, \<lparr>lmem = m1, nc = c, np1 = p1, np2 = p2\<rparr>)
   }"

section \<open>Tokens of a line\<close>

datatype token = Sym u8 | Word "u8 list"

definition is_word :: "u8 \<Rightarrow> bool" where
  "is_word c \<longleftrightarrow> \<not> is_space c \<and> \<not> is_symbol c"

function tokens :: "u8 list \<Rightarrow> token list" where
  "tokens [] = []"
| "tokens (c # cs) =
     (if is_space c then tokens cs
      else if is_symbol c then Sym c # tokens cs
      else Word (c # takeWhile is_word cs) # tokens (dropWhile is_word cs))"
  by pat_completeness auto
termination
  by (relation "measure length") (auto simp: le_imp_less_Suc length_dropWhile_le)

fun code :: "token \<Rightarrow> u8" where
  "code (Sym c) = c"
| "code (Word w) = 119"

section \<open>The tokenizer on a line in memory\<close>

lemma str_at_split: "str_at m s (xs @ ys) \<longleftrightarrow> (\<forall>i < length xs. m (s + i) = xs ! i) \<and> 0 \<notin> set xs \<and> str_at m (s + length xs) ys"
proof (induction xs arbitrary: s)
  case (Cons x xs)
  then show ?case by (auto simp: str_at_Cons nth_Cons split: nat.splits)
qed simp

lemma str_at_cong: "(\<And>a. s \<le> a \<Longrightarrow> a \<le> s + length xs \<Longrightarrow> m' a = m a) \<Longrightarrow> str_at m' s xs = str_at m s xs"
  by (simp add: str_at_def)

lemma not_space_0 [simp]: "\<not> is_space 0" and not_symbol_0 [simp]: "\<not> is_symbol 0"
  by (simp_all add: is_space_def is_symbol_def)

lemma skip_space_str:
  "str_at m s line \<Longrightarrow> \<exists>m'. skip_space s m = Some (s + length (takeWhile is_space line), m')
    \<and> str_at m' (s + length (takeWhile is_space line)) (dropWhile is_space line)
    \<and> (\<forall>a. a < s \<or> s + length (takeWhile is_space line) \<le> a \<longrightarrow> m' a = m a)
    \<and> (\<forall>a. s \<le> a \<and> a < s + length (takeWhile is_space line) \<longrightarrow> m' a = 0)"
proof (induction line arbitrary: s m)
  case Nil
  then show ?case by (subst skip_space.simps) (auto simp: str_at_Nil)
next
  case (Cons c cs)
  show ?case
  proof (cases "is_space c")
    case True
    have "str_at (m(s := 0)) (s + 1) cs"
      using Cons.prems str_at_cong [of "s + 1" cs "m(s := 0)" m] by (simp add: str_at_Cons)
    from Cons.IH [OF this] obtain m' where
      m': "skip_space (s + 1) (m(s := 0)) = Some (s + 1 + length (takeWhile is_space cs), m')"
      "str_at m' (s + 1 + length (takeWhile is_space cs)) (dropWhile is_space cs)"
      "\<forall>a. a < s + 1 \<or> s + 1 + length (takeWhile is_space cs) \<le> a \<longrightarrow> m' a = (m(s := 0)) a"
      "\<forall>a. s + 1 \<le> a \<and> a < s + 1 + length (takeWhile is_space cs) \<longrightarrow> m' a = 0" by blast
    have "m' s = 0" using m'(3) by simp
    then have z: "m' a = 0" if "s \<le> a" "a < s + 1 + length (takeWhile is_space cs)" for a
      using that m'(4) by (cases "a = s") auto
    have "skip_space s m = Some (s + 1 + length (takeWhile is_space cs), m')"
      using Cons.prems True m'(1) by (subst skip_space.simps) (simp add: str_at_Cons)
    then show ?thesis using True m'(2,3) z by auto
  next
    case False
    then show ?thesis using Cons.prems by (subst skip_space.simps) (auto simp: str_at_Cons)
  qed
qed

lemma skip_word_str:
  "str_at m s line \<Longrightarrow> skip_word s m = Some (s + length (takeWhile is_word line))"
proof (induction line arbitrary: s)
  case Nil
  then show ?case by (subst skip_word.simps) (simp add: str_at_Nil)
next
  case (Cons c cs)
  then show ?case
    by (subst skip_word.simps) (cases "is_word c", auto simp: str_at_Cons is_word_def [of c])
qed

lemma tokens_skip: "tokens line = tokens (dropWhile is_space line)"
proof (induction line)
  case (Cons c cs)
  then show ?case by (cases "is_space c") simp_all
qed simp

text \<open>
  The lexer that still has \<open>toks\<close> to deliver: it is one token ahead of the caller, and the
  line ends at address \<open>e\<close>.
\<close>

definition rest_at :: "lexer \<Rightarrow> nat \<Rightarrow> u8 list \<Rightarrow> token list \<Rightarrow> bool" where
  "rest_at l e rest ts \<longleftrightarrow>
     0 < np1 l \<and> np1 l < np2 l \<and> str_at (lmem l) (np2 l) rest \<and> np2 l + length rest = e \<and> tokens rest = ts"

definition ahead :: "lexer \<Rightarrow> nat \<Rightarrow> token list \<Rightarrow> bool" where
  "ahead l e toks \<longleftrightarrow> (case toks of
       [] \<Rightarrow> nc l = 0 \<and> np1 l = 0 \<and> np2 l = 0
     | Sym c # ts \<Rightarrow> nc l = c \<and> is_symbol c \<and> (\<exists>rest. rest_at l e rest ts)
     | Word w # ts \<Rightarrow> nc l = 119 \<and> 0 \<notin> set w \<and> (\<forall>i < length w. lmem l (np1 l + i) = w ! i)
         \<and> np2 l = np1 l + length w
         \<and> (\<exists>rest. rest_at l e rest ts \<and> (rest = [] \<or> \<not> is_word (hd rest))))"

lemma gettok_ahead:
  assumes "s \<noteq> 0" and "str_at m s line"
  shows "\<exists>c p1 p2 m'. gettok s m = Some (c, p1, p2, m')
    \<and> ahead \<lparr>lmem = m', nc = c, np1 = p1, np2 = p2\<rparr> (s + length line) (tokens line)
    \<and> (\<forall>a. a < s \<or> s + length line \<le> a \<longrightarrow> m' a = m a) \<and> (p2 = 0 \<or> s < p2)
    \<and> (line = [] \<or> \<not> is_word (hd line) \<longrightarrow> m' s = 0)"
proof -
  let ?k = "length (takeWhile is_space line)" and ?r = "dropWhile is_space line"
  have len: "length line = ?k + length ?r" by (metis length_append takeWhile_dropWhile_id)
  obtain m1 where m1: "skip_space s m = Some (s + ?k, m1)" "str_at m1 (s + ?k) ?r"
    "\<forall>a. a < s \<or> s + ?k \<le> a \<longrightarrow> m1 a = m a" "\<forall>a. s \<le> a \<and> a < s + ?k \<longrightarrow> m1 a = 0"
    using skip_space_str [OF assms(2)] by blast
  show ?thesis
  proof (cases ?r)
    case Nil
    then have "tokens line = []" by (subst tokens_skip) (simp only: tokens.simps)
    moreover have "m1 s = 0" using m1(2,4) Nil by (cases "?k = 0") (auto simp: str_at_Nil)
    moreover have "gettok s m = Some (0, 0, 0, m1)"
      using assms(1) m1(1,2) Nil by (simp add: gettok_def str_at_Nil)
    ultimately show ?thesis using m1(3) len by (auto simp: ahead_def)
  next
    case (Cons c cs)
    have ns: "\<not> is_space c" using hd_dropWhile [of is_space line] Cons by simp
    have c: "m1 (s + ?k) = c" "c \<noteq> 0" "str_at m1 (s + ?k + 1) cs"
      using m1(2) Cons by (simp_all add: str_at_Cons)
    have k0: "?k = 0 \<Longrightarrow> hd line = c" using Cons by (cases line) (auto split: if_splits)
    show ?thesis
    proof (cases "is_symbol c")
      case True
      let ?m = "m1(s + ?k := 0)"
      have t: "tokens line = Sym c # tokens cs" by (subst tokens_skip) (simp add: Cons ns True)
      have "str_at ?m (s + ?k + 1) cs"
        using c(3) str_at_cong [of "s + ?k + 1" cs ?m m1] by simp
      moreover have "?m s = 0" using m1(4) by (cases "?k = 0") auto
      moreover have "gettok s m = Some (c, s + ?k, s + ?k + 1, ?m)"
        using assms(1) m1(1) c True by (simp add: gettok_def)
      ultimately show ?thesis
        using m1(3) True len Cons assms(1) by (auto simp: t ahead_def rest_at_def)
    next
      case False
      let ?w = "c # takeWhile is_word cs" and ?rest = "dropWhile is_word cs"
      have iw: "is_word c" using ns False by (simp add: is_word_def)
      have t: "tokens line = Word ?w # tokens ?rest" by (subst tokens_skip) (simp add: Cons ns False)
      have "str_at m1 (s + ?k) (?w @ ?rest)" using m1(2) Cons by simp
      then have w: "\<forall>i < length ?w. m1 (s + ?k + i) = ?w ! i" "0 \<notin> set ?w" "str_at m1 (s + ?k + length ?w) ?rest"
        unfolding str_at_split by (simp_all add: add.assoc)
      have e: "skip_word (s + ?k) m1 = Some (s + ?k + length ?w)"
        using skip_word_str [OF m1(2)] iw by (simp add: Cons)
      have rest: "?rest = [] \<or> \<not> is_word (hd ?rest)" using hd_dropWhile by blast
      have lr: "length cs = length (takeWhile is_word cs) + length ?rest"
        by (metis length_append takeWhile_dropWhile_id)
      have z: "m1 s = 0" if "line = [] \<or> \<not> is_word (hd line)"
      proof -
        have "?k \<noteq> 0" using that k0 iw Cons by auto
        then show ?thesis using m1(4) by auto
      qed
      have "ahead \<lparr>lmem = m1, nc = 119, np1 = s + ?k, np2 = s + ?k + length ?w\<rparr> (s + length line) (tokens line)"
        unfolding ahead_def t using w rest lr len Cons assms(1) by (auto simp: rest_at_def)
      moreover have "gettok s m = Some (119, s + ?k, s + ?k + length ?w, m1)"
        using assms(1) m1(1) c False e by (simp add: gettok_def)
      ultimately show ?thesis using m1(3) z len by auto
    qed
  qed
qed

lemma gettoken_end:
  "ahead l e [] \<Longrightarrow> gettoken l = Some (0, 0, l)"
  by (simp add: ahead_def gettoken_def gettok_def)

lemma gettoken_step:
  assumes "ahead l e (t # ts)"
  obtains l' where "gettoken l = Some (code t, np1 l, l')" and "ahead l' e ts"
    and "\<forall>a. a < np2 l \<or> e \<le> a \<longrightarrow> lmem l' a = lmem l a" and "np2 l' = 0 \<or> np2 l < np2 l'"
    and "\<forall>w. t = Word w \<longrightarrow> str_at (lmem l') (np1 l) w \<and> np1 l + length w = np2 l"
proof -
  obtain rest where r: "rest_at l e rest ts" "\<And>w. t = Word w \<Longrightarrow> rest = [] \<or> \<not> is_word (hd rest)"
    and c: "nc l = code t"
    using assms by (cases t) (auto simp: ahead_def)
  have s: "np2 l \<noteq> 0" "str_at (lmem l) (np2 l) rest" "np2 l + length rest = e" "tokens rest = ts"
    using r(1) by (auto simp: rest_at_def)
  obtain c' p1 p2 m' where g: "gettok (np2 l) (lmem l) = Some (c', p1, p2, m')"
    "ahead \<lparr>lmem = m', nc = c', np1 = p1, np2 = p2\<rparr> e ts"
    "\<forall>a. a < np2 l \<or> e \<le> a \<longrightarrow> m' a = lmem l a" "p2 = 0 \<or> np2 l < p2"
    "rest = [] \<or> \<not> is_word (hd rest) \<longrightarrow> m' (np2 l) = 0"
    using gettok_ahead [OF s(1,2)] s(3,4) by auto
  have "str_at m' (np1 l) w \<and> np1 l + length w = np2 l" if "t = Word w" for w
  proof -
    have w: "0 \<notin> set w" "\<forall>i < length w. lmem l (np1 l + i) = w ! i" "np2 l = np1 l + length w"
      using assms that by (simp_all add: ahead_def)
    have "\<forall>i < length w. m' (np1 l + i) = w ! i" using w g(3) by simp
    moreover have "m' (np1 l + length w) = 0" using g(5) r(2) [OF that] w(3) by simp
    ultimately show ?thesis using w(1,3) str_at_split [of m' "np1 l" w "[]"] by (simp add: str_at_Nil)
  qed
  then show ?thesis using g c by (intro that) (auto simp: gettoken_def)
qed

section \<open>The interface of the tokenizer\<close>

text \<open>The codes and addresses that \<open>n\<close> calls return.\<close>

fun deliver :: "('l \<Rightarrow> (u8 \<times> nat \<times> 'l) option) \<Rightarrow> nat \<Rightarrow> 'l \<Rightarrow> ((u8 \<times> nat) list \<times> 'l) option" where
  "deliver next_token 0 l = Some ([], l)"
| "deliver next_token (Suc n) l = do {
     (c, p, l1) \<leftarrow> next_token l;
     (r, l2) \<leftarrow> deliver next_token n l1;
     Some ((c, p) # r, l2)
   }"

text \<open>
  What the parser relies on: the pending tokens come one by one, 0 for ever after them, and the
  string of a word stays where the tokenizer put it.
\<close>

locale token_stream =
  fixes next_token :: "'l \<Rightarrow> (u8 \<times> nat \<times> 'l) option"
    and pending :: "'l \<Rightarrow> token list \<Rightarrow> bool"
    and held :: "'l \<Rightarrow> nat \<Rightarrow> u8 list \<Rightarrow> bool"
  assumes at_end: "pending l [] \<Longrightarrow> next_token l = Some (0, 0, l)"
    and at_token: "pending l (t # ts) \<Longrightarrow> \<exists>p l'. next_token l = Some (code t, p, l') \<and> pending l' ts
        \<and> (\<forall>w. t = Word w \<longrightarrow> held l' p w) \<and> (\<forall>q w. held l q w \<longrightarrow> held l' q w)"
begin

lemma take_token:
  assumes "pending l (t # ts)"
  obtains p l' where "next_token l = Some (code t, p, l')" and "pending l' ts"
    and "\<forall>w. t = Word w \<longrightarrow> held l' p w" and "\<forall>q w. held l q w \<longrightarrow> held l' q w"
  using at_token [OF assms] by blast

lemma deliver_end: "pending l [] \<Longrightarrow> deliver next_token k l = Some (replicate k (0, 0), l)"
  by (induction k) (simp_all add: at_end)

lemma deliver_pending:
  "pending l ts \<Longrightarrow> \<exists>r l'. deliver next_token (length ts + k) l = Some (r @ replicate k (0, 0), l')
     \<and> list_all2 (\<lambda>cp t. fst cp = code t \<and> (\<forall>w. t = Word w \<longrightarrow> held l' (snd cp) w)) r ts
     \<and> pending l' [] \<and> (\<forall>q w. held l q w \<longrightarrow> held l' q w)"
proof (induction ts arbitrary: l)
  case Nil
  then show ?case using deliver_end [of l k] by auto
next
  case (Cons t ts)
  obtain p l1 where l1: "next_token l = Some (code t, p, l1)" "pending l1 ts"
    "\<forall>w. t = Word w \<longrightarrow> held l1 p w" "\<forall>q w. held l q w \<longrightarrow> held l1 q w"
    by (rule take_token [OF Cons.prems])
  obtain r l' where d: "deliver next_token (length ts + k) l1 = Some (r @ replicate k (0, 0), l')"
    "list_all2 (\<lambda>cp t. fst cp = code t \<and> (\<forall>w. t = Word w \<longrightarrow> held l' (snd cp) w)) r ts"
    "pending l' []" "\<forall>q w. held l1 q w \<longrightarrow> held l' q w"
    using Cons.IH [OF l1(2)] by blast
  show ?case
    by (rule exI [of _ "(code t, p) # r"], rule exI [of _ l']) (use l1 d in simp)
qed

end

text \<open>
  The tokenizer of the shell on a line from \<open>s\<close> to \<open>e\<close> in memory \<open>m\<close>, outside of which it writes
  nothing.
\<close>

definition line_ahead :: "mem \<Rightarrow> nat \<Rightarrow> nat \<Rightarrow> lexer \<Rightarrow> token list \<Rightarrow> bool" where
  "line_ahead m s e l ts \<longleftrightarrow>
     ahead l e ts \<and> (np2 l = 0 \<or> s < np2 l) \<and> (\<forall>a. a < s \<or> e \<le> a \<longrightarrow> lmem l a = m a)"

definition held :: "lexer \<Rightarrow> nat \<Rightarrow> u8 list \<Rightarrow> bool" where
  "held l p w \<longleftrightarrow> p \<noteq> 0 \<and> str_at (lmem l) p w \<and> (np2 l = 0 \<or> p + length w < np2 l)"

lemma held_keeps:
  assumes "held l q w" and "np2 l \<noteq> 0" and "np2 l' = 0 \<or> np2 l < np2 l'"
    and "\<forall>a. a < np2 l \<or> e \<le> a \<longrightarrow> lmem l' a = lmem l a"
  shows "held l' q w"
proof -
  have b: "q + length w < np2 l" using assms(1,2) by (simp add: held_def)
  have "str_at (lmem l') q w = str_at (lmem l) q w"
    by (intro str_at_cong) (use assms(4) b in simp)
  then show ?thesis using assms(1,3) b by (auto simp: held_def)
qed

lemma gettoken_at_token:
  assumes "line_ahead m s e l (t # ts)"
  shows "\<exists>p l'. gettoken l = Some (code t, p, l') \<and> line_ahead m s e l' ts
    \<and> (\<forall>w. t = Word w \<longrightarrow> held l' p w) \<and> (\<forall>q w. held l q w \<longrightarrow> held l' q w)"
proof -
  have ah: "ahead l e (t # ts)" and b: "np2 l = 0 \<or> s < np2 l"
    and m: "\<forall>a. a < s \<or> e \<le> a \<longrightarrow> lmem l a = m a"
    using assms by (simp_all add: line_ahead_def)
  have p: "np1 l \<noteq> 0" "np2 l \<noteq> 0"
    using ah by (auto simp: ahead_def rest_at_def split: token.splits)
  obtain l' where l': "gettoken l = Some (code t, np1 l, l')" "ahead l' e ts"
    "\<forall>a. a < np2 l \<or> e \<le> a \<longrightarrow> lmem l' a = lmem l a" "np2 l' = 0 \<or> np2 l < np2 l'"
    "\<forall>w. t = Word w \<longrightarrow> str_at (lmem l') (np1 l) w \<and> np1 l + length w = np2 l"
    by (rule gettoken_step [OF ah])
  have "lmem l' a = m a" if "a < s \<or> e \<le> a" for a
  proof -
    have "a < np2 l \<or> e \<le> a" using that b p(2) by linarith
    then show ?thesis using that l'(3) m by metis
  qed
  then have "line_ahead m s e l' ts"
    using l'(2,4) b p(2) by (auto simp: line_ahead_def)
  moreover have "\<forall>w. t = Word w \<longrightarrow> held l' (np1 l) w" using l'(4,5) p(1) by (auto simp: held_def)
  moreover have "\<forall>q w. held l q w \<longrightarrow> held l' q w" using held_keeps [OF _ p(2) l'(4,3)] by blast
  ultimately show ?thesis using l'(1) by blast
qed

interpretation tokenizer: token_stream gettoken "line_ahead m s e" held for m s e
proof unfold_locales
  fix l assume "line_ahead m s e l []"
  then show "gettoken l = Some (0, 0, l)" using gettoken_end unfolding line_ahead_def by blast
next
  fix l t ts assume "line_ahead m s e l (t # ts)"
  then show "\<exists>p l'. gettoken l = Some (code t, p, l') \<and> line_ahead m s e l' ts
    \<and> (\<forall>w. t = Word w \<longrightarrow> held l' p w) \<and> (\<forall>q w. held l q w \<longrightarrow> held l' q w)"
    by (rule gettoken_at_token)
qed

lemma gettoken_init_line:
  assumes "s \<noteq> 0" and "str_at m s line"
  obtains l where "gettoken_init s m = Some l" and "line_ahead m s (s + length line) l (tokens line)"
  using gettok_ahead [OF assms] by (auto simp: gettoken_init_def line_ahead_def)

definition shows_token :: "mem \<Rightarrow> u8 \<times> nat \<Rightarrow> token \<Rightarrow> bool" where
  "shows_token m cp t \<longleftrightarrow>
     fst cp = code t \<and> (case t of Sym _ \<Rightarrow> True | Word w \<Rightarrow> str_at m (snd cp) w)"

text \<open>C36: \<open>gettoken\<close> started on a line delivers exactly the tokens of a reference tokenizer on lists,
  then end of line for ever; every word it returned stands in the buffer as a terminated string
  when all are delivered, and no byte outside the line is written.
\<close>

theorem shell_tokens:
  assumes "s \<noteq> 0" and "str_at m s line"
  shows "\<exists>l r l'. gettoken_init s m = Some l
    \<and> deliver gettoken (length (tokens line) + k) l = Some (r @ replicate k (0, 0), l')
    \<and> list_all2 (shows_token (lmem l')) r (tokens line)
    \<and> (\<forall>a. a < s \<or> s + length line \<le> a \<longrightarrow> lmem l' a = m a)"
proof -
  obtain l where l: "gettoken_init s m = Some l" "line_ahead m s (s + length line) l (tokens line)"
    by (rule gettoken_init_line [OF assms])
  obtain r l' where d: "deliver gettoken (length (tokens line) + k) l = Some (r @ replicate k (0, 0), l')"
    "list_all2 (\<lambda>cp t. fst cp = code t \<and> (\<forall>w. t = Word w \<longrightarrow> held l' (snd cp) w)) r (tokens line)"
    "line_ahead m s (s + length line) l' []"
    using tokenizer.deliver_pending [OF l(2), of k] by blast
  have "list_all2 (shows_token (lmem l')) r (tokens line)"
    by (rule list.rel_mono_strong [OF d(2)]) (auto simp: shows_token_def held_def split: token.splits)
  then show ?thesis using l(1) d(1,3) by (auto simp: line_ahead_def)
qed

definition demo_line :: mem where
  "demo_line = (\<lambda>_. 0)(10 := 97, 11 := 32, 12 := 62, 13 := 98, 14 := 99)"

lemma shell_tokens_witness:
  "tokens [97, 32, 62, 98, 99] = [Word [97], Sym 62, Word [98, 99]]
    \<and> (\<exists>l r l'. gettoken_init 10 demo_line = Some l \<and> deliver gettoken (3 + 1) l = Some (r @ replicate 1 (0, 0), l')
      \<and> list_all2 (shows_token (lmem l')) r [Word [97], Sym 62, Word [98, 99]])"
proof -
  have t: "tokens [97, 32, 62, 98, 99] = [Word [97], Sym 62, Word [98, 99]]"
    by (simp add: is_space_def is_symbol_def is_word_def)
  have "str_at demo_line 10 [97, 32, 62, 98, 99]"
    by (simp add: str_at_Cons str_at_Nil demo_line_def)
  from shell_tokens [OF _ this, of 1] have "\<exists>l r l'. gettoken_init 10 demo_line = Some l
      \<and> deliver gettoken (3 + 1) l = Some (r @ replicate 1 (0, 0), l')
      \<and> list_all2 (shows_token (lmem l')) r [Word [97], Sym 62, Word [98, 99]]"
    unfolding t by (simp del: deliver.simps add: numeral_eq_Suc) blast
  then show ?thesis using t by blast
qed

end
