(* ===== verification/ShellRun.thy ===== *)
theory ShellRun
  imports Shell
begin

text \<open>
  The parser and the executor of the shell (\<^verbatim>\<open>parsecmd\<close>, \<^verbatim>\<open>runcmd\<close> of \<^verbatim>\<open>user/sh.c\<close>). What they
  call in the user library is recorded in order, with the strings the callee finds at its
  pointers; a world function says what a call returns, from the whole history that ends with it.
\<close>

section \<open>The calls and the state\<close>

datatype complaint =
    Too_many | No_word_after u8 | Cant_open "u8 list" u32 | No_pipe | No_fork | Spawn_failed "u8 list" int
  | Read_error int | Line_too_long | Usage

datatype call =
    Open "u8 list" u32 | Dup int int | Close int | Pipe | Fork | Debugf complaint | Exit
  | Spawn "u8 list" "u8 list list" | Close_all | Wait int

text \<open>What a call returns, and the two descriptors of a pipe.\<close>

record world =
  answer :: "call list \<Rightarrow> int"
  ends :: "call list \<Rightarrow> int \<times> int"

record sh =
  lex :: lexer
  argv :: "nat list"
  rightpipe :: int
  calls :: "call list"

definition MAXARGS :: nat where "MAXARGS = 128"

definition doing :: "call \<Rightarrow> sh \<Rightarrow> sh" where
  "doing c s = s\<lparr>calls := calls s @ [c]\<rparr>"

definition exit_with :: "complaint \<Rightarrow> sh \<Rightarrow> sh" where
  "exit_with c s = doing Exit (doing (Debugf c) s)"

text \<open>The terminated string at an address, as a callee reads it.\<close>

partial_function (option) read_str :: "mem \<Rightarrow> nat \<Rightarrow> u8 list option" where
  "read_str m p =
     (if m p = 0 then Some [] else do { w \<leftarrow> read_str m (p + 1); Some (m p # w) })"

section \<open>The parser\<close>

text \<open>
  The cases \<^verbatim>\<open>'<'\<close> and \<^verbatim>\<open>'>'\<close>: the file is opened, put in the place of descriptor \<open>target\<close> and its
  own descriptor closed. The left side is a shell that has exited.
\<close>

definition redirect :: "world \<Rightarrow> u8 \<Rightarrow> u32 \<Rightarrow> int \<Rightarrow> sh \<Rightarrow> (sh + sh) option" where
  "redirect w op mode target s = do {
     (c, t, l) \<leftarrow> gettoken (lex s);
     let s1 = s\<lparr>lex := l\<rparr>;
     if c \<noteq> 119 then Some (Inl (exit_with (No_word_after op) s1))
     else do {
       name \<leftarrow> read_str (lmem l) t;
       let s2 = doing (Open name mode) s1;
       let fd = answer w (calls s2);
       if fd < 0 then Some (Inl (exit_with (Cant_open name mode) s2))
       else Some (Inr (doing (Close fd) (doing (Dup fd target) s2)))
     }
   }"

text \<open>
  The case \<^verbatim>\<open>'|'\<close> up to the recursive call. \<open>Inr (True, s)\<close> is the child, which goes on with the
  right side of the pipe, \<open>Inr (False, s)\<close> the parent, which returns.
\<close>

definition make_pipe :: "world \<Rightarrow> sh \<Rightarrow> sh + bool \<times> sh" where
  "make_pipe w s =
     (let s1 = doing Pipe s; (p0, p1) = ends w (calls s1) in
      if answer w (calls s1) \<noteq> 0 then Inl (exit_with No_pipe s1)
      else let s2 = doing Fork s1; r = answer w (calls s2) in
        if r < 0 then Inl (exit_with No_fork s2)
        else let s3 = s2\<lparr>rightpipe := r\<rparr> in
          if r = 0 then Inr (True, doing (Close p1) (doing (Close p0) (doing (Dup p0 0) s3)))
          else Inr (False, doing (Close p1) (doing (Close p0) (doing (Dup p1 1) s3))))"

partial_function (option) parsecmd :: "world \<Rightarrow> nat \<Rightarrow> sh \<Rightarrow> (sh + nat \<times> sh) option" where
  "parsecmd w argc s = do {
     (c, t, l) \<leftarrow> gettoken (lex s);
     let s1 = s\<lparr>lex := l\<rparr>;
     if c = 0 then Some (Inr (argc, s1))
     else if c = 119 then
       if MAXARGS \<le> argc then Some (Inl (exit_with Too_many s1))
       else parsecmd w (argc + 1) (s1\<lparr>argv := (argv s1)[argc := t]\<rparr>)
     else if c = 60 then do {
       r \<leftarrow> redirect w 60 O_RDONLY 0 s1;
       case r of Inl s2 \<Rightarrow> Some (Inl s2) | Inr s2 \<Rightarrow> parsecmd w argc s2
     }
     else if c = 62 then do {
       r \<leftarrow> redirect w 62 O_WRONLY 1 s1;
       case r of Inl s2 \<Rightarrow> Some (Inl s2) | Inr s2 \<Rightarrow> parsecmd w argc s2
     }
     else if c = 124 then
       case make_pipe w s1 of
         Inl s2 \<Rightarrow> Some (Inl s2)
       | Inr (child, s2) \<Rightarrow> if child then parsecmd w 0 s2 else Some (Inr (argc, s2))
     else parsecmd w argc s1
   }"

section \<open>Running a command\<close>

text \<open>
  \<open>Overrun\<close> is the write of the null pointer behind the last element of \<^verbatim>\<open>argv\<close>, which C leaves
  undefined.
\<close>

datatype run = Returned "call list" | Exited "call list" | Overrun "call list"

fun read_strs :: "mem \<Rightarrow> nat list \<Rightarrow> u8 list list option" where
  "read_strs m [] = Some []"
| "read_strs m (p # ps) =
     (if p = 0 then Some [] else do { w \<leftarrow> read_str m p; ws \<leftarrow> read_strs m ps; Some (w # ws) })"

definition runcmd :: "world \<Rightarrow> nat list \<Rightarrow> nat \<Rightarrow> mem \<Rightarrow> run option" where
  "runcmd w stack p m = do {
     l \<leftarrow> gettoken_init p m;
     r \<leftarrow> parsecmd w 0 \<lparr>lex = l, argv = stack, rightpipe = 0, calls = []\<rparr>;
     case r of
       Inl s \<Rightarrow> Some (Exited (calls s))
     | Inr (argc, s) \<Rightarrow>
         if argc = 0 then Some (Returned (calls s))
         else if MAXARGS \<le> argc then Some (Overrun (calls s))
         else do {
           let av = (argv s)[argc := 0];
           prog \<leftarrow> read_str (lmem (lex s)) (av ! 0);
           args \<leftarrow> read_strs (lmem (lex s)) av;
           let s1 = doing (Spawn prog args) s;
           let child = answer w (calls s1);
           let s2 = doing Close_all s1;
           let s3 = (if 0 \<le> child then doing (Wait child) s2
                     else doing (Debugf (Spawn_failed prog child)) s2);
           let s4 = (if rightpipe s3 \<noteq> 0 then doing (Wait (rightpipe s3)) s3 else s3);
           Some (Exited (calls (doing Exit s4)))
         }
   }"

section \<open>The parser on tokens\<close>

text \<open>
  What \<^verbatim>\<open>parsecmd\<close> promises, without the buffer: words so far, the process to wait for, the calls
  so far and the tokens still to come.
\<close>

function parse :: "world \<Rightarrow> u8 list list \<Rightarrow> int \<Rightarrow> call list \<Rightarrow> token list
    \<Rightarrow> call list + u8 list list \<times> int \<times> call list" where
  "parse w ws rp h [] = Inr (ws, rp, h)"
| "parse w ws rp h (Word x # ts) =
     (if length ws < MAXARGS then parse w (ws @ [x]) rp h ts
      else Inl (h @ [Debugf Too_many, Exit]))"
| "parse w ws rp h (Sym c # ts) =
     (if c = 60 \<or> c = 62 then
        let mode = if c = 60 then O_RDONLY else O_WRONLY in
        case ts of
          Word x # ts' \<Rightarrow>
            (let h1 = h @ [Open x mode]; fd = answer w h1 in
             if fd < 0 then Inl (h1 @ [Debugf (Cant_open x mode), Exit])
             else parse w ws rp (h1 @ [Dup fd (if c = 60 then 0 else 1), Close fd]) ts')
        | _ \<Rightarrow> Inl (h @ [Debugf (No_word_after c), Exit])
      else if c = 124 then
        let h1 = h @ [Pipe]; h2 = h1 @ [Fork] in
        if answer w h1 \<noteq> 0 then Inl (h1 @ [Debugf No_pipe, Exit])
        else if answer w h2 < 0 then Inl (h2 @ [Debugf No_fork, Exit])
        else let p0 = fst (ends w h1); p1 = snd (ends w h1) in
          if answer w h2 = 0 then parse w [] 0 (h2 @ [Dup p0 0, Close p0, Close p1]) ts
          else Inr (ws, answer w h2, h2 @ [Dup p1 1, Close p0, Close p1])
      else parse w ws rp h ts)"
  by pat_completeness auto
termination
  by (relation "measure (\<lambda>(w, ws, rp, h, ts). length ts)") auto

lemma read_str_at: "str_at m p x \<Longrightarrow> read_str m p = Some x"
proof (induction x arbitrary: p)
  case Nil
  then show ?case by (subst read_str.simps) (simp add: str_at_Nil)
next
  case (Cons c cs)
  then show ?case by (subst read_str.simps) (simp add: str_at_Cons)
qed

text \<open>The first entries of \<^verbatim>\<open>argv\<close> point to the words, which later tokens do not touch.\<close>

definition args_at :: "lexer \<Rightarrow> nat list \<Rightarrow> u8 list list \<Rightarrow> bool" where
  "args_at l av ws \<longleftrightarrow> length av = MAXARGS \<and> length ws \<le> MAXARGS \<and>
     (\<forall>i < length ws. held l (av ! i) (ws ! i))"

lemma args_at_Nil: "length av = MAXARGS \<Longrightarrow> args_at l av []"
  by (simp add: args_at_def)

lemma args_at_snoc:
  assumes "args_at l av ws" and "length ws < MAXARGS" and "held l p x"
  shows "args_at l (av[length ws := p]) (ws @ [x])"
  using assms by (auto simp: args_at_def nth_append nth_list_update less_Suc_eq)

text \<open>One token taken while the words so far stand.\<close>

lemma gettoken_keeps:
  assumes "line_ahead m start e l (t # ts)" and "args_at l av ws"
  obtains p l' where "gettoken l = Some (code t, p, l')" and "line_ahead m start e l' ts"
    and "args_at l' av ws" and "\<forall>x. t = Word x \<longrightarrow> held l' p x"
proof -
  obtain p l' where l': "gettoken l = Some (code t, p, l')" "line_ahead m start e l' ts"
    "\<forall>x. t = Word x \<longrightarrow> held l' p x" "\<forall>q w. held l q w \<longrightarrow> held l' q w"
    by (rule tokenizer.take_token [OF assms(1)])
  have "args_at l' av ws" using assms(2) l'(4) by (simp add: args_at_def)
  then show ?thesis using that l' by blast
qed

text \<open>The parser run agrees with the result on tokens.\<close>

fun agrees :: "(sh + nat \<times> sh) option \<Rightarrow> call list + u8 list list \<times> int \<times> call list \<Rightarrow> bool" where
  "agrees (Some (Inl s)) (Inl h) \<longleftrightarrow> calls s = h"
| "agrees (Some (Inr (argc, s))) (Inr (ws, rp, h)) \<longleftrightarrow>
     argc = length ws \<and> args_at (lex s) (argv s) ws \<and> rightpipe s = rp \<and> calls s = h"
| "agrees _ _ \<longleftrightarrow> False"

lemma doing_sel [simp]:
  "lex (doing c s) = lex s" "argv (doing c s) = argv s" "rightpipe (doing c s) = rightpipe s"
  "calls (doing c s) = calls s @ [c]"
  by (simp_all add: doing_def)

lemma exit_with_calls [simp]: "calls (exit_with c s) = calls s @ [Debugf c, Exit]"
  by (simp add: exit_with_def)

lemma is_symbol_119: "is_symbol c \<Longrightarrow> c \<noteq> 119 \<and> c \<noteq> 0"
  by (auto simp: is_symbol_def)

lemma ahead_code: "line_ahead m start e l (t # ts) \<Longrightarrow> code t \<noteq> 0 \<and> (code t = 119 \<longleftrightarrow> (\<exists>x. t = Word x))"
  by (cases t) (auto simp: line_ahead_def ahead_def dest: is_symbol_119)

lemma redirect_tokens:
  assumes "line_ahead m start e (lex s) ts" and "args_at (lex s) (argv s) ws"
  shows "case ts of
      Word x # ts' \<Rightarrow>
        (let h1 = calls s @ [Open x mode]; fd = answer w h1 in
         if fd < 0 then \<exists>s'. redirect w op mode target s = Some (Inl s') \<and> calls s' = h1 @ [Debugf (Cant_open x mode), Exit]
         else \<exists>s'. redirect w op mode target s = Some (Inr s') \<and> calls s' = h1 @ [Dup fd target, Close fd]
           \<and> line_ahead m start e (lex s') ts' \<and> args_at (lex s') (argv s') ws \<and> rightpipe s' = rightpipe s)
    | _ \<Rightarrow> \<exists>s'. redirect w op mode target s = Some (Inl s') \<and> calls s' = calls s @ [Debugf (No_word_after op), Exit]"
proof (cases ts)
  case Nil
  then show ?thesis using tokenizer.at_end assms(1) by (auto simp: redirect_def)
next
  case (Cons t ts')
  obtain p l where l: "gettoken (lex s) = Some (code t, p, l)" "line_ahead m start e l ts'"
    "args_at l (argv s) ws" "\<forall>x. t = Word x \<longrightarrow> held l p x"
    by (rule gettoken_keeps [OF assms(1) [unfolded Cons] assms(2)])
  show ?thesis
  proof (cases t)
    case (Sym c)
    then have "c \<noteq> 119" using ahead_code [OF assms(1) [unfolded Cons]] by auto
    then show ?thesis using l(1) Sym Cons by (simp add: redirect_def)
  next
    case (Word x)
    then have "read_str (lmem l) p = Some x" using l(4) by (simp add: read_str_at held_def)
    then show ?thesis using l(1-3) Word Cons by (simp add: redirect_def Let_def)
  qed
qed

lemma parsecmd_parses:
  assumes "line_ahead m start e (lex s) ts" and "args_at (lex s) (argv s) ws"
  shows "agrees (parsecmd w (length ws) s) (parse w ws (rightpipe s) (calls s) ts)"
  using assms
proof (induction ts arbitrary: s ws rule: length_induct)
  case (1 ts)
  note ah = 1(2) and ar = 1(3)
  have IH: "agrees (parsecmd w (length ws') s') (parse w ws' (rightpipe s') (calls s') ts')"
    if "length ts' < length ts" "line_ahead m start e (lex s') ts'" "args_at (lex s') (argv s') ws'" for ts' s' ws'
    using 1(1) that by blast
  show ?case
  proof (cases ts)
    case Nil
    then show ?thesis using tokenizer.at_end ah ar by (subst parsecmd.simps) simp
  next
    case (Cons t ts')
    obtain p l where l: "gettoken (lex s) = Some (code t, p, l)" "line_ahead m start e l ts'"
      "args_at l (argv s) ws" "\<forall>x. t = Word x \<longrightarrow> held l p x"
      by (rule gettoken_keeps [OF ah [unfolded Cons] ar])
    let ?s = "s\<lparr>lex := l\<rparr>"
    show ?thesis
    proof (cases t)
      case (Word x)
      then have a: "length ws < MAXARGS \<Longrightarrow> args_at l ((argv s)[length ws := p]) (ws @ [x])"
        using args_at_snoc [OF l(3)] l(4) by blast
      show ?thesis
      proof (cases "length ws < MAXARGS")
        case True
        then show ?thesis
          using IH [of ts' "?s\<lparr>argv := (argv ?s)[length ws := p]\<rparr>" "ws @ [x]"] l(1,2) a Cons Word
          by (subst parsecmd.simps) simp
      next
        case False
        then show ?thesis using l(1) Cons Word by (subst parsecmd.simps) simp
      qed
    next
      case (Sym c)
      have c: "c \<noteq> 0" "c \<noteq> 119" using ahead_code [OF ah [unfolded Cons]] Sym by auto
      have redir: "agrees
          (Option.bind (redirect w c mode target ?s) (case_sum (\<lambda>s2. Some (Inl s2)) (parsecmd w (length ws))))
          (case ts' of
            Word x # ts'' \<Rightarrow>
              (let h1 = calls s @ [Open x mode]; fd = answer w h1 in
               if fd < 0 then Inl (h1 @ [Debugf (Cant_open x mode), Exit])
               else parse w ws (rightpipe s) (h1 @ [Dup fd target, Close fd]) ts'')
          | _ \<Rightarrow> Inl (calls s @ [Debugf (No_word_after c), Exit]))" for mode target
      proof (cases "\<exists>x ts''. ts' = Word x # ts''")
        case True
        then obtain x ts'' where t: "ts' = Word x # ts''" by blast
        have "agrees (parsecmd w (length ws) s') (parse w ws (rightpipe s) h ts'')"
          if "line_ahead m start e (lex s') ts''" "args_at (lex s') (argv s') ws" "rightpipe s' = rightpipe s" "calls s' = h"
          for s' h
          using IH [of ts'' s' ws] that Cons t by simp
        then show ?thesis
          using redirect_tokens [where s = ?s and m = m and start = start and e = e and ts = ts' and ws = ws and w = w and mode = mode
              and op = c and target = target] l(2,3)
          by (auto simp: t Let_def)
      next
        case False
        then show ?thesis
          using redirect_tokens [where s = ?s and m = m and start = start and e = e and ts = ts' and ws = ws and w = w and mode = mode
              and op = c and target = target] l(2,3)
          by (auto split: list.splits token.splits)
      qed
      consider "c = 60" | "c = 62" | "c = 124" | "c \<noteq> 60" "c \<noteq> 62" "c \<noteq> 124" by blast
      then show ?thesis
      proof cases
        case 1
        then show ?thesis
          using redir [of O_RDONLY 0, unfolded 1] l(1) Cons Sym by (subst parsecmd.simps) simp
      next
        case 2
        then show ?thesis
          using redir [of O_WRONLY 1, unfolded 2] l(1) Cons Sym by (subst parsecmd.simps) simp
      next
        case 3
        have av: "args_at l (argv s) []" using l(3) by (simp add: args_at_def)
        have "agrees (parsecmd w 0 s') (parse w [] 0 h ts')"
          if "lex s' = l" "argv s' = argv s" "rightpipe s' = 0" "calls s' = h" for s' h
          using IH [of ts' s' "[]"] l(2) av that Cons by simp
        then show ?thesis
          using l(1,3) Cons Sym 3
          by (subst parsecmd.simps) (auto simp: make_pipe_def Let_def split: prod.splits)
      next
        case 4
        then show ?thesis
          using IH [of ts' ?s ws] l c Cons Sym by (subst parsecmd.simps) simp
      qed
    qed
  qed
qed

section \<open>Running a line\<close>

fun run_words :: "world \<Rightarrow> call list + u8 list list \<times> int \<times> call list \<Rightarrow> run" where
  "run_words w (Inl h) = Exited h"
| "run_words w (Inr (ws, rp, h)) =
     (if ws = [] then Returned h
      else if length ws = MAXARGS then Overrun h
      else let h1 = h @ [Spawn (hd ws) ws]; child = answer w h1 in
        Exited (h1 @ [Close_all, if 0 \<le> child then Wait child else Debugf (Spawn_failed (hd ws) child)]
          @ (if rp \<noteq> 0 then [Wait rp] else []) @ [Exit]))"

lemma read_strs_words:
  "length ws < length av \<Longrightarrow> \<forall>i < length ws. av ! i \<noteq> 0 \<and> str_at m (av ! i) (ws ! i) \<Longrightarrow>
   av ! length ws = 0 \<Longrightarrow> read_strs m av = Some ws"
proof (induction ws arbitrary: av)
  case Nil
  then show ?case by (cases av) auto
next
  case (Cons x xs)
  then obtain p ps where av: "av = p # ps" by (cases av) auto
  have "\<forall>i < length xs. ps ! i \<noteq> 0 \<and> str_at m (ps ! i) (xs ! i)"
    using Cons.prems(2) av by auto
  then have "read_strs m ps = Some xs" using Cons.IH [of ps] Cons.prems(1,3) av by simp
  moreover have "p \<noteq> 0" "str_at m p x" using Cons.prems(2) av by auto
  ultimately show ?case using av by (simp add: read_str_at)
qed

text \<open>
  Running a line does what the parse of its tokens says, and the parser ends on every line and for
  every answer of the system.
\<close>

lemma runcmd_parse:
  assumes "p \<noteq> 0" and "str_at m p line" and "length stack = MAXARGS"
  shows "runcmd w stack p m = Some (run_words w (parse w [] 0 [] (tokens line)))"
proof -
  obtain l where l: "gettoken_init p m = Some l" "line_ahead m p (p + length line) l (tokens line)"
    by (rule gettoken_init_line [OF assms(1,2)])
  let ?s = "\<lparr>lex = l, argv = stack, rightpipe = 0, calls = []\<rparr>"
  have ag: "agrees (parsecmd w 0 ?s) (parse w [] 0 [] (tokens line))"
    using parsecmd_parses [of m p "p + length line" ?s "tokens line" "[]" w] l(2) args_at_Nil [OF assms(3)] by simp
  show ?thesis
  proof (cases "parse w [] 0 [] (tokens line)")
    case (Inl h)
    then obtain s where "parsecmd w 0 ?s = Some (Inl s)" "calls s = h"
      using ag by (cases "parsecmd w 0 ?s" rule: option.exhaust) (auto split: sum.splits elim: agrees.elims)
    then show ?thesis using l(1) Inl by (simp add: runcmd_def)
  next
    case (Inr r)
    obtain ws rp h where r: "r = (ws, rp, h)" by (cases r) auto
    obtain s where s: "parsecmd w 0 ?s = Some (Inr (length ws, s))" "args_at (lex s) (argv s) ws"
      "rightpipe s = rp" "calls s = h"
      using ag Inr r by (auto elim: agrees.elims)
    let ?av = "(argv s)[length ws := 0]"
    show ?thesis
    proof (cases "ws = [] \<or> MAXARGS \<le> length ws")
      case True
      then show ?thesis using s l(1) Inr r by (auto simp: runcmd_def args_at_def)
    next
      case False
      then have n: "0 < length ws" "length ws < MAXARGS" by auto
      have a: "length (argv s) = MAXARGS"
        "\<forall>i < length ws. argv s ! i \<noteq> 0 \<and> str_at (lmem (lex s)) (argv s ! i) (ws ! i)"
        using s(2) by (auto simp: args_at_def held_def)
      have "read_strs (lmem (lex s)) ?av = Some ws"
        by (rule read_strs_words) (use a n in simp_all)
      moreover have "read_str (lmem (lex s)) (?av ! 0) = Some (hd ws)"
        using a n by (simp add: read_str_at hd_conv_nth)
      ultimately show ?thesis
        using s(1,3,4) l(1) Inr r n by (auto simp: runcmd_def Let_def)
    qed
  qed
qed

lemma parse_words:
  "length ws + length xs \<le> MAXARGS \<Longrightarrow>
     parse w ws rp h (map Word xs @ ts) = parse w (ws @ xs) rp h ts"
  by (induction xs arbitrary: ws) simp_all

lemma parse_too_many:
  "length ws \<le> MAXARGS \<Longrightarrow> MAXARGS < length ws + length xs \<Longrightarrow>
     parse w ws rp h (map Word xs) = Inl (h @ [Debugf Too_many, Exit])"
proof (induction xs arbitrary: ws)
  case (Cons x xs)
  then show ?case by (cases "length ws < MAXARGS") simp_all
qed simp

text \<open>C37: A line of words only runs its first word with all of them and nothing else; without words it
  does nothing; more than \<^verbatim>\<open>MAXARGS\<close> words are refused, but exactly \<^verbatim>\<open>MAXARGS\<close> of them make
  \<^verbatim>\<open>runcmd\<close> store its null pointer behind the end of \<^verbatim>\<open>argv\<close>.
\<close>

theorem runcmd_plain_words:
  assumes "p \<noteq> 0" and "str_at m p line" and "length stack = MAXARGS" and "tokens line = map Word ws"
  shows "runcmd w stack p m = Some
    (if ws = [] then Returned []
     else if length ws < MAXARGS then
       Exited [Spawn (hd ws) ws, Close_all,
         if 0 \<le> answer w [Spawn (hd ws) ws] then Wait (answer w [Spawn (hd ws) ws])
         else Debugf (Spawn_failed (hd ws) (answer w [Spawn (hd ws) ws])), Exit]
     else if length ws = MAXARGS then Overrun []
     else Exited [Debugf Too_many, Exit])"
proof (cases "length ws \<le> MAXARGS")
  case True
  then have "parse w [] 0 [] (tokens line) = Inr (ws, 0, [])"
    using parse_words [of "[]" ws w 0 "[]" "[]"] assms(4) by simp
  then show ?thesis using runcmd_parse [OF assms(1-3)] True by (auto simp: Let_def)
next
  case False
  then have "parse w [] 0 [] (tokens line) = Inl [Debugf Too_many, Exit]"
    using parse_too_many [of "[]" ws w 0 "[]"] assms(4) by simp
  then show ?thesis using runcmd_parse [OF assms(1-3)] False by auto
qed

definition demo_words :: mem where
  "demo_words = (\<lambda>_. 0)(10 := 108, 11 := 115, 12 := 32, 13 := 47)"

lemma runcmd_plain_words_witness:
  "runcmd \<lparr>answer = (\<lambda>_. 5), ends = (\<lambda>_. (0, 0))\<rparr> (replicate MAXARGS 0) 10 demo_words
     = Some (Exited [Spawn [108, 115] [[108, 115], [47]], Close_all, Wait 5, Exit])"
proof -
  have t: "tokens [108, 115, 32, 47] = map Word [[108, 115], [47]]"
    by (simp add: is_space_def is_symbol_def is_word_def)
  have "str_at demo_words 10 [108, 115, 32, 47]"
    by (simp add: str_at_Cons str_at_Nil demo_words_def)
  from runcmd_plain_words [OF _ this _ t, of "replicate MAXARGS 0"] show ?thesis
    by (simp add: MAXARGS_def)
qed

text \<open>C38: A pipeline of two commands: the parent runs the left one with the write end as its output and
  waits for both; the child runs the right one with the read end as its input; each closes both
  descriptors of the pipe; a failed fork starts nothing.
\<close>

theorem runcmd_pipeline:
  assumes "p \<noteq> 0" and "str_at m p line" and "length stack = MAXARGS"
    and "tokens line = map Word xs @ Sym 124 # map Word ys"
    and "xs \<noteq> []" and "ys \<noteq> []" and "length xs < MAXARGS" and "length ys < MAXARGS"
    and "answer w [Pipe] = 0"
  shows "runcmd w stack p m = Some (Exited
    (let (rd, wr) = ends w [Pipe]; f = answer w [Pipe, Fork] in
     if f < 0 then [Pipe, Fork, Debugf No_fork, Exit]
     else
       let side = (if f = 0 then Dup rd 0 else Dup wr 1); cmd = (if f = 0 then ys else xs);
         h = [Pipe, Fork, side, Close rd, Close wr, Spawn (hd cmd) cmd]; child = answer w h in
       h @ [Close_all, if 0 \<le> child then Wait child else Debugf (Spawn_failed (hd cmd) child)]
         @ (if f = 0 then [] else [Wait f]) @ [Exit]))"
proof -
  have "parse w [] 0 [] (tokens line) = parse w xs 0 [] (Sym 124 # map Word ys)"
    using parse_words [of "[]" xs w 0 "[]"] assms(4,7) by simp
  moreover have "parse w [] 0 h (map Word ys) = Inr (ys, 0, h)" for h
    using parse_words [of "[]" ys w 0 h "[]"] assms(8) by simp
  ultimately show ?thesis
    using runcmd_parse [OF assms(1-3), of w] assms(5-9) by (auto simp: Let_def split: prod.splits)
qed

definition demo_pipe :: mem where
  "demo_pipe = (\<lambda>_. 0)(10 := 97, 11 := 124, 12 := 98)"

lemma runcmd_pipeline_witness:
  "runcmd \<lparr>answer = (\<lambda>h. if length h = 1 then 0 else 7), ends = (\<lambda>_. (4, 5))\<rparr> (replicate MAXARGS 0) 10 demo_pipe
     = Some (Exited [Pipe, Fork, Dup 5 1, Close 4, Close 5, Spawn [97] [[97]], Close_all, Wait 7, Wait 7, Exit])"
proof -
  have t: "tokens [97, 124, 98] = map Word [[97]] @ Sym 124 # map Word [[98]]"
    by (simp add: is_space_def is_symbol_def is_word_def)
  have "str_at demo_pipe 10 [97, 124, 98]"
    by (simp add: str_at_Cons str_at_Nil demo_pipe_def)
  from runcmd_pipeline [OF _ this _ t, of "replicate MAXARGS 0"] show ?thesis
    by (simp add: MAXARGS_def)
qed

section \<open>The line editor\<close>

text \<open>
  \<open>inp k\<close> is what the \<open>k\<close>-th \<^verbatim>\<open>read\<close> of one byte returns, with the byte. \<^verbatim>\<open>buf[-1]\<close> is the byte
  before the buffer.
\<close>

datatype echo = Erase | Say complaint
datatype line = Line mem nat "echo list" | Quit "echo list"

definition elem :: "nat \<Rightarrow> int \<Rightarrow> nat" where
  "elem buf i = nat (int buf + i)"

definition is_erase :: "u8 \<Rightarrow> bool" where
  "is_erase b \<longleftrightarrow> b = 8 \<or> b = 0x7F"

definition is_eol :: "u8 \<Rightarrow> bool" where
  "is_eol b \<longleftrightarrow> b = 13 \<or> b = 10"

partial_function (option) swallow :: "(nat \<Rightarrow> int \<times> u8) \<Rightarrow> nat \<Rightarrow> nat \<Rightarrow> mem \<Rightarrow> (nat \<times> mem) option" where
  "swallow inp buf k m =
     (if fst (inp k) = 1 then
        let m1 = m(buf := snd (inp k)) in
        if is_eol (m1 buf) then Some (k + 1, m1) else swallow inp buf (k + 1) m1
      else Some (k + 1, m))"

partial_function (option) readline :: "(nat \<Rightarrow> int \<times> u8) \<Rightarrow> nat \<Rightarrow> u32 \<Rightarrow> int \<Rightarrow> nat \<Rightarrow> mem \<Rightarrow> echo list \<Rightarrow> line option" where
  "readline inp buf n i k m out =
     (if (word_of_int i :: u32) < n then
        let r = fst (inp k) in
        if r \<noteq> 1 then Some (Quit (out @ (if r < 0 then [Say (Read_error r)] else [])))
        else
          let m1 = m(elem buf i := snd (inp k));
            del = is_erase (m1 (elem buf i));
            i1 = (if del then if 0 < i then i - 2 else -1 else i);
            out1 = (if del \<and> m1 (elem buf i1) \<noteq> 8 then out @ [Erase] else out) in
          if is_eol (m1 (elem buf i1)) then Some (Line (m1(elem buf i1 := 0)) (k + 1) out1)
          else readline inp buf n (i1 + 1) (k + 1) m1 out1
      else do {
        (k1, m1) \<leftarrow> swallow inp buf k m;
        Some (Line (m1(buf := 0)) k1 (out @ [Say Line_too_long]))
      })"

text \<open>The line as typed: an erase character takes the last one away.\<close>

definition edit :: "u8 list \<Rightarrow> u8 \<Rightarrow> u8 list" where
  "edit ed b = (if is_erase b then butlast ed else ed @ [b])"

definition typed :: "u8 list \<Rightarrow> u8 list" where
  "typed = foldl edit []"

lemma elem_nat [simp]: "elem buf (int j) = buf + j"
  by (simp add: elem_def nat_add_distrib)

lemma elem_minus_1 [simp]: "0 < buf \<Longrightarrow> elem buf (-1) = buf - 1"
  by (simp add: elem_def)

lemma index_less: "j < unat n \<Longrightarrow> (word_of_int (int j) :: u32) < n"
  by (simp add: word_less_nat_alt unat_of_nat le_less_trans [OF mod_less_eq_dividend])

lemma not_eol_erase: "is_eol b \<Longrightarrow> \<not> is_erase b"
  by (auto simp: is_eol_def is_erase_def)

text \<open>One character that is not the end of the line.\<close>

lemma readline_step:
  assumes "inp k = (1, x)" and "\<not> is_eol x" and "\<forall>x \<in> set ed. \<not> is_eol x" and "length ed < unat n"
    and "0 < buf" and "\<not> is_eol (m (buf - 1))" and "\<forall>j < length ed. m (buf + j) = ed ! j"
  obtains o' where "set o' \<subseteq> {Erase}"
    and "readline inp buf n (int (length ed)) k m out
      = readline inp buf n (int (length (edit ed x))) (k + 1) (m(buf + length ed := x)) (out @ o')"
    and "\<forall>j < length (edit ed x). (m(buf + length ed := x)) (buf + j) = edit ed x ! j"
proof -
  let ?i = "int (length ed)" and ?m = "m(buf + length ed := x)"
  let ?i1 = "if is_erase x then if 0 < ?i then ?i - 2 else -1 else ?i"
  let ?o = "if is_erase x \<and> ?m (elem buf ?i1) \<noteq> 8 then [Erase] else []"
  have nx: "?i1 + 1 = int (length (edit ed x))"
    by (auto simp: edit_def of_nat_diff Suc_le_eq)
  have "\<not> is_eol (?m (elem buf ?i1))"
  proof -
    consider "\<not> is_erase x" | "is_erase x" "length ed \<le> 1" | "is_erase x" "2 \<le> length ed" by linarith
    then show ?thesis
    proof cases
      case 1
      then show ?thesis using assms(2) by simp
    next
      case 2
      then have "?i1 = -1" by (cases "length ed") auto
      moreover have "?m (buf - 1) = m (buf - 1)" using assms(5) by auto
      ultimately show ?thesis using assms(5,6) by simp
    next
      case 3
      then have i1: "?i1 = int (length ed - 2)" by (auto simp: of_nat_diff)
      have "m (buf + (length ed - 2)) = ed ! (length ed - 2)" "buf + (length ed - 2) < buf + length ed"
        using assms(7) [rule_format, of "length ed - 2"] 3(2) by simp_all
      then have "?m (buf + (length ed - 2)) = ed ! (length ed - 2)" by simp
      moreover have "ed ! (length ed - 2) \<in> set ed" using 3(2) by (intro nth_mem) simp
      ultimately show ?thesis using assms(3) unfolding i1 elem_nat by simp
    qed
  qed
  then have "readline inp buf n ?i k m out = readline inp buf n (?i1 + 1) (k + 1) ?m (out @ ?o)"
    using assms(1) index_less [OF assms(4)]
    by (subst readline.simps) (simp add: Let_def)
  then show ?thesis
    using nx assms(7) by (intro that [of ?o]) (auto simp: edit_def nth_append nth_butlast)
qed

lemma readline_edits:
  assumes "\<forall>j < length xs. inp (k + j) = (1, xs ! j)" and "inp (k + length xs) = (1, nl)" and "is_eol nl"
    and "\<forall>x \<in> set xs. \<not> is_eol x \<and> x \<noteq> 0" and "\<forall>x \<in> set ed. \<not> is_eol x \<and> x \<noteq> 0"
    and "\<forall>j \<le> length xs. length (foldl edit ed (take j xs)) < unat n"
    and "0 < buf" and "\<not> is_eol (m (buf - 1))"
    and "\<forall>j < length ed. m (buf + j) = ed ! j"
  shows "\<exists>m' out'. readline inp buf n (int (length ed)) k m out = Some (Line m' (k + length xs + 1) (out @ out'))
    \<and> str_at m' buf (foldl edit ed xs)
    \<and> (\<forall>a. a < buf \<or> buf + unat n \<le> a \<longrightarrow> m' a = m a) \<and> set out' \<subseteq> {Erase}"
  using assms
proof (induction xs arbitrary: ed k m out)
  case Nil
  have n: "length ed < unat n" using Nil.prems(6) by simp
  let ?m = "m(buf + length ed := 0)"
  have "readline inp buf n (int (length ed)) k m out = Some (Line ?m (k + 1) out)"
    using Nil.prems(2,3) not_eol_erase index_less [OF n] by (subst readline.simps) (simp add: Let_def)
  moreover have "str_at ?m buf ed"
    using str_at_split [of ?m buf ed "[]"] Nil.prems(5,9) by (auto simp: str_at_Nil)
  moreover have "\<forall>a. a < buf \<or> buf + unat n \<le> a \<longrightarrow> ?m a = m a" using n by auto
  ultimately show ?case
    by (intro exI [of _ ?m] exI [of _ "[]"]) (simp del: fun_upd_apply)
next
  case (Cons x xs)
  have n: "length ed < unat n" using Cons.prems(6) by (metis foldl_Nil le0 take0)
  have x: "inp k = (1, x)" "\<not> is_eol x" "x \<noteq> 0"
    using Cons.prems(1) [rule_format, of 0] Cons.prems(4) by auto
  let ?m = "m(buf + length ed := x)"
  obtain o' where o': "set o' \<subseteq> {Erase}"
    "readline inp buf n (int (length ed)) k m out
      = readline inp buf n (int (length (edit ed x))) (k + 1) ?m (out @ o')"
    "\<forall>j < length (edit ed x). ?m (buf + j) = edit ed x ! j"
    by (rule readline_step [where inp = inp and k = k and x = x and ed = ed and n = n and buf = buf and m = m and out = out])
      (use x n Cons.prems in auto)
  have "\<exists>m' out'. readline inp buf n (int (length (edit ed x))) (k + 1) ?m (out @ o')
      = Some (Line m' (k + 1 + length xs + 1) ((out @ o') @ out'))
    \<and> str_at m' buf (foldl edit (edit ed x) xs)
    \<and> (\<forall>a. a < buf \<or> buf + unat n \<le> a \<longrightarrow> m' a = ?m a) \<and> set out' \<subseteq> {Erase}"
  proof (rule Cons.IH)
    show "\<forall>j < length xs. inp (k + 1 + j) = (1, xs ! j)"
      using Cons.prems(1) by (auto dest: spec [of _ "Suc _"])
    show "\<forall>j \<le> length xs. length (foldl edit (edit ed x) (take j xs)) < unat n"
      using Cons.prems(6) by (auto dest: spec [of _ "Suc _"])
    show "\<forall>y \<in> set (edit ed x). \<not> is_eol y \<and> y \<noteq> 0"
      using Cons.prems(5) x by (auto simp: edit_def dest: in_set_butlastD)
  qed (use Cons.prems o'(3) in auto)
  then show ?case using o'(1,2) n by auto
qed

section \<open>The shell\<close>

text \<open>
  The options (\<^verbatim>\<open>ARGBEGIN\<close> of \<^verbatim>\<open>include/args.h\<close>): the arguments after the program name, as strings; the
  null pointer stands behind them. \<open>None\<close> is the end in \<^verbatim>\<open>usage\<close>.
\<close>

fun sh_flags :: "u8 list \<Rightarrow> bool \<times> bool \<Rightarrow> (bool \<times> bool) option" where
  "sh_flags [] f = Some f"
| "sh_flags (c # cs) (interactive, echocmds) =
     (if c = 105 then sh_flags cs (True, echocmds)
      else if c = 120 then sh_flags cs (interactive, True)
      else None)"

fun sh_args :: "u8 list list \<Rightarrow> bool \<times> bool \<Rightarrow> ((bool \<times> bool) \<times> u8 list list) option" where
  "sh_args [] f = Some (f, [])"
| "sh_args (a # as) f =
     (if 2 \<le> length a \<and> hd a = 45 then
        if a = [45, 45] then Some (f, as)
        else do { f1 \<leftarrow> sh_flags (tl a) f; sh_args as f1 }
      else Some (f, a # as))"

definition arg :: "u8 list list \<Rightarrow> nat \<Rightarrow> u8 list option" where
  "arg as i = (if i < length as then Some (as ! i) else None)"

datatype start = Ready "bool \<times> bool" "call list" | Ended "call list" | Null_path "call list"

definition sh_start :: "world \<Rightarrow> bool \<Rightarrow> u8 list list \<Rightarrow> start" where
  "sh_start w interactive as =
     (case sh_args as (interactive, False) of
        None \<Rightarrow> Ended [Debugf Usage, Exit]
      | Some (f, rest) \<Rightarrow>
          if 1 < length rest then Ended [Debugf Usage, Exit]
          else if length rest = 1 then
            (case arg rest 1 of
               None \<Rightarrow> Null_path [Close 0]
             | Some path \<Rightarrow>
                 let h = [Close 0, Open path O_RDONLY] in
                 if answer w h = 0 then Ready f h else Ended h)
          else Ready f [])"

text \<open>One turn of the loop, in the shell or in the child it forks for the line.\<close>

datatype turn = Again mem nat "call list" | Child run | Gone "echo list" | Fork_failed

definition sh_turn :: "world \<Rightarrow> (nat \<Rightarrow> int \<times> u8) \<Rightarrow> nat list \<Rightarrow> nat \<Rightarrow> nat \<Rightarrow> mem \<Rightarrow> turn option" where
  "sh_turn w inp stack buf k m = do {
     r \<leftarrow> readline inp buf 1024 0 k m [];
     case r of
       Quit out \<Rightarrow> Some (Gone out)
     | Line m1 k1 out \<Rightarrow>
         if m1 buf = 35 then Some (Again m1 k1 [])
         else
           let f = answer w [Fork] in
           if f < 0 then Some Fork_failed
           else if f = 0 then do { r \<leftarrow> runcmd w stack buf m1; Some (Child r) }
           else Some (Again m1 k1 [Fork, Wait f])
   }"

text \<open>A command file is never opened: the null pointer behind the arguments is.\<close>

lemma sh_start_null_path:
  "sh_args as (interactive, False) = Some (f, [file]) \<Longrightarrow> sh_start w interactive as = Null_path [Close 0]"
  by (simp add: sh_start_def arg_def)

text \<open>C39: A line typed at the shell, erase characters included, is run by the child: what the child
  does is the parse of the tokens of the edited line, whatever the buffer held before. A comment
  runs nothing, and the shell itself waits for the child.
\<close>

theorem sh_turn_runs_typed:
  assumes "\<forall>j < length xs. inp (k + j) = (1, xs ! j)" and "inp (k + length xs) = (1, nl)" and "is_eol nl"
    and "\<forall>x \<in> set xs. \<not> is_eol x \<and> x \<noteq> 0"
    and "\<forall>j \<le> length xs. length (typed (take j xs)) < 1024"
    and "0 < buf" and "\<not> is_eol (m (buf - 1))" and "length stack = MAXARGS" and "0 \<le> answer w [Fork]"
  shows "if take 1 (typed xs) = [35] then \<exists>m'. sh_turn w inp stack buf k m = Some (Again m' (k + length xs + 1) [])
    else if answer w [Fork] = 0 then
      sh_turn w inp stack buf k m = Some (Child (run_words w (parse w [] 0 [] (tokens (typed xs)))))
    else \<exists>m'. sh_turn w inp stack buf k m = Some (Again m' (k + length xs + 1) [Fork, Wait (answer w [Fork])])"
proof -
  obtain m' out' where r: "readline inp buf 1024 0 k m [] = Some (Line m' (k + length xs + 1) out')"
    "str_at m' buf (typed xs)"
    using readline_edits [OF assms(1-4), of "[]" 1024 buf m "[]"] assms(5-7) by (auto simp: typed_def)
  have h: "m' buf = 35 \<longleftrightarrow> take 1 (typed xs) = [35]"
    using r(2) by (cases "typed xs") (auto simp: str_at_Nil str_at_Cons)
  have "runcmd w stack buf m' = Some (run_words w (parse w [] 0 [] (tokens (typed xs))))"
    by (rule runcmd_parse [OF _ r(2) assms(8)]) (use assms(6) in simp)
  then show ?thesis using r(1) h assms(9) by (simp add: sh_turn_def Let_def)
qed

lemma sh_turn_runs_typed_witness:
  "sh_turn \<lparr>answer = (\<lambda>h. if h = [Fork] then 0 else 9), ends = (\<lambda>_. (0, 0))\<rparr>
      (\<lambda>k. (1, [108, 97, 127, 115, 13] ! k)) (replicate MAXARGS 0) 100 0 (\<lambda>_. 0)
     = Some (Child (Exited [Spawn [108, 115] [[108, 115]], Close_all, Wait 9, Exit]))"
proof -
  let ?xs = "[108, 97, 127, 115] :: u8 list"
  have t: "typed ?xs = [108, 115]" "tokens [108, 115] = [Word [108, 115]]"
    by (simp_all add: typed_def edit_def is_erase_def is_space_def is_symbol_def is_word_def)
  have small: "\<forall>j \<le> length ?xs. length (typed (take j ?xs)) < 1024"
  proof (intro allI impI)
    fix j assume "j \<le> length ?xs"
    then consider "j = 0" | "j = 1" | "j = 2" | "j = 3" | "j = 4" by fastforce
    then show "length (typed (take j ?xs)) < 1024"
      by cases (simp_all add: typed_def edit_def is_erase_def)
  qed
  have inp: "\<forall>j < length ?xs. (1 :: int, [108, 97, 127, 115, 13] ! (0 + j) :: u8) = (1, ?xs ! j)"
    by (auto simp: less_Suc_eq)
  show ?thesis
    using sh_turn_runs_typed [of ?xs "\<lambda>k. (1, [108, 97, 127, 115, 13] ! k)" 0 13 100 "\<lambda>_. 0"
        "replicate MAXARGS 0" "\<lparr>answer = (\<lambda>h. if h = [Fork] then 0 else 9), ends = (\<lambda>_. (0, 0))\<rparr>"]
      inp small t by (simp add: is_eol_def MAXARGS_def)
qed

end
