(* ===== verification/Spawn.thy ===== *)
theory Spawn
  imports UserFd CString
begin

text \<open>
  Starting a program (\<^verbatim>\<open>user/lib/spawn.c\<close>), and waiting for messages and processes (\<^verbatim>\<open>ipc.c\<close>,
  \<^verbatim>\<open>wait.c\<close>, \<^verbatim>\<open>libos.c\<close>), run by the current process on the system calls of Syscall. A \<^verbatim>\<open>char **\<close> is the list of its
  strings. The files are an argument, since their client is modelled on another state in UserFile.
  \<^verbatim>\<open>None\<close> is a panic or an access that faults; the messages of \<^verbatim>\<open>debugf\<close> are left out.
\<close>

section \<open>The initial stack\<close>

definition args_tot :: "u8 list list \<Rightarrow> u32" where
  "args_tot argv = word_of_nat (sum_list (map (\<lambda>a. length a + 1) argv))"

fun put_strings :: "u32 \<Rightarrow> u8 list list \<Rightarrow> kstate \<Rightarrow> kstate option" where
  "put_strings ctemp [] s = Some s"
| "put_strings ctemp (a # as) s = do {
     s1 \<leftarrow> store_bytes ctemp (a @ [0]) s;
     put_strings (ctemp + word_of_nat (length a) + 1) as s1
   }"

text \<open>The result is \<^verbatim>\<open>ctemp\<close> after the loop.\<close>

fun put_args :: "u32 \<Rightarrow> u32 \<Rightarrow> u8 list list \<Rightarrow> kstate \<Rightarrow> (u32 \<times> kstate) option" where
  "put_args args ctemp [] s = Some (ctemp, s)"
| "put_args args ctemp (a # as) s = do {
     s1 \<leftarrow> store_word args ctemp s;
     put_args (args + 4) (ctemp + word_of_nat (length a) + 1) as s1
   }"

definition init_stack :: "u32 \<Rightarrow> u8 list list \<Rightarrow> kstate \<Rightarrow> ((kerr + u32) \<times> kstate) option" where
  "init_stack child argv s =
     (let argc = word_of_nat (length argv);
          tot = args_tot argv
      in if BY2PG < ROUND tot 4 + 4 * (argc + 3) then Some (Inl E_NO_MEM, s)
      else do {
        let strings = UTEMP + BY2PG - tot;
        let args = UTEMP + BY2PG - ROUND tot 4 - 4 * (argc + 1);
        (r, s1) \<leftarrow> sys_mem_alloc 0 UTEMP PTE_D s;
        case r of
          Inl e \<Rightarrow> Some (Inl e, s1)
        | Inr _ \<Rightarrow> do {
            s2 \<leftarrow> put_strings strings argv s1;
            (ctemp, s3) \<leftarrow> put_args args (USTACKTOP - UTEMP - BY2PG + strings) argv s2;
            s4 \<leftarrow> store_word (args + 4 * argc) (ctemp - 1) s3;
            s5 \<leftarrow> store_word (args - 4) (USTACKTOP - UTEMP - BY2PG + args) s4;
            s6 \<leftarrow> store_word (args - 8) argc s5;
            let init_sp = USTACKTOP - UTEMP - BY2PG + (args - 8);
            (r7, s7) \<leftarrow> sys_mem_map 0 UTEMP child (USTACKTOP - BY2PG) PTE_D s6;
            case r7 of
              Inl e \<Rightarrow> do { (_, s8) \<leftarrow> sys_mem_unmap 0 UTEMP s7; Some (Inl e, s8) }
            | Inr _ \<Rightarrow> do {
                (r8, s8) \<leftarrow> sys_mem_unmap 0 UTEMP s7;
                case r8 of
                  Inl e \<Rightarrow> do { (_, s9) \<leftarrow> sys_mem_unmap 0 UTEMP s8; Some (Inl e, s9) }
                | Inr _ \<Rightarrow> Some (Inr init_sp, s8)
              }
          }
      })"

section \<open>Segments\<close>

definition spawn_mapper :: "u32 \<Rightarrow> mapcall \<Rightarrow> kstate \<Rightarrow> ((kerr + unit) \<times> kstate) option" where
  "spawn_mapper child c s =
     (case c of (va, offset, perm, src, len) \<Rightarrow> do {
        (r, s1) \<leftarrow> sys_mem_alloc child va perm s;
        case r of
          Inl e \<Rightarrow> Some (Inl e, s1)
        | Inr _ \<Rightarrow> (case src of
            None \<Rightarrow> Some (Inr (), s1)
          | Some m \<Rightarrow> do {
              (r2, s2) \<leftarrow> sys_mem_map child va 0 UTEMP (perm OR PTE_D) s1;
              case r2 of
                Inl e \<Rightarrow> do { (_, s3) \<leftarrow> sys_mem_unmap child va s2; Some (Inl e, s3) }
              | Inr _ \<Rightarrow> do {
                  s3 \<leftarrow> store_bytes (UTEMP + offset) (map m [0..<unat len]) s2;
                  (r4, s4) \<leftarrow> sys_mem_unmap 0 UTEMP s3;
                  Some (map_sum id (\<lambda>_. ()) r4, s4)
                }
            })
      })"

text \<open>\<^verbatim>\<open>open\<close>, \<^verbatim>\<open>read_map\<close> (with the memory seen from the address it gives), the transfers behind \<^verbatim>\<open>read\<close> and
  the closing of files.\<close>

record files =
  f_open :: "u8 list \<Rightarrow> u32 \<Rightarrow> kstate \<Rightarrow> ((kerr + int) \<times> kstate) option"
  f_map :: "int \<Rightarrow> u32 \<Rightarrow> kstate \<Rightarrow> ((kerr + bytes) \<times> kstate) option"
  f_io :: devio
  f_close :: fserver

text \<open>
  The loop over the program headers. \<^verbatim>\<open>ehdr\<close> points to the buffer at \<open>buf\<close>, into which the program
  headers are read too: the fields that the loop uses are read from it again in every round.
\<close>

definition read_ehdr :: "u32 \<Rightarrow> kstate \<Rightarrow> (Elf32_Ehdr \<times> kstate) option" where
  "read_ehdr buf s = do { (bs, s1) \<leftarrow> load_bytes buf 52 s; Some (ehdr_at (\<lambda>k. bs ! k), s1) }"

definition load_segment :: "files \<Rightarrow> u32 \<Rightarrow> int \<Rightarrow> u32 \<Rightarrow> kstate \<Rightarrow> ((kerr + unit) \<times> kstate) option" where
  "load_segment fs child fd buf s = do {
     (bs, s1) \<leftarrow> load_bytes buf 32 s;
     let ph = phdr_at (\<lambda>k. bs ! k);
     if p_type ph = PT_LOAD then do {
       (r, s2) \<leftarrow> f_map fs fd (p_offset ph) s1;
       case r of Inl e \<Rightarrow> Some (Inl e, s2) | Inr bin \<Rightarrow> elf_load_seg ph bin (spawn_mapper child) s2
     }
     else Some (Inr (), s1)
   }"

partial_function (option) load_segments :: "files \<Rightarrow> u32 \<Rightarrow> int \<Rightarrow> u32 \<Rightarrow> nat \<Rightarrow> u32 \<Rightarrow> kstate \<Rightarrow> ((kerr + unit) \<times> kstate) option" where
  "load_segments fs child fd buf idx ph_off s =
     Option.bind (read_ehdr buf s) (\<lambda>(eh, s1).
       if idx < unat (e_phnum eh) then
         Option.bind (seek fd ph_off s1) (\<lambda>(_, s2).
         Option.bind (readn (f_io fs) fd buf (ucast (e_phentsize eh)) 0 s2) (\<lambda>(n, s3).
         Option.bind (read_ehdr buf s3) (\<lambda>(eh3, s4).
           if n \<noteq> int (unat (e_phentsize eh3)) then Some (Inl E_NOT_EXEC, s4)
           else Option.bind (load_segment fs child fd buf s4) (\<lambda>(r, s5).
             case r of
               Inl e \<Rightarrow> Some (Inl e, s5)
             | Inr _ \<Rightarrow> Option.bind (read_ehdr buf s5) (\<lambda>(eh5, s6).
                 load_segments fs child fd buf (idx + 1) (ph_off + ucast (e_phentsize eh5)) s6)))))
       else Some (Inr (), s1))"

section \<open>Shared pages\<close>

fun share_ptes :: "u32 \<Rightarrow> nat list \<Rightarrow> kstate \<Rightarrow> ((kerr + unit) \<times> kstate) option" where
  "share_ptes child [] s = Some (Inr (), s)"
| "share_ptes child (pn # pns) s = do {
     pte \<leftarrow> vpt_at pn s;
     let perm = PTE_PERM pte;
     if perm AND PTE_V \<noteq> 0 \<and> perm AND PTE_LIBRARY \<noteq> 0 then do {
       let va = push_bit 12 (word_of_nat pn);
       (r, s1) \<leftarrow> sys_mem_map 0 va child va perm s;
       case r of Inl e \<Rightarrow> Some (Inl e, s1) | Inr _ \<Rightarrow> share_ptes child pns s1
     }
     else share_ptes child pns s
   }"

fun share_pdes :: "u32 \<Rightarrow> nat list \<Rightarrow> kstate \<Rightarrow> ((kerr + unit) \<times> kstate) option" where
  "share_pdes child [] s = Some (Inr (), s)"
| "share_pdes child (pdeno # pdenos) s = do {
     pde \<leftarrow> vpd_at pdeno s;
     if \<not> pte_valid pde then share_pdes child pdenos s
     else do {
       (r, s1) \<leftarrow> share_ptes child [pdeno * 1024..<(pdeno + 1) * 1024] s;
       case r of Inl e \<Rightarrow> Some (Inl e, s1) | Inr _ \<Rightarrow> share_pdes child pdenos s1
     }
   }"

section \<open>\<^verbatim>\<open>spawn\<close>\<close>

text \<open>The labels \<^verbatim>\<open>err\<close>, \<^verbatim>\<open>err1\<close> and \<^verbatim>\<open>err2\<close>.\<close>

definition spawn_err :: "files \<Rightarrow> int \<Rightarrow> kerr \<Rightarrow> kstate \<Rightarrow> ((kerr + u32) \<times> kstate) option" where
  "spawn_err fs fd e s = do { (_, s1) \<leftarrow> close (f_close fs) fd s; Some (Inl e, s1) }"

definition spawn_err1 :: "files \<Rightarrow> int \<Rightarrow> u32 \<Rightarrow> kerr \<Rightarrow> kstate \<Rightarrow> ((kerr + u32) \<times> kstate) option" where
  "spawn_err1 fs fd child e s = do { (_, s1) \<leftarrow> sys_env_destroy child s; spawn_err fs fd e s1 }"

definition spawn_err2 :: "u32 \<Rightarrow> kerr \<Rightarrow> kstate \<Rightarrow> ((kerr + u32) \<times> kstate) option" where
  "spawn_err2 child e s = do { (_, s1) \<leftarrow> sys_env_destroy child s; Some (Inl e, s1) }"

text \<open>From the registers of the child on; \<open>tfp\<close> is where \<^verbatim>\<open>tf\<close> is on the stack.\<close>

definition spawn_start :: "u32 \<Rightarrow> u32 \<Rightarrow> u32 \<Rightarrow> u32 \<Rightarrow> kstate \<Rightarrow> ((kerr + u32) \<times> kstate) option" where
  "spawn_start child entrypoint sp tfp s = do {
     let tf = (set_reg 29 sp (env_tf (envs s (ENVX child))))\<lparr>cp0_epc := entrypoint\<rparr>;
     s1 \<leftarrow> store_words tfp (tf_words tf) s;
     (r, s2) \<leftarrow> sys_set_trapframe child tfp s1;
     case r of
       Inl e \<Rightarrow> spawn_err2 child e s2
     | Inr _ \<Rightarrow> do {
         (r3, s3) \<leftarrow> share_pdes child [0..<Suc (PDX USTACKTOP)] s2;
         case r3 of
           Inl e \<Rightarrow> spawn_err2 child e s3
         | Inr _ \<Rightarrow> do {
             (r4, s4) \<leftarrow> sys_set_env_status child (status_of ENV_RUNNABLE) s3;
             case r4 of Inl e \<Rightarrow> spawn_err2 child e s4 | Inr _ \<Rightarrow> Some (Inr child, s4)
           }
       }
   }"

definition spawn :: "files \<Rightarrow> u8 list \<Rightarrow> u8 list list \<Rightarrow> u32 \<Rightarrow> u32 \<Rightarrow> kstate \<Rightarrow> ((kerr + u32) \<times> kstate) option" where
  "spawn fs prog argv elfbuf tfp s = do {
     (r, s1) \<leftarrow> f_open fs prog O_RDONLY s;
     case r of
       Inl e \<Rightarrow> Some (Inl e, s1)
     | Inr fd \<Rightarrow> do {
         (n, s2) \<leftarrow> readn (f_io fs) fd elfbuf 52 0 s1;
         if n \<noteq> 52 then spawn_err fs fd E_NOT_EXEC s2
         else do {
           (bs, s3) \<leftarrow> load_bytes elfbuf 52 s2;
           case elf_from (\<lambda>k. bs ! k) 52 of
             None \<Rightarrow> spawn_err fs fd E_NOT_EXEC s3
           | Some ehdr \<Rightarrow> do {
               (r4, s4) \<leftarrow> sys_exofork s3;
               case r4 of
                 Inl e \<Rightarrow> spawn_err fs fd e s4
               | Inr child \<Rightarrow> do {
                   (r5, s5) \<leftarrow> init_stack child argv s4;
                   case r5 of
                     Inl e \<Rightarrow> spawn_err1 fs fd child e s5
                   | Inr sp \<Rightarrow> do {
                       (r6, s6) \<leftarrow> load_segments fs child fd elfbuf 0 (e_phoff ehdr) s5;
                       case r6 of
                         Inl e \<Rightarrow> spawn_err1 fs fd child e s6
                       | Inr _ \<Rightarrow> do {
                           (_, s7) \<leftarrow> close (f_close fs) fd s6;
                           spawn_start child (e_entry ehdr) sp tfp s7
                         }
                     }
                 }
             }
         }
       }
   }"

section \<open>Messages, waiting and the end of a process\<close>

text \<open>
  \<open>others\<close> is what happens from a call that gives the processor away until this process runs again.
\<close>

partial_function (option) ipc_send_user :: "(kstate \<Rightarrow> kstate option) \<Rightarrow> u32 \<Rightarrow> u32 \<Rightarrow> u32 \<Rightarrow> u32 \<Rightarrow> kstate \<Rightarrow> kstate option" where
  "ipc_send_user others whom val srcva perm s =
     Option.bind (sys_ipc_try_send whom val srcva perm s) (\<lambda>(r, s1).
       case r of
         Inr _ \<Rightarrow> Some s1
       | Inl e \<Rightarrow>
           if e = E_IPC_NOT_RECV then
             Option.bind (sys_yield s1) (\<lambda>(_, s2).
             Option.bind (others s2) (\<lambda>s3. ipc_send_user others whom val srcva perm s3))
           else None)"

text \<open>The value, the sender and the permission.\<close>

definition ipc_recv_user :: "(kstate \<Rightarrow> kstate option) \<Rightarrow> u32 \<Rightarrow> kstate \<Rightarrow> ((u32 \<times> u32 \<times> u32) \<times> kstate) option" where
  "ipc_recv_user others dstva s = do {
     c \<leftarrow> curenv s;
     (r, s1) \<leftarrow> sys_ipc_recv dstva s;
     case r of
       Ret _ \<Rightarrow> None
     | Switched \<Rightarrow> do {
         s2 \<leftarrow> others s1;
         let e = envs s2 c;
         Some ((env_ipc_value e, env_ipc_from e, env_ipc_perm e), s2)
       }
   }"

partial_function (option) wait_user :: "(kstate \<Rightarrow> kstate option) \<Rightarrow> u32 \<Rightarrow> kstate \<Rightarrow> kstate option" where
  "wait_user others envid s =
     (let e = envs s (ENVX envid) in
      if env_id e = envid \<and> env_status e \<noteq> ENV_FREE then
        Option.bind (sys_yield s) (\<lambda>(_, s1).
        Option.bind (others s1) (\<lambda>s2. wait_user others envid s2))
      else Some s)"

text \<open>\<^verbatim>\<open>exit\<close> does not return: a return of \<^verbatim>\<open>syscall_env_destroy\<close> is a panic.\<close>

definition exit_user :: "fserver \<Rightarrow> kstate \<Rightarrow> kstate option" where
  "exit_user fclose s = do {
     s1 \<leftarrow> close_all fclose s;
     (r, s2) \<leftarrow> sys_env_destroy 0 s1;
     case r of Switched \<Rightarrow> Some s2 | Ret _ \<Rightarrow> None
   }"

end
