(* ===== verification/SpawnSpec.thy ===== *)
theory SpawnSpec
  imports Spawn
begin

text \<open>
  What \<^verbatim>\<open>spawn\<close> builds in the new process: the first page of its stack with the arguments, and the pages of its
  segments. The stores to a page are followed on its bytes.
\<close>

section \<open>The bytes of a page\<close>

definition page_bytes :: "kstate \<Rightarrow> nat \<Rightarrow> mem" where
  "page_bytes s p a = get_byte (pmem s p (a div 4)) (a mod 4)"

lemma rd32_page_bytes: "rd32 (page_bytes s p) (4 * k) = pmem s p k"
proof -
  have "(4 * k + 1) div 4 = k" "(4 * k + 2) div 4 = k" "(4 * k + 3) div 4 = k"
    "(4 * k + 1) mod 4 = 1" "(4 * k + 2) mod 4 = 2" "(4 * k + 3) mod 4 = 3" by presburger+
  then show ?thesis using word_of_bytes_get_byte [of "pmem s p k"] by (simp add: rd32_def page_bytes_def)
qed

lemma page_bytes_zero: "\<forall>w < 1024. pmem s p w = 0 \<Longrightarrow> a < 4096 \<Longrightarrow> page_bytes s p a = 0"
  by (simp add: page_bytes_def get_byte_def)

text \<open>Only page \<open>p\<close> and the TLB differ.\<close>

definition wrote :: "nat \<Rightarrow> kstate \<Rightarrow> kstate \<Rightarrow> bool" where
  "wrote p s s' \<longleftrightarrow> (\<exists>t f. s' = s\<lparr>tlb := t, pmem := (pmem s)(p := f)\<rparr>)"

lemma wrote_refl: "wrote p s s"
proof -
  have "s = s\<lparr>tlb := tlb s, pmem := (pmem s)(p := pmem s p)\<rparr>" by simp
  then show ?thesis unfolding wrote_def by blast
qed

lemma wrote_trans: "wrote p s s1 \<Longrightarrow> wrote p s1 s2 \<Longrightarrow> wrote p s s2"
proof -
  assume "wrote p s s1" and "wrote p s1 s2"
  then obtain t f t' f' where e: "s1 = s\<lparr>tlb := t, pmem := (pmem s)(p := f)\<rparr>"
    "s2 = s1\<lparr>tlb := t', pmem := (pmem s1)(p := f')\<rparr>" by (auto simp: wrote_def)
  then have "s2 = s\<lparr>tlb := t', pmem := (pmem s)(p := f')\<rparr>" by simp
  then show ?thesis unfolding wrote_def by blast
qed

lemma wrote_keeps:
  assumes "wrote p s s'" and "data_page s K p"
  shows "vmap s' K = vmap s K" and "tab s' K = tab s K" and "runs s' K ext fl c d = runs s K ext fl c d"
    and "pm_inv s' K ext fl = pm_inv s K ext fl" and "pp_ref s' = pp_ref s" and "envs s' = envs s"
    and "envid2env i q s' = envid2env i q s" and "owns s' K e dc = owns s K e dc" and "data_page s' K x = data_page s K x"
    and "pm_state.more s' = pm_state.more s" and "q0 \<noteq> p \<Longrightarrow> pmem s' q0 = pmem s q0" and "cur_pgdir s' = cur_pgdir s"
proof -
  obtain t f where e: "s' = s\<lparr>tlb := t, pmem := (pmem s)(p := f)\<rparr>" using assms(1) by (auto simp: wrote_def)
  let ?s = "s\<lparr>tlb := t\<rparr>"
  have s': "s' = ?s\<lparr>pmem := (pmem ?s)(p := f)\<rparr>" by (simp add: e)
  have dp: "data_page ?s K p" using assms(2) by (simp add: data_page_def)
  note w = data_write [OF dp, of f, folded s']
  show vm: "vmap s' K = vmap s K" and tb: "tab s' K = tab s K" and pm: "pm_inv s' K ext fl = pm_inv s K ext fl"
    using w by simp_all
  show "envid2env i q s' = envid2env i q s" by (simp add: e envid2env_def Let_def)
  show ow: "owns s' K e dc = owns s K e dc" for e dc by (simp add: e owns_def)
  show "runs s' K ext fl c d = runs s K ext fl c d" using pm ow by (simp add: runs_def) (simp add: e)
  show "data_page s' K x = data_page s K x" using tb by (simp add: data_page_def)
  show "pp_ref s' = pp_ref s" "envs s' = envs s" "pm_state.more s' = pm_state.more s" "cur_pgdir s' = cur_pgdir s"
    by (simp_all add: e)
  show "pmem s' q0 = pmem s q0" if "q0 \<noteq> p" using that by (simp add: e)
qed

text \<open>Page \<open>p\<close>, mapped writable at \<open>b\<close> by the running process, holds the bytes \<open>m\<close>.\<close>

definition on_page :: "(nat \<times> nat) set \<Rightarrow> (nat \<Rightarrow> nat) \<Rightarrow> nat list \<Rightarrow> nat \<Rightarrow> nat \<Rightarrow> u32 \<Rightarrow> nat \<Rightarrow> kstate \<Rightarrow> mem \<Rightarrow> bool" where
  "on_page K ext fl c d b p s m \<longleftrightarrow> runs s K ext fl c d \<and> page_base b \<and> \<not> is_illegal_va b
     \<and> (\<exists>e. vmap s K (vkey d b) = Some e \<and> PPN e = p \<and> e AND PTE_D \<noteq> 0) \<and> page_bytes s p = m"

lemma on_page_data: "on_page K ext fl c d b p s m \<Longrightarrow> data_page s K p"
  using mapped_data_page by (fastforce simp: on_page_def vkey_def dest: runsD(1))

lemma on_page_wrote:
  assumes "on_page K ext fl c d b p s m" and "wrote p s s'"
  shows "on_page K ext fl c d b p s' (page_bytes s' p)"
  using assms(1) wrote_keeps [OF assms(2) on_page_data [OF assms(1)]] by (simp add: on_page_def)

lemma byte_in_page:
  assumes "page_base b" and "x < 4096"
  defines "va \<equiv> b + word_of_nat x"
  shows "va < 0x80000000" and "vkey d va = vkey d b" and "VPO va = x" and "PDX va = PDX b"
proof -
  have b: "unat b mod 4096 = 0" "unat b < 0x80000000"
    using assms(1) by (simp_all add: page_base_def word_less_nat_alt)
  have "unat (word_of_nat x :: u32) = x" using assms(2) by (simp only: unat_of_nat) simp
  then have va: "unat va = unat b + x" unfolding va_def using b(2) assms(2) by (simp add: unat_word_ariths(1))
  have q: "unat b = unat b div 4096 * 4096" using b(1) by (metis add_0_right div_mult_mod_eq)
  have d: "unat va div 4096 = unat b div 4096" unfolding va by (subst q) (use assms(2) in simp)
  have "unat b div 4096 < 524288" using b(2) by (intro less_mult_imp_div_less) simp
  then show "va < 0x80000000" using assms(2) q unfolding word_less_nat_alt va by simp
  have dd: "unat va div 4194304 = unat b div 4194304"
    using d div_mult2_eq [of "unat va" 4096 1024] div_mult2_eq [of "unat b" 4096 1024] by simp
  show "vkey d va = vkey d b" using d dd by (simp add: vkey_def PDX_numeral_eq PTX_numeral_eq)
  show "PDX va = PDX b" using dd by (simp add: PDX_numeral_eq)
  have "VPO va = unat va mod 4096"
    by (simp only: VPO_def mask12_eq take_bit_eq_mask [symmetric] unat_take_bit) simp
  also have "\<dots> = x" using b(1) assms(2) unfolding va by (simp add: mod_add_left_eq [symmetric])
  finally show "VPO va = x" .
qed

lemma on_page_kaddr:
  assumes "on_page K ext fl c d b p s m" and "x < 4096"
  obtains t where "kaddr (b + word_of_nat x) s = Some ((p, x div 4, True), s\<lparr>tlb := t\<rparr>)"
proof -
  obtain e where e: "runs s K ext fl c d" "page_base b" "\<not> is_illegal_va b" "vmap s K (vkey d b) = Some e"
    "PPN e = p" "e AND PTE_D \<noteq> 0" using assms(1) by (auto simp: on_page_def)
  note w = byte_in_page [OF e(2) assms(2)]
  have "(d, PDX (b + word_of_nat x)) \<in> K" using runs_slot [OF e(1,3)] w(4) by simp
  then show ?thesis
    using kaddr_mapped [of s K ext fl d "b + word_of_nat x" e] runsD [OF e(1)] w e(4-6) that by auto
qed

lemma set_page_byte:
  "page_bytes (set_pte (p, x div 4) (set_byte (pmem s p (x div 4)) (x mod 4) v) s) p = (page_bytes s p)(x := v)"
proof
  fix a
  show "page_bytes (set_pte (p, x div 4) (set_byte (pmem s p (x div 4)) (x mod 4) v) s) p a = ((page_bytes s p)(x := v)) a"
  proof (cases "a div 4 = x div 4")
    case True
    then have "a mod 4 = x mod 4 \<longleftrightarrow> a = x" by (metis div_mult_mod_eq)
    then show ?thesis using True by (simp add: page_bytes_def set_pte_def get_set_byte)
  qed (auto simp: page_bytes_def set_pte_def)
qed

lemma set_page_word:
  "page_bytes (set_pte (p, k) v s) p = put_word (4 * k) v (page_bytes s p)"
proof
  fix a
  have "a = 4 * k + (a mod 4)" if "a div 4 = k" using that by (metis mult_div_mod_eq)
  moreover have "a mod 4 = 0 \<or> a mod 4 = 1 \<or> a mod 4 = 2 \<or> a mod 4 = 3" by presburger
  moreover have "(4 * k + r) div 4 = k" if "r < 4" for r using that by simp
  ultimately show "page_bytes (set_pte (p, k) v s) p a = put_word (4 * k) v (page_bytes s p) a"
    by (cases "a div 4 = k") (auto simp: page_bytes_def set_pte_def put_word_def)
qed

lemma wrote_set_pte: "wrote p s (set_pte (p, k) v (s\<lparr>tlb := t\<rparr>))"
  unfolding wrote_def set_pte_def by (intro exI [of _ t] exI [of _ "(pmem s p)(k := v)"]) simp

lemma page_bytes_tlb [simp]: "page_bytes (s\<lparr>tlb := t\<rparr>) p = page_bytes s p"
  by (simp add: page_bytes_def fun_eq_iff)

lemma on_page_store_byte:
  assumes "on_page K ext fl c d b p s m" and "x < 4096"
  obtains s' where "store_byte (b + word_of_nat x) v s = Some s'" and "on_page K ext fl c d b p s' (m(x := v))" and "wrote p s s'"
proof -
  obtain t where t: "kaddr (b + word_of_nat x) s = Some ((p, x div 4, True), s\<lparr>tlb := t\<rparr>)"
    by (rule on_page_kaddr [OF assms])
  have b: "page_base b" using assms(1) by (simp add: on_page_def)
  let ?s = "set_pte (p, x div 4) (set_byte (pmem (s\<lparr>tlb := t\<rparr>) p (x div 4)) (x mod 4) v) (s\<lparr>tlb := t\<rparr>)"
  have "store_byte (b + word_of_nat x) v s = Some ?s"
    using t byte_in_page(3) [OF b assms(2)] by (simp add: store_byte_def)
  moreover have w: "wrote p s ?s" by (rule wrote_set_pte)
  moreover have "page_bytes ?s p = m(x := v)"
    using set_page_byte [of p x "s\<lparr>tlb := t\<rparr>" v] assms(1) by (simp add: on_page_def)
  ultimately show ?thesis using that on_page_wrote [OF assms(1) w] by metis
qed

lemma on_page_store_word:
  assumes "on_page K ext fl c d b p s m" and "k < 1024"
  obtains s' where "store_word (b + word_of_nat (4 * k)) v s = Some s'"
    and "on_page K ext fl c d b p s' (put_word (4 * k) v m)" and "wrote p s s'"
proof -
  have b: "page_base b" using assms(1) by (simp add: on_page_def)
  obtain t where t: "kaddr (b + word_of_nat (4 * k)) s = Some ((p, 4 * k div 4, True), s\<lparr>tlb := t\<rparr>)"
    by (rule on_page_kaddr [OF assms(1), of "4 * k"]) (use assms(2) in simp)
  let ?s = "set_pte (p, k) v (s\<lparr>tlb := t\<rparr>)"
  have "store_word (b + word_of_nat (4 * k)) v s = Some ?s"
    using t word_in_page(2) [OF b assms(2)] by (simp add: store_word_def)
  moreover have w: "wrote p s ?s" by (rule wrote_set_pte)
  moreover have "page_bytes ?s p = put_word (4 * k) v m"
    using set_page_word [of p k v "s\<lparr>tlb := t\<rparr>"] assms(1) by (simp add: on_page_def)
  ultimately show ?thesis using that on_page_wrote [OF assms(1) w] by metis
qed

section \<open>Runs of bytes and words\<close>

lemma on_page_store_bytes:
  assumes "on_page K ext fl c d b p s m" and "x + length bs \<le> 4096"
  shows "\<exists>s'. store_bytes (b + word_of_nat x) bs s = Some s' \<and> on_page K ext fl c d b p s' (put_bytes x bs m) \<and> wrote p s s'"
  using assms
proof (induction bs arbitrary: x s m)
  case Nil
  then show ?case by (simp add: wrote_refl)
next
  case (Cons v bs)
  then have x: "x < 4096" "Suc x + length bs \<le> 4096" by simp_all
  obtain s1 where s1: "store_byte (b + word_of_nat x) v s = Some s1" "on_page K ext fl c d b p s1 (m(x := v))" "wrote p s s1"
    by (rule on_page_store_byte [OF Cons.prems(1) x(1)])
  obtain s' where s': "store_bytes (b + word_of_nat (Suc x)) bs s1 = Some s'"
    "on_page K ext fl c d b p s' (put_bytes (Suc x) bs (m(x := v)))" "wrote p s1 s'"
    using Cons.IH [OF s1(2) x(2)] by blast
  have a: "b + word_of_nat x + 1 = b + word_of_nat (Suc x)" by simp
  have "put_bytes (Suc x) bs (m(x := v)) = put_bytes x (v # bs) m"
    by (auto simp: put_bytes_def fun_eq_iff nth_Cons' Suc_diff_Suc)
  then show ?case using s1(1) s' wrote_trans [OF s1(3) s'(3)] by (simp add: a del: of_nat_Suc)
qed

definition arg_bytes :: "u8 list list \<Rightarrow> u8 list" where
  "arg_bytes argv = concat (map (\<lambda>a. a @ [0]) argv)"

lemma arg_bytes_simps [simp]: "arg_bytes [] = []" "arg_bytes (a # as) = a @ 0 # arg_bytes as"
  by (simp_all add: arg_bytes_def)

lemma length_arg_bytes: "length (arg_bytes argv) = sum_list (map (\<lambda>a. length a + 1) argv)"
  by (induction argv) simp_all

lemma on_page_put_strings:
  assumes "on_page K ext fl c d b p s m" and "x + length (arg_bytes argv) \<le> 4096"
  shows "\<exists>s'. put_strings (b + word_of_nat x) argv s = Some s'
    \<and> on_page K ext fl c d b p s' (put_bytes x (arg_bytes argv) m) \<and> wrote p s s'"
  using assms
proof (induction argv arbitrary: x s m)
  case Nil
  then show ?case by (simp add: wrote_refl)
next
  case (Cons a as)
  let ?y = "x + length (a @ [0 :: u8])"
  have x: "x + length (a @ [0 :: u8]) \<le> 4096" "?y + length (arg_bytes as) \<le> 4096" using Cons.prems(2) by simp_all
  obtain s1 where s1: "store_bytes (b + word_of_nat x) (a @ [0]) s = Some s1"
    "on_page K ext fl c d b p s1 (put_bytes x (a @ [0]) m)" "wrote p s s1"
    using on_page_store_bytes [OF Cons.prems(1) x(1)] by blast
  obtain s' where s': "put_strings (b + word_of_nat ?y) as s1 = Some s'"
    "on_page K ext fl c d b p s' (put_bytes ?y (arg_bytes as) (put_bytes x (a @ [0]) m))" "wrote p s1 s'"
    using Cons.IH [OF s1(2) x(2)] by blast
  have "b + word_of_nat x + word_of_nat (length a) + 1 = b + word_of_nat ?y" by simp
  then have "put_strings (b + word_of_nat x) (a # as) s = Some s'"
    by (simp only: put_strings.simps s1(1) bind.bind_lunit s'(1))
  moreover have "put_bytes ?y (arg_bytes as) (put_bytes x (a @ [0]) m) = put_bytes x (arg_bytes (a # as)) m"
    by (simp only: put_bytes_append) simp
  ultimately show ?case using s'(2) wrote_trans [OF s1(3) s'(3)] by metis
qed

fun put_words :: "nat \<Rightarrow> u32 list \<Rightarrow> mem \<Rightarrow> mem" where
  "put_words a [] m = m"
| "put_words a (w # ws) m = put_words (a + 4) ws (put_word a w m)"

fun arg_ptrs :: "u32 \<Rightarrow> u8 list list \<Rightarrow> u32 list" where
  "arg_ptrs ctemp [] = []"
| "arg_ptrs ctemp (a # as) = ctemp # arg_ptrs (ctemp + word_of_nat (length a) + 1) as"

lemma length_arg_ptrs [simp]: "length (arg_ptrs v argv) = length argv"
  by (induction v argv rule: arg_ptrs.induct) simp_all

lemma put_words_outside: "x < a \<or> a + 4 * length ws \<le> x \<Longrightarrow> put_words a ws m x = m x"
  by (induction a ws m rule: put_words.induct) (auto simp: put_word_outside)

lemma rd32_put_words: "i < length ws \<Longrightarrow> rd32 (put_words a ws m) (a + 4 * i) = ws ! i"
proof (induction a ws m arbitrary: i rule: put_words.induct)
  case (2 a w ws m)
  show ?case
  proof (cases i)
    case 0
    have "rd32 (put_words (a + 4) ws (put_word a w m)) a = rd32 (put_word a w m) a"
      by (auto simp: rd32_def put_words_outside)
    then show ?thesis using 0 by simp
  next
    case (Suc j)
    then show ?thesis using 2(1) [of j] 2(2) by (simp add: add.assoc)
  qed
qed simp

lemma on_page_put_args:
  assumes "on_page K ext fl c d b p s m" and "k + length argv \<le> 1024"
  shows "\<exists>s'. put_args (b + word_of_nat (4 * k)) v argv s = Some (v + word_of_nat (length (arg_bytes argv)), s')
    \<and> on_page K ext fl c d b p s' (put_words (4 * k) (arg_ptrs v argv) m) \<and> wrote p s s'"
  using assms
proof (induction argv arbitrary: k v s m)
  case Nil
  then show ?case by (simp add: wrote_refl)
next
  case (Cons a as)
  have k: "k < 1024" "Suc k + length as \<le> 1024" using Cons.prems(2) by simp_all
  let ?v = "v + word_of_nat (length a) + 1"
  obtain s1 where s1: "store_word (b + word_of_nat (4 * k)) v s = Some s1" "on_page K ext fl c d b p s1 (put_word (4 * k) v m)" "wrote p s s1"
    by (rule on_page_store_word [OF Cons.prems(1) k(1)])
  obtain s' where s': "put_args (b + word_of_nat (4 * Suc k)) ?v as s1 = Some (?v + word_of_nat (length (arg_bytes as)), s')"
    "on_page K ext fl c d b p s' (put_words (4 * Suc k) (arg_ptrs ?v as) (put_word (4 * k) v m))" "wrote p s1 s'"
    using Cons.IH [OF s1(2) k(2)] by blast
  have "b + word_of_nat (4 * k) + 4 = b + word_of_nat (4 * Suc k)" by simp
  moreover have "?v + word_of_nat (length (arg_bytes as)) = v + word_of_nat (length (arg_bytes (a # as)))" by simp
  ultimately have "put_args (b + word_of_nat (4 * k)) v (a # as) s = Some (v + word_of_nat (length (arg_bytes (a # as))), s')"
    by (simp only: put_args.simps s1(1) bind.bind_lunit s'(1))
  moreover have "4 * k + 4 = 4 * Suc k" by simp
  then have "put_words (4 * k) (arg_ptrs v (a # as)) m = put_words (4 * Suc k) (arg_ptrs ?v as) (put_word (4 * k) v m)"
    by (simp only: arg_ptrs.simps put_words.simps)
  ultimately show ?case using s'(2) wrote_trans [OF s1(3) s'(3)] by metis
qed

section \<open>The layout of the stack\<close>

text \<open>
  The page below \<^verbatim>\<open>USTACKTOP\<close> as the new process sees it: at \<open>sp\<close> the number of arguments and a pointer to the
  array; the array points to the strings, each with its null byte, above the array; and
  the word behind the array, which should be a null pointer, is the address of the last byte
  of the page, with arguments a null byte.
\<close>

definition stack_base :: u32 where "stack_base = USTACKTOP - BY2PG"

definition holds_string :: "u8 list \<Rightarrow> nat \<Rightarrow> mem \<Rightarrow> bool" where
  "holds_string a x m \<longleftrightarrow> x + length a < 4096 \<and> (\<forall>j < length a. m (x + j) = a ! j) \<and> m (x + length a) = 0"

definition stack_args :: "u8 list list \<Rightarrow> nat \<Rightarrow> mem \<Rightarrow> bool" where
  "stack_args argv k m \<longleftrightarrow> k + 3 + length argv \<le> 1024
     \<and> rd32 m (4 * k) = word_of_nat (length argv) \<and> rd32 m (4 * (k + 1)) = stack_base + word_of_nat (4 * (k + 2))
     \<and> (\<forall>i < length argv. \<exists>x. rd32 m (4 * (k + 2 + i)) = stack_base + word_of_nat x
          \<and> 4 * (k + 3 + length argv) \<le> x \<and> holds_string (argv ! i) x m)
     \<and> rd32 m (4 * (k + 2 + length argv)) = stack_base + word_of_nat 4095 \<and> (argv \<noteq> [] \<longrightarrow> m 4095 = 0)"

lemma arg_ptrs_nth: "i < length argv \<Longrightarrow> arg_ptrs v argv ! i = v + word_of_nat (length (arg_bytes (take i argv)))"
proof (induction v argv arbitrary: i rule: arg_ptrs.induct)
  case (2 v a as)
  then show ?case by (cases i) (simp_all add: add.assoc)
qed simp

lemma arg_bytes_split:
  assumes "i < length argv"
  shows "arg_bytes argv = arg_bytes (take i argv) @ argv ! i @ 0 # arg_bytes (drop (Suc i) argv)"
proof -
  have "arg_bytes argv = arg_bytes (take i argv @ argv ! i # drop (Suc i) argv)"
    using id_take_nth_drop [OF assms] by simp
  then show ?thesis by (simp add: arg_bytes_def)
qed

lemma arg_bytes_last: "argv \<noteq> [] \<Longrightarrow> arg_bytes argv \<noteq> [] \<and> last (arg_bytes argv) = 0"
  by (induction argv) (auto simp: arg_bytes_def)

definition arg_words :: "u8 list list \<Rightarrow> nat" where
  "arg_words argv = (length (arg_bytes argv) + 3) div 4"

definition stack_bytes :: "u8 list list \<Rightarrow> mem \<Rightarrow> mem" where
  "stack_bytes argv m =
     (let n = length argv; t = length (arg_bytes argv); k = 1024 - arg_words argv - (n + 1)
      in put_word (4 * (k - 2)) (word_of_nat n)
          (put_word (4 * (k - 1)) (stack_base + word_of_nat (4 * k))
            (put_word (4 * (k + n)) (stack_base + word_of_nat 4095)
              (put_words (4 * k) (arg_ptrs (stack_base + word_of_nat (4096 - t)) argv)
                (put_bytes (4096 - t) (arg_bytes argv) m)))))"

lemma stack_bytes_args:
  assumes "arg_words argv + length argv + 3 \<le> 1024" and "\<forall>x < 4096. m x = 0"
  shows "stack_args argv (1024 - arg_words argv - (length argv + 1) - 2) (stack_bytes argv m)"
proof -
  let ?n = "length argv" and ?t = "length (arg_bytes argv)"
  define k where "k = 1024 - arg_words argv - (?n + 1)"
  have t: "?t \<le> 4 * arg_words argv" unfolding arg_words_def by presburger
  have k: "2 \<le> k" "4 * (k + ?n + 1) + ?t \<le> 4096" "k + ?n + 1 \<le> 1024" using assms(1) t by (simp_all add: k_def)
  let ?v = "stack_base + word_of_nat (4096 - ?t)"
  define m2 where "m2 = put_words (4 * k) (arg_ptrs ?v argv) (put_bytes (4096 - ?t) (arg_bytes argv) m)"
  define m3 where "m3 = put_word (4 * (k + ?n)) (stack_base + word_of_nat 4095) m2"
  define m4 where "m4 = put_word (4 * (k - 1)) (stack_base + word_of_nat (4 * k)) m3"
  define m5 where "m5 = put_word (4 * (k - 2)) (word_of_nat ?n) m4"
  have m5: "stack_bytes argv m = m5"
    by (simp only: stack_bytes_def Let_def k_def [symmetric] m5_def m4_def m3_def m2_def)
  have high: "m5 x = put_bytes (4096 - ?t) (arg_bytes argv) m x" if "4 * (k + ?n + 1) \<le> x" for x
  proof -
    have "4 * (k - 2) + 4 \<le> x" "4 * (k - 1) + 4 \<le> x" "4 * (k + ?n) + 4 \<le> x" "4 * k + 4 * length (arg_ptrs ?v argv) \<le> x"
      using that k(1) by simp_all
    then show ?thesis unfolding m5_def m4_def m3_def m2_def by (simp only: put_word_outside put_words_outside simp_thms)
  qed
  have w0: "rd32 m5 (4 * (k - 2)) = word_of_nat ?n" by (simp add: m5_def)
  have "rd32 m5 (4 * (k - 1)) = rd32 m4 (4 * (k - 1))"
    unfolding m5_def by (rule rd32_put_word_other) (use k(1) in presburger)
  then have w1: "rd32 m5 (4 * (k - 1)) = stack_base + word_of_nat (4 * k)" by (simp add: m4_def)
  have low: "rd32 m5 (4 * (k + i)) = rd32 m3 (4 * (k + i))" for i
  proof -
    have "4 * (k - 2) + 4 \<le> 4 * (k + i)" "4 * (k - 1) + 4 \<le> 4 * (k + i)" using k(1) by presburger+
    then show ?thesis unfolding m5_def m4_def by (simp only: rd32_put_word_other simp_thms)
  qed
  have wn: "rd32 m5 (4 * (k + ?n)) = stack_base + word_of_nat 4095" using low [of ?n] by (simp add: m3_def)
  have wi: "rd32 m5 (4 * (k + i)) = stack_base + word_of_nat (4096 - ?t + length (arg_bytes (take i argv)))" if i: "i < ?n" for i
  proof -
    have "rd32 m5 (4 * (k + i)) = rd32 m2 (4 * (k + i))"
      unfolding low m3_def by (rule rd32_put_word_other) (use i in simp)
    also have "\<dots> = rd32 m2 (4 * k + 4 * i)" by (simp add: algebra_simps)
    also have "\<dots> = arg_ptrs ?v argv ! i" unfolding m2_def by (rule rd32_put_words) (use i in simp)
    finally show ?thesis by (simp add: arg_ptrs_nth [OF i] add.assoc)
  qed
  have str: "holds_string (argv ! i) (4096 - ?t + length (arg_bytes (take i argv))) m5"
    and above: "4 * (k + ?n + 1) \<le> 4096 - ?t + length (arg_bytes (take i argv))" if i: "i < ?n" for i
  proof -
    let ?p = "length (arg_bytes (take i argv))"
    note sp = arg_bytes_split [OF i]
    have len: "?p + length (argv ! i) < ?t" unfolding sp by simp
    show "4 * (k + ?n + 1) \<le> 4096 - ?t + ?p" using k(2) by simp
    then have "m5 (4096 - ?t + ?p + j) = arg_bytes argv ! (?p + j)" if "?p + j < ?t" for j
      using high [of "4096 - ?t + ?p + j"] put_bytes_simps(2) [OF that, of "4096 - ?t" m] by (simp add: add.assoc)
    moreover have "arg_bytes argv ! (?p + j) = (argv ! i @ [0]) ! j" if "j \<le> length (argv ! i)" for j
      using that by (subst sp) (auto simp: nth_append)
    ultimately show "holds_string (argv ! i) (4096 - ?t + ?p) m5"
      using len k(2) by (simp add: holds_string_def nth_append)
  qed
  have z: "m5 4095 = 0" if "argv \<noteq> []"
  proof -
    have "0 < ?t" "arg_bytes argv ! (?t - 1) = 0" using arg_bytes_last [OF that] by (auto simp: last_conv_nth)
    moreover from this(1) have "4 * (k + ?n + 1) \<le> 4095" "4096 - ?t + (?t - 1) = 4095" "?t - 1 < ?t" using k(2) by arith+
    ultimately show ?thesis using high [of 4095] put_bytes_simps(2) [of "?t - 1" "arg_bytes argv" "4096 - ?t" m] by metis
  qed
  have "\<exists>x. rd32 m5 (4 * (k + i)) = stack_base + word_of_nat x \<and> 4 * (k + ?n + 1) \<le> x \<and> holds_string (argv ! i) x m5"
    if i: "i < ?n" for i
    using wi [OF i] str [OF i] above [OF i] by blast
  moreover have "k - 2 + 1 = k - 1" "k - 2 + 2 = k" "k - 2 + 3 + ?n = k + ?n + 1" using k(1) by simp_all
  ultimately show ?thesis
    unfolding m5 stack_args_def k_def [symmetric] using w0 w1 wn z k(3) by (simp only: simp_thms) blast
qed

section \<open>Building the stack\<close>

lemma ROUND4:
  assumes "t < 2 ^ 31"
  shows "ROUND (word_of_nat t) 4 = word_of_nat (4 * ((t + 3) div 4))"
proof -
  let ?x = "word_of_nat t + 4 - 1 :: u32"
  have "?x = word_of_nat (t + 3)" by simp
  then have x: "unat ?x = t + 3" using assms by (simp only: unat_of_nat) simp
  have "?x AND NOT (4 - 1) = push_bit 2 (drop_bit 2 ?x)"
  proof (rule bit_word_eqI)
    fix n assume "n < LENGTH(32)"
    have "(4 - 1 :: u32) = mask 2" by (simp add: mask_eq_exp_minus_1)
    then have "bit (4 - 1 :: u32) n \<longleftrightarrow> n < 2" by (simp only: bit_mask_iff) auto
    moreover have "2 \<le> n \<Longrightarrow> 2 + (n - 2) = n" by simp
    ultimately show "bit (?x AND NOT (4 - 1)) n = bit (push_bit 2 (drop_bit 2 ?x)) n"
      by (simp only: bit_and_iff bit_not_iff bit_push_bit_iff bit_drop_bit_eq) (auto simp: not_less simp del: add_2_eq_Suc dest: bit_imp_le_length)
  qed
  moreover have "unat (push_bit 2 (drop_bit 2 ?x)) = 4 * ((t + 3) div 4)"
    by (simp only: push_bit_eq_mult unat_word_ariths unat_drop_bit x drop_bit_eq_div) (use assms in simp)
  moreover have "unat (word_of_nat (4 * ((t + 3) div 4)) :: u32) = 4 * ((t + 3) div 4)"
    by (simp only: unat_of_nat) (use assms in simp)
  ultimately show ?thesis unfolding ROUND_def by (simp only: word_unat_eq_iff)
qed

lemma UTEMP_page: "page_base UTEMP" "\<not> is_illegal_va UTEMP" "\<not> is_illegal_va stack_base"
  by (simp_all add: page_base_def is_illegal_va_def stack_base_def mmu_defs)

lemma stack_keys: "vkey d UTEMP \<noteq> vkey dc stack_base"
  by (simp add: vkey_def PDX_numeral_eq PTX_numeral_eq stack_base_def mmu_defs)

lemma args_tot_bytes: "args_tot argv = word_of_nat (length (arg_bytes argv))"
  by (simp only: args_tot_def length_arg_bytes)

lemma stack_room:
  assumes "length (arg_bytes argv) + 4 * length argv < 2 ^ 30"
  shows "BY2PG < ROUND (args_tot argv) 4 + 4 * (word_of_nat (length argv) + 3) \<longleftrightarrow> 1024 < arg_words argv + length argv + 3"
proof -
  let ?n = "4 * arg_words argv + 4 * (length argv + 3)"
  have "4 * arg_words argv \<le> length (arg_bytes argv) + 3" unfolding arg_words_def by presburger
  then have n: "?n < 2 ^ 31" using assms by simp
  have "ROUND (args_tot argv) 4 + 4 * (word_of_nat (length argv) + 3) = word_of_nat ?n"
    unfolding args_tot_bytes by (subst ROUND4) (use assms in \<open>simp_all add: arg_words_def\<close>)
  moreover have "unat (word_of_nat ?n :: u32) = ?n" using n by (simp only: unat_of_nat) simp
  moreover have "unat BY2PG < ?n \<longleftrightarrow> 1024 < arg_words argv + length argv + 3" by (simp add: BY2PG_def) presburger
  ultimately show ?thesis by (simp only: word_less_nat_alt)
qed

text \<open>Where the code writes, as offsets in the page.\<close>

lemma stack_addresses:
  fixes argv :: "u8 list list"
  defines "n \<equiv> length argv" and "t \<equiv> length (arg_bytes argv)" and "k \<equiv> 1024 - arg_words argv - (length argv + 1)"
  defines "args \<equiv> UTEMP + BY2PG - ROUND (args_tot argv) 4 - 4 * (word_of_nat (length argv) + 1)"
  assumes "arg_words argv + length argv + 3 \<le> 1024"
  shows "UTEMP + BY2PG - args_tot argv = UTEMP + word_of_nat (4096 - t)"
    and "USTACKTOP - UTEMP - BY2PG + (UTEMP + word_of_nat x) = stack_base + word_of_nat x"
    and "args = UTEMP + word_of_nat (4 * k)" and "args + 4 * word_of_nat n = UTEMP + word_of_nat (4 * (k + n))"
    and "args - 4 = UTEMP + word_of_nat (4 * (k - 1))" and "args - 8 = UTEMP + word_of_nat (4 * (k - 2))"
    and "stack_base + word_of_nat (4096 - t) + word_of_nat t - 1 = stack_base + word_of_nat 4095"
proof -
  have t: "t \<le> 4 * arg_words argv" unfolding arg_words_def t_def by presburger
  then have t2: "t \<le> 4096" "2 \<le> k" "arg_words argv + (n + 1) + k = 1024" using assms(5) by (simp_all add: k_def n_def)
  have pg: "BY2PG = word_of_nat 4096" by (simp add: BY2PG_def)
  show "UTEMP + BY2PG - args_tot argv = UTEMP + word_of_nat (4096 - t)"
    using t2(1) unfolding args_tot_bytes pg t_def by (simp only: of_nat_diff add_diff_eq)
  show "USTACKTOP - UTEMP - BY2PG + (UTEMP + word_of_nat x) = stack_base + word_of_nat x"
    by (simp add: stack_base_def)
  have r: "ROUND (args_tot argv) 4 = 4 * word_of_nat (arg_words argv)"
    unfolding args_tot_bytes by (subst ROUND4) (use t2(1) in \<open>simp_all add: arg_words_def t_def\<close>)
  have "4 * (word_of_nat (arg_words argv) + (word_of_nat n + 1)) + 4 * word_of_nat k = (4 * word_of_nat (arg_words argv + (n + 1) + k) :: u32)"
    by (simp add: algebra_simps)
  also have "\<dots> = BY2PG" unfolding t2(3) by (simp add: BY2PG_def)
  finally show a: "args = UTEMP + word_of_nat (4 * k)" unfolding args_def r n_def by (simp add: algebra_simps flip: diff_diff_eq)
  show "args + 4 * word_of_nat n = UTEMP + word_of_nat (4 * (k + n))" unfolding a by (simp add: algebra_simps)
  show "args - 4 = UTEMP + word_of_nat (4 * (k - 1))" "args - 8 = UTEMP + word_of_nat (4 * (k - 2))"
    unfolding a using t2(2) by (simp_all add: of_nat_diff algebra_simps)
  show "stack_base + word_of_nat (4096 - t) + word_of_nat t - 1 = stack_base + word_of_nat 4095"
    using t2(1) by (simp add: of_nat_diff)
qed

text \<open>The stores, on the page just allocated.\<close>

lemma init_stack_stores:
  assumes "on_page K ext fl c d UTEMP p s m" and "arg_words argv + length argv + 3 \<le> 1024"
  defines "args \<equiv> UTEMP + BY2PG - ROUND (args_tot argv) 4 - 4 * (word_of_nat (length argv) + 1)"
    and "k \<equiv> 1024 - arg_words argv - (length argv + 1)"
  obtains s2 s3 s4 s5 s6 where "put_strings (UTEMP + BY2PG - args_tot argv) argv s = Some s2"
    and "put_args args (USTACKTOP - UTEMP - BY2PG + (UTEMP + BY2PG - args_tot argv)) argv s2
      = Some (stack_base + word_of_nat (4096 - length (arg_bytes argv)) + word_of_nat (length (arg_bytes argv)), s3)"
    and "store_word (args + 4 * word_of_nat (length argv)) (stack_base + word_of_nat 4095) s3 = Some s4"
    and "store_word (args - 4) (USTACKTOP - UTEMP - BY2PG + args) s4 = Some s5"
    and "store_word (args - 8) (word_of_nat (length argv)) s5 = Some s6"
    and "on_page K ext fl c d UTEMP p s6 (stack_bytes argv m)" and "wrote p s s6"
proof -
  let ?n = "length argv" and ?t = "length (arg_bytes argv)"
  note ad = stack_addresses [OF assms(2), folded k_def args_def]
  have t: "?t \<le> 4 * arg_words argv" unfolding arg_words_def by presburger
  have k: "4096 - ?t + ?t \<le> 4096" "k + ?n \<le> 1024" "k + ?n < 1024" "k - 1 < 1024" "k - 2 < 1024"
    using assms(2) t by (simp_all add: k_def)
  let ?v = "stack_base + word_of_nat (4096 - ?t)"
  obtain s2 where s2: "put_strings (UTEMP + word_of_nat (4096 - ?t)) argv s = Some s2"
    "on_page K ext fl c d UTEMP p s2 (put_bytes (4096 - ?t) (arg_bytes argv) m)" "wrote p s s2"
    using on_page_put_strings [OF assms(1) k(1)] by blast
  obtain s3 where s3: "put_args (UTEMP + word_of_nat (4 * k)) ?v argv s2 = Some (?v + word_of_nat ?t, s3)"
    "on_page K ext fl c d UTEMP p s3 (put_words (4 * k) (arg_ptrs ?v argv) (put_bytes (4096 - ?t) (arg_bytes argv) m))" "wrote p s2 s3"
    using on_page_put_args [OF s2(2) k(2)] by blast
  obtain s4 where s4: "store_word (UTEMP + word_of_nat (4 * (k + ?n))) (stack_base + word_of_nat 4095) s3 = Some s4"
    "on_page K ext fl c d UTEMP p s4 (put_word (4 * (k + ?n)) (stack_base + word_of_nat 4095)
       (put_words (4 * k) (arg_ptrs ?v argv) (put_bytes (4096 - ?t) (arg_bytes argv) m)))" "wrote p s3 s4"
    by (rule on_page_store_word [OF s3(2) k(3)])
  obtain s5 where s5: "store_word (UTEMP + word_of_nat (4 * (k - 1))) (stack_base + word_of_nat (4 * k)) s4 = Some s5"
    "on_page K ext fl c d UTEMP p s5 (put_word (4 * (k - 1)) (stack_base + word_of_nat (4 * k)) (put_word (4 * (k + ?n)) (stack_base + word_of_nat 4095)
       (put_words (4 * k) (arg_ptrs ?v argv) (put_bytes (4096 - ?t) (arg_bytes argv) m))))" "wrote p s4 s5"
    by (rule on_page_store_word [OF s4(2) k(4)])
  obtain s6 where s6: "store_word (UTEMP + word_of_nat (4 * (k - 2))) (word_of_nat ?n) s5 = Some s6"
    "on_page K ext fl c d UTEMP p s6 (stack_bytes argv m)" "wrote p s5 s6"
    using on_page_store_word [OF s5(2) k(5)] unfolding stack_bytes_def Let_def k_def by blast
  have "wrote p s s6" using s2(3) s3(3) s4(3) s5(3) s6(3) wrote_trans by blast
  moreover have "put_args args (USTACKTOP - UTEMP - BY2PG + (UTEMP + BY2PG - args_tot argv)) argv s2 = Some (?v + word_of_nat ?t, s3)"
    using s3(1) by (simp only: ad(1) ad(2) ad(3))
  moreover have "store_word (args + 4 * word_of_nat ?n) (stack_base + word_of_nat 4095) s3 = Some s4"
    using s4(1) by (simp only: ad(4))
  moreover have "store_word (args - 4) (USTACKTOP - UTEMP - BY2PG + args) s4 = Some s5"
    using s5(1) by (simp only: ad(5)) (simp only: ad(2) ad(3))
  moreover have "store_word (args - 8) (word_of_nat ?n) s5 = Some s6"
    using s6(1) by (simp only: ad(6))
  ultimately show ?thesis using that [of s2 s3 s4 s5 s6] s2(1) s6(2) by (simp only: ad(1) simp_thms)
qed

lemma page_bytes_pmem: "pmem s' p = pmem s p \<Longrightarrow> page_bytes s' p = page_bytes s p"
  by (simp add: page_bytes_def fun_eq_iff)

text \<open>C32: The stack of a new program. If the arguments fit into one page, \<^verbatim>\<open>init_stack\<close> puts the first free
  page below \<^verbatim>\<open>USTACKTOP\<close> of the child, changes no other mapping, and the page then holds what
  \<open>stack_args\<close> says: number, array and strings are found from the stack pointer it returns. The array
  is not ended by a null pointer, though: \<^verbatim>\<open>argv[argc]\<close> is \<^verbatim>\<open>USTACKTOP - 1\<close>. If they do not fit, the call
  reports \<^verbatim>\<open>-E_NO_MEM\<close> and changes nothing.\<close>

theorem init_stack_layout:
  assumes "runs s K ext (p # fl) c d" and "envid2env child True s = Some (Inr (Some e))" and "owns s K e dc"
    and "vmap s K (vkey d UTEMP) = None" and "2 \<le> length fl"
    and "length (arg_bytes argv) + 4 * length argv < 2 ^ 30"
  shows "if arg_words argv + length argv + 3 \<le> 1024 then
      \<exists>s' fl' k. init_stack child argv s = Some (Inr (stack_base + word_of_nat (4 * k)), s')
        \<and> stack_args argv k (page_bytes s' p)
        \<and> vmap s' K = (vmap s K)(vkey dc stack_base \<mapsto> mk_pte p PTE_D) \<and> runs s' K ext fl' c d
    else init_stack child argv s = Some (Inl E_NO_MEM, s)"
proof (cases "arg_words argv + length argv + 3 \<le> 1024")
  case False
  then show ?thesis using stack_room [OF assms(6)] by (simp add: init_stack_def Let_def)
next
  case True
  have room: "\<not> BY2PG < ROUND (args_tot argv) 4 + 4 * (word_of_nat (length argv) + 3)"
    using True stack_room [OF assms(6)] by simp
  let ?args = "UTEMP + BY2PG - ROUND (args_tot argv) 4 - 4 * (word_of_nat (length argv) + 1)"
  let ?k = "1024 - arg_words argv - (length argv + 1)" and ?n = "length argv"
  have ne: "fl \<noteq> []" using assms(5) by auto
  obtain s1 where s1: "sys_mem_alloc 0 UTEMP PTE_D s = Some (Inr 0, s1)"
    "vmap s1 K = (vmap s K)(vkey d UTEMP \<mapsto> mk_pte p PTE_D)" "runs s1 K ext (free_rest s K d UTEMP fl) c d"
    "mem_call_frame s K (p # fl) s1" "\<forall>w < 1024. pmem s1 p w = 0"
    by (rule cur_alloc [OF assms(1) UTEMP_page(2) assms(4) PTE_flags_less(2)]) (use ne in auto)
  define fl1 where "fl1 = free_rest s K d UTEMP fl"
  have fl1: "fl1 \<noteq> []" using assms(5) length_free_rest [of fl s K d UTEMP] by (auto simp: fl1_def)
  note r1 = s1(3) [folded fl1_def]
  have P: "PPN (mk_pte p PTE_D) = p" using free_page(3) [OF assms(1), of p PTE_D] PTE_flags_less(2) by simp
  have v1: "vmap s1 K (vkey d UTEMP) = Some (mk_pte p PTE_D)" by (simp add: s1(2))
  have "mk_pte p PTE_D AND PTE_D \<noteq> 0" by (rule mk_pte_D) (simp add: PTE_D_def)
  then have o1: "on_page K ext fl1 c d UTEMP p s1 (page_bytes s1 p)"
    using r1 UTEMP_page(1,2) v1 P by (auto simp: on_page_def)
  obtain s2 s3 s4 s5 s6 where st: "put_strings (UTEMP + BY2PG - args_tot argv) argv s1 = Some s2"
    "put_args ?args (USTACKTOP - UTEMP - BY2PG + (UTEMP + BY2PG - args_tot argv)) argv s2
      = Some (stack_base + word_of_nat (4096 - length (arg_bytes argv)) + word_of_nat (length (arg_bytes argv)), s3)"
    "store_word (?args + 4 * word_of_nat ?n) (stack_base + word_of_nat 4095) s3 = Some s4"
    "store_word (?args - 4) (USTACKTOP - UTEMP - BY2PG + ?args) s4 = Some s5"
    "store_word (?args - 8) (word_of_nat ?n) s5 = Some s6"
    "on_page K ext fl1 c d UTEMP p s6 (stack_bytes argv (page_bytes s1 p))" "wrote p s1 s6"
    by (rule init_stack_stores [OF o1 True])
  note w = wrote_keeps [OF st(7) on_page_data [OF o1]]
  have r6: "runs s6 K ext fl1 c d" using st(6) by (simp add: on_page_def)
  have v6: "vmap s6 K = (vmap s K)(vkey d UTEMP \<mapsto> mk_pte p PTE_D)" using w(1) s1(2) by simp
  have "ext (PPN (mk_pte p PTE_D)) = 0" using free_page(2) [OF assms(1), of p] by (simp add: P)
  moreover have "key = vkey d UTEMP" if "vmap s6 K key = Some en" "PPN en = PPN (mk_pte p PTE_D)" for key en
    using that free_page(4) [OF assms(1), of p key en] by (auto simp: v6 P split: if_splits)
  moreover have v6u: "vmap s6 K (vkey d UTEMP) = Some (mk_pte p PTE_D)" by (simp add: v6)
  ultimately have rf: "unat (pp_ref s6 (PPN (mk_pte p PTE_D))) = 1"
    using single_ref [OF runsD(1) [OF r6] v6u] by blast
  then have rf2: "unat (pp_ref s6 (PPN (mk_pte p PTE_D))) < 65535 \<or> vkey d UTEMP = vkey dc stack_base" by simp
  have e6: "envid2env child True s6 = Some (Inr (Some e))" "owns s6 K e dc"
    using assms(2,3) mem_call_frame_more [OF s1(4)] w(7,8) by simp_all
  obtain s7 fl7 where s7: "sys_mem_map 0 UTEMP child stack_base PTE_D s6 = Some (Inr 0, s7)"
    "vmap s7 K = (vmap s6 K)(vkey dc stack_base \<mapsto> mk_pte (PPN (mk_pte p PTE_D)) PTE_D)" "pm_inv s7 K ext fl7"
    "mem_call_frame s6 K fl1 s7"
    using mem_map_ok [OF runsD(1) [OF r6] runsD(5) [OF r6] e6(1) runsD(4) [OF r6] e6(2) UTEMP_page(2,3) PTE_flags_less(2) disjI2 [OF fl1] v6u rf2]
    by blast
  have r7: "runs s7 K ext fl7 c d" by (rule runs_frame [OF r6 s7(4,3)])
  obtain s8 fl8 where s8: "sys_mem_unmap 0 UTEMP s7 = Some (Inr 0, s8)" "vmap s8 K = (vmap s7 K)(vkey d UTEMP := None)"
    "runs s8 K ext fl8 c d" "mem_call_frame s7 K [] s8"
    by (rule cur_unmap [OF r7 UTEMP_page(2)])
  have "init_stack child argv s = Some (Inr (USTACKTOP - UTEMP - BY2PG + (?args - 8)), s8)"
    by (simp only: init_stack_def Let_def room if_False s1(1) bind.bind_lunit prod.case sum.case st(1-5)
        stack_addresses(7) [OF True] s7(1) [unfolded stack_base_def] s8(1))
  then have call: "init_stack child argv s = Some (Inr (stack_base + word_of_nat (4 * (?k - 2))), s8)"
    by (simp only: stack_addresses(6) [OF True] stack_addresses(2) [OF True])
  have vm: "vmap s8 K = (vmap s K)(vkey dc stack_base \<mapsto> mk_pte p PTE_D)"
    using assms(4) stack_keys [of d dc] by (auto simp: s8(2) s7(2) v6 P fun_eq_iff)
  have v7u: "vmap s7 K (vkey d UTEMP) = Some (mk_pte p PTE_D)"
    using v6u stack_keys [of d dc] by (simp add: s7(2))
  have "data_page s6 K p" "p \<notin> set fl1" "data_page s7 K p"
    using mapped_data_page [OF runsD(1) [OF r6] v6u] mapped_data_page [OF runsD(1) [OF r7] v7u] unfolding P by blast+
  then have "pmem s8 p = pmem s6 p" using s7(4) s8(4) unfolding mem_call_frame_def by (metis empty_iff empty_set)
  then have "page_bytes s8 p = page_bytes s6 p" by (rule page_bytes_pmem)
  then have "page_bytes s8 p = stack_bytes argv (page_bytes s1 p)" using st(6) by (simp add: on_page_def)
  then have "stack_args argv (?k - 2) (page_bytes s8 p)"
    using stack_bytes_args [OF True] page_bytes_zero [OF s1(5)] by simp
  then show ?thesis unfolding if_P [OF True] using call vm s8(3) by blast
qed

section \<open>Witness\<close>

text \<open>Process 0 runs, process 1 is its child, and three pages are free.\<close>

definition kspawn :: kstate where
  "kspawn = (kfork 0)\<lparr>page_free_list := LIST_INSERT_HEAD 4 (page_free_list (kfork 0))\<rparr>"

lemma kspawn_maps: "tab kspawn K = tab (kfork 0) K" "vmap kspawn K = vmap (kfork 0) K"
proof -
  show t: "tab kspawn K = tab (kfork 0) K" by (rule tab_cong) (simp add: kspawn_def pte_at_def)
  show "vmap kspawn K = vmap (kfork 0) K" by (rule vmap_cong [OF t]) (simp add: kspawn_def pte_at_def)
qed

lemma kspawn_runs: "runs kspawn fork_slots fork_ext [4, 5, 6] 0 1"
proof -
  have i: "pm_inv (kfork 0) fork_slots fork_ext [5, 6]" by (rule kfork_inv) simp
  then have "lq_rep (page_free_list kspawn) [4, 5, 6]"
    unfolding kspawn_def by (simp add: pm_inv_def free_inv_def) (intro lq_rep_insert_head, simp_all)
  then have "pm_inv kspawn fork_slots fork_ext [4, 5, 6]"
    using i unfolding pm_inv_def free_inv_def tab_inv_def ref_inv_def kspawn_maps by (simp add: kspawn_def kfork_simps)
  then show ?thesis
    using kfork_envs(2) by (simp add: runs_def owns_def kspawn_def kfork_simps)
qed

lemma kspawn_child: "envid2env 0x1001 True kspawn = Some (Inr (Some 1))" "owns kspawn fork_slots 1 3"
proof -
  have "envid2env 0x1001 True kspawn = envid2env 0x1001 True (kfork 0)"
    using more_eqD [of kspawn "kfork 0"] by (simp add: kspawn_def envid2env_def Let_def)
  then show "envid2env 0x1001 True kspawn = Some (Inr (Some 1))" using kfork_envs(1) by simp
  show "owns kspawn fork_slots 1 3" using kfork_envs(3) [of 0] by (simp add: kspawn_def owns_def)
qed

text \<open>One argument \<^verbatim>\<open>"hi"\<close>: the stack pointer is 20 bytes below the top.\<close>

theorem init_stack_layout_witness:
  "\<exists>s' fl' k. init_stack 0x1001 [[104, 105]] kspawn = Some (Inr (stack_base + word_of_nat (4 * k)), s')
     \<and> stack_args [[104, 105]] k (page_bytes s' 4) \<and> runs s' fork_slots fork_ext fl' 0 1"
proof -
  have "vkey 1 UTEMP \<noteq> (1, 1, 0)" by (simp add: vkey_def PDX_numeral_eq mmu_defs)
  then have "vmap kspawn fork_slots (vkey 1 UTEMP) = None" by (simp add: kspawn_maps kfork_vmap)
  from init_stack_layout [OF kspawn_runs kspawn_child this, of "[[104, 105]]"] show ?thesis
    by (auto simp: arg_words_def)
qed

end
