(* ===== verification/SpawnLoad.thy ===== *)
theory SpawnLoad
  imports SpawnSpec
begin

text \<open>
  What \<^verbatim>\<open>spawn\<close> loads: \<^verbatim>\<open>elf_load_seg\<close> with \<^verbatim>\<open>spawn_mapper\<close> as its callback leaves in the child exactly the
  image of the segment that ElfLoad computes from the program header, unless the data of a segment end
  within its first page and its memory does not: then the data are lost.
\<close>

section \<open>One call of the mapper\<close>

lemma mapped_kept:
  assumes "mem_call_frame s K fl0 s'" and "pm_inv s K ext fl" and "set fl0 \<subseteq> set fl" and "vmap s K k = Some e"
  shows "pmem s' (PPN e) = pmem s (PPN e)"
  using assms(1,3) mapped_data_page [OF assms(2,4)] by (auto simp: mem_call_frame_def)

text \<open>Process \<open>e\<close> with directory \<open>dc\<close> is a child that the running process may act for.\<close>

definition acts_for :: "kstate \<Rightarrow> (nat \<times> nat) set \<Rightarrow> nat \<Rightarrow> u32 \<Rightarrow> nat \<Rightarrow> bool" where
  "acts_for s K d child dc \<longleftrightarrow> dc \<noteq> d \<and> (\<exists>e. envid2env child True s = Some (Inr (Some e)) \<and> owns s K e dc)"

lemma acts_for_frame: "acts_for s K d child dc \<Longrightarrow> mem_call_frame s K fl s' \<Longrightarrow> acts_for s' K d child dc"
  using mem_call_frame_more(5,6) by (simp add: acts_for_def)

fun call_ok :: "mapcall \<Rightarrow> bool" where
  "call_ok (va, off, perm, src, len) \<longleftrightarrow>
     \<not> is_illegal_va va \<and> perm < 4096 \<and> (src \<noteq> None \<longrightarrow> unat off + unat len \<le> 4096)"

text \<open>Everything mapped before is still mapped and has its contents.\<close>

definition keeps_pages :: "kstate \<Rightarrow> (nat \<times> nat) set \<Rightarrow> kstate \<Rightarrow> bool" where
  "keeps_pages s K s' \<longleftrightarrow>
     (\<forall>k e. vmap s K k = Some e \<longrightarrow> vmap s' K k = Some e \<and> pmem s' (PPN e) = pmem s (PPN e))"

lemma spawn_mapper_ok:
  assumes "runs s K ext (p # fl) c d" and "acts_for s K d child dc" and "call_ok (va, off, perm, src, len)"
    and "vmap s K (vkey dc va) = None" and "vmap s K (vkey d UTEMP) = None" and "2 \<le> length fl"
  shows "\<exists>s' fl'. spawn_mapper child (va, off, perm, src, len) s = Some (Inr (), s')
    \<and> vmap s' K = (vmap s K)(vkey dc va \<mapsto> mk_pte p perm) \<and> PPN (mk_pte p perm) = p
    \<and> runs s' K ext fl' c d \<and> acts_for s' K d child dc \<and> length fl \<le> length fl' + 2
    \<and> (\<forall>a < 4096. page_bytes s' p a = call_page (va, off, perm, src, len) a) \<and> keeps_pages s K s'"
proof -
  obtain e where e: "envid2env child True s = Some (Inr (Some e))" "owns s K e dc" and dd: "dc \<noteq> d"
    using assms(2) by (auto simp: acts_for_def)
  have va: "\<not> is_illegal_va va" and perm: "perm < 4096" using assms(3) by simp_all
  have keys: "vkey dc va \<noteq> vkey d UTEMP" using dd by (simp add: vkey_def)
  note r = runsD [OF assms(1)]
  have ne: "fl \<noteq> []" using assms(6) by auto
  obtain s1 where s1: "sys_mem_alloc child va perm s = Some (Inr 0, s1)"
    "vmap s1 K = (vmap s K)(vkey dc va \<mapsto> mk_pte p perm)" "pm_inv s1 K ext (free_rest s K dc va fl)"
    "mem_call_frame s K (p # fl) s1" "\<forall>w < 1024. pmem s1 p w = 0"
    by (rule env_alloc_page [OF r(1) e va assms(4) perm disjI2 [OF ne]])
  define fl1 where "fl1 = free_rest s K dc va fl"
  have l1: "length fl \<le> length fl1 + 1" using length_free_rest [of fl s K dc va] by (simp add: fl1_def)
  have r1: "runs s1 K ext fl1 c d" by (rule runs_frame [OF assms(1) s1(4)]) (use s1(3) in \<open>simp add: fl1_def\<close>)
  have P: "PPN (mk_pte p perm) = p" using free_page(3) [OF assms(1), of p perm] perm by simp
  have fresh: "PPN en \<noteq> p" if "vmap s K k = Some en" for k en
    using free_page(4) [OF assms(1), of p k en] that by simp
  have k1: "keeps_pages s K s1"
    unfolding keeps_pages_def
  proof (intro allI impI)
    fix k en assume "vmap s K k = Some en"
    then show "vmap s1 K k = Some en \<and> pmem s1 (PPN en) = pmem s (PPN en)"
      using mapped_kept [OF s1(4) r(1) order_refl] assms(4) by (auto simp: s1(2))
  qed
  have a1: "acts_for s1 K d child dc" by (rule acts_for_frame [OF assms(2) s1(4)])
  have z1: "page_bytes s1 p a = 0" if "a < 4096" for a by (rule page_bytes_zero [OF s1(5) that])
  show ?thesis
  proof (cases src)
    case None
    then have "spawn_mapper child (va, off, perm, src, len) s = Some (Inr (), s1)" by (simp add: spawn_mapper_def s1(1))
    then show ?thesis using s1(2) P r1 a1 l1 z1 k1 None by (intro exI [of _ s1] exI [of _ fl1]) simp
  next
    case (Some m)
    let ?pd = "perm OR PTE_D"
    have pd: "?pd < 4096" using perm_ops_less(2) [OF perm PTE_flags_less(2)] by (simp add: PTE_SET_def)
    have v1: "vmap s1 K (vkey dc va) = Some (mk_pte p perm)" "vmap s1 K (vkey d UTEMP) = None"
      using keys assms(5) by (simp_all add: s1(2))
    obtain e1 where e1: "envid2env child True s1 = Some (Inr (Some e1))" "owns s1 K e1 dc"
      using a1 by (auto simp: acts_for_def)
    have "ext (PPN (mk_pte p perm)) = 0" using free_page(2) [OF assms(1), of p] by (simp add: P)
    moreover have "k = vkey dc va" if "vmap s1 K k = Some en" "PPN en = PPN (mk_pte p perm)" for k en
      using that fresh by (auto simp: s1(2) P split: if_splits)
    ultimately have "unat (pp_ref s1 (PPN (mk_pte p perm))) = 1"
      using single_ref [OF runsD(1) [OF r1] v1(1)] by blast
    then have rf: "unat (pp_ref s1 (PPN (mk_pte p perm))) < 65535" by simp
    have "fl1 \<noteq> []" using l1 assms(6) by auto
    then obtain s2 where s2: "sys_mem_map child va 0 UTEMP ?pd s1 = Some (Inr 0, s2)"
      "vmap s2 K = (vmap s1 K)(vkey d UTEMP \<mapsto> mk_pte p ?pd)" "pm_inv s2 K ext (free_rest s1 K d UTEMP fl1)"
      "mem_call_frame s1 K fl1 s2"
      using env_map_page [OF runsD(1) [OF r1] e1(1) runsD(5) [OF r1] e1(2) runsD(4) [OF r1] va UTEMP_page(2) v1 pd rf disjI2]
      unfolding P by blast
    define fl2 where "fl2 = free_rest s1 K d UTEMP fl1"
    have l2: "length fl \<le> length fl2 + 2" using length_free_rest [of fl1 s1 K d UTEMP] l1 by (simp add: fl2_def)
    have r2: "runs s2 K ext fl2 c d" by (rule runs_frame [OF r1 s2(4)]) (use s2(3) in \<open>simp add: fl2_def\<close>)
    have P2: "PPN (mk_pte p ?pd) = p" using free_page(3) [OF assms(1), of p ?pd] pd by simp
    have v2: "vmap s2 K (vkey d UTEMP) = Some (mk_pte p ?pd)" by (simp add: s2(2))
    have "?pd AND PTE_D \<noteq> 0"
    proof -
      have "bit (?pd AND PTE_D) 10" by (simp add: bit_and_iff bit_or_iff bit_PTE_D)
      then show ?thesis by auto
    qed
    then have "mk_pte p ?pd AND PTE_D \<noteq> 0" by (rule mk_pte_D)
    then have o2: "on_page K ext fl2 c d UTEMP p s2 (page_bytes s2 p)"
      using r2 UTEMP_page(1,2) v2 P2 by (auto simp: on_page_def)
    have fit: "unat off + length (map m [0..<unat len]) \<le> 4096" using assms(3) Some by simp
    obtain s3 where s3: "store_bytes (UTEMP + off) (map m [0..<unat len]) s2 = Some s3"
      "on_page K ext fl2 c d UTEMP p s3 (put_bytes (unat off) (map m [0..<unat len]) (page_bytes s2 p))" "wrote p s2 s3"
      using on_page_store_bytes [OF o2 fit] by auto
    note w = wrote_keeps [OF s3(3) on_page_data [OF o2]]
    have r3: "runs s3 K ext fl2 c d" using s3(2) by (simp add: on_page_def)
    have v3: "vmap s3 K (vkey d UTEMP) = Some (mk_pte p ?pd)" using v2 w(1) by simp
    obtain s4 where s4: "sys_mem_unmap 0 UTEMP s3 = Some (Inr 0, s4)" "vmap s4 K = (vmap s3 K)(vkey d UTEMP := None)"
      "runs s4 K ext (if pp_ref s3 (PPN (mk_pte p ?pd)) = 1 then PPN (mk_pte p ?pd) # fl2 else fl2) c d"
      "mem_call_frame s3 K [] s4"
      by (rule cur_unmap_mapped [OF r3 UTEMP_page(2) v3])
    define fl4 where "fl4 = (if pp_ref s3 (PPN (mk_pte p ?pd)) = 1 then PPN (mk_pte p ?pd) # fl2 else fl2)"
    have l4: "length fl \<le> length fl4 + 2" using l2 by (simp add: fl4_def)
    have run: "spawn_mapper child (va, off, perm, src, len) s = Some (Inr (), s4)"
      using Some by (simp add: spawn_mapper_def s1(1) s2(1) s3(1) s4(1))
    have vm: "vmap s4 K = (vmap s K)(vkey dc va \<mapsto> mk_pte p perm)"
      using keys assms(5) by (auto simp: s4(2) w(1) s2(2) s1(2) fun_eq_iff)
    have "pmem s2 p = pmem s1 p" using mapped_kept [OF s2(4) runsD(1) [OF r1] order_refl v1(1)] by (simp add: P)
    then have b2: "page_bytes s2 p = page_bytes s1 p" by (rule page_bytes_pmem)
    have "pmem s4 p = pmem s3 p" using mapped_kept [OF s4(4) runsD(1) [OF r3] _ v3] by (simp add: P2)
    then have "page_bytes s4 p = page_bytes s3 p" by (rule page_bytes_pmem)
    then have b4: "page_bytes s4 p = put_bytes (unat off) (map m [0..<unat len]) (page_bytes s1 p)"
      using s3(2) b2 by (simp add: on_page_def)
    have bytes: "page_bytes s4 p a = call_page (va, off, perm, src, len) a" if "a < 4096" for a
      using z1 [OF that] Some by (auto simp: b4 put_bytes_def)
    have kp: "keeps_pages s K s4"
      unfolding keeps_pages_def
    proof (intro allI impI)
      fix k en assume k: "vmap s K k = Some en"
      have v: "vmap s1 K k = Some en" "pmem s1 (PPN en) = pmem s (PPN en)"
        using k1 k unfolding keeps_pages_def by blast+
      have "k \<noteq> vkey d UTEMP" using k assms(5) by auto
      then have k3: "vmap s2 K k = Some en" "vmap s3 K k = Some en" using v(1) by (simp_all add: s2(2) w(1))
      have "pmem s2 (PPN en) = pmem s1 (PPN en)" by (rule mapped_kept [OF s2(4) runsD(1) [OF r1] order_refl v(1)])
      moreover have "pmem s3 (PPN en) = pmem s2 (PPN en)" by (rule w(11)) (rule fresh [OF k])
      moreover have "pmem s4 (PPN en) = pmem s3 (PPN en)"
        by (rule mapped_kept [OF s4(4) runsD(1) [OF r3] _ k3(2)]) simp
      ultimately show "vmap s4 K k = Some en \<and> pmem s4 (PPN en) = pmem s (PPN en)"
        using vm k assms(4) v(2) by auto
    qed
    have "acts_for s3 K d child dc" using acts_for_frame [OF a1 s2(4)] w(7,8) by (simp add: acts_for_def)
    then have "acts_for s4 K d child dc" by (rule acts_for_frame [OF _ s4(4)])
    then show ?thesis using run vm P s4(3) [folded fl4_def] l4 bytes kp by blast
  qed
qed

section \<open>The calls of a segment\<close>

text \<open>What a call leaves in the child.\<close>

fun call_done :: "kstate \<Rightarrow> (nat \<times> nat) set \<Rightarrow> nat \<Rightarrow> mapcall \<Rightarrow> bool" where
  "call_done s K dc (va, off, perm, src, len) \<longleftrightarrow>
     (\<exists>p. vmap s K (vkey dc va) = Some (mk_pte p perm) \<and> PPN (mk_pte p perm) = p
        \<and> (\<forall>a < 4096. page_bytes s p a = call_page (va, off, perm, src, len) a))"

lemma keeps_call_done: "keeps_pages s K s' \<Longrightarrow> call_done s K dc cl \<Longrightarrow> call_done s' K dc cl"
  using page_bytes_pmem [of s' _ s] unfolding keeps_pages_def by (cases cl) (simp del: split_paired_All, metis)

lemma keeps_pages_refl: "keeps_pages s K s"
  unfolding keeps_pages_def by blast

lemma keeps_pages_trans: "keeps_pages s K s1 \<Longrightarrow> keeps_pages s1 K s2 \<Longrightarrow> keeps_pages s K s2"
  unfolding keeps_pages_def by metis

lemma run_spawn_calls:
  assumes "runs s K ext fl c d" and "acts_for s K d child dc"
    and "\<forall>cl \<in> set cs. call_ok cl \<and> vmap s K (vkey dc (fst cl)) = None"
    and "distinct (map (\<lambda>cl. vkey dc (fst cl)) cs)" and "vmap s K (vkey d UTEMP) = None"
    and "3 * length cs \<le> length fl"
  shows "\<exists>s' fl'. run_calls (spawn_mapper child) cs s = Some (Inr (), s')
    \<and> runs s' K ext fl' c d \<and> keeps_pages s K s' \<and> (\<forall>cl \<in> set cs. call_done s' K dc cl)"
  using assms
proof (induction cs arbitrary: s fl)
  case Nil
  then show ?case using keeps_pages_refl by auto
next
  case (Cons cl cs)
  obtain va off perm src len where cl: "cl = (va, off, perm, src, len)" by (cases cl)
  obtain p fl0 where fl: "fl = p # fl0" using Cons.prems(6) by (cases fl) auto
  have two: "2 \<le> length fl0" "3 * length cs + 2 \<le> length fl0" using Cons.prems(6) by (simp_all add: fl)
  have ok: "call_ok (va, off, perm, src, len)" "vmap s K (vkey dc va) = None" using Cons.prems(3) by (simp_all add: cl)
  obtain s1 fl1 where s1: "spawn_mapper child (va, off, perm, src, len) s = Some (Inr (), s1)"
    "vmap s1 K = (vmap s K)(vkey dc va \<mapsto> mk_pte p perm)" "PPN (mk_pte p perm) = p"
    "runs s1 K ext fl1 c d" "acts_for s1 K d child dc" "length fl0 \<le> length fl1 + 2"
    "\<forall>a < 4096. page_bytes s1 p a = call_page (va, off, perm, src, len) a" "keeps_pages s K s1"
    using spawn_mapper_ok [OF Cons.prems(1) [unfolded fl] Cons.prems(2) ok Cons.prems(5) two(1)] by blast
  have d1: "call_done s1 K dc cl"
    unfolding cl call_done.simps by (intro exI [of _ p]) (use s1(2,3,7) in \<open>simp del: call_page.simps\<close>)
  have "dc \<noteq> d" using Cons.prems(2) by (simp add: acts_for_def)
  then have ut: "vmap s1 K (vkey d UTEMP) = None" using Cons.prems(5) by (simp add: s1(2) vkey_def)
  have rest: "\<forall>c' \<in> set cs. call_ok c' \<and> vmap s1 K (vkey dc (fst c')) = None"
  proof
    fix c' assume c': "c' \<in> set cs"
    then have "vkey dc (fst c') \<noteq> vkey dc va" using Cons.prems(4) by (force simp: cl)
    then show "call_ok c' \<and> vmap s1 K (vkey dc (fst c')) = None" using c' Cons.prems(3) by (simp add: s1(2))
  qed
  obtain s' fl' where s': "run_calls (spawn_mapper child) cs s1 = Some (Inr (), s')"
    "runs s' K ext fl' c d" "keeps_pages s1 K s'" "\<forall>c' \<in> set cs. call_done s' K dc c'"
    using Cons.IH [OF s1(4,5) rest _ ut] Cons.prems(4) two(2) s1(6) by auto
  have "call_done s' K dc cl" by (rule keeps_call_done [OF s'(3) d1])
  then show ?case using s1(1) s' keeps_pages_trans [OF s1(8) s'(3)] by (auto simp: cl)
qed

section \<open>A segment\<close>

lemma vkey_VPN: "vkey d a = vkey d b \<longleftrightarrow> VPN a = VPN b"
proof
  assume "vkey d a = vkey d b"
  then show "VPN a = VPN b" using VPN_key [of d a "PDX a" "PTX a"] VPN_key [of d b "PDX b" "PTX b"] by (simp add: vkey_def)
next
  assume "VPN a = VPN b"
  then have e: "drop_bit 12 a = drop_bit 12 b" by (simp only: VPN_def word_unat_eq_iff)
  have "drop_bit 22 x = drop_bit 10 (drop_bit 12 x)" for x :: u32 by simp
  then have "drop_bit 22 a = drop_bit 22 b" by (simp only: e)
  then show "vkey d a = vkey d b" by (simp add: vkey_def PDX_def PTX_def e)
qed

lemma VPO_less: "VPO va < 4096"
  using word_and_le1 [of va "0xFFF"] by (simp add: VPO_def word_le_nat_alt)

lemma seg_perm_less: "seg_perm ph < 4096"
  by (simp add: seg_perm_def PTE_V_def PTE_D_def)

lemma legal_in_user:
  assumes "UTEMP \<le> va" and "unat va + m \<le> unat UTOP" and "n < m"
  shows "\<not> is_illegal_va (va + word_of_nat n)"
proof -
  have "unat UTOP \<le> 0xFFFFF000" by (simp add: mmu_defs)
  then have "unat (va + word_of_nat n) = unat va + n"
    using assms(2,3) by (simp add: unat_word_ariths unat_of_nat)
  then show ?thesis using assms by (simp add: is_illegal_va_def word_le_nat_alt word_less_nat_alt)
qed

text \<open>The part of the first page of a segment.\<close>

lemma seg_call_first_ok: "unat (seg_offset ph) + unat (min x (BY2PG - seg_offset ph)) \<le> 4096"
proof -
  have "unat (BY2PG - seg_offset ph) = 4096 - unat (seg_offset ph)" "unat (seg_offset ph) < 4096"
    using unat_seg_offset [of ph] by (simp_all add: unat_sub word_le_nat_alt BY2PG_def)
  moreover have "unat (min x (BY2PG - seg_offset ph)) \<le> unat (BY2PG - seg_offset ph)"
    by (simp add: min_def word_le_nat_alt)
  ultimately show ?thesis by linarith
qed

lemma seg_call_shape:
  assumes "cl \<in> set (seg_calls ph bin)" and "seg_fits ph" and "0 < p_memsz ph"
  obtains i off src len where "cl = (p_vaddr ph + word_of_nat i, off, seg_perm ph, src, len)"
    and "i < unat (p_memsz ph)" and "unat off + unat len \<le> 4096"
proof -
  have le: "unat (p_filesz ph) \<le> unat (p_memsz ph)" "0 < unat (p_memsz ph)"
    using assms(2,3) by (simp_all add: seg_fits_def word_le_nat_alt word_gt_0 unat_gt_0)
  have page: "unat (min x BY2PG) \<le> 4096" for x :: u32
    by (simp add: min_def BY2PG_def word_le_nat_alt)
  note off = seg_call_first_ok
  consider "cl = (p_vaddr ph, seg_offset ph, seg_perm ph, Some bin, min (p_filesz ph) (BY2PG - seg_offset ph))"
    | i where "cl = file_call (p_vaddr ph) bin (p_filesz ph) (seg_perm ph) i" "i < unat (p_filesz ph)"
    | i where "cl = zero_call (p_vaddr ph) (p_memsz ph) (seg_perm ph) i" "i < unat (p_memsz ph)"
    using assms(1) unfolding seg_calls_def Let_def by (auto simp: pages_from_mem split: if_splits)
  then show ?thesis
  proof cases
    case 1
    then show ?thesis using that [of 0] le(2) off by simp
  next
    case (2 i)
    then show ?thesis using that [of i] le(1) page by (simp add: file_call_def)
  next
    case (3 i)
    then show ?thesis using that [of i] page by (simp add: zero_call_def)
  qed
qed

text \<open>C34: What \<^verbatim>\<open>spawn\<close> loads of a segment. Let the segment lie in user space, its pages be unmapped in the
  child, the temporary page be unmapped in the parent and three free pages be left for every call of the
  mapper. Then \<^verbatim>\<open>elf_load_seg\<close> with \<^verbatim>\<open>spawn_mapper\<close> succeeds, every byte of the segment is mapped in the child
  with the permission of the segment and holds the byte of the file, or zero above \<^verbatim>\<open>p_filesz\<close>, and
  every page that was mapped anywhere before is still mapped and unchanged.\<close>

theorem spawn_segment_loaded:
  assumes "runs s K ext fl c d" and "acts_for s K d child dc" and "seg_fits ph" and "0 < p_memsz ph"
    and "UTEMP \<le> p_vaddr ph" and "unat (p_vaddr ph) + unat (p_memsz ph) \<le> unat UTOP"
    and "\<forall>n < unat (p_memsz ph). vmap s K (vkey dc (p_vaddr ph + word_of_nat n)) = None"
    and "vmap s K (vkey d UTEMP) = None" and "3 * length (seg_calls ph bin) \<le> length fl"
  shows "\<exists>s' fl'. elf_load_seg ph bin (spawn_mapper child) s = Some (Inr (), s')
    \<and> runs s' K ext fl' c d \<and> keeps_pages s K s'
    \<and> (\<forall>n < unat (p_memsz ph). \<exists>p. vmap s' K (vkey dc (p_vaddr ph + word_of_nat n)) = Some (mk_pte p (seg_perm ph))
         \<and> PPN (mk_pte p (seg_perm ph)) = p
         \<and> page_bytes s' p (VPO (p_vaddr ph + word_of_nat n)) = (if n < unat (p_filesz ph) then bin n else 0))"
proof -
  let ?cs = "seg_calls ph bin"
  have top: "unat UTOP \<le> 0xFFFFF000" by (simp add: mmu_defs)
  have "unat (p_filesz ph) \<le> unat (p_memsz ph)" using assms(3) by (simp add: seg_fits_def word_le_nat_alt)
  then have run: "elf_load_seg ph bin f s = run_calls f ?cs s" for f :: "kstate mapper"
    using assms(6) top by (intro elf_load_seg_calls) linarith+
  have legal: "\<not> is_illegal_va (p_vaddr ph + word_of_nat n)" if "n < unat (p_memsz ph)" for n
    using legal_in_user [OF assms(5,6) that] .
  have ok: "\<forall>cl \<in> set ?cs. call_ok cl \<and> vmap s K (vkey dc (fst cl)) = None"
  proof
    fix cl assume "cl \<in> set ?cs"
    then obtain i off src len where "cl = (p_vaddr ph + word_of_nat i, off, seg_perm ph, src, len)"
      "i < unat (p_memsz ph)" "unat off + unat len \<le> 4096"
      using seg_call_shape [OF _ assms(3,4)] by blast
    then show "call_ok cl \<and> vmap s K (vkey dc (fst cl)) = None"
      using legal seg_perm_less assms(7) by simp
  qed
  have "distinct (map (\<lambda>cl. vkey dc (fst cl)) ?cs)"
    using seg_calls_distinct [OF assms(3), of bin] by (simp add: distinct_map inj_on_def vkey_VPN)
  then obtain s' fl' where s': "run_calls (spawn_mapper child) ?cs s = Some (Inr (), s')" "runs s' K ext fl' c d"
    "keeps_pages s K s'" "\<forall>cl \<in> set ?cs. call_done s' K dc cl"
    using run_spawn_calls [OF assms(1,2) ok _ assms(8,9)] by blast
  have "\<exists>p. vmap s' K (vkey dc (p_vaddr ph + word_of_nat n)) = Some (mk_pte p (seg_perm ph))
         \<and> PPN (mk_pte p (seg_perm ph)) = p
         \<and> page_bytes s' p (VPO (p_vaddr ph + word_of_nat n)) = (if n < unat (p_filesz ph) then bin n else 0)"
    if n: "n < unat (p_memsz ph)" for n
  proof -
    obtain cl where cl: "cl \<in> set ?cs" "VPN (p_vaddr ph + word_of_nat n) = VPN (fst cl)"
      "call_page cl (VPO (p_vaddr ph + word_of_nat n)) = (if n < unat (p_filesz ph) then bin n else 0)"
      by (rule seg_page_of [OF assms(3) n])
    obtain i off src len where e: "cl = (p_vaddr ph + word_of_nat i, off, seg_perm ph, src, len)"
      by (rule seg_call_shape [OF cl(1) assms(3,4)])
    have "call_done s' K dc cl" using s'(4) cl(1) by blast
    then show ?thesis using cl(2,3) VPO_less [of "p_vaddr ph + word_of_nat n"] vkey_VPN [of dc "p_vaddr ph + word_of_nat n" "fst cl"]
      unfolding e by (auto simp del: call_page.simps)
  qed
  then show ?thesis using s'(1-3) run by auto
qed

text \<open>Four bytes of data at \<^verbatim>\<open>0x500010\<close>.\<close>

definition small_seg :: Elf32_Phdr where
  "small_seg = \<lparr>p_type = 1, p_offset = 0, p_vaddr = 0x500010, p_filesz = 4, p_memsz = 4, p_flags = 2\<rparr>"

lemma small_seg_offset: "seg_offset small_seg = 0x10"
  by (simp add: seg_offset_def small_seg_def ROUNDDOWN_def BY2PG_def)

theorem spawn_segment_loaded_witness:
  "\<exists>s' fl' p. elf_load_seg small_seg (\<lambda>k. word_of_nat k + 65) (spawn_mapper 0x1001) kspawn = Some (Inr (), s')
     \<and> runs s' fork_slots fork_ext fl' 0 1
     \<and> vmap s' fork_slots (vkey 3 0x500012) = Some (mk_pte p (PTE_V OR PTE_D)) \<and> page_bytes s' p 18 = 67"
proof -
  let ?m = "\<lambda>k. word_of_nat k + 65 :: u8"
  have one: "length (seg_calls small_seg ?m) = 1"
    by (simp add: seg_calls_def Let_def small_seg_offset file_start_def file_end_def pages_from_done page_count_done)
      (simp add: small_seg_def pages_from_done page_count_done)
  have fits: "seg_fits small_seg"
    by (simp add: seg_fits_def small_seg_offset) (simp add: small_seg_def)
  have acts: "acts_for kspawn fork_slots 1 0x1001 3" using kspawn_child by (auto simp: acts_for_def)
  have "vkey 1 UTEMP \<noteq> (1, 1, 0)" by (simp add: vkey_def PDX_numeral_eq mmu_defs)
  then have maps: "vmap kspawn fork_slots (vkey 1 UTEMP) = None" "vmap kspawn fork_slots (vkey 3 va) = None" for va
    by (simp_all add: kspawn_maps kfork_vmap vkey_def)
  have sz: "p_memsz small_seg = 4" "p_filesz small_seg = 4" "p_vaddr small_seg = 0x500010"
    and perm: "seg_perm small_seg = PTE_V OR PTE_D"
    by (simp_all add: small_seg_def seg_perm_def PF_W_def)
  obtain s' fl' where s': "elf_load_seg small_seg ?m (spawn_mapper 0x1001) kspawn = Some (Inr (), s')"
    "runs s' fork_slots fork_ext fl' 0 1"
    and bytes: "\<forall>n < unat (p_memsz small_seg). \<exists>p.
      vmap s' fork_slots (vkey 3 (p_vaddr small_seg + word_of_nat n)) = Some (mk_pte p (seg_perm small_seg))
      \<and> PPN (mk_pte p (seg_perm small_seg)) = p
      \<and> page_bytes s' p (VPO (p_vaddr small_seg + word_of_nat n)) = (if n < unat (p_filesz small_seg) then ?m n else 0)"
    using spawn_segment_loaded [OF kspawn_runs acts fits _ _ _ _ maps(1), of ?m] one maps(2)
    by (auto simp: sz mmu_defs)
  have "\<exists>p. vmap s' fork_slots (vkey 3 0x500012) = Some (mk_pte p (PTE_V OR PTE_D)) \<and> page_bytes s' p 18 = 67"
    using bytes [rule_format, of 2] by (auto simp: sz perm VPO_def)
  then show ?thesis using s' by blast
qed

section \<open>Short data\<close>

text \<open>A page that is mapped in place of another one.\<close>

lemma insert_replaces:
  assumes "pm_inv s K ext fl" and "(d, PDX va) \<in> K" and "vmap s K (vkey d va) = Some e" and "PPN e \<noteq> pp"
    and "mappable s K fl pp" and "perm < 4096"
  shows "\<exists>s' fl'. page_insert d asid pp va perm s = Some (Inr (), s')
    \<and> vmap s' K = (vmap s K)(vkey d va \<mapsto> mk_pte pp perm) \<and> pm_inv s' K ext fl' \<and> length fl \<le> length fl'
    \<and> mem_call_frame s K fl s'"
proof -
  define s1 where "s1 = tlb_invalidate asid va
      (set_pte (PPN (pte_at (d, PDX va) s), PTX va) 0 (decref_state (PPN e) s))"
  define fl1 where "fl1 = (if pp_ref s (PPN e) = 1 then PPN e # fl else fl)"
  note r = page_remove_mapped [OF assms(1-3), of asid, folded s1_def fl1_def]
  have t: "tab s1 K (d, PDX va) \<noteq> None" using assms(3) r(2) by (auto dest: vmap_vkey_Some)
  have "mappable s1 K fl1 pp" using assms(4,5) r(2) by (auto simp: mappable_def fl1_def s1_def)
  moreover have "vmap s1 K (vkey d va) = None" using r(3) by simp
  ultimately obtain s' where s': "page_insert_new d asid pp va perm s1 = Some (Inr (), s')"
    "vmap s' K = (vmap s1 K)(vkey d va \<mapsto> mk_pte pp perm)" "pm_inv s' K ext fl1"
    using page_insert_new_ok [OF r(4) assms(2) _ _ assms(6) disjI1 [OF t], of pp asid] t by auto
  have run: "page_insert d asid pp va perm s = Some (Inr (), s')"
    using page_insert_by_vmap [OF assms(1,2), of asid pp perm] assms(3,4) r(1) s'(1) by simp
  have "length fl \<le> length fl1" by (simp add: fl1_def)
  then show ?thesis
    using run s'(2,3) r(3) mem_call_frame_insert [OF assms(1,2) run] by auto
qed

lemma env_realloc_page:
  assumes "pm_inv s K ext (p # fl)" and "envid2env envid True s = Some (Inr (Some e))" and "owns s K e d"
    and "\<not> is_illegal_va va" and "vmap s K (vkey d va) = Some en" and "perm < 4096"
  obtains s' fl' where "sys_mem_alloc envid va perm s = Some (Inr 0, s')"
    and "vmap s' K = (vmap s K)(vkey d va \<mapsto> mk_pte p perm)" and "pm_inv s' K ext fl'" and "length fl \<le> length fl'"
    and "mem_call_frame s K (p # fl) s'" and "\<forall>w < 1024. pmem s' p w = 0"
proof -
  have k: "(d, PDX va) \<in> K" by (rule owns_slot [OF assms(3,4)])
  have fi: "free_inv s (p # fl)" using assms(1) by (simp add: pm_inv_def)
  have dist: "p \<notin> set fl" using lists.rep_distinct [of "page_free_list s" "p # fl"] fi by (auto simp: free_inv_def)
  obtain q where q: "page_alloc s = Some (Inr p, zero_page p (s\<lparr>page_free_list := q\<rparr>))" "lq_rep q fl"
    using page_alloc_cons [OF fi] by blast
  define s1 where "s1 = zero_page p (s\<lparr>page_free_list := q\<rparr>)"
  note a = pm_inv_page_alloc [OF assms(1) q(2), folded s1_def]
  have al: "page_alloc s = Some (Inr p, s1)" using q(1) by (simp add: s1_def)
  have other: "PPN en \<noteq> p" using used_not_free(3) [OF assms(1) _ assms(5)] by simp
  have "mappable s1 K fl p"
    using fi used_not_free [OF assms(1), of p] dist a(2) by (auto simp: mappable_def free_inv_def s1_def)
  moreover have "vmap s1 K (vkey d va) = Some en" using assms(5) by (simp add: a(3))
  ultimately obtain s' fl' where s': "page_insert d (env_asid (envs s e)) p va perm s1 = Some (Inr (), s')"
    "vmap s' K = (vmap s1 K)(vkey d va \<mapsto> mk_pte p perm)" "pm_inv s' K ext fl'" "length fl \<le> length fl'"
    "mem_call_frame s1 K fl s'"
    using insert_replaces [OF a(1) k _ other _ assms(6), of "env_asid (envs s e)"] by blast
  have e1: "envs s1 = envs s" using more_eqD [OF more_page_alloc [OF al]] by simp
  have call: "sys_mem_alloc envid va perm s = Some (Inr 0, s')"
    using assms(3,4) al s'(1) e1 by (simp add: sys_mem_alloc_def with_env_ok [OF assms(2)] owns_def)
  have "pmem s1 x = pmem s x" if "x \<noteq> p" for x using that by (simp add: s1_def)
  then have fr: "mem_call_frame s K (p # fl) s'"
    using s'(5) more_page_alloc [OF al] cur_page_alloc [OF al]
    by (auto simp: mem_call_frame_def a(2) data_page_tab [OF a(2)])
  have "data_page s K p" using free_data_page [OF assms(1)] by simp
  then have "pmem s' p = pmem s1 p" using s'(5) dist by (simp add: mem_call_frame_def data_page_tab [OF a(2)])
  then have "\<forall>w < 1024. pmem s' p w = 0" by (simp add: s1_def zero_page_def)
  then show ?thesis using that [OF call _ s'(3,4) fr] s'(2) by (simp add: a(3))
qed

text \<open>The loop over the zero pages, started when the data have been mapped at the address \<open>va\<close>: the first of them
  replaces the page at \<open>va\<close> and the others leave it alone.\<close>

lemma zero_calls_replace:
  assumes "runs s K ext (p # fl) c d" and "acts_for s K d child dc" and "\<forall>n < unat sz. \<not> is_illegal_va (va + word_of_nat n)"
    and "vmap s K (vkey dc va) = Some en" and "vmap s K (vkey d UTEMP) = None" and "perm < 4096"
    and "i < unat sz" and "VPN (va + word_of_nat i) = VPN va" and "distinct (map (\<lambda>j. VPN (va + word_of_nat j)) js)"
    and "\<forall>j \<in> set js. j < unat sz \<and> VPN (va + word_of_nat j) \<noteq> VPN va \<and> vmap s K (vkey dc (va + word_of_nat j)) = None"
    and "3 * length js \<le> length fl"
  shows "\<exists>s' fl'. run_calls (spawn_mapper child) (map (zero_call va sz perm) (i # js)) s = Some (Inr (), s')
    \<and> runs s' K ext fl' c d \<and> vmap s' K (vkey dc va) = Some (mk_pte p perm) \<and> PPN (mk_pte p perm) = p
    \<and> (\<forall>a < 4096. page_bytes s' p a = 0)"
proof -
  obtain e where e: "envid2env child True s = Some (Inr (Some e))" "owns s K e dc" and dd: "dc \<noteq> d"
    using assms(2) by (auto simp: acts_for_def)
  have key: "vkey dc (va + word_of_nat i) = vkey dc va" using assms(8) by (simp add: vkey_VPN)
  have legal: "\<not> is_illegal_va (va + word_of_nat i)" using assms(3,7) by blast
  have here: "vmap s K (vkey dc (va + word_of_nat i)) = Some en" by (simp only: key assms(4))
  obtain s1 fl1 where s1: "sys_mem_alloc child (va + word_of_nat i) perm s = Some (Inr 0, s1)"
    "vmap s1 K = (vmap s K)(vkey dc (va + word_of_nat i) \<mapsto> mk_pte p perm)" "pm_inv s1 K ext fl1" "length fl \<le> length fl1"
    "mem_call_frame s K (p # fl) s1" "\<forall>w < 1024. pmem s1 p w = 0"
    by (rule env_realloc_page [OF runsD(1) [OF assms(1)] e legal here assms(6)])
  have r1: "runs s1 K ext fl1 c d" by (rule runs_frame [OF assms(1) s1(5,3)])
  have a1: "acts_for s1 K d child dc" by (rule acts_for_frame [OF assms(2) s1(5)])
  have P: "PPN (mk_pte p perm) = p" using free_page(3) [OF assms(1), of p perm] assms(6) by simp
  let ?cs = "map (zero_call va sz perm) js"
  have ok: "\<forall>cl \<in> set ?cs. call_ok cl \<and> vmap s1 K (vkey dc (fst cl)) = None"
  proof
    fix cl assume "cl \<in> set ?cs"
    then obtain j where j: "j \<in> set js" "cl = zero_call va sz perm j" by auto
    have "vkey dc (va + word_of_nat j) \<noteq> vkey dc va" using assms(10) j(1) by (simp add: vkey_VPN)
    then show "call_ok cl \<and> vmap s1 K (vkey dc (fst cl)) = None"
      using assms(3,6,10) j by (simp add: zero_call_def s1(2) key)
  qed
  have "distinct (map (\<lambda>cl. vkey dc (fst cl)) ?cs)"
    using assms(9) by (simp add: distinct_map inj_on_def vkey_VPN zero_call_def)
  moreover have "vmap s1 K (vkey d UTEMP) = None" using assms(5) dd by (simp add: s1(2) vkey_def)
  ultimately obtain s' fl' where s': "run_calls (spawn_mapper child) ?cs s1 = Some (Inr (), s')" "runs s' K ext fl' c d"
    "keeps_pages s1 K s'"
    using run_spawn_calls [OF r1 a1 ok] assms(11) s1(4) by auto
  have "vmap s1 K (vkey dc va) = Some (mk_pte p perm)" by (simp add: s1(2) key)
  then have keep: "vmap s' K (vkey dc va) = Some (mk_pte p perm)" "pmem s' p = pmem s1 p"
    using s'(3) P unfolding keeps_pages_def by metis+
  have "page_bytes s' p a = 0" if "a < 4096" for a
    using page_bytes_pmem [OF keep(2)] page_bytes_zero [OF s1(6) that] by simp
  then show ?thesis
    using s'(1,2) keep(1) P s1(1) by (auto simp: zero_call_def spawn_mapper_def)
qed

text \<open>C4: Short data are lost. Let a segment start inside of a page, with data that end before the next page
  and more memory than data, lie in user space where the child has nothing mapped, and let there be free
  pages for the calls of the mapper. Then \<^verbatim>\<open>elf_load_seg\<close> with \<^verbatim>\<open>spawn_mapper\<close> reports success, and the page on
  which the segment starts is mapped in the child and all zero, whatever the data: the first zero page has
  been mapped over the page of the data.\<close>

theorem elf_load_seg_loses_short_data:
  assumes "runs s K ext fl c d" and "acts_for s K d child dc" and "vmap s K (vkey d UTEMP) = None"
    and "seg_offset ph \<noteq> 0" and "unat (p_filesz ph) < 4096 - unat (seg_offset ph)" and "p_filesz ph < p_memsz ph"
    and "UTEMP \<le> p_vaddr ph" and "unat (p_vaddr ph) + unat (p_memsz ph) \<le> unat UTOP"
    and "\<forall>n < unat (p_memsz ph). vmap s K (vkey dc (p_vaddr ph + word_of_nat n)) = None"
    and "3 * length (seg_calls ph bin) \<le> length fl + 2"
  shows "\<exists>s' fl' p. elf_load_seg ph bin (spawn_mapper child) s = Some (Inr (), s') \<and> runs s' K ext fl' c d
    \<and> vmap s' K (vkey dc (p_vaddr ph)) = Some (mk_pte p (seg_perm ph)) \<and> PPN (mk_pte p (seg_perm ph)) = p
    \<and> (\<forall>a < 4096. page_bytes s' p a = 0)"
proof -
  have top: "unat UTOP \<le> 0xFFFFF000" by (simp add: mmu_defs)
  then have end32: "unat (p_vaddr ph) + unat (p_memsz ph) \<le> 2 ^ 32" using assms(8) by simp
  have lt: "unat (p_filesz ph) < unat (p_memsz ph)" using assms(6) by (simp add: word_less_nat_alt)
  then have run: "elf_load_seg ph bin f s = run_calls f (seg_calls ph bin) s" for f :: "kstate mapper"
    using assms(8) top by (intro elf_load_seg_calls) linarith+
  have legal: "\<not> is_illegal_va (p_vaddr ph + word_of_nat n)" if "n < unat (p_memsz ph)" for n
    using legal_in_user [OF assms(7,8) that] .
  define va where "va = p_vaddr ph"
  define i where "i = unat (p_filesz ph)"
  let ?first = "(va, seg_offset ph, seg_perm ph, Some bin, min (p_filesz ph) (BY2PG - seg_offset ph))"
  obtain js where calls: "seg_calls ph bin = ?first # map (zero_call va (p_memsz ph) (seg_perm ph)) (i # js)"
    and same: "VPN (va + word_of_nat i) = VPN va" and dist: "distinct (map (\<lambda>j. VPN (va + word_of_nat j)) js)"
    and js: "\<forall>j \<in> set js. j < unat (p_memsz ph) \<and> VPN (va + word_of_nat j) \<noteq> VPN va"
    using short_data_calls [OF assms(4-6) end32, of bin] by (auto simp: va_def i_def)
  have i: "i < unat (p_memsz ph)" using lt by (simp add: i_def)
  have free: "vmap s K (vkey dc (va + word_of_nat n)) = None" if "n < unat (p_memsz ph)" for n
    using assms(9) that by (simp add: va_def)
  have n: "3 * length js + 4 \<le> length fl" using assms(10) by (simp add: calls)
  then obtain p fl0 where fl: "fl = p # fl0" by (cases fl) auto
  have first: "call_ok ?first" "vmap s K (vkey dc va) = None" "2 \<le> length fl0"
    using seg_call_first_ok legal [of 0] free [of 0] i n fl by (auto simp: va_def seg_perm_less)
  obtain s1 fl1 where s1: "spawn_mapper child ?first s = Some (Inr (), s1)"
    "vmap s1 K = (vmap s K)(vkey dc va \<mapsto> mk_pte p (seg_perm ph))"
    "runs s1 K ext fl1 c d" "acts_for s1 K d child dc" "length fl0 \<le> length fl1 + 2"
    using spawn_mapper_ok [OF assms(1) [unfolded fl] assms(2) first(1,2) assms(3) first(3)] by blast
  have dd: "dc \<noteq> d" using assms(2) by (simp add: acts_for_def)
  obtain p1 fl2 where fl1: "fl1 = p1 # fl2" using s1(5) n fl by (cases fl1) auto
  have maps: "vmap s1 K (vkey dc va) = Some (mk_pte p (seg_perm ph))" "vmap s1 K (vkey d UTEMP) = None"
    using assms(3) dd by (simp_all add: s1(2) vkey_def)
  have zeros: "\<forall>j \<in> set js. j < unat (p_memsz ph) \<and> VPN (va + word_of_nat j) \<noteq> VPN va
      \<and> vmap s1 K (vkey dc (va + word_of_nat j)) = None"
    using js free by (auto simp: s1(2) vkey_VPN)
  have room: "3 * length js \<le> length fl2" using s1(5) n by (simp add: fl fl1)
  have "\<forall>n < unat (p_memsz ph). \<not> is_illegal_va (va + word_of_nat n)" using legal by (simp add: va_def)
  note rest = zero_calls_replace [OF s1(3) [unfolded fl1] s1(4) this maps seg_perm_less [of ph] i same dist zeros room]
  have "elf_load_seg ph bin (spawn_mapper child) s
      = run_calls (spawn_mapper child) (map (zero_call va (p_memsz ph) (seg_perm ph)) (i # js)) s1"
    unfolding run calls using s1(1) by (subst run_calls.simps) simp
  then show ?thesis using rest unfolding va_def by metis
qed

text \<open>Four bytes of data at \<^verbatim>\<open>0x500010\<close> and sixteen bytes of memory, with four free pages.\<close>

definition short_seg :: Elf32_Phdr where
  "short_seg = small_seg\<lparr>p_memsz := 16\<rparr>"

definition kspawn4 :: kstate where
  "kspawn4 = kspawn\<lparr>page_free_list := LIST_INSERT_HEAD 7 (page_free_list kspawn)\<rparr>"

lemma kspawn4_maps: "tab kspawn4 K = tab kspawn K" "vmap kspawn4 K = vmap kspawn K"
proof -
  show t: "tab kspawn4 K = tab kspawn K" by (rule tab_cong) (simp add: kspawn4_def pte_at_def)
  show "vmap kspawn4 K = vmap kspawn K" by (rule vmap_cong [OF t]) (simp add: kspawn4_def pte_at_def)
qed

lemma kspawn4_runs: "runs kspawn4 fork_slots fork_ext [7, 4, 5, 6] 0 1"
proof -
  have i: "pm_inv kspawn fork_slots fork_ext [4, 5, 6]" by (rule runsD(1) [OF kspawn_runs])
  then have "lq_rep (page_free_list kspawn4) [7, 4, 5, 6]"
    unfolding kspawn4_def by (simp add: pm_inv_def free_inv_def) (intro lq_rep_insert_head, simp_all)
  then have "pm_inv kspawn4 fork_slots fork_ext [7, 4, 5, 6]"
    using i unfolding pm_inv_def free_inv_def tab_inv_def ref_inv_def kspawn4_maps
    by (simp add: kspawn4_def kspawn_def kfork_simps)
  then show ?thesis using kspawn_runs by (simp add: runs_def owns_def kspawn4_def)
qed

theorem elf_load_seg_loses_short_data_witness:
  "\<exists>s' p. elf_load_seg short_seg (\<lambda>k. word_of_nat k + 65) (spawn_mapper 0x1001) kspawn4 = Some (Inr (), s')
     \<and> vmap s' fork_slots (vkey 3 0x500010) = Some (mk_pte p (PTE_V OR PTE_D)) \<and> page_bytes s' p 18 = 0"
proof -
  let ?m = "\<lambda>k. word_of_nat k + 65 :: u8"
  have off: "seg_offset short_seg = 0x10" using small_seg_offset by (simp add: seg_offset_def short_seg_def)
  have sz: "p_memsz short_seg = 16" "p_filesz short_seg = 4" "p_vaddr short_seg = 0x500010"
    and perm: "seg_perm short_seg = PTE_V OR PTE_D"
    by (simp_all add: short_seg_def small_seg_def seg_perm_def PF_W_def)
  have two: "length (seg_calls short_seg ?m) = 2"
    by (simp add: seg_calls_def Let_def off file_start_def file_end_def sz pages_from_done page_count_done pages_from_step)
  have "envid2env 0x1001 True kspawn4 = envid2env 0x1001 True kspawn"
    using more_eqD [of kspawn4 kspawn] by (simp add: kspawn4_def envid2env_def Let_def)
  then have acts: "acts_for kspawn4 fork_slots 1 0x1001 3"
    using kspawn_child by (auto simp: acts_for_def owns_def kspawn4_def)
  have "vkey 1 UTEMP \<noteq> (1, 1, 0)" by (simp add: vkey_def PDX_numeral_eq mmu_defs)
  then have maps: "vmap kspawn4 fork_slots (vkey 1 UTEMP) = None" "vmap kspawn4 fork_slots (vkey 3 va) = None" for va
    by (simp_all add: kspawn4_maps kspawn_maps kfork_vmap vkey_def)
  obtain s' p where s': "elf_load_seg short_seg ?m (spawn_mapper 0x1001) kspawn4 = Some (Inr (), s')"
    "vmap s' fork_slots (vkey 3 (p_vaddr short_seg)) = Some (mk_pte p (seg_perm short_seg))" "\<forall>a < 4096. page_bytes s' p a = 0"
    using elf_load_seg_loses_short_data [OF kspawn4_runs acts maps(1), of short_seg ?m] two maps(2)
    by (auto simp: off sz mmu_defs)
  then show ?thesis unfolding sz(3) perm by (intro exI [of _ s'] exI [of _ p]) simp
qed

end
