(* ===== verification/SpawnShare.thy ===== *)
theory SpawnShare
  imports SpawnLoad
begin

text \<open>
  The shared pages of \<^verbatim>\<open>spawn\<close>: the loop over the page tables maps every page of the parent that is marked
  \<^verbatim>\<open>PTE_LIBRARY\<close>, the descriptors and pipes, at the same address in the child, and nothing else.
\<close>

section \<open>Entries\<close>

lemma bit_page2pa: "bit (page2pa (PPN e)) n \<longleftrightarrow> 12 \<le> n \<and> bit e n"
proof -
  have "page2pa (PPN e) = push_bit 12 (drop_bit 12 e)" by (simp add: page2pa_def PPN_def)
  then show ?thesis
    by (simp only: bit_push_bit_iff bit_drop_bit_eq) (auto dest: bit_imp_le_length)
qed

lemma bit_PTE_V: "bit PTE_V n \<longleftrightarrow> n = 9"
  by (simp only: PTE_V_def bit_512)

lemma mk_pte_self:
  assumes "pte_valid e"
  shows "mk_pte (PPN e) (PTE_PERM e) = e"
proof -
  have "bit e 9"
  proof (rule ccontr)
    assume "\<not> bit e 9"
    then have "e AND PTE_V = 0" by (intro bit_word_eqI) (auto simp: bit_and_iff bit_PTE_V)
    then show False using assms by (simp add: pte_valid_def)
  qed
  then show ?thesis
    unfolding mk_pte_def
    by (intro bit_word_eqI) (simp only: bit_or_iff bit_page2pa PTE_PERM_def bit_and_iff bit_4095 bit_PTE_V, auto)
qed

section \<open>The pages that are shared\<close>

definition lib_page :: "kstate \<Rightarrow> (nat \<times> nat) set \<Rightarrow> nat \<Rightarrow> nat \<Rightarrow> bool" where
  "lib_page s K d pn \<longleftrightarrow> (\<exists>e. vmap s K (d, pn div 1024, pn mod 1024) = Some e \<and> PTE_PERM e AND PTE_LIBRARY \<noteq> 0)"

definition shared_map :: "kstate \<Rightarrow> (nat \<times> nat) set \<Rightarrow> nat \<Rightarrow> nat \<Rightarrow> nat list \<Rightarrow> (nat \<times> nat \<times> nat) \<Rightarrow> u32 option" where
  "shared_map s K d dc pns k =
     (if \<exists>pn \<in> set pns. k = (dc, pn div 1024, pn mod 1024) \<and> lib_page s K d pn then vmap s K (d, snd k) else vmap s K k)"

definition share_ready :: "kstate \<Rightarrow> (nat \<times> nat) set \<Rightarrow> nat \<Rightarrow> nat \<Rightarrow> nat list \<Rightarrow> bool" where
  "share_ready s K d dc pns \<longleftrightarrow> distinct pns
     \<and> (\<forall>pn \<in> set pns. pn < 521216 \<and> (lib_page s K d pn \<longrightarrow> 1022 \<le> pn \<and> vmap s K (dc, pn div 1024, pn mod 1024) = None))"

text \<open>Enough free pages for the page tables of the child, and counts that do not overflow.\<close>

definition share_room :: "kstate \<Rightarrow> (nat \<times> nat) set \<Rightarrow> nat \<Rightarrow> nat list \<Rightarrow> nat \<Rightarrow> nat list \<Rightarrow> bool" where
  "share_room s K d pns b fl \<longleftrightarrow> few_refs s K b \<and> b + length (filter (lib_page s K d) pns) < 65535
     \<and> length (filter (lib_page s K d) pns) \<le> length fl"

lemma legal_vpn:
  assumes "1022 \<le> pn" and "pn < 521216"
  shows "\<not> is_illegal_va (push_bit 12 (word_of_nat pn))" and "vkey d (push_bit 12 (word_of_nat pn)) = (d, pn div 1024, pn mod 1024)"
    and "PDX (push_bit 12 (word_of_nat pn)) = pn div 1024"
proof -
  have pn: "pn < 2 ^ 20" using assms by simp
  show "\<not> is_illegal_va (push_bit 12 (word_of_nat pn))"
    using assms unat_page_addr [OF pn] by (simp add: is_illegal_va_def word_less_nat_alt word_le_nat_alt mmu_defs)
  show "vkey d (push_bit 12 (word_of_nat pn)) = (d, pn div 1024, pn mod 1024)" "PDX (push_bit 12 (word_of_nat pn)) = pn div 1024"
    using page_addr_index [OF pn] by (simp_all add: vkey_def)
qed

lemma mem_call_keeps:
  assumes "mem_call_frame s K fl s'" and "pm_inv s K ext fl"
    and "\<And>k e. vmap s K k = Some e \<Longrightarrow> vmap s' K k = Some e"
  shows "keeps_pages s K s'"
  using mapped_kept [OF assms(1,2) order_refl] assms(3) unfolding keeps_pages_def by blast

lemma runs_vpn_slot:
  assumes "runs s K ext fl c d" and "pn < 521216"
  shows "(d, pn div 1024) \<in> K"
  using runsD(4) [OF assms(1)] assms(2) by (auto simp: owns_def uslots_def PDX_UTOP)

text \<open>One page.\<close>

lemma share_page_ok:
  assumes "runs s K ext fl c d" and "acts_for s K d child dc" and "share_ready s K d dc (pn # pns)"
    and "vmap s K (d, pn div 1024, pn mod 1024) = Some e" and "PTE_PERM e AND PTE_LIBRARY \<noteq> 0"
    and "few_refs s K b" and "b < 65535" and "fl \<noteq> []"
  obtains s' fl' where "sys_mem_map 0 (push_bit 12 (word_of_nat pn)) child (push_bit 12 (word_of_nat pn)) (PTE_PERM e) s = Some (Inr 0, s')"
    and "vmap s' K = (vmap s K)((dc, pn div 1024, pn mod 1024) \<mapsto> e)" and "runs s' K ext fl' c d"
    and "acts_for s' K d child dc" and "length fl \<le> length fl' + 1" and "few_refs s' K (b + 1)"
    and "keeps_pages s K s'" and "tab s K \<subseteq>\<^sub>m tab s' K"
proof -
  let ?va = "push_bit 12 (word_of_nat pn) :: u32"
  have lib: "lib_page s K d pn" using assms(4,5) by (auto simp: lib_page_def)
  have pn: "pn < 521216" "1022 \<le> pn" "vmap s K (dc, pn div 1024, pn mod 1024) = None"
    using assms(3) lib by (simp_all add: share_ready_def)
  note va = legal_vpn [OF pn(2,1)]
  obtain e2 where e2: "envid2env child True s = Some (Inr (Some e2))" "owns s K e2 dc"
    using assms(2) by (auto simp: acts_for_def)
  note r = runsD [OF assms(1)]
  have valid: "pte_valid e" using assms(4) by (auto simp: vmap_Some)
  have rf: "unat (pp_ref s (PPN e)) < 65535" using assms(4,6,7) unfolding few_refs_def by (meson order_le_less_trans)
  have v: "vmap s K (vkey d ?va) = Some e" "vmap s K (vkey dc ?va) = None" using assms(4) pn(3) by (simp_all add: va(2))
  obtain s' where s': "sys_mem_map 0 ?va child ?va (PTE_PERM e) s = Some (Inr 0, s')"
    "vmap s' K = (vmap s K)(vkey dc ?va \<mapsto> mk_pte (PPN e) (PTE_PERM e))" "pm_inv s' K ext (free_rest s K dc ?va fl)"
    "mem_call_frame s K fl s'"
    by (rule env_map_page [OF r(1) r(5) e2(1) r(4) e2(2) va(1) va(1) v PTE_PERM_less rf disjI2 [OF assms(8)]])
  have vm: "vmap s' K = (vmap s K)((dc, pn div 1024, pn mod 1024) \<mapsto> e)"
    unfolding s'(2) mk_pte_self [OF valid] va(2) ..
  have len: "length fl \<le> length (free_rest s K dc ?va fl) + 1" using length_free_rest [of fl s K dc ?va] by simp
  have fr: "few_refs s' K (b + 1)" by (rule few_refs_insert [OF r(1) s'(3) assms(6) vm pn(3) assms(4)]) simp
  have kp: "keeps_pages s K s'"
    by (rule mem_call_keeps [OF s'(4) r(1)]) (use vm pn(3) in auto)
  show ?thesis
    by (rule that [OF s'(1) vm runs_frame [OF assms(1) s'(4,3)] acts_for_frame [OF assms(2) s'(4)] len fr kp])
      (use s'(4) in \<open>simp add: mem_call_frame_def\<close>)
qed

section \<open>A list of pages\<close>

lemma lib_page_cong:
  assumes "\<And>i j. vmap s' K (d, i, j) = vmap s K (d, i, j)"
  shows "lib_page s' K d = lib_page s K d"
  by (rule ext) (simp add: lib_page_def assms)

lemma share_ptes_ok:
  assumes "runs s K ext fl c d" and "acts_for s K d child dc" and "share_ready s K d dc pns"
    and "\<forall>pn \<in> set pns. tab s K (d, pn div 1024) \<noteq> None" and "share_room s K d pns b fl"
  shows "\<exists>s' fl'. share_ptes child pns s = Some (Inr (), s') \<and> runs s' K ext fl' c d \<and> acts_for s' K d child dc
    \<and> few_refs s' K (b + length (filter (lib_page s K d) pns))
    \<and> length fl \<le> length fl' + length (filter (lib_page s K d) pns)
    \<and> vmap s' K = shared_map s K d dc pns \<and> keeps_pages s K s' \<and> tab s K \<subseteq>\<^sub>m tab s' K"
  using assms
proof (induction pns arbitrary: s fl b)
  case Nil
  then show ?case using keeps_pages_refl by (auto simp: share_room_def shared_map_def fun_eq_iff)
next
  case (Cons pn pns)
  note pr = Cons.prems
  have pn: "pn < 521216" "tab s K (d, pn div 1024) \<noteq> None" using pr(3,4) by (simp_all add: share_ready_def)
  obtain e where "vpt_at (pn div 1024 * 1024 + pn mod 1024) s = Some e"
    "if pte_valid e then vmap s K (d, pn div 1024, pn mod 1024) = Some e else vmap s K (d, pn div 1024, pn mod 1024) = None"
    using vpt_vmap [OF pr(1) runs_vpn_slot [OF pr(1) pn(1)] pn(2), of "pn mod 1024"] by auto
  then have e: "vpt_at pn s = Some e"
    "if pte_valid e then vmap s K (d, pn div 1024, pn mod 1024) = Some e else vmap s K (d, pn div 1024, pn mod 1024) = None"
    by simp_all
  have test: "PTE_PERM e AND PTE_V \<noteq> 0 \<and> PTE_PERM e AND PTE_LIBRARY \<noteq> 0 \<longleftrightarrow> lib_page s K d pn"
  proof -
    have "PTE_PERM e AND PTE_V = e AND PTE_V" by (rule PERM_AND_small) (simp add: PTE_V_def)
    then show ?thesis using e(2) by (auto simp: lib_page_def pte_valid_def split: if_splits)
  qed
  show ?case
  proof (cases "lib_page s K d pn")
    case False
    have rest: "share_ready s K d dc pns" "\<forall>pn \<in> set pns. tab s K (d, pn div 1024) \<noteq> None" "share_room s K d pns b fl"
      using pr(3-5) False by (simp_all add: share_ready_def share_room_def)
    have "share_ptes child (pn # pns) s = share_ptes child pns s" using e(1) test False by (auto simp: Let_def)
    moreover have "shared_map s K d dc (pn # pns) = shared_map s K d dc pns"
      using False by (auto simp: shared_map_def fun_eq_iff)
    ultimately show ?thesis using Cons.IH [OF pr(1,2) rest] False by simp
  next
    case True
    have v: "vmap s K (d, pn div 1024, pn mod 1024) = Some e" "PTE_PERM e AND PTE_LIBRARY \<noteq> 0"
      using True e(2) test by (auto simp: lib_page_def split: if_splits)
    have room: "few_refs s K b" "b < 65535" "fl \<noteq> []" using pr(5) True by (auto simp: share_room_def)
    obtain s1 fl1 where s1: "sys_mem_map 0 (push_bit 12 (word_of_nat pn)) child (push_bit 12 (word_of_nat pn)) (PTE_PERM e) s = Some (Inr 0, s1)"
      "vmap s1 K = (vmap s K)((dc, pn div 1024, pn mod 1024) \<mapsto> e)" "runs s1 K ext fl1 c d"
      "acts_for s1 K d child dc" "length fl \<le> length fl1 + 1" "few_refs s1 K (b + 1)"
      "keeps_pages s K s1" "tab s K \<subseteq>\<^sub>m tab s1 K"
      by (rule share_page_ok [OF pr(1-3) v room])
    have dd: "dc \<noteq> d" using pr(2) by (simp add: acts_for_def)
    have parent: "vmap s1 K (d, i, j) = vmap s K (d, i, j)" for i j using dd by (simp add: s1(2))
    note lib = lib_page_cong [OF parent]
    have other: "(pn' div 1024, pn' mod 1024) \<noteq> (pn div 1024, pn mod 1024)" if "pn' \<in> set pns" for pn'
    proof
      assume "(pn' div 1024, pn' mod 1024) = (pn div 1024, pn mod 1024)"
      then have "pn' = pn" by (metis prod.inject div_mult_mod_eq)
      then show False using that pr(3) by (simp add: share_ready_def)
    qed
    have rest: "share_ready s1 K d dc pns" "\<forall>pn \<in> set pns. tab s1 K (d, pn div 1024) \<noteq> None" "share_room s1 K d pns (b + 1) fl1"
    proof -
      have "vmap s1 K (dc, pn' div 1024, pn' mod 1024) = vmap s K (dc, pn' div 1024, pn' mod 1024)" if "pn' \<in> set pns" for pn'
        using other [OF that] by (auto simp: s1(2))
      then show "share_ready s1 K d dc pns" using pr(3) by (simp add: share_ready_def lib)
      show "\<forall>pn \<in> set pns. tab s1 K (d, pn div 1024) \<noteq> None" using pr(4) map_le_not_None [OF s1(8)] by simp
      show "share_room s1 K d pns (b + 1) fl1" using pr(5) True s1(5,6) by (simp add: share_room_def lib)
    qed
    obtain s' fl' where s': "share_ptes child pns s1 = Some (Inr (), s')" "runs s' K ext fl' c d" "acts_for s' K d child dc"
      "few_refs s' K (b + 1 + length (filter (lib_page s K d) pns))"
      "length fl1 \<le> length fl' + length (filter (lib_page s K d) pns)"
      "vmap s' K = shared_map s1 K d dc pns" "keeps_pages s1 K s'" "tab s1 K \<subseteq>\<^sub>m tab s' K"
      using Cons.IH [OF s1(3,4) rest] unfolding lib by blast
    have "shared_map s1 K d dc pns k = shared_map s K d dc (pn # pns) k" for k
      unfolding shared_map_def lib using True v(1) dd other by (cases k) (auto simp: s1(2))
    then have "vmap s' K = shared_map s K d dc (pn # pns)" using s'(6) by (simp add: fun_eq_iff)
    moreover have "share_ptes child (pn # pns) s = Some (Inr (), s')" using e(1) test True s1(1) s'(1) by (auto simp: Let_def)
    moreover have "keeps_pages s K s'" by (rule keeps_pages_trans [OF s1(7) s'(7)])
    moreover have "tab s K \<subseteq>\<^sub>m tab s' K" by (rule map_le_trans [OF s1(8) s'(8)])
    ultimately show ?thesis using s'(2-5) s1(5) True by (intro exI [of _ s'] exI [of _ fl']) simp
  qed
qed

section \<open>All page tables\<close>

definition dir_pages :: "nat list \<Rightarrow> nat list" where
  "dir_pages is = concat (map (\<lambda>i. [i * 1024..<(i + 1) * 1024]) is)"

lemma dir_pages_simps [simp]: "dir_pages [] = []" "dir_pages (i # is) = [i * 1024..<(i + 1) * 1024] @ dir_pages is"
  by (simp_all add: dir_pages_def)

lemma dir_pages_upt: "dir_pages [0..<n] = [0..<n * 1024]"
proof (induction n)
  case (Suc n)
  have "[0..<n * 1024] @ [n * 1024..<Suc n * 1024] = [0..<Suc n * 1024]"
    using upt_add_eq_append [of 0 "n * 1024" 1024] by (simp add: add.commute)
  then show ?case using Suc by (simp add: dir_pages_def)
qed simp

lemma shared_map_append:
  assumes "share_ready s K d dc (xs @ ys)" and "dc \<noteq> d" and "vmap s1 K = shared_map s K d dc xs"
  shows "shared_map s1 K d dc ys = shared_map s K d dc (xs @ ys)" and "lib_page s1 K d = lib_page s K d"
    and "share_ready s1 K d dc ys"
proof -
  have parent: "vmap s1 K (d, i, j) = vmap s K (d, i, j)" for i j using assms(2,3) by (auto simp: shared_map_def)
  show lib: "lib_page s1 K d = lib_page s K d" by (rule lib_page_cong [OF parent])
  have key: "x = y" if "x div 1024 = y div 1024" "x mod 1024 = y mod 1024" for x y :: nat
    using that by (metis div_mult_mod_eq)
  have row: "vmap s1 K (d, snd k) = vmap s K (d, snd k)" for k :: "nat \<times> nat \<times> nat" by (cases k) (simp add: parent)
  define S where "S zs k \<longleftrightarrow> (\<exists>pn \<in> set zs. k = (dc, pn div 1024, pn mod 1024) \<and> lib_page s K d pn)" for zs k
  have sm: "shared_map s K d dc zs k = (if S zs k then vmap s K (d, snd k) else vmap s K k)" for zs k
    by (simp only: shared_map_def S_def)
  have sm1: "shared_map s1 K d dc ys k = (if S ys k then vmap s K (d, snd k) else vmap s1 K k)" for k
    by (simp only: shared_map_def S_def lib row)
  have "S (xs @ ys) k \<longleftrightarrow> S xs k \<or> S ys k" for k by (simp only: S_def set_append bex_Un)
  then have "shared_map s1 K d dc ys k = shared_map s K d dc (xs @ ys) k" for k
    by (simp only: sm sm1 assms(3)) simp
  then show "shared_map s1 K d dc ys = shared_map s K d dc (xs @ ys)" by (simp add: fun_eq_iff)
  have "vmap s1 K (dc, pn div 1024, pn mod 1024) = vmap s K (dc, pn div 1024, pn mod 1024)" if "pn \<in> set ys" for pn
  proof -
    have "pn \<notin> set xs" using assms(1) that by (auto simp: share_ready_def)
    then have "\<not> S xs (dc, pn div 1024, pn mod 1024)" unfolding S_def by (metis key prod.inject)
    then show ?thesis by (simp only: assms(3) sm if_False)
  qed
  then show "share_ready s1 K d dc ys" using assms(1) by (auto simp: share_ready_def lib)
qed

lemma share_pdes_ok:
  assumes "runs s K ext fl c d" and "acts_for s K d child dc" and "share_ready s K d dc (dir_pages is)"
    and "share_room s K d (dir_pages is) b fl"
  shows "\<exists>s' fl'. share_pdes child is s = Some (Inr (), s') \<and> runs s' K ext fl' c d \<and> acts_for s' K d child dc
    \<and> vmap s' K = shared_map s K d dc (dir_pages is) \<and> keeps_pages s K s'"
  using assms
proof (induction "is" arbitrary: s fl b)
  case Nil
  then show ?case using keeps_pages_refl by (auto simp: shared_map_def fun_eq_iff)
next
  case (Cons i "is")
  note pr = Cons.prems
  let ?xs = "[i * 1024..<(i + 1) * 1024]"
  have dd: "dc \<noteq> d" using pr(2) by (simp add: acts_for_def)
  have ready: "share_ready s K d dc ?xs" "share_ready s K d dc (?xs @ dir_pages is)"
    using pr(3) by (auto simp: share_ready_def)
  have "i * 1024 < 521216" using pr(3) by (auto simp: share_ready_def)
  then have k: "(d, i) \<in> K" using runs_vpn_slot [OF pr(1), of "i * 1024"] by simp
  have of_i: "pn div 1024 = i" if "pn \<in> set ?xs" for pn
  proof -
    have "i * 1024 \<le> pn" "pn < i * 1024 + 1024" using that by simp_all
    then show ?thesis by (intro div_nat_eqI) simp_all
  qed
  obtain pde where pde: "vpd_at i s = Some pde" "pte_valid pde \<longleftrightarrow> tab s K (d, i) \<noteq> None"
    using vpd_tab [OF pr(1) k] by blast
  show ?case
  proof (cases "tab s K (d, i) = None")
    case True
    then have no: "\<not> lib_page s K d pn" if "pn \<in> set ?xs" for pn
      using of_i [OF that] vmap_tab_None [OF True] by (simp add: lib_page_def)
    have "filter (lib_page s K d) ?xs = []" using no by (simp add: filter_empty_conv)
    then have "share_room s K d (dir_pages is) b fl" using pr(4) by (simp add: share_room_def)
    moreover have "share_ready s K d dc (dir_pages is)" using ready(2) by (auto simp: share_ready_def)
    ultimately obtain s' fl' where s': "share_pdes child is s = Some (Inr (), s')" "runs s' K ext fl' c d"
      "acts_for s' K d child dc" "vmap s' K = shared_map s K d dc (dir_pages is)" "keeps_pages s K s'"
      using Cons.IH [OF pr(1,2)] by blast
    moreover have "shared_map s K d dc (dir_pages (i # is)) = shared_map s K d dc (dir_pages is)"
      using no by (auto simp: shared_map_def fun_eq_iff)
    ultimately show ?thesis using pde True by (auto simp: Let_def)
  next
    case False
    then have tabs: "\<forall>pn \<in> set ?xs. tab s K (d, pn div 1024) \<noteq> None" using of_i by simp
    have "share_room s K d ?xs b fl" using pr(4) by (simp add: share_room_def)
    then obtain s1 fl1 where s1: "share_ptes child ?xs s = Some (Inr (), s1)" "runs s1 K ext fl1 c d" "acts_for s1 K d child dc"
      "few_refs s1 K (b + length (filter (lib_page s K d) ?xs))" "length fl \<le> length fl1 + length (filter (lib_page s K d) ?xs)"
      "vmap s1 K = shared_map s K d dc ?xs" "keeps_pages s K s1"
      using share_ptes_ok [OF pr(1,2) ready(1) tabs] by blast
    note app = shared_map_append [OF ready(2) dd s1(6)]
    have room: "share_room s1 K d (dir_pages is) (b + length (filter (lib_page s K d) ?xs)) fl1"
      using pr(4) s1(4,5) by (simp add: share_room_def app(2))
    obtain s' fl' where s': "share_pdes child is s1 = Some (Inr (), s')" "runs s' K ext fl' c d"
      "acts_for s' K d child dc" "vmap s' K = shared_map s1 K d dc (dir_pages is)" "keeps_pages s1 K s'"
      using Cons.IH [OF s1(2,3) app(3) room] by blast
    have "share_pdes child (i # is) s = Some (Inr (), s')" using pde False s1(1) s'(1) by simp
    moreover have "vmap s' K = shared_map s K d dc (dir_pages (i # is))" using s'(4) app(1) by simp
    ultimately show ?thesis using s'(2,3) keeps_pages_trans [OF s1(7) s'(5)] by blast
  qed
qed

lemma share_ready_upt:
  assumes "\<forall>pn < n. lib_page s K d pn \<longrightarrow> 1022 \<le> pn \<and> vmap s K (dc, pn div 1024, pn mod 1024) = None" and "n \<le> 521216"
  shows "share_ready s K d dc [0..<n]"
  using assms by (simp add: share_ready_def)

lemma vpn_split:
  fixes n x i j dc :: nat
  shows "(\<exists>pn < n * 1024. (x, i, j) = (dc, pn div 1024, pn mod 1024) \<and> P pn) \<longleftrightarrow> x = dc \<and> i < n \<and> j < 1024 \<and> P (1024 * i + j)"
proof
  assume "\<exists>pn < n * 1024. (x, i, j) = (dc, pn div 1024, pn mod 1024) \<and> P pn"
  then obtain pn where pn: "pn < n * 1024" "x = dc" "i = pn div 1024" "j = pn mod 1024" "P pn" by auto
  then have "1024 * i + j = pn" by simp
  moreover have "i < n" using pn(1,3) by (simp add: less_mult_imp_div_less)
  ultimately show "x = dc \<and> i < n \<and> j < 1024 \<and> P (1024 * i + j)" using pn by simp
next
  assume *: "x = dc \<and> i < n \<and> j < 1024 \<and> P (1024 * i + j)"
  have "(1024 * i + j) div 1024 = i" "(1024 * i + j) mod 1024 = j" using * by simp_all
  moreover have "i * 1024 + 1024 \<le> n * 1024" using * by (metis Suc_leI mult_le_mono1 mult_Suc add.commute)
  ultimately show "\<exists>pn < n * 1024. (x, i, j) = (dc, pn div 1024, pn mod 1024) \<and> P pn"
    using * by (intro exI [of _ "1024 * i + j"]) simp
qed

text \<open>C33: The pages shared by \<^verbatim>\<open>spawn\<close>. Let the pages of the parent that are marked \<^verbatim>\<open>PTE_LIBRARY\<close> be above \<^verbatim>\<open>UTEMP\<close> and
  unmapped in the child, and let there be room for page tables and counts. Then the loop succeeds,
  every such page is mapped in the child at the same address with the same entry, no other mapping of any
  process changes, and no page changes its contents.\<close>

theorem spawn_shares_library:
  assumes "runs s K ext fl c d" and "acts_for s K d child dc"
    and "\<forall>pn < 521216. lib_page s K d pn \<longrightarrow> 1022 \<le> pn \<and> vmap s K (dc, pn div 1024, pn mod 1024) = None"
    and "share_room s K d [0..<521216] b fl"
  shows "\<exists>s' fl'. share_pdes child [0..<Suc (PDX USTACKTOP)] s = Some (Inr (), s') \<and> runs s' K ext fl' c d
    \<and> keeps_pages s K s'
    \<and> vmap s' K = (\<lambda>(x, i, j). if x = dc \<and> i \<le> PDX USTACKTOP \<and> j < 1024 \<and> lib_page s K d (1024 * i + j)
        then vmap s K (d, i, j) else vmap s K (x, i, j))"
proof -
  have n: "Suc (PDX USTACKTOP) = 509" by (simp add: PDX_numeral_eq mmu_defs)
  have pages: "dir_pages [0..<Suc (PDX USTACKTOP)] = [0..<521216]" proof -
    have "509 * 1024 = (521216 :: nat)" by simp
    then show ?thesis unfolding n dir_pages_upt by (simp only:)
  qed
  have "share_ready s K d dc [0..<521216]" by (rule share_ready_upt [OF assms(3) order_refl])
  then obtain s' fl' where s': "share_pdes child [0..<Suc (PDX USTACKTOP)] s = Some (Inr (), s')" "runs s' K ext fl' c d"
    "vmap s' K = shared_map s K d dc [0..<521216]" "keeps_pages s K s'"
    using share_pdes_ok [OF assms(1,2), of "[0..<Suc (PDX USTACKTOP)]" b] assms(4) unfolding pages by blast
  have ex: "(\<exists>pn \<in> set [0..<521216]. (x, i, j) = (dc, pn div 1024, pn mod 1024) \<and> lib_page s K d pn)
      \<longleftrightarrow> x = dc \<and> i \<le> PDX USTACKTOP \<and> j < 1024 \<and> lib_page s K d (1024 * i + j)" for x i j
  proof -
    have "set [0..<m] = {pn. pn < m}" for m :: nat by auto
    moreover have "521216 = 509 * (1024 :: nat)" by simp
    moreover have "i \<le> PDX USTACKTOP \<longleftrightarrow> i < 509" using n by linarith
    ultimately show ?thesis using vpn_split [of 509 x i j dc "lib_page s K d"] by (simp only: Bex_def mem_Collect_eq)
  qed
  have "vmap s' K = (\<lambda>(x, i, j). if x = dc \<and> i \<le> PDX USTACKTOP \<and> j < 1024 \<and> lib_page s K d (1024 * i + j)
        then vmap s K (d, i, j) else vmap s K (x, i, j))"
    unfolding s'(3) fun_eq_iff split_paired_All by (simp only: shared_map_def ex snd_conv prod.case simp_thms)
  then show ?thesis using s'(1,2,4) by blast
qed

text \<open>A parent with one shared page, at \<^verbatim>\<open>0x400000\<close>.\<close>

theorem spawn_shares_library_witness:
  "\<exists>s'. share_pdes 0x1001 [0..<Suc (PDX USTACKTOP)] (kfork PTE_LIBRARY) = Some (Inr (), s')
     \<and> vmap s' fork_slots (3, 1, 0) = Some (mk_pte 0 PTE_LIBRARY) \<and> vmap s' fork_slots (3, 1, 1) = None"
proof -
  let ?s = "kfork PTE_LIBRARY"
  have runs: "runs ?s fork_slots fork_ext [5, 6] 0 1"
    using kfork_inv [OF PTE_flags_less(3)] kfork_envs(2) by (simp add: runs_def kfork_simps)
  have acts: "acts_for ?s fork_slots 1 0x1001 3" using kfork_envs(1,3) by (auto simp: acts_for_def)
  have one: "lib_page ?s fork_slots 1 pn \<longleftrightarrow> pn = 1024" for pn
  proof -
    have "PTE_PERM (mk_pte 0 PTE_LIBRARY) AND PTE_LIBRARY \<noteq> 0"
      by (simp add: mk_pte_def PTE_V_def PTE_LIBRARY_def PTE_PERM_def page2pa_def)
    moreover have "pn div 1024 = 1 \<and> pn mod 1024 = 0 \<longleftrightarrow> pn = 1024" using div_mult_mod_eq [of pn 1024] by auto
    ultimately show ?thesis by (auto simp: lib_page_def kfork_vmap)
  qed
  have "length (filter (lib_page ?s fork_slots 1) xs) \<le> 1" if "distinct xs" for xs
  proof -
    have "set (filter (lib_page ?s fork_slots 1) xs) \<subseteq> {1024}" by (simp only: set_filter one) blast
    then have "card (set (filter (lib_page ?s fork_slots 1) xs)) \<le> 1" by (metis card_mono card.insert card.empty empty_iff finite.intros One_nat_def)
    then show ?thesis unfolding distinct_card [OF distinct_filter [OF that]] .
  qed
  moreover have "few_refs ?s fork_slots 2" by (auto simp: few_refs_def kfork_simps)
  ultimately have "share_room ?s fork_slots 1 xs 2 [5, 6]" if "distinct xs" for xs
    using that unfolding share_room_def by (fastforce simp del: One_nat_def)
  from this [OF distinct_upt] have room: "share_room ?s fork_slots 1 [0..<521216] 2 [5, 6]" .
  have ok: "\<forall>pn < 521216. lib_page ?s fork_slots 1 pn \<longrightarrow> 1022 \<le> pn \<and> vmap ?s fork_slots (3, pn div 1024, pn mod 1024) = None"
  proof (intro allI impI)
    fix pn assume "lib_page ?s fork_slots 1 pn"
    then have "pn = 1024" by (simp only: one)
    then show "1022 \<le> pn \<and> vmap ?s fork_slots (3, pn div 1024, pn mod 1024) = None" by (simp add: kfork_vmap)
  qed
  obtain s' where s': "share_pdes 0x1001 [0..<Suc (PDX USTACKTOP)] ?s = Some (Inr (), s')"
    "vmap s' fork_slots = (\<lambda>(x, i, j). if x = 3 \<and> i \<le> PDX USTACKTOP \<and> j < 1024 \<and> lib_page ?s fork_slots 1 (1024 * i + j)
        then vmap ?s fork_slots (1, i, j) else vmap ?s fork_slots (x, i, j))"
    using spawn_shares_library [OF runs acts ok room] by blast
  have "1 \<le> PDX USTACKTOP" by (simp add: PDX_numeral_eq mmu_defs)
  then have "vmap s' fork_slots (3, 1, 0) = Some (mk_pte 0 PTE_LIBRARY)" "vmap s' fork_slots (3, 1, 1) = None"
    by (simp_all add: s'(2) one [unfolded One_nat_def] kfork_vmap)
  then show ?thesis using s'(1) by blast
qed

end
