(* ===== verification/Print.thy ===== *)
theory Print
  imports Prelude
begin

text \<open>
  Formatted output: \<^verbatim>\<open>vprintfmt\<close> of \<^verbatim>\<open>lib/print.c\<close>, used by the kernel's \<^verbatim>\<open>printk\<close> and by the
  user library. Output is the list of chunks that the callback \<^verbatim>\<open>out\<close> receives, one per call.
  A format string is the bytes before its terminating zero. The buffer of \<^verbatim>\<open>print_num\<close> is a
  list written by index, as in the code; it is then shown to be padding, sign and digits.
  Widths are natural numbers: a width that overflows \<^verbatim>\<open>int\<close> is undefined in C.
\<close>

type_synonym chunks = "u8 list list"

definition chr :: "char \<Rightarrow> u8" where
  "chr c = word_of_nat (of_char c)"

section \<open>Characters and strings\<close>

definition is_digit :: "u8 \<Rightarrow> bool" where
  "is_digit c \<longleftrightarrow> 48 \<le> c \<and> c \<le> 57"

definition print_char :: "u8 \<Rightarrow> nat \<Rightarrow> bool \<Rightarrow> chunks" where
  "print_char c length0 ladjust =
     (let len = (if length0 < 1 then 1 else length0)
      in if ladjust then [c] # replicate (len - 1) [32] else replicate (len - 1) [32] @ [[c]])"

definition print_str :: "u8 list \<Rightarrow> nat \<Rightarrow> bool \<Rightarrow> chunks" where
  "print_str s length0 ladjust =
     (let len = length s; len1 = (if length0 < len then len else length0)
      in if ladjust then s # replicate (len1 - len) [32] else replicate (len1 - len) [32] @ [s])"

section \<open>Numbers\<close>

definition digit_char :: "bool \<Rightarrow> nat \<Rightarrow> u8" where
  "digit_char upcase tmp =
     (if tmp \<le> 9 then 48 + word_of_nat tmp
      else if upcase then 65 + word_of_nat tmp - 10 else 97 + word_of_nat tmp - 10)"

text \<open>The \<^verbatim>\<open>do .. while\<close> loop; \<^verbatim>\<open>vprintfmt\<close> calls it with the bases 2, 8, 10 and 16 only.\<close>

function digits_loop :: "nat \<Rightarrow> nat \<Rightarrow> bool \<Rightarrow> u8 list" where
  "digits_loop u base upcase =
     digit_char upcase (u mod base)
       # (if u div base = 0 \<or> base < 2 then [] else digits_loop (u div base) base upcase)"
  by auto
termination by (relation "measure (\<lambda>(u, base, upcase). u)") (auto simp: div_eq_0_iff)

declare digits_loop.simps [simp del]

text \<open>\<^verbatim>\<open>while (end > begin)\<close>: swap and move inwards.\<close>

function swap_loop :: "nat \<Rightarrow> nat \<Rightarrow> u8 list \<Rightarrow> u8 list" where
  "swap_loop b e buf =
     (if b < e then swap_loop (b + 1) (e - 1) (buf[b := buf ! e, e := buf ! b]) else buf)"
  by auto
termination by (relation "measure (\<lambda>(b, e, buf). e - b)") auto

declare swap_loop.simps [simp del]

text \<open>The cells of \<^verbatim>\<open>buf\<close> behind the digits are uninitialised before the padding: 0 here.\<close>

definition fill_buf :: "nat list \<Rightarrow> u8 \<Rightarrow> u8 list \<Rightarrow> u8 list" where
  "fill_buf idx c = fold (\<lambda>i b. b[i := c]) idx"

definition print_num :: "u32 \<Rightarrow> nat \<Rightarrow> bool \<Rightarrow> nat \<Rightarrow> bool \<Rightarrow> u8 \<Rightarrow> bool \<Rightarrow> u8 list" where
  "print_num u base neg_flag length0 ladjust padc0 upcase =
     (let ds = digits_loop (unat u) base upcase;
          ds1 = (if neg_flag then ds @ [45] else ds);
          actualLength = length ds1;
          len = (if length0 < actualLength then actualLength else length0);
          buf0 = ds1 @ replicate (len - actualLength) 0;
          padc = (if ladjust then 32 else padc0);
          buf1 = (if neg_flag \<and> \<not> ladjust \<and> padc = 48
                  then (fill_buf [actualLength - 1..<len - 1] padc buf0)[len - 1 := 45]
                  else fill_buf [actualLength..<len] padc buf0);
          e = (if ladjust then actualLength - 1 else len - 1)
      in swap_loop 0 e buf1)"

section \<open>The format interpreter\<close>

text \<open>An argument taken by \<^verbatim>\<open>va_arg\<close>: a 32-bit number, which \<^verbatim>\<open>int\<close> and \<^verbatim>\<open>long\<close> both are on this
  machine, or a string. Taking one that is missing or of the other kind is undefined: \<open>None\<close>.\<close>

datatype va = VInt u32 | VStr "u8 list"

fun va_int :: "va list \<Rightarrow> (u32 \<times> va list) option" where
  "va_int (VInt n # ap) = Some (n, ap)"
| "va_int _ = None"

fun va_str :: "va list \<Rightarrow> (u8 list \<times> va list) option" where
  "va_str (VStr s # ap) = Some (s, ap)"
| "va_str _ = None"

text \<open>The width: \<^verbatim>\<open>width * 10 + (*fmt - '0')\<close> over the digits.\<close>

fun get_width :: "nat \<Rightarrow> u8 list \<Rightarrow> nat \<times> u8 list" where
  "get_width w [] = (w, [])"
| "get_width w (c # fmt) = (if is_digit c then get_width (w * 10 + unat (c - 48)) fmt else (w, c # fmt))"

definition get_flags :: "u8 list \<Rightarrow> bool \<times> u8 \<times> u8 list" where
  "get_flags fmt =
     (case fmt of
        [] \<Rightarrow> (False, 32, [])
      | c # r \<Rightarrow> if c = 45 then (True, 32, r) else if c = 48 then (False, 48, r) else (False, 32, fmt))"

definition get_long :: "u8 list \<Rightarrow> bool \<times> u8 list" where
  "get_long fmt = (case fmt of [] \<Rightarrow> (False, []) | c # r \<Rightarrow> if c = 108 then (True, r) else (False, fmt))"

text \<open>One conversion: \<open>c\<close> is the character that \<^verbatim>\<open>switch\<close> looks at.\<close>

definition convert ::
  "u8 \<Rightarrow> nat \<Rightarrow> bool \<Rightarrow> u8 \<Rightarrow> va list \<Rightarrow> (chunks \<times> va list) option" where
  "convert c width ladjust padc ap =
     (if c = chr CHR ''b'' then do {
        (num, ap1) \<leftarrow> va_int ap;
        Some ([print_num num 2 False width ladjust padc False], ap1)
      }
      else if c = chr CHR ''d'' \<or> c = chr CHR ''D'' then do {
        (num, ap1) \<leftarrow> va_int ap;
        let neg_flag = sint num < 0;
        let num1 = (if neg_flag then - num else num);
        Some ([print_num num1 10 neg_flag width ladjust padc False], ap1)
      }
      else if c = chr CHR ''o'' \<or> c = chr CHR ''O'' then do {
        (num, ap1) \<leftarrow> va_int ap;
        Some ([print_num num 8 False width ladjust padc False], ap1)
      }
      else if c = chr CHR ''u'' \<or> c = chr CHR ''U'' then do {
        (num, ap1) \<leftarrow> va_int ap;
        Some ([print_num num 10 False width ladjust padc False], ap1)
      }
      else if c = chr CHR ''x'' then do {
        (num, ap1) \<leftarrow> va_int ap;
        Some ([print_num num 16 False width ladjust padc False], ap1)
      }
      else if c = chr CHR ''X'' then do {
        (num, ap1) \<leftarrow> va_int ap;
        Some ([print_num num 16 False width ladjust padc True], ap1)
      }
      else if c = chr CHR ''c'' then do {
        (num, ap1) \<leftarrow> va_int ap;
        Some (print_char (ucast num) width ladjust, ap1)
      }
      else if c = chr CHR ''s'' then do {
        (s, ap1) \<leftarrow> va_str ap;
        Some (print_str s width ladjust, ap1)
      }
      else Some ([[c]], ap))"

lemma get_width_length: "length (snd (get_width w fmt)) \<le> length fmt"
  by (induction w fmt rule: get_width.induct) auto

lemma get_flags_length: "get_flags fmt = (a, p, r) \<Longrightarrow> length r \<le> length fmt"
  by (auto simp: get_flags_def split: list.splits if_splits)

lemma get_long_length: "get_long fmt = (a, r) \<Longrightarrow> length r \<le> length fmt"
  by (auto simp: get_long_def split: list.splits if_splits)

lemma format_consumed:
  assumes "x # fmt1 = dropWhile P fmt" and "(ladjust, padc, fmt2) = get_flags fmt1"
    and "(width, fmt3) = get_width 0 fmt2" and "(lng, c # fmt5) = get_long fmt3"
  shows "length fmt5 < length fmt"
proof -
  have "length (x # fmt1) \<le> length fmt" unfolding assms(1) by (rule length_dropWhile_le)
  moreover have "length fmt2 \<le> length fmt1" using assms(2) get_flags_length by metis
  moreover have "length fmt3 \<le> length fmt2" using assms(3) get_width_length [of 0 fmt2] by (metis snd_conv)
  moreover have "length (c # fmt5) \<le> length fmt3" using assms(4) get_long_length by metis
  ultimately show ?thesis by simp
qed

function vprintfmt :: "u8 list \<Rightarrow> va list \<Rightarrow> chunks option" where
  "vprintfmt fmt ap =
     (let pre = takeWhile (\<lambda>c. c \<noteq> 37) fmt; rest = dropWhile (\<lambda>c. c \<noteq> 37) fmt
      in case rest of
           [] \<Rightarrow> Some [pre]
         | _ # fmt1 \<Rightarrow>
             (case get_flags fmt1 of (ladjust, padc, fmt2) \<Rightarrow>
             (case get_width 0 fmt2 of (width, fmt3) \<Rightarrow>
             (case get_long fmt3 of (_, fmt4) \<Rightarrow>
             (case fmt4 of
                [] \<Rightarrow> map_option (Cons pre) (vprintfmt [] ap)
              | c # fmt5 \<Rightarrow>
                  Option.bind (convert c width ladjust padc ap) (\<lambda>(out, ap1).
                    map_option (\<lambda>rest. pre # out @ rest) (vprintfmt fmt5 ap1)))))))"
  by auto
termination
proof (relation "measure (\<lambda>(fmt, ap). length fmt)", goal_cases)
  case (2 fmt ap)
  then show ?case by (metis in_measure length_greater_0_conv dropWhile.simps(1) list.distinct(1)
      case_prod_conv list.size(3))
next
  case (3 fmt ap)
  then show ?case by (auto dest: format_consumed)
qed simp

declare vprintfmt.simps [simp del]

section \<open>Reversal and padding\<close>

lemma length_swap_loop [simp]: "length (swap_loop b e buf) = length buf"
  by (induction b e buf rule: swap_loop.induct) (subst swap_loop.simps, simp)

lemma nth_swap_loop:
  "e < length buf \<Longrightarrow> i < length buf \<Longrightarrow>
     swap_loop b e buf ! i = (if b \<le> i \<and> i \<le> e then buf ! (b + e - i) else buf ! i)"
proof (induction b e buf rule: swap_loop.induct)
  case (1 b e buf)
  show ?case
  proof (cases "b < e")
    case True
    let ?buf = "buf[b := buf ! e, e := buf ! b]"
    have "swap_loop (b + 1) (e - 1) ?buf ! i =
        (if b + 1 \<le> i \<and> i \<le> e - 1 then ?buf ! (b + 1 + (e - 1) - i) else ?buf ! i)"
      using 1 True by simp
    then show ?thesis
      using 1(2,3) True by (subst swap_loop.simps) (auto simp: nth_list_update)
  next
    case False
    then show ?thesis using 1(2,3) by (subst swap_loop.simps) (cases "b = i \<and> e = i"; auto)
  qed
qed

lemma swap_loop_all: "n \<le> length buf \<Longrightarrow> 0 < n \<Longrightarrow> swap_loop 0 (n - 1) buf = rev (take n buf) @ drop n buf"
  by (rule nth_equalityI) (auto simp: nth_swap_loop nth_append rev_nth)

lemma swap_loop_rev: "length buf = n \<Longrightarrow> 0 < n \<Longrightarrow> swap_loop 0 (n - 1) buf = rev buf"
  using swap_loop_all [of n buf] by simp

lemma fill_buf_simps [simp]:
  "fill_buf [] c buf = buf" "fill_buf (i # is0) c buf = fill_buf is0 c (buf[i := c])"
  by (simp_all add: fill_buf_def)

lemma length_fill_buf [simp]: "length (fill_buf idx c buf) = length buf"
  by (induction idx arbitrary: buf) simp_all

lemma nth_fill_buf:
  "i < length buf \<Longrightarrow> fill_buf idx c buf ! i = (if i \<in> set idx then c else buf ! i)"
  by (induction idx arbitrary: buf) (auto simp: nth_list_update)

lemma fill_buf_tail:
  "a \<le> length xs \<Longrightarrow> length xs \<le> n \<Longrightarrow>
     fill_buf [a..<n] c (xs @ replicate (n - length xs) 0) = take a xs @ replicate (n - a) c"
  by (rule nth_equalityI) (auto simp: nth_fill_buf nth_append)

lemma digits_loop_nonempty [simp]: "digits_loop u base upcase \<noteq> []"
  by (subst digits_loop.simps) simp

text \<open>The printed field: padding, sign and digits in reading order.\<close>

definition num_field :: "u8 list \<Rightarrow> bool \<Rightarrow> nat \<Rightarrow> bool \<Rightarrow> u8 \<Rightarrow> u8 list" where
  "num_field ds neg_flag width ladjust padc =
     (let body = (if neg_flag then 45 # ds else ds); pad = width - length body
      in if ladjust then body @ replicate pad 32
         else if neg_flag \<and> padc = 48 then 45 # replicate pad 48 @ ds
         else replicate pad padc @ body)"

lemma print_num_field:
  "print_num u base neg_flag width ladjust padc upcase =
     num_field (rev (digits_loop (unat u) base upcase)) neg_flag width ladjust padc"
proof -
  let ?ds = "digits_loop (unat u) base upcase"
  let ?ds1 = "if neg_flag then ?ds @ [45] else ?ds"
  let ?L = "length ?ds1"
  let ?len = "max width ?L"
  have pos: "0 < ?L" by simp
  have len: "(if width < ?L then ?L else width) = ?len" by simp
  have pad: "?len - ?L = width - ?L" by simp
  show ?thesis
  proof (cases "neg_flag \<and> \<not> ladjust \<and> padc = 48")
    case True
    let ?b = "take (?L - 1) ?ds1 @ replicate (?len - (?L - 1)) 48"
    have "(fill_buf [?L - 1..<?len - 1] 48 (?ds1 @ replicate (?len - ?L) 0))[?len - 1 := 45]
        = ?ds @ replicate (width - ?L) 48 @ [45]"
      using True by (intro nth_equalityI) (auto simp: nth_list_update nth_fill_buf nth_append)
    moreover have "print_num u base neg_flag width ladjust padc upcase = swap_loop 0 (?len - 1)
        ((fill_buf [?L - 1..<?len - 1] 48 (?ds1 @ replicate (?len - ?L) 0))[?len - 1 := 45])"
      using True unfolding print_num_def Let_def len by simp
    moreover have "swap_loop 0 (?len - 1) (?ds @ replicate (width - ?L) 48 @ [45])
        = rev (?ds @ replicate (width - ?L) 48 @ [45])"
      using True by (intro swap_loop_rev) auto
    ultimately show ?thesis
      using True by (simp add: num_field_def Let_def)
  next
    case False
    define pc where "pc = (if ladjust then 32 else padc)"
    have fb: "fill_buf [?L..<?len] pc (?ds1 @ replicate (?len - ?L) 0) = ?ds1 @ replicate (width - ?L) pc"
      using fill_buf_tail [of ?L ?ds1 ?len pc] by simp
    define e where "e = (if ladjust then ?L - 1 else ?len - 1)"
    have "print_num u base neg_flag width ladjust padc upcase
        = swap_loop 0 e (?ds1 @ replicate (width - ?L) pc)"
      using False unfolding print_num_def Let_def len pc_def [symmetric] fb e_def
      by (auto simp: pc_def)
    also have "\<dots> = (if ladjust then rev ?ds1 @ replicate (width - ?L) pc
        else rev (?ds1 @ replicate (width - ?L) pc))"
    proof (cases ladjust)
      case True
      then show ?thesis
        using swap_loop_all [of ?L "?ds1 @ replicate (width - ?L) pc"] by (auto simp: e_def)
    next
      case False
      have "swap_loop 0 (?len - 1) (?ds1 @ replicate (width - ?L) pc)
          = rev (?ds1 @ replicate (width - ?L) pc)"
        by (rule swap_loop_rev) (auto simp: less_max_iff_disj)
      then show ?thesis using False by (simp only: e_def if_False)
    qed
    finally show ?thesis using False by (auto simp: num_field_def pc_def)
  qed
qed

section \<open>The printed digits denote the number\<close>

definition digit_val :: "u8 \<Rightarrow> nat" where
  "digit_val c = (if is_digit c then unat c - 48 else if 97 \<le> c then unat c - 87 else unat c - 55)"

definition num_value :: "nat \<Rightarrow> u8 list \<Rightarrow> nat" where
  "num_value base ds = foldl (\<lambda>acc c. acc * base + digit_val c) 0 ds"

lemma num_value_snoc [simp]:
  "num_value base [] = 0" "num_value base (ds @ [c]) = num_value base ds * base + digit_val c"
  by (simp_all add: num_value_def)

lemma digit_val_digit_char:
  assumes "tmp < 16"
  shows "digit_val (digit_char upcase tmp) = tmp"
proof -
  have "tmp \<in> {0, 1, 2, 3, 4, 5, 6, 7, 8, 9, 10, 11, 12, 13, 14, 15}" using assms by (simp; presburger)
  then show ?thesis by (auto simp: digit_val_def digit_char_def is_digit_def)
qed

lemma digit_char_not_minus:
  assumes "tmp < 16"
  shows "digit_char upcase tmp \<noteq> 45 \<and> (0 < tmp \<longrightarrow> digit_char upcase tmp \<noteq> 48)"
proof -
  have "tmp \<in> {0, 1, 2, 3, 4, 5, 6, 7, 8, 9, 10, 11, 12, 13, 14, 15}" using assms by (simp; presburger)
  then show ?thesis by (auto simp: digit_char_def)
qed

lemma num_value_digits:
  "2 \<le> base \<Longrightarrow> base \<le> 16 \<Longrightarrow> num_value base (rev (digits_loop u base upcase)) = u"
proof (induction u base upcase rule: digits_loop.induct)
  case (1 u base upcase)
  have "u mod base < 16" using 1(2,3) by (meson less_le_trans mod_less_divisor zero_less_numeral order_less_le_trans)
  then show ?case
    using 1 by (subst digits_loop.simps) (auto simp: digit_val_digit_char mult.commute div_eq_0_iff)
qed

lemma digits_no_leading_zero:
  "2 \<le> base \<Longrightarrow> base \<le> 16 \<Longrightarrow>
     last (digits_loop u base upcase) \<noteq> 45 \<and> (0 < u \<longrightarrow> last (digits_loop u base upcase) \<noteq> 48)"
proof (induction u base upcase rule: digits_loop.induct)
  case (1 u base upcase)
  have "u mod base < 16" using 1(2,3) by (meson less_le_trans mod_less_divisor zero_less_numeral order_less_le_trans)
  then show ?case
    using 1 digit_char_not_minus [of "u mod base" upcase]
    by (subst (1 2) digits_loop.simps) (auto simp: div_eq_0_iff)
qed

text \<open>C15: Number printing. \<^verbatim>\<open>print_num\<close> prints exactly the field described by \<open>num_field\<close>:
  left-adjusted with blanks behind, or padded in front, where zero padding goes between the
  sign and the digits; the digits denote the number in the base, without leading zeros.\<close>

theorem print_num_correct:
  assumes "2 \<le> base" and "base \<le> 16"
  shows "\<exists>ds. print_num u base neg_flag width ladjust padc upcase
              = num_field ds neg_flag width ladjust padc
            \<and> num_value base ds = unat u \<and> ds \<noteq> [] \<and> (u \<noteq> 0 \<longrightarrow> hd ds \<noteq> 48)"
  using assms num_value_digits [of base "unat u" upcase] digits_no_leading_zero [of base "unat u" upcase]
  by (intro exI [of _ "rev (digits_loop (unat u) base upcase)"])
    (auto simp: print_num_field hd_rev unat_gt_0)

text \<open>The number -42 in a zero-padded field of 6 is \<^verbatim>\<open>-00042\<close>.\<close>

theorem print_num_correct_witness:
  "(\<exists>ds. print_num 42 10 True 6 False 48 False = num_field ds True 6 False 48
       \<and> num_value 10 ds = unat (42 :: u32) \<and> ds \<noteq> [] \<and> ((42 :: u32) \<noteq> 0 \<longrightarrow> hd ds \<noteq> 48))
   \<and> print_num 42 10 True 6 False 48 False = [45, 48, 48, 48, 52, 50]"
proof
  show "\<exists>ds. print_num 42 10 True 6 False 48 False = num_field ds True 6 False 48
       \<and> num_value 10 ds = unat (42 :: u32) \<and> ds \<noteq> [] \<and> ((42 :: u32) \<noteq> 0 \<longrightarrow> hd ds \<noteq> 48)"
    by (rule print_num_correct) simp_all
  show "print_num 42 10 True 6 False 48 False = [45, 48, 48, 48, 52, 50]"
    by (simp add: print_num_field num_field_def digits_loop.simps [of 42] digits_loop.simps [of 4]
        digit_char_def numeral_3_eq_3)
qed

section \<open>A decimal conversion in a format\<close>

definition parse_int :: "u8 list \<Rightarrow> int" where
  "parse_int s =
     (case s of c # r \<Rightarrow> if c = 45 then - int (num_value 10 r) else int (num_value 10 s) | [] \<Rightarrow> 0)"

lemma unat_uminus_neg:
  assumes "sint (n :: u32) < 0"
  shows "int (unat (- n)) = - sint n"
proof -
  have "- (2 ^ 31) \<le> sint n" using sint_ge [of n] by simp
  moreover have "uint n = sint n mod 2 ^ 32" using uint_sint [of n] by (simp add: take_bit_eq_mod)
  ultimately have "uint n = sint n + 2 ^ 32"
    using assms mod_add_self2 [of "sint n" "2 ^ 32"] mod_pos_pos_trivial [of "sint n + 2 ^ 32" "2 ^ 32"] by simp
  moreover have "uint (- n) = (- uint n) mod 2 ^ 32"
    using uint_word_ariths(4) [of n] by simp
  ultimately have "uint (- n) = (- sint n - 2 ^ 32) mod 2 ^ 32" by simp
  also have "\<dots> = (- sint n) mod 2 ^ 32"
    using minus_mod_self2 [of "- sint n" "2 ^ 32 :: int"] by simp
  also have "\<dots> = - sint n"
    using assms \<open>- (2 ^ 31) \<le> sint n\<close> by (intro mod_pos_pos_trivial) simp_all
  finally show ?thesis by simp
qed

lemma unat_nonneg:
  assumes "0 \<le> sint (n :: u32)"
  shows "int (unat n) = sint n"
proof -
  have "sint n < 2 ^ 31" using sint_lt [of n] by simp
  then show ?thesis
    using assms uint_sint [of n] by (simp add: take_bit_eq_mod mod_pos_pos_trivial)
qed

text \<open>Decimal output. A format whose first conversion is \<^verbatim>\<open>%d\<close> flushes the text before it,
  then one field that reads back as the signed argument, also for the least \<^verbatim>\<open>int\<close>, whose
  negation wraps; the rest is the output of the remaining format on the remaining arguments.\<close>

theorem vprintfmt_decimal:
  assumes "37 \<notin> set pre"
  shows "\<exists>s. vprintfmt (pre @ [37, chr CHR ''d''] @ post) (VInt n # ap)
              = map_option (\<lambda>rest. pre # [s] @ rest) (vprintfmt post ap)
            \<and> parse_int s = sint n"
proof -
  define u where "u = (if sint n < 0 then - n else n)"
  define ds where "ds = rev (digits_loop (unat u) 10 False)"
  define s where "s = num_field ds (sint n < 0) 0 False 32"
  have d: "chr CHR ''d'' = 100" "chr CHR ''b'' = 98" by (simp_all add: chr_def)
  have tw: "takeWhile (\<lambda>c. c \<noteq> 37) (pre @ 37 # x) = pre" "dropWhile (\<lambda>c. c \<noteq> 37) (pre @ 37 # x) = 37 # x"
    for x using assms by (auto simp: takeWhile_append dropWhile_append)
  have "vprintfmt (pre @ [37, chr CHR ''d''] @ post) (VInt n # ap)
      = map_option (\<lambda>rest. pre # [s] @ rest) (vprintfmt post ap)"
    by (subst vprintfmt.simps)
      (simp add: tw Let_def d get_flags_def get_long_def is_digit_def convert_def print_num_field
        s_def ds_def u_def)
  moreover have "parse_int s = sint n"
  proof -
    have "num_value 10 ds = unat u" unfolding ds_def by (rule num_value_digits) simp_all
    moreover have "ds \<noteq> []" "hd ds \<noteq> 45"
      using digits_no_leading_zero [of 10 "unat u" False] by (auto simp: ds_def hd_rev)
    moreover have "int (unat u) = \<bar>sint n\<bar>"
      using unat_uminus_neg [of n] unat_nonneg [of n] by (auto simp: u_def)
    ultimately show ?thesis
      by (auto simp: s_def num_field_def parse_int_def split: list.splits)
  qed
  ultimately show ?thesis by blast
qed

theorem vprintfmt_decimal_witness:
  "\<exists>s. vprintfmt ([104, 105] @ [37, chr CHR ''d''] @ []) [VInt (- 7)]
              = map_option (\<lambda>rest. [104, 105] # [s] @ rest) (vprintfmt [] [])
            \<and> parse_int s = sint (- 7 :: u32)"
  by (rule vprintfmt_decimal) simp

end
