(* ===== verification/DebugOut.thy ===== *)
theory DebugOut
  imports SpawnSpec Print
begin

text \<open>
  Messages of the user library (\<^verbatim>\<open>user/lib/debugf.c\<close>): the output of the formatter is collected in the buffer of
  a \<^verbatim>\<open>struct debug_ctx\<close> on the stack, at address \<open>ctx\<close>, and printed by a system call when it is full and at
  the end. A chunk that the formatter passes to \<^verbatim>\<open>debug_output\<close> is the list of its bytes. The output of
  \<^verbatim>\<open>fprintf.c\<close> goes to \<^verbatim>\<open>write\<close>, an argument here because its buffer is such a list.
\<close>

section \<open>The buffer\<close>

definition BUF_LEN :: u32 where "BUF_LEN = 1024"

text \<open>The address of the field \<^verbatim>\<open>pos\<close>.\<close>

definition ctx_pos :: "u32 \<Rightarrow> u32" where "ctx_pos ctx = ctx + BUF_LEN"

definition debug_flush :: "u32 \<Rightarrow> kstate \<Rightarrow> kstate option" where
  "debug_flush ctx s = do {
     (pos, s1) \<leftarrow> load_word (ctx_pos ctx) s;
     if pos = 0 then Some s1
     else do {
       (r, s2) \<leftarrow> sys_print_cons ctx pos s1;
       case r of Inl e \<Rightarrow> None | Inr _ \<Rightarrow> store_word (ctx_pos ctx) 0 s2
     }
   }"

partial_function (option) debug_output :: "u32 \<Rightarrow> u8 list \<Rightarrow> u32 \<Rightarrow> kstate \<Rightarrow> kstate option" where
  "debug_output ctx bs l s =
     Option.bind (load_word (ctx_pos ctx) s) (\<lambda>(pos, s1).
       if BUF_LEN < pos + l then
         let n = BUF_LEN - pos in
         Option.bind (store_bytes (ctx + pos) (take (unat n) bs) s1) (\<lambda>s2.
         Option.bind (store_word (ctx_pos ctx) BUF_LEN s2) (\<lambda>s3.
         Option.bind (debug_flush ctx s3) (\<lambda>s4.
         debug_output ctx (drop (unat n) bs) (l - n) s4)))
       else
         Option.bind (store_bytes (ctx + pos) (take (unat l) bs) s1) (\<lambda>s2.
         store_word (ctx_pos ctx) (pos + l) s2))"

fun debug_chunks :: "u32 \<Rightarrow> chunks \<Rightarrow> kstate \<Rightarrow> kstate option" where
  "debug_chunks ctx [] s = Some s"
| "debug_chunks ctx (c # cs) s =
     Option.bind (debug_output ctx c (word_of_nat (length c)) s) (debug_chunks ctx cs)"

text \<open>\<open>None\<close> too if the formatter runs out of arguments.\<close>

definition vdebugf :: "u32 \<Rightarrow> u8 list \<Rightarrow> va list \<Rightarrow> kstate \<Rightarrow> kstate option" where
  "vdebugf ctx fmt ap s = do {
     s1 \<leftarrow> store_word (ctx_pos ctx) 0 s;
     out \<leftarrow> vprintfmt fmt ap;
     s2 \<leftarrow> debug_chunks ctx out s1;
     debug_flush ctx s2
   }"

text \<open>A fatal error: three messages and the end of the process, or of the system.\<close>

definition debugf :: "u32 \<Rightarrow> u8 list \<Rightarrow> va list \<Rightarrow> kstate \<Rightarrow> kstate option" where
  "debugf ctx fmt ap s = vdebugf ctx fmt ap s"

definition user_panic :: "fserver \<Rightarrow> u32 \<Rightarrow> u8 list \<Rightarrow> u32 \<Rightarrow> u8 list \<Rightarrow> va list \<Rightarrow> kstate \<Rightarrow> kstate option" where
  "user_panic fclose ctx fname line fmt ap s = do {
     s1 \<leftarrow> debugf ctx (map chr ''panic at %s:%d: '') [VStr fname, VInt line] s;
     s2 \<leftarrow> vdebugf ctx fmt ap s1;
     s3 \<leftarrow> debugf ctx [10] [] s2;
     exit_user fclose s3
   }"

definition user_halt :: "u32 \<Rightarrow> u8 list \<Rightarrow> u32 \<Rightarrow> u8 list \<Rightarrow> va list \<Rightarrow> u32 \<Rightarrow> kstate \<Rightarrow> ((kerr + u32) \<times> kstate) option" where
  "user_halt ctx fname line fmt ap msg s = do {
     s1 \<leftarrow> debugf ctx (map chr ''halt at %s:%d: '') [VStr fname, VInt line] s;
     s2 \<leftarrow> vdebugf ctx fmt ap s1;
     s3 \<leftarrow> debugf ctx [10] [] s2;
     sys_panic msg s3
   }"

section \<open>Output to a descriptor\<close>

type_synonym 's writer = "int \<Rightarrow> u8 list \<Rightarrow> 's \<Rightarrow> ((kerr + int) \<times> 's) option"

text \<open>\<open>r0\<close> is the field \<^verbatim>\<open>ret\<close> of \<^verbatim>\<open>struct print_ctx\<close>: after an error nothing more is written.\<close>

definition print_output :: "'s writer \<Rightarrow> int \<Rightarrow> (kerr + int) \<Rightarrow> u8 list \<Rightarrow> 's \<Rightarrow> ((kerr + int) \<times> 's) option" where
  "print_output wr fd r0 ch s =
     (case r0 of
        Inl e \<Rightarrow> Some (Inl e, s)
      | Inr k \<Rightarrow> map_option (\<lambda>(r, s1). (case r of Inl e \<Rightarrow> Inl e | Inr n \<Rightarrow> Inr (k + n), s1)) (wr fd ch s))"

fun print_chunks :: "'s writer \<Rightarrow> int \<Rightarrow> (kerr + int) \<Rightarrow> chunks \<Rightarrow> 's \<Rightarrow> ((kerr + int) \<times> 's) option" where
  "print_chunks wr fd r0 [] s = Some (r0, s)"
| "print_chunks wr fd r0 (c # cs) s =
     Option.bind (print_output wr fd r0 c s) (\<lambda>(r1, s1). print_chunks wr fd r1 cs s1)"

definition vfprintf :: "'s writer \<Rightarrow> int \<Rightarrow> u8 list \<Rightarrow> va list \<Rightarrow> 's \<Rightarrow> ((kerr + int) \<times> 's) option" where
  "vfprintf wr fd fmt ap s = Option.bind (vprintfmt fmt ap) (\<lambda>out. print_chunks wr fd (Inr 0) out s)"

definition printf :: "'s writer \<Rightarrow> u8 list \<Rightarrow> va list \<Rightarrow> 's \<Rightarrow> ((kerr + int) \<times> 's) option" where
  "printf wr fmt ap s = vfprintf wr 1 fmt ap s"

lemma print_chunks_error: "print_chunks wr fd (Inl e) cs s = Some (Inl e, s)"
  by (induction cs) (simp_all add: print_output_def)

text \<open>
  If every \<^verbatim>\<open>write\<close> takes all it gets, the output is complete and its length is returned; the first
  \<^verbatim>\<open>write\<close> that fails ends the output, and its error is returned.
\<close>

lemma print_chunks_all:
  assumes "\<And>ch s. wr fd ch s = Some (Inr (int (length ch)), f s ch)"
  shows "print_chunks wr fd (Inr k) cs s = Some (Inr (k + int (length (concat cs))), foldl f s cs)"
  by (induction cs arbitrary: k s) (simp_all add: print_output_def assms)

lemma print_chunks_first_error:
  assumes "\<And>ch s. ch \<in> set cs \<Longrightarrow> wr fd ch s = Some (Inr (int (length ch)), f s ch)"
    and "wr fd ch (foldl f s cs) = Some (Inl e, s')"
  shows "print_chunks wr fd (Inr k) (cs @ ch # rest) s = Some (Inl e, s')"
  using assms by (induction cs arbitrary: k s) (simp_all add: print_output_def print_chunks_error)

section \<open>Printing bytes of a page\<close>

lemma printcharc_keeps:
  shows "vmap (printcharc ch s) K = vmap s K" and "runs (printcharc ch s) K ext fl c d = runs s K ext fl c d"
    and "page_bytes (printcharc ch s) p = page_bytes s p" and "cons_out (printcharc ch s) = cons_out s @ [ch]"
proof -
  have t: "tab (printcharc ch s) K = tab s K" for K by (rule tab_cong) (simp add: printcharc_def pte_at_def)
  show v: "vmap (printcharc ch s) K = vmap s K" for K by (rule vmap_cong [OF t]) (simp add: printcharc_def pte_at_def)
  show "runs (printcharc ch s) K ext fl c d = runs s K ext fl c d"
    by (simp add: runs_def owns_def pm_inv_def free_inv_def tab_inv_def ref_inv_def t v) (simp add: printcharc_def)
  show "page_bytes (printcharc ch s) p = page_bytes s p" by (simp add: page_bytes_def printcharc_def fun_eq_iff)
  show "cons_out (printcharc ch s) = cons_out s @ [ch]" by (simp add: printcharc_def)
qed

lemma on_page_printcharc: "on_page K ext fl c d b p (printcharc ch s) m = on_page K ext fl c d b p s m"
  by (simp add: on_page_def printcharc_keeps)

lemma on_page_load_byte:
  assumes "on_page K ext fl c d b p s m" and "x < 4096"
  obtains s' where "load_byte (b + word_of_nat x) s = Some (m x, s')" and "on_page K ext fl c d b p s' m" and "cons_out s' = cons_out s"
proof -
  obtain t where t: "kaddr (b + word_of_nat x) s = Some ((p, x div 4, True), s\<lparr>tlb := t\<rparr>)"
    by (rule on_page_kaddr [OF assms])
  have b: "page_base b" and m: "page_bytes s p = m" using assms(1) by (simp_all add: on_page_def)
  have "wrote p s (s\<lparr>tlb := t\<rparr>)" unfolding wrote_def by (intro exI [of _ t] exI [of _ "pmem s p"]) simp
  then have "on_page K ext fl c d b p (s\<lparr>tlb := t\<rparr>) m" using on_page_wrote [OF assms(1)] m by fastforce
  moreover have "load_byte (b + word_of_nat x) s = Some (m x, s\<lparr>tlb := t\<rparr>)"
    using t byte_in_page(3) [OF b assms(2)] m by (auto simp: load_byte_def page_bytes_def fun_eq_iff)
  ultimately show ?thesis using that by simp
qed

lemma on_page_load_word:
  assumes "on_page K ext fl c d b p s m" and "k < 1024"
  obtains s' where "load_word (b + word_of_nat (4 * k)) s = Some (rd32 m (4 * k), s')" and "on_page K ext fl c d b p s' m"
    and "cons_out s' = cons_out s"
proof -
  have b: "page_base b" and m: "page_bytes s p = m" using assms(1) by (simp_all add: on_page_def)
  obtain t where t: "kaddr (b + word_of_nat (4 * k)) s = Some ((p, 4 * k div 4, True), s\<lparr>tlb := t\<rparr>)"
    by (rule on_page_kaddr [OF assms(1), of "4 * k"]) (use assms(2) in simp)
  have "wrote p s (s\<lparr>tlb := t\<rparr>)" unfolding wrote_def by (intro exI [of _ t] exI [of _ "pmem s p"]) simp
  then have "on_page K ext fl c d b p (s\<lparr>tlb := t\<rparr>) m" using on_page_wrote [OF assms(1)] m by fastforce
  moreover have "load_word (b + word_of_nat (4 * k)) s = Some (rd32 m (4 * k), s\<lparr>tlb := t\<rparr>)"
    using t word_in_page(2) [OF b assms(2)] by (simp add: load_word_def m [symmetric] rd32_page_bytes)
  ultimately show ?thesis using that by simp
qed

lemma on_page_print_bytes:
  assumes "on_page K ext fl c d b p s m" and "x + n \<le> 4096"
  shows "\<exists>s'. print_bytes (b + word_of_nat x) n s = Some s' \<and> on_page K ext fl c d b p s' m
    \<and> cons_out s' = cons_out s @ map m [x..<x + n]"
  using assms
proof (induction n arbitrary: x s)
  case 0
  then show ?case by simp
next
  case (Suc n)
  then have x: "x < 4096" "Suc x + n \<le> 4096" by simp_all
  obtain s1 where s1: "load_byte (b + word_of_nat x) s = Some (m x, s1)" "on_page K ext fl c d b p s1 m"
    "cons_out s1 = cons_out s"
    by (rule on_page_load_byte [OF Suc.prems(1) x(1)])
  have "on_page K ext fl c d b p (printcharc (m x) s1) m" using s1(2) by (simp add: on_page_printcharc)
  then obtain s' where s': "print_bytes (b + word_of_nat (Suc x)) n (printcharc (m x) s1) = Some s'"
    "on_page K ext fl c d b p s' m" "cons_out s' = cons_out (printcharc (m x) s1) @ map m [Suc x..<Suc x + n]"
    using Suc.IH x(2) by blast
  have "b + word_of_nat x + 1 = b + word_of_nat (Suc x)" by simp
  then have "print_bytes (b + word_of_nat x) (Suc n) s = Some s'"
    by (simp only: print_bytes.simps s1(1) bind.bind_lunit case_prod_conv s'(1))
  moreover have "cons_out s' = cons_out s @ map m (x # [Suc x..<Suc x + n])"
    unfolding s'(3) printcharc_keeps(4) s1(3) by simp
  moreover have "x # [Suc x..<Suc x + n] = [x..<x + Suc n]" by (subst (2) upt_conv_Cons) simp_all
  ultimately show ?case using s'(2) by metis
qed

lemma wrote_cons_out: "wrote p s s' \<Longrightarrow> cons_out s' = cons_out s"
  by (auto simp: wrote_def)

section \<open>The buffer holds what is not printed yet\<close>

text \<open>The structure is at offset \<open>x\<close> of the page at \<open>b\<close>, whose other bytes are those of \<open>m0\<close>.\<close>

definition dbuf :: "(nat \<times> nat) set \<Rightarrow> (nat \<Rightarrow> nat) \<Rightarrow> nat list \<Rightarrow> nat \<Rightarrow> nat \<Rightarrow> u32 \<Rightarrow> nat \<Rightarrow> nat \<Rightarrow> mem
    \<Rightarrow> u8 list \<Rightarrow> kstate \<Rightarrow> bool" where
  "dbuf K ext fl c d b p x m0 pend s \<longleftrightarrow> (\<exists>m. on_page K ext fl c d b p s m \<and> rd32 m (x + 1024) = word_of_nat (length pend)
     \<and> length pend \<le> 1024 \<and> (\<forall>i < length pend. m (x + i) = pend ! i)
     \<and> (\<forall>a. a < x \<or> x + 1028 \<le> a \<longrightarrow> m a = m0 a))"

definition ctx_fits :: "nat \<Rightarrow> bool" where
  "ctx_fits x \<longleftrightarrow> x mod 4 = 0 \<and> x + 1028 \<le> 4096"

lemma ctx_fitsD:
  assumes "ctx_fits x"
  obtains k where "k < 1024" and "x + 1024 = 4 * k" and "ctx_pos (b + word_of_nat x) = b + word_of_nat (4 * k)"
proof -
  have "x div 4 + 256 < 1024" "x + 1024 = 4 * (x div 4 + 256)" using assms unfolding ctx_fits_def by presburger+
  moreover have "ctx_pos (b + word_of_nat x) = b + word_of_nat (x + 1024)"
    by (simp add: ctx_pos_def BUF_LEN_def)
  ultimately show ?thesis using that [of "x div 4 + 256"] by metis
qed

lemma dbuf_load_pos:
  assumes "dbuf K ext fl c d b p x m0 pend s" and "ctx_fits x"
  obtains s' where "load_word (ctx_pos (b + word_of_nat x)) s = Some (word_of_nat (length pend), s')"
    and "dbuf K ext fl c d b p x m0 pend s'" and "cons_out s' = cons_out s"
proof -
  obtain k where k: "k < 1024" "x + 1024 = 4 * k" "ctx_pos (b + word_of_nat x) = b + word_of_nat (4 * k)"
    by (rule ctx_fitsD [OF assms(2)])
  obtain m where m: "on_page K ext fl c d b p s m" "rd32 m (x + 1024) = word_of_nat (length pend)" "length pend \<le> 1024"
    "\<forall>i < length pend. m (x + i) = pend ! i" "\<forall>a. a < x \<or> x + 1028 \<le> a \<longrightarrow> m a = m0 a"
    using assms(1) by (auto simp: dbuf_def)
  obtain s' where s': "load_word (b + word_of_nat (4 * k)) s = Some (rd32 m (4 * k), s')" "on_page K ext fl c d b p s' m"
    "cons_out s' = cons_out s"
    by (rule on_page_load_word [OF m(1) k(1)])
  have "dbuf K ext fl c d b p x m0 pend s'" unfolding dbuf_def using m(2-5) s'(2) by blast
  then show ?thesis using that [of s'] s'(1,3) m(2) by (simp add: k(2,3))
qed

lemma dbuf_store_pos:
  assumes "on_page K ext fl c d b p s m" and "ctx_fits x" and "length pend \<le> 1024"
    and "\<forall>i < length pend. m (x + i) = pend ! i" and "\<forall>a. a < x \<or> x + 1028 \<le> a \<longrightarrow> m a = m0 a"
  obtains s' where "store_word (ctx_pos (b + word_of_nat x)) (word_of_nat (length pend)) s = Some s'"
    and "dbuf K ext fl c d b p x m0 pend s'" and "cons_out s' = cons_out s"
proof -
  obtain k where k: "k < 1024" "x + 1024 = 4 * k" "ctx_pos (b + word_of_nat x) = b + word_of_nat (4 * k)"
    by (rule ctx_fitsD [OF assms(2)])
  obtain s' where s': "store_word (b + word_of_nat (4 * k)) (word_of_nat (length pend)) s = Some s'"
    "on_page K ext fl c d b p s' (put_word (4 * k) (word_of_nat (length pend)) m)" "wrote p s s'"
    by (rule on_page_store_word [OF assms(1) k(1)])
  have out: "put_word (4 * k) v m a = m a" if "a < x + 1024 \<or> x + 1028 \<le> a" for v a
    by (rule put_word_outside) (use that k(2) in presburger)
  have "rd32 (put_word (4 * k) (word_of_nat (length pend)) m) (x + 1024) = word_of_nat (length pend)" by (simp add: k(2))
  moreover have "put_word (4 * k) v m (x + i) = m (x + i)" if "i < length pend" for i v
    by (rule out) (use that assms(3) in simp)
  moreover have "put_word (4 * k) v m a = m a" if "a < x \<or> x + 1028 \<le> a" for a v
    by (rule out) (use that in linarith)
  ultimately have "dbuf K ext fl c d b p x m0 pend s'"
    unfolding dbuf_def using s'(2) assms(3-5) by (intro exI [of _ "put_word (4 * k) (word_of_nat (length pend)) m"]) simp
  then show ?thesis using that [of s'] s'(1) wrote_cons_out [OF s'(3)] by (simp add: k(3))
qed

lemma dbuf_append:
  assumes "dbuf K ext fl c d b p x m0 pend s" and "ctx_fits x" and "length pend + length cs \<le> 1024"
  shows "\<exists>s1 s'. store_bytes (b + word_of_nat x + word_of_nat (length pend)) cs s = Some s1
    \<and> store_word (ctx_pos (b + word_of_nat x)) (word_of_nat (length pend + length cs)) s1 = Some s'
    \<and> dbuf K ext fl c d b p x m0 (pend @ cs) s' \<and> cons_out s' = cons_out s"
proof -
  obtain m where m: "on_page K ext fl c d b p s m" "\<forall>i < length pend. m (x + i) = pend ! i"
    "\<forall>a. a < x \<or> x + 1028 \<le> a \<longrightarrow> m a = m0 a" using assms(1) by (auto simp: dbuf_def)
  let ?y = "x + length pend" and ?m = "put_bytes (x + length pend) cs m"
  have "?y + length cs \<le> 4096" using assms(2,3) by (simp add: ctx_fits_def)
  then obtain s1 where s1: "store_bytes (b + word_of_nat ?y) cs s = Some s1" "on_page K ext fl c d b p s1 ?m" "wrote p s s1"
    using on_page_store_bytes [OF m(1)] by blast
  have bytes: "\<forall>i < length (pend @ cs). ?m (x + i) = (pend @ cs) ! i"
  proof (intro allI impI)
    fix i assume "i < length (pend @ cs)"
    then show "?m (x + i) = (pend @ cs) ! i" using m(2) by (auto simp: put_bytes_def nth_append)
  qed
  have out: "\<forall>a. a < x \<or> x + 1028 \<le> a \<longrightarrow> ?m a = m0 a" using m(3) assms(3) by (auto simp: put_bytes_def)
  have len: "length (pend @ cs) \<le> 1024" using assms(3) by simp
  obtain s' where "store_word (ctx_pos (b + word_of_nat x)) (word_of_nat (length (pend @ cs))) s1 = Some s'"
    "dbuf K ext fl c d b p x m0 (pend @ cs) s'" "cons_out s' = cons_out s1"
    by (rule dbuf_store_pos [OF s1(2) assms(2) len bytes out])
  then show ?thesis using s1(1) wrote_cons_out [OF s1(3)] by (simp add: add.assoc)
qed

section \<open>Flushing and filling\<close>

lemma page_range_legal:
  assumes "page_base b" and "\<not> is_illegal_va b" and "x + n \<le> 4096" and "x < 4096"
  shows "\<not> UTOP < b + word_of_nat x + word_of_nat n" and "\<not> UTOP \<le> b + word_of_nat x"
    and "\<not> b + word_of_nat x + word_of_nat n < b + word_of_nat x"
proof -
  have b: "unat b mod 4096 = 0" "unat b < 0x7f400000"
    using assms(1,2) by (simp_all add: page_base_def is_illegal_va_def word_less_nat_alt word_le_nat_alt mmu_defs)
  have q: "unat b = 4096 * (unat b div 4096)" using b(1) mult_div_mod_eq [of 4096 "unat b"] by linarith
  have "unat b div 4096 < 0x7f400" using b(2) by (intro less_mult_imp_div_less) simp
  then have "4096 * (unat b div 4096) + 4096 \<le> 4096 * 0x7f400" by linarith
  then have "unat b + 4096 \<le> 0x7f400000" by (subst q) simp
  moreover have "unat (b + word_of_nat x + word_of_nat n) = unat b + (x + n)"
    by (rule trans [OF arg_cong [of _ "b + word_of_nat (x + n)" unat]])
      (use calculation assms(3) in \<open>simp_all add: unat_word_ariths unat_of_nat\<close>)
  moreover have "unat (b + word_of_nat x) = unat b + x"
    using calculation(1) assms(4) by (simp add: unat_word_ariths unat_of_nat)
  ultimately show "\<not> UTOP < b + word_of_nat x + word_of_nat n" and "\<not> UTOP \<le> b + word_of_nat x"
    and "\<not> b + word_of_nat x + word_of_nat n < b + word_of_nat x"
    using assms(3,4) by (simp_all add: word_less_nat_alt word_le_nat_alt mmu_defs)
qed

lemma debug_flush_prints:
  assumes "dbuf K ext fl c d b p x m0 pend s" and "ctx_fits x"
  shows "\<exists>s'. debug_flush (b + word_of_nat x) s = Some s' \<and> dbuf K ext fl c d b p x m0 [] s'
    \<and> cons_out s' = cons_out s @ pend"
proof -
  obtain s1 where s1: "load_word (ctx_pos (b + word_of_nat x)) s = Some (word_of_nat (length pend), s1)"
    "dbuf K ext fl c d b p x m0 pend s1" "cons_out s1 = cons_out s"
    by (rule dbuf_load_pos [OF assms])
  obtain m where m: "on_page K ext fl c d b p s1 m" "\<forall>i < length pend. m (x + i) = pend ! i" "length pend \<le> 1024"
    "\<forall>a. a < x \<or> x + 1028 \<le> a \<longrightarrow> m a = m0 a" using s1(2) by (auto simp: dbuf_def)
  have n: "unat (word_of_nat (length pend) :: u32) = length pend" using m(3) by (simp only: unat_of_nat) simp
  show ?thesis
  proof (cases "pend = []")
    case True
    then show ?thesis using s1 by (simp add: debug_flush_def)
  next
    case False
    then have "(word_of_nat (length pend) :: u32) \<noteq> 0" using n by (metis length_0_conv unat_0)
    moreover have x: "x + length pend \<le> 4096" "x < 4096" using assms(2) m(3) by (simp_all add: ctx_fits_def)
    obtain s2 where s2: "print_bytes (b + word_of_nat x) (length pend) s1 = Some s2" "on_page K ext fl c d b p s2 m"
      "cons_out s2 = cons_out s1 @ map m [x..<x + length pend]"
      using on_page_print_bytes [OF m(1) x(1)] by blast
    have "map m [x..<x + length pend] = pend" using m(2) by (intro nth_equalityI) simp_all
    then have out: "cons_out s2 = cons_out s @ pend" using s2(3) s1(3) by simp
    have b: "page_base b" "\<not> is_illegal_va b" using m(1) by (simp_all add: on_page_def)
    have "sys_print_cons (b + word_of_nat x) (word_of_nat (length pend)) s1 = Some (Inr 0, s2)"
      using page_range_legal [OF b x] s2(1) by (simp add: sys_print_cons_def n)
    moreover obtain s' where "store_word (ctx_pos (b + word_of_nat x)) (word_of_nat (length ([] :: u8 list))) s2 = Some s'"
      "dbuf K ext fl c d b p x m0 [] s'" "cons_out s' = cons_out s2"
      by (rule dbuf_store_pos [OF s2(2) assms(2), of "[]" m0]) (use m(4) in simp_all)
    ultimately show ?thesis using s1(1) out by (simp add: debug_flush_def)
  qed
qed

lemma debug_output_buffers:
  assumes "dbuf K ext fl c d b p x m0 pend s" and "ctx_fits x" and "length bs < 2 ^ 31"
  shows "\<exists>s' pend'. debug_output (b + word_of_nat x) bs (word_of_nat (length bs)) s = Some s'
    \<and> dbuf K ext fl c d b p x m0 pend' s' \<and> cons_out s' @ pend' = cons_out s @ pend @ bs"
  using assms(1,3)
proof (induction "2 * length bs + length pend" arbitrary: bs pend s rule: less_induct)
  case less
  let ?ctx = "b + word_of_nat x" and ?l = "word_of_nat (length bs) :: u32"
  obtain s1 where s1: "load_word (ctx_pos ?ctx) s = Some (word_of_nat (length pend), s1)"
    "dbuf K ext fl c d b p x m0 pend s1" "cons_out s1 = cons_out s"
    by (rule dbuf_load_pos [OF less.prems(1) assms(2)])
  have pend: "length pend \<le> 1024" using less.prems(1) by (auto simp: dbuf_def)
  have l: "unat ?l = length bs" using less.prems(2) by (simp only: unat_of_nat) simp
  have q: "unat (word_of_nat (length pend) :: u32) = length pend" using pend by (simp only: unat_of_nat) simp
  have sum: "unat (word_of_nat (length pend) + ?l) = length pend + length bs"
    using pend less.prems(2) by (simp only: unat_word_ariths q l) simp
  show ?case
  proof (cases "1024 < length pend + length bs")
    case False
    then have fits: "length pend + length bs \<le> 1024" by simp
    then have "\<not> BUF_LEN < word_of_nat (length pend) + ?l" by (simp only: word_less_nat_alt sum) (simp add: BUF_LEN_def)
    moreover obtain s2 s' where "store_bytes (?ctx + word_of_nat (length pend)) bs s1 = Some s2"
      "store_word (ctx_pos ?ctx) (word_of_nat (length pend + length bs)) s2 = Some s'"
      "dbuf K ext fl c d b p x m0 (pend @ bs) s'" "cons_out s' = cons_out s1"
      using dbuf_append [OF s1(2) assms(2) fits] by blast
    ultimately show ?thesis using s1 l
      by (subst debug_output.simps) (auto simp: intro!: exI [of _ "pend @ bs"])
  next
    case True
    define n where "n = 1024 - length pend"
    have n: "n \<le> length bs" "length pend + n = 1024" using True pend by (simp_all add: n_def)
    have over: "BUF_LEN < word_of_nat (length pend) + ?l" using True by (simp only: word_less_nat_alt sum) (simp add: BUF_LEN_def)
    have wn: "BUF_LEN - word_of_nat (length pend) = word_of_nat n"
      using pend by (simp add: n_def BUF_LEN_def of_nat_diff)
    have un: "unat (word_of_nat n :: u32) = n" using n(2) by (simp only: unat_of_nat) simp
    have rest: "?l - word_of_nat n = word_of_nat (length (drop n bs))" using n(1) by (simp add: of_nat_diff)
    have fits: "length pend + length (take n bs) \<le> 1024" "length (take n bs) = n" using n by simp_all
    obtain s2 s3 where s2: "store_bytes (?ctx + word_of_nat (length pend)) (take n bs) s1 = Some s2"
      "store_word (ctx_pos ?ctx) (word_of_nat (length pend + n)) s2 = Some s3"
      "dbuf K ext fl c d b p x m0 (pend @ take n bs) s3" "cons_out s3 = cons_out s1"
      using dbuf_append [OF s1(2) assms(2) fits(1)] unfolding fits(2) by blast
    obtain s4 where s4: "debug_flush ?ctx s3 = Some s4" "dbuf K ext fl c d b p x m0 [] s4"
      "cons_out s4 = cons_out s3 @ pend @ take n bs"
      using debug_flush_prints [OF s2(3) assms(2)] by auto
    have "2 * length (drop n bs) + length ([] :: u8 list) < 2 * length bs + length pend"
      using n True by simp
    moreover have "length (drop n bs) < 2 ^ 31" using less.prems(2) by simp
    ultimately obtain s' pend' where s': "debug_output ?ctx (drop n bs) (word_of_nat (length (drop n bs))) s4 = Some s'"
      "dbuf K ext fl c d b p x m0 pend' s'" "cons_out s' @ pend' = cons_out s4 @ [] @ drop n bs"
      using less.hyps [OF _ s4(2)] by blast
    have full: "word_of_nat (length pend + n) = BUF_LEN" by (simp add: n(2) BUF_LEN_def)
    have "debug_output ?ctx bs ?l s = Some s'"
      by (subst debug_output.simps) (simp only: s1(1) s2(1) s2(2) [unfolded full] s4(1) s'(1) over wn un rest
          bind.bind_lunit case_prod_conv if_True Let_def)
    moreover have "cons_out s' @ pend' = cons_out s @ pend @ bs" using s'(3) s4(3) s2(4) s1(3) by simp
    ultimately show ?thesis using s'(2) by blast
  qed
qed

lemma debug_chunks_buffer:
  assumes "dbuf K ext fl c d b p x m0 pend s" and "ctx_fits x" and "\<forall>ch \<in> set out. length ch < 2 ^ 31"
  shows "\<exists>s' pend'. debug_chunks (b + word_of_nat x) out s = Some s'
    \<and> dbuf K ext fl c d b p x m0 pend' s' \<and> cons_out s' @ pend' = cons_out s @ pend @ concat out"
  using assms(1,3)
proof (induction out arbitrary: pend s)
  case Nil
  then show ?case by auto
next
  case (Cons ch out)
  have len: "length ch < 2 ^ 31" "\<forall>ch \<in> set out. length ch < 2 ^ 31" using Cons.prems(2) by simp_all
  obtain s1 pend1 where s1: "debug_output (b + word_of_nat x) ch (word_of_nat (length ch)) s = Some s1"
    "dbuf K ext fl c d b p x m0 pend1 s1" "cons_out s1 @ pend1 = cons_out s @ pend @ ch"
    using debug_output_buffers [OF Cons.prems(1) assms(2) len(1)] by blast
  obtain s' pend' where s': "debug_chunks (b + word_of_nat x) out s1 = Some s'" "dbuf K ext fl c d b p x m0 pend' s'"
    "cons_out s' @ pend' = (cons_out s1 @ pend1) @ concat out"
    using Cons.IH [OF s1(2) len(2)] by auto
  show ?case using s1(1) s' unfolding s1(3) by auto
qed

text \<open>C35: Messages of the user library. Let the structure with the buffer lie in one writable page. Whatever the
  formatter produces, and however long it is, \<^verbatim>\<open>vdebugf\<close> returns, exactly these bytes have appeared on the console,
  in their order, and no byte of the page outside of the structure has changed: the buffer never overflows.\<close>

theorem vdebugf_prints:
  assumes "on_page K ext fl c d b p s m" and "ctx_fits x"
    and "vprintfmt fmt ap = Some out" and "\<forall>ch \<in> set out. length ch < 2 ^ 31"
  shows "\<exists>s' m'. vdebugf (b + word_of_nat x) fmt ap s = Some s' \<and> cons_out s' = cons_out s @ concat out
    \<and> on_page K ext fl c d b p s' m' \<and> (\<forall>a. a < x \<or> x + 1028 \<le> a \<longrightarrow> m' a = m a)"
proof -
  obtain s1 where s1: "store_word (ctx_pos (b + word_of_nat x)) (word_of_nat (length ([] :: u8 list))) s = Some s1"
    "dbuf K ext fl c d b p x m [] s1" "cons_out s1 = cons_out s"
    by (rule dbuf_store_pos [OF assms(1,2), of "[]" m]) simp_all
  obtain s2 pend where s2: "debug_chunks (b + word_of_nat x) out s1 = Some s2" "dbuf K ext fl c d b p x m pend s2"
    "cons_out s2 @ pend = cons_out s1 @ [] @ concat out"
    using debug_chunks_buffer [OF s1(2) assms(2,4)] by blast
  obtain s' where s': "debug_flush (b + word_of_nat x) s2 = Some s'" "dbuf K ext fl c d b p x m [] s'"
    "cons_out s' = cons_out s2 @ pend"
    using debug_flush_prints [OF s2(2) assms(2)] by blast
  have "vdebugf (b + word_of_nat x) fmt ap s = Some s'" using s1(1) s2(1) s'(1) by (simp add: vdebugf_def assms(3))
  moreover obtain m' where "on_page K ext fl c d b p s' m'" "\<forall>a. a < x \<or> x + 1028 \<le> a \<longrightarrow> m' a = m a"
    using s'(2) by (auto simp: dbuf_def)
  ultimately show ?thesis using s'(3) s2(3) s1(3) by auto
qed

text \<open>\<^verbatim>\<open>"n=%d"\<close> with 7, the structure at the end of the page.\<close>

theorem vdebugf_prints_witness:
  "\<exists>s'. vdebugf (0x400000 + word_of_nat 3068) [110, 61, 37, 100] [VInt 7] (kfork PTE_D) = Some s'
     \<and> cons_out s' = cons_out (kfork PTE_D) @ [110, 61, 55]"
proof -
  have "vmap (kfork PTE_D) fork_slots (vkey 1 0x400000) = Some (mk_pte 0 PTE_D)"
    by (simp add: kfork_vmap vkey_def PDX_numeral_eq PTX_numeral_eq)
  moreover have "PPN (mk_pte 0 PTE_D) = 0" by (rule PPN_mk_pte) (simp_all add: PTE_D_def)
  moreover have "mk_pte 0 PTE_D AND PTE_D \<noteq> 0" by (simp add: mk_pte_def PTE_D_def PTE_V_def page2pa_def)
  moreover have "runs (kfork PTE_D) fork_slots fork_ext [5, 6] 0 1"
    using kfork_inv [OF PTE_D_less] kfork_envs(2) [of PTE_D] by (simp add: runs_def kfork_simps)
  moreover have "page_base 0x400000" "\<not> is_illegal_va 0x400000" by (simp_all add: page_base_def is_illegal_va_def mmu_defs)
  ultimately have "on_page fork_slots fork_ext [5, 6] 0 1 0x400000 0 (kfork PTE_D) (page_bytes (kfork PTE_D) 0)"
    by (simp add: on_page_def)
  moreover have "vprintfmt [110, 61, 37, 100] [VInt 7] = Some [[110, 61], [55], []]"
  proof -
    have "vprintfmt [] [] = Some [[]]" by (subst vprintfmt.simps) simp
    moreover have "digits_loop 7 10 False = [55]" by (subst digits_loop.simps) (simp add: digit_char_def chr_def)
    ultimately show ?thesis
      by (subst vprintfmt.simps) (simp add: get_flags_def get_long_def is_digit_def convert_def print_num_field num_field_def chr_def)
  qed
  ultimately show ?thesis
    using vdebugf_prints [of fork_slots fork_ext "[5, 6]" 0 1 "0x400000" 0 "kfork PTE_D" _ 3068] by (force simp: ctx_fits_def)
qed

end
