(* ===== verification/QueueOps.thy ===== *)
theory QueueOps
  imports Queue
begin

text \<open>
  The rest of \<^verbatim>\<open>include/queue.h\<close>, which the kernel does not call: insertion in the middle of a tail queue,
  concatenation, and the access from the end, which reads the \<^verbatim>\<open>TAILQ_ENTRY\<close> of an element as if
  it were a head. \<^verbatim>\<open>LIST_INSERT_BEFORE\<close> is left out: its text is not C.
\<close>

section \<open>Insertion\<close>

definition TAILQ_INSERT_AFTER :: "'a \<Rightarrow> 'a \<Rightarrow> 'a tq \<Rightarrow> 'a tq" where
  "TAILQ_INSERT_AFTER listelm elm q =
     (let q1 = q\<lparr>tqe_next := (tqe_next q)(elm := tqe_next q listelm)\<rparr>;
          q2 = (case tqe_next q1 elm of
                  None \<Rightarrow> q1\<lparr>tqh_last := LNext elm\<rparr>
                | Some n \<Rightarrow> q1\<lparr>tqe_prev := (tqe_prev q1)(n := LNext elm)\<rparr>);
          q3 = q2\<lparr>tqe_next := (tqe_next q2)(listelm := Some elm)\<rparr>
      in q3\<lparr>tqe_prev := (tqe_prev q3)(elm := LNext listelm)\<rparr>)"

definition TAILQ_INSERT_BEFORE :: "'a \<Rightarrow> 'a \<Rightarrow> 'a tq \<Rightarrow> 'a tq option" where
  "TAILQ_INSERT_BEFORE listelm elm q =
     (let q1 = q\<lparr>tqe_prev := (tqe_prev q)(elm := tqe_prev q listelm)\<rparr>;
          q2 = q1\<lparr>tqe_next := (tqe_next q1)(elm := Some listelm)\<rparr>
      in do {
        q3 \<leftarrow> tq_store (tqe_prev q2 listelm) (Some elm) q2;
        Some (q3\<lparr>tqe_prev := (tqe_prev q3)(listelm := LNext elm)\<rparr>)
      })"

lemma tq_rep_insert_after:
  assumes "tq_rep q (us @ b # ys)" and "a \<notin> set (us @ b # ys)"
  shows "tq_rep (TAILQ_INSERT_AFTER b a q) (us @ b # a # ys)"
proof -
  from assms have d: "distinct (us @ b # ys)" and lst: "tqh_last q = last_ref LHead (us @ b # ys)"
    and seg: "lseg (tqe_next q) (tqe_prev q) LHead (tqh_first q) (us @ b # ys)"
    by (simp_all add: tq_rep_def)
  have sb: "lseg (tqe_next q) (tqe_prev q) (LNext b) (tqe_next q b) ys" using lseg_append_split [OF seg] by simp
  let ?pv = "(tqe_prev q)(a := LNext b)"
  show ?thesis
  proof (cases ys)
    case Nil
    then have nb: "tqe_next q b = None" using sb by simp
    have "lseg ((tqe_next q)(a := None)) ?pv LHead (tqh_first q) (us @ b # [])"
      using seg assms(2) Nil by simp
    from lseg_replace_tail [OF this, of "[a]" "Some a"]
    have "lseg ((tqe_next q)(a := None, b := Some a)) ?pv LHead (tqh_first q) (us @ b # [a])"
      using d assms(2) by auto
    then show ?thesis
      using Nil d assms(2) nb by (auto simp: TAILQ_INSERT_AFTER_def tq_rep_def last_ref_append)
  next
    case (Cons n zs)
    with sb have nb: "tqe_next q b = Some n"
      and sn: "lseg (tqe_next q) (tqe_prev q) (LNext n) (tqe_next q n) zs" by auto
    have "lseg ((tqe_next q)(a := Some n)) ?pv LHead (tqh_first q) (us @ b # n # zs)"
      using seg assms(2) Cons by simp
    from lseg_prev_cut [OF this, of n "LNext a" "Some a" "a # n # zs"]
    have "lseg ((tqe_next q)(a := Some n, b := Some a)) (?pv(n := LNext a)) LHead (tqh_first q) (us @ b # a # n # zs)"
      using d assms(2) Cons sn by auto
    moreover have "?pv(n := LNext a) = (tqe_prev q)(n := LNext a, a := LNext b)"
      using assms(2) Cons by (auto simp: fun_upd_twist)
    ultimately show ?thesis
      using Cons d assms(2) nb lst by (auto simp: TAILQ_INSERT_AFTER_def tq_rep_def last_ref_append)
  qed
qed

lemma tq_rep_insert_before:
  assumes "tq_rep q (us @ b # ys)" and "a \<notin> set (us @ b # ys)"
  shows "\<exists>q'. TAILQ_INSERT_BEFORE b a q = Some q' \<and> tq_rep q' (us @ a # b # ys)"
proof -
  from assms have d: "distinct (us @ b # ys)" and lst: "tqh_last q = last_ref LHead (us @ b # ys)"
    and seg: "lseg (tqe_next q) (tqe_prev q) LHead (tqh_first q) (us @ b # ys)"
    by (simp_all add: tq_rep_def)
  have pb: "tqe_prev q b = last_ref LHead us"
    and sb: "lseg (tqe_next q) (tqe_prev q) (LNext b) (tqe_next q b) ys" using lseg_append_split [OF seg] by simp_all
  have ab: "a \<noteq> b" "b \<noteq> a" using assms(2) by auto
  show ?thesis
  proof (cases us rule: rev_cases)
    case Nil
    then show ?thesis
      using seg d lst assms(2) ab by (auto simp: TAILQ_INSERT_BEFORE_def tq_store_def tq_rep_def)
  next
    case (snoc vs c)
    let ?nx = "(tqe_next q)(a := Some b)" and ?pv = "(tqe_prev q)(a := LNext c)"
    have "lseg ?nx ?pv LHead (tqh_first q) (vs @ c # b # ys)" using seg assms(2) snoc by simp
    from lseg_prev_cut [OF this, of b "LNext a" "Some a" "a # b # ys"]
    have "lseg (?nx(c := Some a)) (?pv(b := LNext a)) LHead (tqh_first q) (vs @ c # a # b # ys)"
      using d assms(2) snoc sb ab by auto
    moreover have "tqe_prev q b = LNext c" using pb snoc by simp
    ultimately show ?thesis
      using snoc d lst assms(2) ab by (auto simp: TAILQ_INSERT_BEFORE_def tq_store_def tq_rep_def last_ref_append)
  qed
qed

section \<open>Concatenation\<close>

text \<open>
  Two heads over the same link fields: the first is that of the record, the second the pair of its
  fields, in which \<open>LHead\<close> is the address of its own \<^verbatim>\<open>tqh_first\<close>.
\<close>

definition TAILQ_CONCAT :: "'a tq \<Rightarrow> 'a option \<times> 'a lref \<Rightarrow> ('a tq \<times> 'a option \<times> 'a lref) option" where
  "TAILQ_CONCAT q h2 =
     (case h2 of (first2, last2) \<Rightarrow>
        (case first2 of
           None \<Rightarrow> Some (q, first2, last2)
         | Some y \<Rightarrow> do {
             q1 \<leftarrow> tq_store (tqh_last q) (Some y) q;
             let q2 = q1\<lparr>tqe_prev := (tqe_prev q1)(y := tqh_last q1)\<rparr>;
             Some (q2\<lparr>tqh_last := last2\<rparr>, None, LHead)
           }))"

lemma tq_rep_concat:
  assumes "tq_rep q xs" and "distinct ys" and "set xs \<inter> set ys = {}"
    and "lseg (tqe_next q) (tqe_prev q) LHead first2 ys"
  shows "\<exists>q'. TAILQ_CONCAT q (first2, last_ref LHead ys) = Some (q', None, LHead) \<and> tq_rep q' (xs @ ys)"
proof (cases ys)
  case Nil
  then show ?thesis using assms(1,4) by (simp add: TAILQ_CONCAT_def)
next
  case (Cons y zs)
  have f2: "first2 = Some y" and sy: "lseg (tqe_next q) (tqe_prev q) (LNext y) (tqe_next q y) zs"
    using assms(4) Cons by simp_all
  have d: "distinct (xs @ ys)" using assms by (simp add: tq_rep_def)
  have seg: "lseg (tqe_next q) (tqe_prev q) LHead (tqh_first q) xs" and lst: "tqh_last q = last_ref LHead xs"
    using assms(1) by (simp_all add: tq_rep_def)
  show ?thesis
  proof (cases xs rule: rev_cases)
    case Nil
    then show ?thesis using f2 sy d lst Cons by (auto simp: TAILQ_CONCAT_def tq_store_def tq_rep_def)
  next
    case (snoc vs c)
    have "lseg (tqe_next q) (tqe_prev q) LHead (tqh_first q) (vs @ c # [])" using seg snoc by simp
    from lseg_prev_cut [OF this, of y "LNext c" "Some y" "y # zs"]
    have "lseg ((tqe_next q)(c := Some y)) ((tqe_prev q)(y := LNext c)) LHead (tqh_first q) (vs @ c # y # zs)"
      using d snoc Cons sy by auto
    then show ?thesis
      using f2 d lst Cons snoc by (auto simp: TAILQ_CONCAT_def tq_store_def tq_rep_def last_ref_append)
  qed
qed

section \<open>Access from the end\<close>

text \<open>
  \<^verbatim>\<open>*r\<close>, and \<^verbatim>\<open>((struct headname *) r)->tqh_last\<close>: the field behind the pointer at \<open>r\<close>, which is \<^verbatim>\<open>tqh_last\<close> of the
  head or \<^verbatim>\<open>tqe_prev\<close> of an element.
\<close>

definition tq_load :: "'a lref \<Rightarrow> 'a tq \<Rightarrow> 'a option option" where
  "tq_load r q = (case r of LNull \<Rightarrow> None | LHead \<Rightarrow> Some (tqh_first q) | LNext x \<Rightarrow> Some (tqe_next q x))"

definition tq_behind :: "'a lref \<Rightarrow> 'a tq \<Rightarrow> 'a lref option" where
  "tq_behind r q = (case r of LNull \<Rightarrow> None | LHead \<Rightarrow> Some (tqh_last q) | LNext x \<Rightarrow> Some (tqe_prev q x))"

definition TAILQ_LAST :: "'a tq \<Rightarrow> 'a option option" where
  "TAILQ_LAST q = do { r \<leftarrow> tq_behind (tqh_last q) q; tq_load r q }"

definition TAILQ_PREV :: "'a \<Rightarrow> 'a tq \<Rightarrow> 'a option option" where
  "TAILQ_PREV elm q = do { r \<leftarrow> tq_behind (tqe_prev q elm) q; tq_load r q }"

definition TAILQ_NEXT :: "'a \<Rightarrow> 'a tq \<Rightarrow> 'a option" where
  "TAILQ_NEXT elm q = tqe_next q elm"

lemma lseg_load_last:
  assumes "lseg (tqe_next q) (tqe_prev q) LHead (tqh_first q) (vs @ x # ys)"
  shows "tq_load (last_ref LHead vs) q = Some (Some x)"
proof (cases vs rule: rev_cases)
  case Nil
  then show ?thesis using assms by (simp add: tq_load_def)
next
  case (snoc us c)
  then show ?thesis using lseg_append_split [of "tqe_next q" "tqe_prev q" LHead "tqh_first q" us c "x # ys"] assms
    by (simp add: tq_load_def)
qed

lemma TAILQ_LAST_last:
  assumes "tq_rep q xs"
  shows "TAILQ_LAST q = Some (if xs = [] then None else Some (last xs))"
proof (cases xs rule: rev_cases)
  case Nil
  then show ?thesis using assms by (simp add: TAILQ_LAST_def tq_rep_def tq_behind_def tq_load_def)
next
  case (snoc vs x)
  then have seg: "lseg (tqe_next q) (tqe_prev q) LHead (tqh_first q) (vs @ x # [])" "tqh_last q = LNext x"
    using assms by (simp_all add: tq_rep_def)
  have "tqe_prev q x = last_ref LHead vs" using lseg_append_split [OF seg(1)] by simp
  then show ?thesis using lseg_load_last [OF seg(1)] snoc seg(2) by (simp add: TAILQ_LAST_def tq_behind_def)
qed

text \<open>The element before; for the first element the head is read as an entry, and the answer is null
  only because the pointer behind the last element is.\<close>

lemma TAILQ_PREV_before:
  assumes "tq_rep q (vs @ y # x # ys)"
  shows "TAILQ_PREV x q = Some (Some y)"
proof -
  have seg: "lseg (tqe_next q) (tqe_prev q) LHead (tqh_first q) (vs @ y # x # ys)" using assms by (simp add: tq_rep_def)
  have "tqe_prev q y = last_ref LHead vs" "tqe_prev q x = LNext y"
    using lseg_append_split [OF seg] by simp_all
  then show ?thesis using lseg_load_last [OF seg] by (simp add: TAILQ_PREV_def tq_behind_def)
qed

lemma TAILQ_PREV_first:
  assumes "tq_rep q (x # ys)"
  shows "TAILQ_PREV x q = Some None"
proof -
  obtain us z where xs: "x # ys = us @ [z]" by (metis append_butlast_last_id list.discI)
  have seg: "lseg (tqe_next q) (tqe_prev q) LHead (tqh_first q) (us @ z # [])" "tqh_last q = LNext z" "tqe_prev q x = LHead"
    using assms unfolding xs [symmetric] by (simp_all add: tq_rep_def) (metis last_ref_snoc last_ref.simps(2) xs)
  have "tqe_next q z = None" using lseg_append_split [OF seg(1)] by simp
  then show ?thesis using seg(2,3) by (simp add: TAILQ_PREV_def tq_behind_def tq_load_def)
qed

lemma TAILQ_NEXT_after:
  assumes "tq_rep q (vs @ y # ys)"
  shows "TAILQ_NEXT y q = (case ys of [] \<Rightarrow> None | x # _ \<Rightarrow> Some x)"
proof -
  have seg: "lseg (tqe_next q) (tqe_prev q) LHead (tqh_first q) (vs @ y # ys)" using assms by (simp add: tq_rep_def)
  show ?thesis using lseg_append_split [OF seg] by (cases ys) (simp_all add: TAILQ_NEXT_def)
qed

end
