(* ===== verification/KernOut.thy ===== *)
theory KernOut
  imports Syscall Print
begin

text \<open>
  Messages of the kernel (\<^verbatim>\<open>kern/printk.c\<close>, \<^verbatim>\<open>kern/traps.c\<close>): the formatter with the console as its output. A
  panic is the result \<open>None\<close> of the definitions, so what it prints is not followed.
\<close>

fun outputk :: "u8 list \<Rightarrow> kstate \<Rightarrow> kstate" where
  "outputk [] s = s"
| "outputk (ch # buf) s = outputk buf (printcharc ch s)"

definition printk :: "u8 list \<Rightarrow> va list \<Rightarrow> kstate \<Rightarrow> kstate option" where
  "printk fmt ap s = map_option (\<lambda>out. fold outputk out s) (vprintfmt fmt ap)"

fun print_regs :: "(nat \<Rightarrow> u32) \<Rightarrow> nat list \<Rightarrow> kstate \<Rightarrow> kstate option" where
  "print_regs rs [] s = Some s"
| "print_regs rs (i # is) s =
     Option.bind (printk (map chr ''$%2d = %08x'' @ [10]) [VInt (word_of_nat i), VInt (rs i)] s) (print_regs rs is)"

definition print_tf :: "trapframe \<Rightarrow> kstate \<Rightarrow> kstate option" where
  "print_tf tf s = do {
     s1 \<leftarrow> print_regs (regs tf) [0..<32] s;
     s2 \<leftarrow> printk (map chr ''HI  = %08x'' @ [10]) [VInt (tf_hi tf)] s1;
     s3 \<leftarrow> printk (map chr ''LO  = %08x'' @ [10, 10]) [VInt (tf_lo tf)] s2;
     s4 \<leftarrow> printk (map chr ''CP0.SR    = %08x'' @ [10]) [VInt (cp0_status tf)] s3;
     s5 \<leftarrow> printk (map chr ''CP0.BadV  = %08x'' @ [10]) [VInt (cp0_badvaddr tf)] s4;
     s6 \<leftarrow> printk (map chr ''CP0.Cause = %08x'' @ [10]) [VInt (cp0_cause tf)] s5;
     printk (map chr ''CP0.EPC   = %08x'' @ [10]) [VInt (cp0_epc tf)] s6
   }"

text \<open>The causes of an exception and their handlers, and the table of \<^verbatim>\<open>kern/traps.c\<close>.\<close>

datatype handler = Handle_int | Handle_mod | Handle_tlb | Handle_sys | Handle_reserved

definition exception_handlers :: "nat \<Rightarrow> handler" where
  "exception_handlers = ((\<lambda>_. Handle_reserved)(0 := Handle_int))(2 := Handle_tlb, 3 := Handle_tlb, 1 := Handle_mod, 8 := Handle_sys)"

definition exc_code :: "u32 \<Rightarrow> nat" where
  "exc_code cause = unat (drop_bit 2 cause AND 0x1f)"

text \<open>The only effect of a message is on the console.\<close>

lemma outputk_out: "outputk buf s = s\<lparr>cons_out := cons_out s @ buf\<rparr>"
  by (induction buf arbitrary: s) (simp_all add: printcharc_def)

lemma fold_outputk: "fold outputk out s = s\<lparr>cons_out := cons_out s @ concat out\<rparr>"
  by (induction out arbitrary: s) (simp_all add: outputk_out)

lemma printk_out: "printk fmt ap s = map_option (\<lambda>out. s\<lparr>cons_out := cons_out s @ concat out\<rparr>) (vprintfmt fmt ap)"
  by (simp add: printk_def fold_outputk)

lemma exc_code_less: "exc_code cause < 32"
  using word_and_le1 [of "drop_bit 2 cause" "0x1f"] by (simp add: exc_code_def word_le_nat_alt)

end
