(* ===== verification/Spec2Isabelle.thy ===== *)
theory Spec2Isabelle
  imports FsSystem Ide Pipe ShellRun SpawnShare DebugOut QueueOps KernOut
begin

text \<open>
  A model of MOS, a teaching operating system for the MIPS R3000: an exokernel, a file system
  server and the user library and shell on top, all in C. Paths below are relative to \<^verbatim>\<open>src/\<close>.

  \<^bold>\<open>The system.\<close> The kernel (\<^verbatim>\<open>kern/\<close>) hands out physical pages, keeps one two-level page table and
  one entry of a process table per process, schedules the runnable processes and offers 18 system
  calls: pages can be mapped, shared and unmapped by their owner, processes created, and a word
  with at most one page sent to a process that waits for it. Everything else is user code. \<^verbatim>\<open>fork\<close>
  builds copy-on-write on these calls; descriptors and pipes are shared pages at fixed addresses;
  the file system server (\<^verbatim>\<open>fs/\<close>) answers requests that arrive as messages, keeps the disk in a block
  cache and maps cached blocks into its clients; the shell (\<^verbatim>\<open>user/sh.c\<close>) combines them.
  The disk image is made on the host by \<^verbatim>\<open>tools/fsformat.c\<close>.

  \<^bold>\<open>Conventions.\<close> A machine word is a \<^verbatim>\<open>w word\<close>, with the wrap-around of C. A kernel panic, a failed
  assertion, a null access and, where the source can loop for ever, not returning are the result
  \<open>None\<close>; an error code is the left side of a sum; a theorem that something returns says so by
  \<open>Some\<close>. State is passed explicitly. Definitions have the names of the C functions; loops of a C
  function that are definitions of their own are named after it.

  \<^bold>\<open>The theories\<close>, from the bottom:
  \<^item> Prelude: integer types, error codes, \<^verbatim>\<open>include/mmu.h\<close>; lemmas on words, maps and options.
  \<^item> Queue: \<^verbatim>\<open>include/queue.h\<close> on its link pointers. The locales \<open>intrusive_list\<close> and \<open>intrusive_queue\<close>
    state what the kernel relies on, in terms of HOL lists; they are interpreted on the macros.
    QueueOps has the macros that the kernel does not use.
  \<^item> Pmap, Aspace: \<^verbatim>\<open>kern/pmap.c\<close> on the physical memory \<open>pmem page word\<close>. Aspace has the accounting
    invariant \<open>pm_inv s K ext fl\<close>: \<open>fl\<close> is the free list, \<open>K\<close> the directory entries that the invariant
    covers, every page table belongs to one of them, and the count of a page is the number of its
    mappings plus \<open>ext\<close>. Its abstract view is \<open>vmap\<close>, from directory and address to page table entry;
    the page operations are shown to be updates of that map.
  \<^item> ElfLoad: \<^verbatim>\<open>lib/elfloader.c\<close>, for any callback; its calls as a list, and the image they leave.
  \<^item> Env, EnvSpace, Sched: \<^verbatim>\<open>kern/env.c\<close>, \<^verbatim>\<open>kern/env_asm.S\<close>, \<^verbatim>\<open>kern/sched.c\<close>. \<open>kstate\<close> is the state of the
    whole kernel. EnvSpace proves creation and release of a process on \<open>pm_inv\<close>.
  \<^item> Tlbex, DataPages: \<^verbatim>\<open>kern/tlbex.c\<close>; loads and stores through the page table, and why stores to
    data pages keep the tables.
  \<^item> Syscall, SyscallSpec: \<^verbatim>\<open>kern/syscall_all.c\<close> with its dispatch, and what each call does to \<open>vmap\<close>,
    to the run queue and to the process table.
  \<^item> Fork, UserMem, UserFd: \<^verbatim>\<open>user/lib/fork.c\<close>, \<^verbatim>\<open>fd.c\<close>, \<^verbatim>\<open>pageref.c\<close>, \<^verbatim>\<open>console.c\<close> and the creation of pipes
    in \<^verbatim>\<open>pipe.c\<close>, run by the current process on the system calls of Syscall.
  \<^item> Pipe: the transfer of bytes through \<^verbatim>\<open>user/lib/pipe.c\<close> as a transition system of two processes that
    are preempted between any two statements, for each order in which the compiler may access the buffer
    and store the positions.
  \<^item> CString, Print: \<^verbatim>\<open>lib/string.c\<close> on a memory of bytes, \<^verbatim>\<open>lib/print.c\<close>.
  \<^item> Spawn: \<^verbatim>\<open>user/lib/spawn.c\<close>, \<^verbatim>\<open>ipc.c\<close>, \<^verbatim>\<open>wait.c\<close> and \<^verbatim>\<open>libos.c\<close> on the same calls; the files they read are an
    argument. SpawnSpec has the bytes of a mapped page and the stack that \<^verbatim>\<open>init_stack\<close> builds, SpawnLoad
    that \<^verbatim>\<open>elf_load_seg\<close> with \<^verbatim>\<open>spawn_mapper\<close> leaves the segment in the child or loses short data, SpawnShare that exactly the
    pages marked \<^verbatim>\<open>PTE_LIBRARY\<close> are shared with it.
  \<^item> DebugOut: \<^verbatim>\<open>user/lib/debugf.c\<close>, whose buffer on the stack never overflows and loses nothing, and
    \<^verbatim>\<open>fprintf.c\<close>. KernOut: \<^verbatim>\<open>kern/printk.c\<close> and the table of \<^verbatim>\<open>kern/traps.c\<close>.
  \<^item> FsBlock, FsMount, FsFile, FsServ: \<^verbatim>\<open>fs/fs.c\<close> and \<^verbatim>\<open>fs/serv.c\<close> on the memory, the page table and the
    disk of the server. Ide: \<^verbatim>\<open>fs/ide.c\<close> on the system calls for devices, with the proof that it moves
    blocks as FsBlock takes for granted.
  \<^item> Mkfs: \<^verbatim>\<open>tools/fsformat.c\<close>, and that its image is one FsMount mounts. FsImage follows the blocks of the
    image into the cache of the server, FsRead and FsAnswer the requests for a file of it.
  \<^item> UserFile: \<^verbatim>\<open>user/lib/file.c\<close>, \<^verbatim>\<open>fsipc.c\<close>, \<^verbatim>\<open>fstat\<close> and \<^verbatim>\<open>stat\<close>, for one client next to the server of FsServ, on
    the physical pages that the two share. UserFileSpec and UserFileBytes: opening, reading and
    writing on the bytes of the file; FsSystem: from \<^verbatim>\<open>fsformat\<close> to \<^verbatim>\<open>file_read\<close>.
  \<^item> Shell, ShellRun: \<^verbatim>\<open>user/sh.c\<close>. The locale \<open>token_stream\<close> is the interface between tokenizer and
    parser; it is interpreted on \<^verbatim>\<open>gettoken\<close>.

  \<^bold>\<open>What is shown.\<close> For each component: an invariant that its operations establish and keep, their
  results on every branch, and where there is one its agreement with a simpler definition: lists for
  the queues, \<open>vmap\<close> for page tables, lists of path elements for \<^verbatim>\<open>walk_path\<close>, lists of tokens for the
  shell, block transfers for the disk driver, and, for the one order of accesses that gives it, a byte
  queue for pipes. Faults of the code that
  modelling showed are stated as theorems or lemmas too, for instance \<open>pipe_early_eof\<close>,
  \<open>sys_mem_alloc_outcomes\<close> (a page is lost), \<open>elf_load_seg_loses_short_data\<close> and \<open>unopened_id_faults\<close>.

  \<^bold>\<open>Bounds.\<close> No definition takes fuel. The loops that end by an argument on their state are \<^verbatim>\<open>function\<close>s
  with a measure, the others \<^verbatim>\<open>partial_function (option)\<close>, and their theorems show that they return.

  \<^bold>\<open>Not modelled.\<close> The assembly entry points and the clock: register saving without data of
  its own. \<^verbatim>\<open>user/lib/entry.S\<close>, \<^verbatim>\<open>libmain\<close> and the wrappers of the system calls: they pass registers on. The
  message of \<^verbatim>\<open>panic\<close>, which ends the system. The host
  tools \<^verbatim>\<open>bintoc\<close> and \<^verbatim>\<open>readelf\<close>. The user programs and tests, which only call what is modelled. The two models of
  user memory are not joined: the client of the file server has pages of bytes in UserFile, and
  page tables of the kernel model elsewhere, so the files \<^verbatim>\<open>spawn\<close> reads are an argument. An id of the server that a
  client reads as a negative number: \<^verbatim>\<open>fsipc\<close> stops there. Caches of the processor other than the TLB,
  and real time.
\<close>

end
